(* ===== verification/Prelude.thy ===== *)
theory Prelude
  imports Main "HOL-Library.Word"
begin

unbundle bit_operations_syntax

text \<open>
  Shared material of the development: names for the machine types of the Rust sources, the
  integer operations of the standard library whose behaviour at the end of the range matters
  (saturating, checked and truncating ones), big- and little-endian byte strings, \<open>chunks_exact\<close>,
  \<open>Result\<close> as a sum with its \<open>?\<close> operator, Rust strings as lists of Unicode scalar values, and
  the list lemmas that several components use.

  Unsigned integers are modelled by \<^typ>\<open>nat\<close> with the range written out at every operation of
  the sources that can reach its end; single bytes, on which the sources work bitwise, are
  \<^typ>\<open>8 word\<close>. \<open>usize\<close> has 64 bits. An \<open>Instant\<close> is the number of nanoseconds since some
  origin; \<open>Instant::duration_since\<close> saturates at zero, which is the subtraction of \<^typ>\<open>nat\<close>.
\<close>

named_theorems bf_simps \<open>how the operations of a bitfield act on its set of pieces\<close>
named_theorems mgr_simps \<open>definitions of the operations of the piece manager\<close>
named_theorems codec_simps \<open>lengths and round trips of fixed-width encodings\<close>

section \<open>Machine types\<close>

type_synonym byte = "8 word"
type_synonym bytes = "byte list"
type_synonym instant = nat
type_synonym duration = nat

definition U16_MAX :: nat where "U16_MAX = 2 ^ 16 - 1"
definition U32_MAX :: nat where "U32_MAX = 2 ^ 32 - 1"
definition U64_MAX :: nat where "U64_MAX = 2 ^ 64 - 1"

text \<open>\<open>secs n\<close> is \<open>Duration::from_secs(n)\<close>, \<open>millis n\<close> is \<open>Duration::from_millis(n)\<close>.\<close>

definition secs :: "nat \<Rightarrow> duration" where "secs n = n * 1000000000"
definition millis :: "nat \<Rightarrow> duration" where "millis n = n * 1000000"

text \<open>\<open>x as u32\<close> on a wider unsigned value keeps the low 32 bits.\<close>

definition as_u32 :: "nat \<Rightarrow> nat" where "as_u32 n = n mod 2 ^ 32"

lemma as_u32_small [simp]: "n < 2 ^ 32 \<Longrightarrow> as_u32 n = n"
  by (simp add: as_u32_def)

definition saturating_add :: "nat \<Rightarrow> nat \<Rightarrow> nat \<Rightarrow> nat" where
  "saturating_add lim a b = min lim (a + b)"

lemma saturating_add_exact [simp]: "a + b \<le> lim \<Longrightarrow> saturating_add lim a b = a + b"
  by (simp add: saturating_add_def)

definition saturating_mul :: "nat \<Rightarrow> nat \<Rightarrow> nat \<Rightarrow> nat" where
  "saturating_mul lim a b = min lim (a * b)"

definition checked_add_u64 :: "nat \<Rightarrow> nat \<Rightarrow> nat option" where
  "checked_add_u64 a b = (if a + b \<le> U64_MAX then Some (a + b) else None)"

definition checked_mul_u64 :: "nat \<Rightarrow> nat \<Rightarrow> nat option" where
  "checked_mul_u64 a b = (if a * b \<le> U64_MAX then Some (a * b) else None)"

text \<open>\<open>a + b\<close> on \<open>u64\<close> values, as a release build computes it.\<close>

definition add_u64 :: "nat \<Rightarrow> nat \<Rightarrow> nat" where "add_u64 a b = (a + b) mod 2 ^ 64"

lemma add_u64_exact [simp]: "a + b < 2 ^ 64 \<Longrightarrow> add_u64 a b = a + b"
  by (simp add: add_u64_def)

definition div_ceil :: "nat \<Rightarrow> nat \<Rightarrow> nat" where
  "div_ceil a b = a div b + (if a mod b = 0 then 0 else 1)"

lemma div_ceil_0 [simp]: "div_ceil 0 b = 0"
  by (simp add: div_ceil_def)

lemma div_ceil_le_iff:
  assumes "0 < b"
  shows "div_ceil a b \<le> k \<longleftrightarrow> a \<le> k * b"
proof -
  have a: "a = a div b * b + a mod b" by simp
  have lt: "a mod b < b" using assms by simp
  show ?thesis
  proof (cases "a mod b = 0")
    case True
    then have "a = a div b * b" using a by simp
    then show ?thesis using assms True unfolding div_ceil_def
      by (metis add.right_neutral mult_le_cancel2)
  next
    case False
    have "a \<le> k * b \<longleftrightarrow> a div b < k"
    proof
      assume "a \<le> k * b"
      show "a div b < k"
      proof (rule ccontr)
        assume "\<not> a div b < k"
        then have "k * b \<le> a div b * b" by simp
        then have "k * b + a mod b \<le> a" using a by linarith
        with \<open>a \<le> k * b\<close> False show False by simp
      qed
    next
      assume "a div b < k"
      then have "(a div b + 1) * b \<le> k * b" by (intro mult_le_mono1) simp
      then have "a div b * b + b \<le> k * b" by simp
      then show "a \<le> k * b" using a lt by linarith
    qed
    then show ?thesis using False by (auto simp: div_ceil_def)
  qed
qed

lemma less_div_ceil_iff: "0 < b \<Longrightarrow> k < div_ceil a b \<longleftrightarrow> k * b < a"
  using div_ceil_le_iff [of b a k] by linarith

lemma div_ceil_mult_le: "0 < b \<Longrightarrow> div_ceil a b * b < a + b"
  using less_div_ceil_iff [of b "div_ceil a b - 1" a]
  by (cases "div_ceil a b") auto

lemma sum_min_pieces: "(\<Sum>i < n. min pl (t - i * pl)) = min t (n * pl)" for pl t n :: nat
proof (induction n)
  case 0
  then show ?case by simp
next
  case (Suc n)
  have "min t (n * pl) + min pl (t - n * pl) = min t (Suc n * pl)" by auto
  with Suc show ?case by simp
qed

section \<open>Results\<close>

text \<open>
  \<open>Result<T, E>\<close> is \<open>'e + 't\<close>, with \<^const>\<open>Inl\<close> for \<open>Err\<close>; \<open>bind_result r f\<close> is
  \<open>f(r?)\<close>.
\<close>

fun bind_result :: "'e + 'a \<Rightarrow> ('a \<Rightarrow> 'e + 'b) \<Rightarrow> 'e + 'b" where
  "bind_result (Inl e) f = Inl e"
| "bind_result (Inr x) f = f x"

lemma bind_result_Inr_iff [simp]:
  "bind_result r f = Inr y \<longleftrightarrow> (\<exists>x. r = Inr x \<and> f x = Inr y)"
  by (cases r) auto

definition ok_or :: "'a option \<Rightarrow> 'e \<Rightarrow> 'e + 'a" where
  "ok_or x e = (case x of None \<Rightarrow> Inl e | Some v \<Rightarrow> Inr v)"

lemma ok_or_Inr_iff [simp]: "ok_or x e = Inr v \<longleftrightarrow> x = Some v"
  by (cases x) (auto simp: ok_or_def)

definition is_ok :: "'e + 'a \<Rightarrow> bool" where
  "is_ok r = (case r of Inl _ \<Rightarrow> False | Inr _ \<Rightarrow> True)"

lemma is_ok_simps [simp]: "is_ok (Inr x)" "\<not> is_ok (Inl e)"
  by (simp_all add: is_ok_def)

lemma is_ok_iff: "is_ok r \<longleftrightarrow> (\<exists>x. r = Inr x)"
  by (cases r) auto

section \<open>Rust strings\<close>

text \<open>
  A \<open>String\<close> is the list of its Unicode scalar values; \<open>lit\<close> turns an ASCII literal into one and
  \<open>utf8_len\<close> is \<open>str::len\<close>, which counts UTF-8 bytes.
\<close>

type_synonym rstring = "nat list"

definition lit :: "string \<Rightarrow> rstring" where
  "lit s = map of_char s"

definition utf8_len1 :: "nat \<Rightarrow> nat" where
  "utf8_len1 c = (if c < 128 then 1 else if c < 2048 then 2 else if c < 65536 then 3 else 4)"

definition utf8_len :: "rstring \<Rightarrow> nat" where
  "utf8_len s = sum_list (map utf8_len1 s)"

definition starts_with :: "'a list \<Rightarrow> 'a list \<Rightarrow> bool" where
  "starts_with s p \<longleftrightarrow> take (length p) s = p"

lemma starts_with_append [simp]: "starts_with (p @ s) p"
  by (simp add: starts_with_def)

section \<open>Lists\<close>

text \<open>\<open>slice i j xs\<close> is \<open>&xs[i..j]\<close> (for \<open>i \<le> j \<le> len\<close>, where the source does not panic).\<close>

definition slice :: "nat \<Rightarrow> nat \<Rightarrow> 'a list \<Rightarrow> 'a list" where
  "slice i j xs = take (j - i) (drop i xs)"

lemma length_slice [simp]: "length (slice i j xs) = min (j - i) (length xs - i)"
  by (simp add: slice_def min.commute)

lemma slice_append_mid: "slice (length a) (length a + length b) (a @ b @ c) = b"
  by (simp add: slice_def)

lemma nth_slice: "k < j - i \<Longrightarrow> i + k < length xs \<Longrightarrow> slice i j xs ! k = xs ! (i + k)"
  by (simp add: slice_def)

text \<open>\<open>splice i d xs\<close> is \<open>xs[i..i + d.len()].copy_from_slice(d)\<close>.\<close>

definition splice :: "nat \<Rightarrow> 'a list \<Rightarrow> 'a list \<Rightarrow> 'a list" where
  "splice i d xs = take i xs @ d @ drop (i + length d) xs"

lemma length_splice [simp]:
  "i + length d \<le> length xs \<Longrightarrow> length (splice i d xs) = length xs"
  by (simp add: splice_def)

lemma nth_splice:
  assumes "i + length d \<le> length xs" "k < length xs"
  shows "splice i d xs ! k = (if i \<le> k \<and> k < i + length d then d ! (k - i) else xs ! k)"
  using assms by (auto simp: splice_def nth_append min_def)

lemma splice_all: "length d = length xs \<Longrightarrow> splice 0 d xs = d"
  by (simp add: splice_def)

lemma slice_splice_same:
  "i + length d \<le> length xs \<Longrightarrow> slice i (i + length d) (splice i d xs) = d"
  by (rule nth_equalityI) (auto simp: nth_slice nth_splice)

lemma slice_splice_disjoint:
  assumes "i + length d \<le> length xs" "b \<le> length xs" "b \<le> i \<or> i + length d \<le> a"
  shows "slice a b (splice i d xs) = slice a b xs"
  using assms by (intro nth_equalityI) (auto simp: nth_slice nth_splice)

lemma slice_all [simp]: "slice 0 (length xs) xs = xs"
  by (simp add: slice_def)

lemma slice_append_slice: "i \<le> j \<Longrightarrow> j \<le> k \<Longrightarrow> slice i j xs @ slice j k xs = slice i k xs"
proof -
  assume "i \<le> j" "j \<le> k"
  then obtain a b where "j = i + a" "k = i + a + b" by (metis le_iff_add)
  then show ?thesis by (simp add: slice_def take_add drop_drop add.commute)
qed

lemma take_splice: "i \<le> length xs \<Longrightarrow> take (i + length d) (splice i d xs) = take i xs @ d"
  by (simp add: splice_def)

text \<open>\<open>position p xs\<close> is \<open>xs.iter().position(p)\<close>.\<close>

fun position :: "('a \<Rightarrow> bool) \<Rightarrow> 'a list \<Rightarrow> nat option" where
  "position p [] = None"
| "position p (x # xs) = (if p x then Some 0 else map_option Suc (position p xs))"

lemma position_SomeD: "position p xs = Some i \<Longrightarrow> i < length xs \<and> p (xs ! i)"
  by (induction xs arbitrary: i) (auto split: if_splits)

lemma position_None_iff: "position p xs = None \<longleftrightarrow> (\<forall>x \<in> set xs. \<not> p x)"
  by (induction xs) auto

lemma position_Some_iff:
  "position p xs = Some i \<longleftrightarrow> i < length xs \<and> p (xs ! i) \<and> (\<forall>j < i. \<not> p (xs ! j))"
proof (induction xs arbitrary: i)
  case Nil
  then show ?case by simp
next
  case (Cons x xs)
  then show ?case by (cases i) (auto simp: All_less_Suc2)
qed

definition remove_nth :: "nat \<Rightarrow> 'a list \<Rightarrow> 'a list" where
  "remove_nth i xs = take i xs @ drop (Suc i) xs"

lemma set_remove_nth_distinct:
  assumes "distinct xs" "i < length xs"
  shows "set (remove_nth i xs) = set xs - {xs ! i}" "distinct (remove_nth i xs)"
proof -
  have e: "xs = take i xs @ xs ! i # drop (Suc i) xs"
    using assms(2) by (rule id_take_nth_drop)
  have d: "distinct (take i xs @ xs ! i # drop (Suc i) xs)"
    using assms(1) by (simp add: id_take_nth_drop [OF assms(2), symmetric])
  have s: "set xs = insert (xs ! i) (set (remove_nth i xs))"
    unfolding remove_nth_def by (subst e) auto
  show "set (remove_nth i xs) = set xs - {xs ! i}"
    using d s by (auto simp: remove_nth_def)
  show "distinct (remove_nth i xs)"
    using d by (simp add: remove_nth_def)
qed

lemma length_remove_nth [simp]: "i < length xs \<Longrightarrow> length (remove_nth i xs) = length xs - 1"
  by (simp add: remove_nth_def)

lemma set_remove_nth_subset: "set (remove_nth i xs) \<subseteq> set xs"
  by (auto simp: remove_nth_def dest: in_set_takeD in_set_dropD)

text \<open>\<open>xs.chunks_exact(n)\<close> for \<open>0 < n\<close>: the trailing elements that do not fill a chunk are dropped.\<close>

function chunks_exact :: "nat \<Rightarrow> 'a list \<Rightarrow> 'a list list" where
  "chunks_exact n xs =
     (if n = 0 \<or> length xs < n then [] else take n xs # chunks_exact n (drop n xs))"
  by pat_completeness auto
termination
  by (relation "measure (\<lambda>(n, xs). length xs)") auto

declare chunks_exact.simps [simp del]

lemma chunks_exact_short: "length xs < n \<Longrightarrow> chunks_exact n xs = []"
  by (simp add: chunks_exact.simps)

lemma chunks_exact_append:
  "0 < n \<Longrightarrow> length c = n \<Longrightarrow> chunks_exact n (c @ xs) = c # chunks_exact n xs"
  by (subst chunks_exact.simps) simp

lemma chunks_exact_length: "c \<in> set (chunks_exact n xs) \<Longrightarrow> length c = n"
proof (induction n xs rule: chunks_exact.induct)
  case (1 n xs)
  then show ?case
    by (cases "n = 0 \<or> length xs < n") (auto simp: chunks_exact.simps [of n xs])
qed

lemma length_chunks_exact: "0 < n \<Longrightarrow> length (chunks_exact n xs) = length xs div n"
proof (induction n xs rule: chunks_exact.induct)
  case (1 n xs)
  show ?case
  proof (cases "length xs < n")
    case True
    then show ?thesis by (simp add: chunks_exact_short)
  next
    case False
    with "1.IH" "1.prems" have "length (chunks_exact n (drop n xs)) = (length xs - n) div n"
      by simp
    with False "1.prems" show ?thesis
      by (subst chunks_exact.simps) (simp add: le_div_geq)
  qed
qed

lemma concat_chunks_exact: "0 < n \<Longrightarrow> n dvd length xs \<Longrightarrow> concat (chunks_exact n xs) = xs"
proof (induction n xs rule: chunks_exact.induct)
  case (1 n xs)
  show ?case
  proof (cases "length xs < n")
    case True
    with "1.prems" have "xs = []" by (auto dest: dvd_imp_le)
    with True show ?thesis by (simp add: chunks_exact_short)
  next
    case False
    with "1.prems" have "n dvd length (drop n xs)" by (simp add: dvd_diff_nat)
    with False "1.IH" "1.prems" have "concat (chunks_exact n (drop n xs)) = drop n xs" by simp
    with False "1.prems" show ?thesis by (subst chunks_exact.simps) simp
  qed
qed

section \<open>Byte strings of integers\<close>

text \<open>
  \<open>be_bytes k n\<close> is \<open>n.to_be_bytes()\<close> for a \<open>k\<close>-byte integer, \<open>be_val\<close> is \<open>from_be_bytes\<close>;
  the little-endian forms are their reversals.
\<close>

primrec be_bytes :: "nat \<Rightarrow> nat \<Rightarrow> bytes" where
  "be_bytes 0 n = []"
| "be_bytes (Suc k) n = be_bytes k (n div 256) @ [word_of_nat (n mod 256)]"

definition be_val :: "bytes \<Rightarrow> nat" where
  "be_val bs = foldl (\<lambda>acc b. acc * 256 + unat b) 0 bs"

definition le_bytes :: "nat \<Rightarrow> nat \<Rightarrow> bytes" where
  "le_bytes k n = rev (be_bytes k n)"

definition le_val :: "bytes \<Rightarrow> nat" where
  "le_val bs = be_val (rev bs)"

lemma length_be_bytes [simp]: "length (be_bytes k n) = k"
  by (induction k arbitrary: n) auto

lemma length_le_bytes [simp]: "length (le_bytes k n) = k"
  by (simp add: le_bytes_def)

lemma be_val_Nil [simp]: "be_val [] = 0"
  by (simp add: be_val_def)

lemma be_val_snoc [simp]: "be_val (bs @ [b]) = be_val bs * 256 + unat b"
  by (simp add: be_val_def)

lemma unat_byte_less [simp]: "unat (b :: byte) < 256"
  using unsigned_less [of b, where 'a = nat] by simp

lemma be_val_be_bytes: "n < 256 ^ k \<Longrightarrow> be_val (be_bytes k n) = n"
proof (induction k arbitrary: n)
  case 0
  then show ?case by simp
next
  case (Suc k)
  then have "n div 256 < 256 ^ k" by (simp add: less_mult_imp_div_less mult.commute)
  then have "be_val (be_bytes k (n div 256)) = n div 256" by (rule Suc.IH)
  moreover have "unat (word_of_nat (n mod 256) :: byte) = n mod 256"
    by (simp add: unat_of_nat)
  ultimately show ?case by simp
qed

lemma be_val_less: "be_val bs < 256 ^ length bs"
proof (induction bs rule: rev_induct)
  case Nil
  then show ?case by simp
next
  case (snoc b bs)
  have "be_val bs * 256 + unat b < (be_val bs + 1) * 256" by simp
  also have "\<dots> \<le> 256 ^ length bs * 256" using snoc by (intro mult_le_mono1) simp
  finally show ?case by simp
qed

lemma be_bytes_be_val: "be_bytes (length bs) (be_val bs) = bs"
  by (induction bs rule: rev_induct) (simp_all add: unat_of_nat)

lemma le_val_le_bytes: "n < 256 ^ k \<Longrightarrow> le_val (le_bytes k n) = n"
  by (simp add: le_val_def le_bytes_def be_val_be_bytes)

section \<open>Fixed-width codecs\<close>

text \<open>
  Several formats of the program are runs of records of one width: piece hashes, compact peer and
  node lists. What all of them need is stated once: an encoder whose output always has the width
  \<open>w\<close> and a decoder that inverts it on one record. Decoding the concatenation of the encodings
  chunk by chunk then returns the records, and a trailing partial record changes nothing.
\<close>

locale fixed_width_codec =
  fixes w :: nat
    and valid :: "'a \<Rightarrow> bool"
    and enc :: "'a \<Rightarrow> bytes"
    and dec :: "bytes \<Rightarrow> 'a"
  assumes width_pos: "0 < w"
    and enc_length: "valid x \<Longrightarrow> length (enc x) = w"
    and dec_enc: "valid x \<Longrightarrow> dec (enc x) = x"
begin

lemma chunks_enc:
  "list_all valid xs \<Longrightarrow> length junk < w \<Longrightarrow>
     map dec (chunks_exact w (concat (map enc xs) @ junk)) = xs"
  by (induction xs)
     (simp_all add: width_pos chunks_exact_append chunks_exact_short enc_length dec_enc)

lemma length_concat_enc: "list_all valid xs \<Longrightarrow> length (concat (map enc xs)) = w * length xs"
  by (induction xs) (simp_all add: enc_length)

end

end
