(* ===== verification/Bitfield.thy ===== *)
theory Bitfield
  imports Prelude
begin

unbundle bit_operations_syntax

text \<open>
  The piece set of \<open>core/bitfield.rs\<close>, in wire order: bit 7 of the first byte is piece 0. The
  bytes and the operations on them are those of the source; \<open>bf_wf\<close> is the invariant of the type
  (the right number of bytes, spare bits clear), \<open>pieces\<close> the set a bitfield stands for. The locale
  \<open>piece_set\<close> states what the other components use of a bitfield.
\<close>

section \<open>The type and its operations\<close>

record bitfield =
  bf_bytes :: bytes
  bf_len :: nat

definition bf_new :: "nat \<Rightarrow> bitfield" where
  "bf_new len = \<lparr>bf_bytes = replicate (div_ceil len 8) 0, bf_len = len\<rparr>"

text \<open>The mask \<open>0x80 >> (index % 8)\<close> that \<open>has\<close> and \<open>set\<close> use.\<close>

definition bit_mask :: "nat \<Rightarrow> byte" where
  "bit_mask index = drop_bit (index mod 8) 0x80"

definition bf_has :: "bitfield \<Rightarrow> nat \<Rightarrow> bool" where
  "bf_has b index \<longleftrightarrow>
     index < bf_len b \<and> (bf_bytes b ! (index div 8)) AND bit_mask index \<noteq> 0"

text \<open>\<open>set\<close> returns whether the index was in range, and the updated field.\<close>

definition bf_set :: "nat \<Rightarrow> bitfield \<Rightarrow> bool \<times> bitfield" where
  "bf_set index b =
     (if index \<ge> bf_len b then (False, b)
      else (True, b\<lparr>bf_bytes :=
        (bf_bytes b)[index div 8 := (bf_bytes b ! (index div 8)) OR bit_mask index]\<rparr>))"

definition bf_from_indices :: "nat \<Rightarrow> nat list \<Rightarrow> bitfield" where
  "bf_from_indices len indices = fold (\<lambda>i b. snd (bf_set i b)) indices (bf_new len)"

definition bf_full :: "nat \<Rightarrow> bitfield" where
  "bf_full len = bf_from_indices len [0..<as_u32 len]"

definition bf_from_wire :: "nat \<Rightarrow> bytes \<Rightarrow> bitfield option" where
  "bf_from_wire len payload =
     (if length payload \<noteq> div_ceil len 8 then None
      else let spare = length payload * 8 - len in
        if spare > 0 \<and> (last payload) AND (push_bit spare 1 - 1) \<noteq> 0 then None
        else Some \<lparr>bf_bytes = payload, bf_len = len\<rparr>)"

definition count_ones :: "byte \<Rightarrow> nat" where
  "count_ones w = length (filter (bit w) [0..<8])"

definition bf_count :: "bitfield \<Rightarrow> nat" where
  "bf_count b = sum_list (map count_ones (bf_bytes b))"

definition bf_iter_ones :: "bitfield \<Rightarrow> nat list" where
  "bf_iter_ones b = filter (bf_has b) [0..<bf_len b]"

section \<open>Bits of a byte string\<close>

definition raw_bit :: "bytes \<Rightarrow> nat \<Rightarrow> bool" where
  "raw_bit bs i \<longleftrightarrow> bit (bs ! (i div 8)) (7 - i mod 8)"

lemma bit_mask_exp: "bit_mask i = 2 ^ (7 - i mod 8)"
proof -
  have "i mod 8 < 8" by simp
  then consider "i mod 8 = 0" | "i mod 8 = 1" | "i mod 8 = 2" | "i mod 8 = 3"
    | "i mod 8 = 4" | "i mod 8 = 5" | "i mod 8 = 6" | "i mod 8 = 7" by linarith
  then show ?thesis by cases (simp_all add: bit_mask_def)
qed

lemma and_bit_mask: "(w AND bit_mask i \<noteq> 0) = bit w (7 - i mod 8)"
  by (simp add: bit_mask_exp and_exp_eq_0_iff_not_bit)

lemma bit_or_bit_mask: "bit (w OR bit_mask i) k = (bit w k \<or> k = 7 - i mod 8)"
  by (auto simp: bit_mask_exp bit_or_iff bit_exp_iff)

lemma bf_has_raw: "bf_has b i \<longleftrightarrow> i < bf_len b \<and> raw_bit (bf_bytes b) i"
  by (simp add: bf_has_def raw_bit_def and_bit_mask)

lemma bit_byteD: "bit (w :: byte) k \<Longrightarrow> k < 8"
  by (drule bit_imp_le_length) simp

lemma raw_bit_update:
  assumes "i div 8 < length bs"
  shows "raw_bit (bs[i div 8 := (bs ! (i div 8)) OR bit_mask i]) j \<longleftrightarrow> raw_bit bs j \<or> j = i"
proof (cases "j div 8 = i div 8")
  case True
  have "j mod 8 < 8" "i mod 8 < 8" by simp_all
  then have "7 - j mod 8 = 7 - i mod 8 \<longleftrightarrow> j mod 8 = i mod 8" by arith
  moreover have "j mod 8 = i mod 8 \<longleftrightarrow> j = i"
    using True by (metis div_mult_mod_eq)
  ultimately show ?thesis
    using assms True by (auto simp: raw_bit_def bit_or_bit_mask)
next
  case False
  then show ?thesis using assms by (auto simp: raw_bit_def nth_list_update)
qed

lemma raw_bit_at: "n < 8 \<Longrightarrow> raw_bit bs (8 * k + (7 - n)) = bit (bs ! k) n"
proof -
  assume "n < 8"
  define m where "m = 7 - n"
  have "m < 8" "7 - m = n" using \<open>n < 8\<close> by (auto simp: m_def)
  then have "raw_bit bs (8 * k + m) = bit (bs ! k) n" by (simp add: raw_bit_def)
  then show ?thesis by (simp only: m_def)
qed

lemma bytes_eq_iff_raw_bit:
  assumes "length bs = length cs"
  shows "bs = cs \<longleftrightarrow> (\<forall>i < 8 * length bs. raw_bit bs i = raw_bit cs i)"
proof
  assume r: "\<forall>i < 8 * length bs. raw_bit bs i = raw_bit cs i"
  have len8: "LENGTH(8) = 8" by simp
  show "bs = cs"
  proof (rule nth_equalityI [OF assms], rule bit_word_eqI)
    fix k n assume k: "k < length bs" and n: "n < LENGTH(8)"
    have "8 * k + (7 - n) < 8 * length bs" using k n by simp
    with r have "raw_bit bs (8 * k + (7 - n)) = raw_bit cs (8 * k + (7 - n))" by blast
    with n show "bit (bs ! k) n = bit (cs ! k) n" by (simp only: raw_bit_at len8)
  qed
qed simp

section \<open>Invariant and abstraction\<close>

definition bf_wf :: "bitfield \<Rightarrow> bool" where
  "bf_wf b \<longleftrightarrow> length (bf_bytes b) = div_ceil (bf_len b) 8 \<and>
     (\<forall>i < 8 * length (bf_bytes b). bf_len b \<le> i \<longrightarrow> \<not> raw_bit (bf_bytes b) i)"

definition pieces :: "bitfield \<Rightarrow> nat set" where
  "pieces b = {i. bf_has b i}"

lemma in_pieces [simp]: "i \<in> pieces b \<longleftrightarrow> bf_has b i"
  by (simp add: pieces_def)

lemma bf_has_less: "bf_has b i \<Longrightarrow> i < bf_len b"
  by (simp add: bf_has_def)

lemma pieces_subset: "pieces b \<subseteq> {..<bf_len b}"
  by (auto dest: bf_has_less)

lemma finite_pieces [simp]: "finite (pieces b)"
  by (rule finite_subset [OF pieces_subset]) simp

lemma div8_less_div_ceil: "i < len \<Longrightarrow> i div 8 < div_ceil len 8"
  by (simp add: less_div_ceil_iff)

lemma len_le_8_div_ceil: "len \<le> 8 * div_ceil len 8"
  using div_ceil_le_iff [of 8 len "div_ceil len 8"] by simp

lemma bf_new_wf: "bf_wf (bf_new len)"
  by (auto simp: bf_wf_def bf_new_def raw_bit_def)

lemma bf_has_new [bf_simps, simp]: "\<not> bf_has (bf_new len) i"
  by (auto simp: bf_has_def bf_new_def dest: div8_less_div_ceil)

lemma bf_len_new [bf_simps, simp]: "bf_len (bf_new len) = len"
  by (simp add: bf_new_def)

lemma bf_len_set [bf_simps, simp]: "bf_len (snd (bf_set i b)) = bf_len b"
  by (simp add: bf_set_def)

lemma fst_bf_set [bf_simps, simp]: "fst (bf_set i b) = (i < bf_len b)"
  by (auto simp: bf_set_def)

lemma bf_has_set [bf_simps]:
  assumes "bf_wf b"
  shows "bf_has (snd (bf_set i b)) j \<longleftrightarrow> bf_has b j \<or> (j = i \<and> i < bf_len b)"
proof (cases "i < bf_len b")
  case True
  with assms have "i div 8 < length (bf_bytes b)"
    by (simp add: bf_wf_def div8_less_div_ceil)
  with True show ?thesis by (auto simp: bf_has_raw bf_set_def raw_bit_update)
next
  case False
  then show ?thesis by (simp add: bf_set_def)
qed

lemma bf_set_wf:
  assumes "bf_wf b"
  shows "bf_wf (snd (bf_set i b))"
proof (cases "i < bf_len b")
  case True
  with assms have "i div 8 < length (bf_bytes b)"
    by (simp add: bf_wf_def div8_less_div_ceil)
  with True assms show ?thesis by (auto simp: bf_wf_def bf_set_def raw_bit_update)
next
  case False
  with assms show ?thesis by (simp add: bf_set_def)
qed

text \<open>Two well-formed bitfields of one length that stand for the same set are equal.\<close>

lemma bf_eqI:
  assumes "bf_wf b" "bf_wf c" "bf_len b = bf_len c" "pieces b = pieces c"
  shows "b = c"
proof -
  have len: "length (bf_bytes b) = length (bf_bytes c)"
    using assms by (simp add: bf_wf_def)
  have "\<forall>i < 8 * length (bf_bytes b). raw_bit (bf_bytes b) i = raw_bit (bf_bytes c) i"
  proof (intro allI impI)
    fix i assume i: "i < 8 * length (bf_bytes b)"
    show "raw_bit (bf_bytes b) i = raw_bit (bf_bytes c) i"
    proof (cases "i < bf_len b")
      case True
      from assms(4) have "bf_has b i = bf_has c i" by (auto simp: set_eq_iff)
      with True assms(3) show ?thesis by (simp add: bf_has_raw)
    next
      case False
      with i assms len show ?thesis by (auto simp: bf_wf_def)
    qed
  qed
  then have "bf_bytes b = bf_bytes c" by (simp add: bytes_eq_iff_raw_bit [OF len])
  with assms(3) show ?thesis by simp
qed

section \<open>What the other components use\<close>

text \<open>
  The interface of a piece set: which indices \<open>has\<close> reports after \<open>new\<close> and \<open>set\<close>. Everything
  the callers do is a run of \<open>set\<close> calls, whose effect is proved once here.
\<close>

locale piece_set =
  fixes invar :: "'b \<Rightarrow> bool"
    and new :: "nat \<Rightarrow> 'b"
    and len :: "'b \<Rightarrow> nat"
    and has :: "'b \<Rightarrow> nat \<Rightarrow> bool"
    and put :: "nat \<Rightarrow> 'b \<Rightarrow> bool \<times> 'b"
  assumes invar_new: "invar (new n)"
    and len_new: "len (new n) = n"
    and has_new: "\<not> has (new n) i"
    and invar_put: "invar b \<Longrightarrow> invar (snd (put i b))"
    and len_put: "len (snd (put i b)) = len b"
    and ok_put: "fst (put i b) = (i < len b)"
    and has_put: "invar b \<Longrightarrow> has (snd (put i b)) j \<longleftrightarrow> has b j \<or> (j = i \<and> i < len b)"
begin

lemma fold_put:
  assumes "invar b"
  shows "invar (fold (\<lambda>i b. snd (put i b)) is b)"
    and "len (fold (\<lambda>i b. snd (put i b)) is b) = len b"
    and "has (fold (\<lambda>i b. snd (put i b)) is b) j \<longleftrightarrow> has b j \<or> (j \<in> set is \<and> j < len b)"
proof -
  have "invar (fold (\<lambda>i b. snd (put i b)) is b)
    \<and> len (fold (\<lambda>i b. snd (put i b)) is b) = len b
    \<and> (has (fold (\<lambda>i b. snd (put i b)) is b) j \<longleftrightarrow> has b j \<or> (j \<in> set is \<and> j < len b))"
    using assms by (induction "is" arbitrary: b) (auto simp: invar_put len_put has_put)
  then show "invar (fold (\<lambda>i b. snd (put i b)) is b)"
    and "len (fold (\<lambda>i b. snd (put i b)) is b) = len b"
    and "has (fold (\<lambda>i b. snd (put i b)) is b) j \<longleftrightarrow> has b j \<or> (j \<in> set is \<and> j < len b)"
    by blast+
qed

lemma fold_put_new:
  "has (fold (\<lambda>i b. snd (put i b)) is (new n)) j \<longleftrightarrow> j \<in> set is \<and> j < n"
  by (simp add: fold_put(3) [OF invar_new] has_new len_new)

end

interpretation bf: piece_set bf_wf bf_new bf_len bf_has bf_set
  by unfold_locales (simp_all add: bf_new_wf bf_set_wf bf_has_set)

lemma bf_from_indices_wf: "bf_wf (bf_from_indices len is)"
  unfolding bf_from_indices_def by (rule bf.fold_put(1)) (rule bf_new_wf)

lemma bf_len_from_indices [bf_simps, simp]: "bf_len (bf_from_indices len is) = len"
  unfolding bf_from_indices_def by (simp add: bf.fold_put(2) bf_new_wf)

lemma bf_has_from_indices [bf_simps, simp]:
  "bf_has (bf_from_indices len is) j \<longleftrightarrow> j \<in> set is \<and> j < len"
  unfolding bf_from_indices_def by (rule bf.fold_put_new)

lemma pieces_from_indices: "pieces (bf_from_indices len is) = set is \<inter> {..<len}"
  by auto

lemma set_bf_iter_ones [bf_simps, simp]: "set (bf_iter_ones b) = pieces b"
  by (auto simp: bf_iter_ones_def dest: bf_has_less)

lemma bf_iter_ones_distinct: "distinct (bf_iter_ones b)" "sorted (bf_iter_ones b)"
  by (simp_all add: bf_iter_ones_def sorted_wrt_filter)

lemma bf_full_has: "len < 2 ^ 32 \<Longrightarrow> bf_has (bf_full len) i \<longleftrightarrow> i < len"
  by (auto simp: bf_full_def)

lemma bf_len_full [bf_simps, simp]: "bf_len (bf_full len) = len"
  by (simp add: bf_full_def)

lemma bf_full_wf: "bf_wf (bf_full len)"
  by (simp add: bf_full_def bf_from_indices_wf)

section \<open>Counting\<close>

lemma raw_bit_Cons:
  "raw_bit (w # ws) i = (if i < 8 then bit w (7 - i) else raw_bit ws (i - 8))"
proof (cases "i < 8")
  case False
  then have "i div 8 = Suc ((i - 8) div 8)" "i mod 8 = (i - 8) mod 8"
    by (simp_all add: le_div_geq le_mod_geq)
  with False show ?thesis by (simp add: raw_bit_def)
qed (simp add: raw_bit_def)

lemma length_filter_rev8: "length (filter (\<lambda>i. P (7 - i)) [0..<8]) = length (filter P [0..<(8::nat)])"
  by (simp add: upt_rec numeral_eq_Suc)

lemma sum_count_ones: "sum_list (map count_ones ws) = length (filter (raw_bit ws) [0..<8 * length ws])"
proof (induction ws)
  case Nil
  then show ?case by simp
next
  case (Cons w ws)
  have split: "[0..<8 * length (w # ws)] = [0..<8] @ map (\<lambda>i. i + 8) [0..<8 * length ws]"
    by (simp add: map_add_upt upt_add_eq_append [of 0 8, simplified] add.commute)
  have "filter (raw_bit (w # ws)) [0..<8] = filter (\<lambda>i. bit w (7 - i)) [0..<8]"
    by (intro filter_cong) (simp_all add: raw_bit_Cons)
  then have "length (filter (raw_bit (w # ws)) [0..<8]) = count_ones w"
    by (simp only: count_ones_def length_filter_rev8)
  moreover have "length (filter (raw_bit (w # ws)) (map (\<lambda>i. i + 8) [0..<8 * length ws]))
    = length (filter (raw_bit ws) [0..<8 * length ws])"
    by (simp add: filter_map comp_def raw_bit_Cons)
  ultimately show ?case by (simp only: split filter_append length_append Cons list.map sum_list.Cons)
qed

lemma bf_count_iter_ones:
  assumes "bf_wf b"
  shows "bf_count b = length (bf_iter_ones b)"
proof -
  let ?n = "8 * length (bf_bytes b)"
  have le: "bf_len b \<le> ?n" using assms len_le_8_div_ceil by (simp add: bf_wf_def)
  have "filter (raw_bit (bf_bytes b)) [bf_len b..<?n] = []"
    using assms by (auto simp: bf_wf_def filter_empty_conv)
  moreover have "[0..<?n] = [0..<bf_len b] @ [bf_len b..<?n]"
    using le upt_add_eq_append [of 0 "bf_len b" "?n - bf_len b"] by simp
  ultimately have "filter (raw_bit (bf_bytes b)) [0..<?n] = filter (raw_bit (bf_bytes b)) [0..<bf_len b]"
    by (simp add: filter_append)
  also have "\<dots> = bf_iter_ones b"
    unfolding bf_iter_ones_def by (rule filter_cong) (simp_all add: bf_has_raw)
  finally show ?thesis by (simp add: bf_count_def sum_count_ones)
qed

lemma card_pieces: "card (pieces b) = length (bf_iter_ones b)"
  by (metis set_bf_iter_ones bf_iter_ones_distinct(1) distinct_card)

text \<open>The spare bits of a payload of the right size are the low bits of its last byte.\<close>

lemma spare_bits_low:
  assumes l: "length payload = div_ceil len 8" and ne: "payload \<noteq> []"
  shows "(\<exists>k < length payload * 8 - len. bit (last payload) k)
     \<longleftrightarrow> (\<exists>i < 8 * length payload. len \<le> i \<and> raw_bit payload i)" (is "?low = ?raw")
proof
  assume ?low
  then obtain k where k: "k < length payload * 8 - len" "bit (last payload) k" by blast
  let ?i = "8 * length payload - 1 - k"
  have "k < 8" using k(2) by (rule bit_byteD)
  have q: "?i = 8 * (length payload - 1) + (7 - k)"
    using ne \<open>k < 8\<close> by (cases "length payload") auto
  have "raw_bit payload ?i" unfolding q raw_bit_at [OF \<open>k < 8\<close>]
    using k ne by (simp add: last_conv_nth)
  moreover have "len \<le> ?i" using k by simp
  moreover have "?i < 8 * length payload" using ne by (cases payload) simp_all
  ultimately show ?raw by blast
next
  assume ?raw
  then obtain i where i: "i < 8 * length payload" "len \<le> i" "raw_bit payload i" by blast
  have lt: "length payload * 8 < len + 8" using div_ceil_mult_le [of 8 len] l by simp
  have d: "i div 8 = length payload - 1" using i lt by linarith
  have "i = 8 * (length payload - 1) + i mod 8" by (metis d mult_div_mod_eq)
  moreover have "i mod 8 < 8" by simp
  moreover have "1 \<le> length payload" using ne by (cases payload) simp_all
  ultimately have "7 - i mod 8 < length payload * 8 - len" using i(2) by linarith
  moreover have "bit (last payload) (7 - i mod 8)"
    using i(3) d ne by (simp add: raw_bit_def last_conv_nth)
  ultimately show ?low by blast
qed

lemma and_low_mask: "(w AND (push_bit n 1 - 1) \<noteq> 0) \<longleftrightarrow> (\<exists>k < n. bit (w :: byte) k)"
proof -
  have "w AND (push_bit n 1 - 1) = take_bit n w"
    by (simp add: take_bit_eq_mask mask_eq_exp_minus_1 push_bit_eq_mult)
  then show ?thesis by (auto simp: bit_eq_iff bit_take_bit_iff dest: bit_byteD)
qed

lemma bf_from_wire_eq:
  "bf_from_wire len payload = Some b \<longleftrightarrow> bf_wf b \<and> bf_len b = len \<and> bf_bytes b = payload"
proof (cases "length payload = div_ceil len 8")
  case True
  let ?spare = "length payload * 8 - len"
  have "(?spare > 0 \<and> (last payload) AND (push_bit ?spare 1 - 1) \<noteq> 0)
      \<longleftrightarrow> (\<exists>i < 8 * length payload. len \<le> i \<and> raw_bit payload i)"
  proof (cases "payload = []")
    case False
    from spare_bits_low [OF True False] show ?thesis unfolding and_low_mask by auto
  qed simp
  then have "bf_from_wire len payload = Some b \<longleftrightarrow>
      (\<forall>i < 8 * length payload. len \<le> i \<longrightarrow> \<not> raw_bit payload i)
      \<and> b = \<lparr>bf_bytes = payload, bf_len = len\<rparr>"
    using True unfolding bf_from_wire_def Let_def by auto
  with True show ?thesis by (cases b) (auto simp: bf_wf_def)
next
  case False
  then show ?thesis by (auto simp: bf_from_wire_def bf_wf_def)
qed

lemma bf_from_wire_Some: "bf_wf b \<Longrightarrow> bf_from_wire (bf_len b) (bf_bytes b) = Some b"
  by (simp add: bf_from_wire_eq)

section \<open>Properties\<close>

text \<open>
  Parsing a BITFIELD payload accepts exactly the payloads of a well-formed bitfield of that
  length, and gives back that bitfield; every other payload (wrong size, a spare bit set) is
  rejected.
\<close>

theorem bf_from_wire_iff:
  "bf_from_wire len payload = Some b \<longleftrightarrow> bf_wf b \<and> bf_len b = len \<and> bf_bytes b = payload"
  by (rule bf_from_wire_eq)

end
