(* ===== verification/Torrent.thy ===== *)
theory Torrent
  imports Prelude
begin

text \<open>
  The torrent model of \<open>core/torrent.rs\<close>: file entries, the metadata record with its tracker list
  and piece lengths, and the sanitising of path components that come from untrusted metadata. The
  compile-time switch \<open>cfg!(windows)\<close> is the argument \<open>win\<close>. A \<open>PathBuf\<close> is the list of its
  components, the root being the component \<open>/\<close>; \<open>path_push\<close> is \<open>PathBuf::push\<close>.
\<close>

section \<open>Data\<close>

record torrent_file =
  tf_length :: nat
  tf_path :: "rstring list"

record torrent_meta =
  tm_announce :: rstring
  tm_trackers :: "rstring list"
  tm_name :: rstring
  tm_piece_length :: nat
  tm_pieces_count :: nat
  tm_pieces :: "bytes list"
  tm_total_length :: "nat option"
  tm_files :: "torrent_file list option"
  tm_info_hash :: bytes

section \<open>Metadata operations\<close>

definition is_supported_tracker :: "rstring \<Rightarrow> bool" where
  "is_supported_tracker url \<longleftrightarrow>
     starts_with url (lit ''http://'') \<or> starts_with url (lit ''https://'')
     \<or> starts_with url (lit ''udp://'')"

definition meta_new ::
  "rstring \<Rightarrow> rstring \<Rightarrow> nat \<Rightarrow> nat \<Rightarrow> bytes list \<Rightarrow> nat option \<Rightarrow> torrent_file list option
   \<Rightarrow> bytes \<Rightarrow> torrent_meta" where
  "meta_new announce name piece_length pieces_count ps total_length files info_hash =
     \<lparr>tm_announce = announce,
      tm_trackers = (if is_supported_tracker announce then [announce] else []),
      tm_name = name,
      tm_piece_length = piece_length,
      tm_pieces_count = pieces_count,
      tm_pieces = ps,
      tm_total_length =
        (case total_length of
           Some t \<Rightarrow> Some t
         | None \<Rightarrow> map_option (foldl (\<lambda>acc f. saturating_add U64_MAX acc (tf_length f)) 0) files),
      tm_files = files,
      tm_info_hash = info_hash\<rparr>"

fun with_extra_trackers :: "torrent_meta \<Rightarrow> rstring list \<Rightarrow> torrent_meta" where
  "with_extra_trackers m [] = m"
| "with_extra_trackers m (url # extra) =
     with_extra_trackers
       (if is_supported_tracker url \<and> url \<notin> set (tm_trackers m)
        then m\<lparr>tm_trackers := tm_trackers m @ [url]\<rparr> else m) extra"

definition piece_hash :: "torrent_meta \<Rightarrow> nat \<Rightarrow> bytes option" where
  "piece_hash m index = (if index < length (tm_pieces m) then Some (tm_pieces m ! index) else None)"

definition piece_len_at :: "torrent_meta \<Rightarrow> nat \<Rightarrow> nat option" where
  "piece_len_at m index =
     (if index \<ge> length (tm_pieces m) then None
      else case tm_total_length m of
        Some tot \<Rightarrow>
          (case checked_mul_u64 index (tm_piece_length m) of
             None \<Rightarrow> None
           | Some start \<Rightarrow>
               if start \<ge> tot then None
               else Some (as_u32 (min (tm_piece_length m) (tot - start))))
      | None \<Rightarrow> Some (tm_piece_length m))"

section \<open>Paths from untrusted metadata\<close>

datatype path_error =
    InvalidComponent rstring
  | ComponentTooLong
  | SeparatorOrNul rstring
  | EmptyPath

definition MAX_COMPONENT_LEN :: nat where "MAX_COMPONENT_LEN = 255"

definition WINDOWS_RESERVED_NAMES :: "rstring list" where
  "WINDOWS_RESERVED_NAMES = map lit
     [''CON'', ''PRN'', ''AUX'', ''NUL'', ''COM1'', ''COM2'', ''COM3'', ''COM4'', ''COM5'',
      ''COM6'', ''COM7'', ''COM8'', ''COM9'', ''LPT1'', ''LPT2'', ''LPT3'', ''LPT4'', ''LPT5'',
      ''LPT6'', ''LPT7'', ''LPT8'', ''LPT9'']"

definition is_control :: "nat \<Rightarrow> bool" where
  "is_control c \<longleftrightarrow> c < 32 \<or> (127 \<le> c \<and> c < 160)"

text \<open>The characters in the Rust literal \<open>"<>:\"|?*"\<close>.\<close>

definition windows_forbidden :: "nat list" where
  "windows_forbidden = [60, 62, 58, 34, 124, 63, 42]"

definition to_ascii_upper :: "nat \<Rightarrow> nat" where
  "to_ascii_upper c = (if 97 \<le> c \<and> c \<le> 122 then c - 32 else c)"

definition pop_dots_spaces :: "rstring \<Rightarrow> rstring" where
  "pop_dots_spaces s = rev (dropWhile (\<lambda>c. c = 46 \<or> c = 32) (rev s))"

definition stem_upper :: "rstring \<Rightarrow> rstring" where
  "stem_upper s = map to_ascii_upper (takeWhile (\<lambda>c. c \<noteq> 46) s)"

definition windows_clean :: "rstring \<Rightarrow> path_error + rstring" where
  "windows_clean component =
     (let cleaned = pop_dots_spaces
            (map (\<lambda>c. if is_control c \<or> c \<in> set windows_forbidden then 95 else c) component)
      in if cleaned = [] then Inl (InvalidComponent component)
         else Inr (if stem_upper cleaned \<in> set WINDOWS_RESERVED_NAMES then 95 # cleaned
                   else cleaned))"

definition sanitize_path_component :: "bool \<Rightarrow> rstring \<Rightarrow> path_error + rstring" where
  "sanitize_path_component win component =
     (if component = [] \<or> component = lit ''.'' \<or> component = lit ''..''
      then Inl (InvalidComponent component)
      else if utf8_len component > MAX_COMPONENT_LEN then Inl ComponentTooLong
      else if 47 \<in> set component \<or> 92 \<in> set component \<or> 0 \<in> set component
      then Inl (SeparatorOrNul component)
      else if win then windows_clean component
      else Inr component)"

type_synonym path = "rstring list"

fun split_on :: "(nat \<Rightarrow> bool) \<Rightarrow> rstring \<Rightarrow> rstring list" where
  "split_on p [] = [[]]"
| "split_on p (c # cs) =
     (if p c then [] # split_on p cs
      else case split_on p cs of [] \<Rightarrow> [[c]] | w # ws \<Rightarrow> (c # w) # ws)"

definition is_separator :: "bool \<Rightarrow> nat \<Rightarrow> bool" where
  "is_separator win c \<longleftrightarrow> c = 47 \<or> (win \<and> c = 92)"

text \<open>
  \<open>PathBuf::push\<close>: an absolute argument (on Windows also one with a drive prefix) replaces the
  path, any other one is appended component by component; empty and \<open>.\<close> components vanish.
\<close>

definition path_push :: "bool \<Rightarrow> path \<Rightarrow> rstring \<Rightarrow> path" where
  "path_push win p s =
     (let comps = filter (\<lambda>c. c \<noteq> [] \<and> c \<noteq> lit ''.'') (split_on (is_separator win) s)
      in if s \<noteq> [] \<and> is_separator win (hd s) then lit ''/'' # comps
         else if win \<and> length s \<ge> 2 \<and> s ! 1 = 58 then comps
         else p @ comps)"

fun push_all :: "bool \<Rightarrow> path \<Rightarrow> rstring list \<Rightarrow> path_error + path" where
  "push_all win p [] = Inr p"
| "push_all win p (part # parts) =
     (case sanitize_path_component win part of
        Inl e \<Rightarrow> Inl e
      | Inr s \<Rightarrow> push_all win (path_push win p s) parts)"

definition build_file_path ::
  "bool \<Rightarrow> path \<Rightarrow> rstring \<Rightarrow> bool \<Rightarrow> rstring list \<Rightarrow> path_error + path" where
  "build_file_path win base_dir name is_multi parts =
     (if parts = [] then Inl EmptyPath
      else if is_multi then
        (case sanitize_path_component win name of
           Inl e \<Rightarrow> Inl e
         | Inr s \<Rightarrow> push_all win (path_push win base_dir s) parts)
      else push_all win base_dir parts)"

section \<open>Safe components\<close>

text \<open>A component that can be joined onto a directory without leaving it.\<close>

definition safe_component :: "bool \<Rightarrow> rstring \<Rightarrow> bool" where
  "safe_component win s \<longleftrightarrow> s \<noteq> [] \<and> s \<noteq> lit ''.'' \<and> s \<noteq> lit ''..''
     \<and> 47 \<notin> set s \<and> 92 \<notin> set s \<and> 0 \<notin> set s \<and> (win \<longrightarrow> 58 \<notin> set s)"

lemma split_on_no_sep: "\<forall>c \<in> set s. \<not> p c \<Longrightarrow> split_on p s = [s]"
  by (induction s) auto

lemma path_push_safe: "safe_component win s \<Longrightarrow> path_push win p s = p @ [s]"
proof -
  assume s: "safe_component win s"
  then have "\<forall>c \<in> set s. \<not> is_separator win c"
    by (auto simp: safe_component_def is_separator_def)
  moreover from s have "\<not> (win \<and> length s \<ge> 2 \<and> s ! 1 = 58)"
    unfolding safe_component_def by (metis nth_mem one_less_numeral_iff order_less_le_trans semiring_norm(76))
  ultimately show ?thesis using s
    by (auto simp: path_push_def split_on_no_sep safe_component_def)
qed

lemma pop_dots_spaces_subset: "set (pop_dots_spaces s) \<subseteq> set s"
  by (auto simp: pop_dots_spaces_def dest: set_dropWhileD)

lemma last_pop_dots_spaces:
  "pop_dots_spaces s \<noteq> [] \<Longrightarrow> last (pop_dots_spaces s) \<noteq> 46 \<and> last (pop_dots_spaces s) \<noteq> 32"
  using hd_dropWhile [of "\<lambda>c. c = 46 \<or> c = 32" "rev s"]
  by (auto simp: pop_dots_spaces_def last_rev)

lemma dots_lit: "lit ''.'' = [46]" "lit ''..'' = [46, 46]"
  by (simp_all add: lit_def)

lemma windows_clean_cases:
  assumes "windows_clean c = Inr s"
  obtains t where "t \<noteq> []" "last t \<noteq> 46" "last t \<noteq> 32"
    "\<forall>x \<in> set t. \<not> is_control x \<and> x \<notin> set windows_forbidden \<and> (x = 95 \<or> x \<in> set c)"
    "s = (if stem_upper t \<in> set WINDOWS_RESERVED_NAMES then 95 # t else t)"
proof -
  let ?t = "pop_dots_spaces
    (map (\<lambda>c. if is_control c \<or> c \<in> set windows_forbidden then 95 else c) c)"
  have "\<forall>x \<in> set ?t. \<not> is_control x \<and> x \<notin> set windows_forbidden \<and> (x = 95 \<or> x \<in> set c)"
    using pop_dots_spaces_subset
      [of "map (\<lambda>c. if is_control c \<or> c \<in> set windows_forbidden then 95 else c) c"]
    by (auto simp: is_control_def windows_forbidden_def)
  moreover have "?t \<noteq> []" "s = (if stem_upper ?t \<in> set WINDOWS_RESERVED_NAMES then 95 # ?t else ?t)"
    using assms by (auto simp: windows_clean_def Let_def split: if_splits)
  ultimately show ?thesis using last_pop_dots_spaces that by blast
qed

lemma windows_clean_safe:
  assumes "windows_clean c = Inr s" "47 \<notin> set c" "92 \<notin> set c" "0 \<notin> set c"
  shows "safe_component True s"
  using assms(1)
proof (cases rule: windows_clean_cases)
  case (1 t)
  then have "58 \<notin> set t" by (auto simp: windows_forbidden_def)
  with 1 assms(2-4) show ?thesis by (auto simp: safe_component_def dots_lit)
qed

lemma sanitize_safe:
  assumes "sanitize_path_component win c = Inr s"
  shows "safe_component win s"
proof (cases win)
  case True
  with assms windows_clean_safe [of c s] show ?thesis
    by (auto simp: sanitize_path_component_def split: if_splits)
next
  case False
  with assms show ?thesis
    by (auto simp: sanitize_path_component_def safe_component_def split: if_splits)
qed

lemma push_all_Inr:
  "push_all win p parts = Inr q \<Longrightarrow>
     \<exists>ss. q = p @ ss \<and> length ss = length parts \<and> list_all (safe_component win) ss"
proof (induction parts arbitrary: p)
  case Nil
  then show ?case by simp
next
  case (Cons part parts)
  then obtain s where s: "sanitize_path_component win part = Inr s"
    and q: "push_all win (path_push win p s) parts = Inr q"
    by (auto split: sum.splits)
  from s have safe: "safe_component win s" by (rule sanitize_safe)
  from Cons.IH [OF q] obtain ss where "q = path_push win p s @ ss" "length ss = length parts"
    "list_all (safe_component win) ss" by blast
  with safe show ?case
    by (intro exI [of _ "s # ss"]) (simp add: path_push_safe)
qed

section \<open>Piece lengths\<close>

definition meta_wf :: "torrent_meta \<Rightarrow> bool" where
  "meta_wf m \<longleftrightarrow> 0 < tm_piece_length m \<and> tm_piece_length m < 2 ^ 32
     \<and> (\<exists>t. tm_total_length m = Some t \<and> 0 < t \<and> t \<le> U64_MAX
          \<and> length (tm_pieces m) = div_ceil t (tm_piece_length m))
     \<and> list_all (\<lambda>h. length h = 20) (tm_pieces m)
     \<and> tm_pieces_count m = as_u32 (length (tm_pieces m))"

lemma piece_len_at_wf:
  assumes "meta_wf m" "tm_total_length m = Some t" "i < length (tm_pieces m)"
  shows "piece_len_at m i = Some (min (tm_piece_length m) (t - i * tm_piece_length m))"
    and "i * tm_piece_length m < t"
proof -
  show lt: "i * tm_piece_length m < t"
    using assms less_div_ceil_iff [of "tm_piece_length m" i t] by (auto simp: meta_wf_def)
  with assms show "piece_len_at m i = Some (min (tm_piece_length m) (t - i * tm_piece_length m))"
    by (auto simp: piece_len_at_def checked_mul_u64_def meta_wf_def min_def)
qed

lemma with_extra_trackers_keeps:
  "distinct (tm_trackers m) \<Longrightarrow> list_all is_supported_tracker (tm_trackers m) \<Longrightarrow>
     distinct (tm_trackers (with_extra_trackers m us))
     \<and> list_all is_supported_tracker (tm_trackers (with_extra_trackers m us))"
  by (induction m us rule: with_extra_trackers.induct) auto

section \<open>Properties\<close>

text \<open>
  C14: A path built from untrusted metadata stays below the download directory: it is the base
  directory followed by one component per path part (and one for the torrent name when there are
  several files), and none of these is empty, \<open>.\<close>, \<open>..\<close> or contains a separator or NUL.
\<close>

theorem build_file_path_inside:
  assumes "build_file_path win base name is_multi parts = Inr p"
  shows "\<exists>ss. p = base @ ss \<and> length ss = length parts + (if is_multi then 1 else 0)
    \<and> list_all (safe_component win) ss"
proof (cases is_multi)
  case False
  with assms push_all_Inr [of win base parts p] show ?thesis
    by (auto simp: build_file_path_def split: if_splits)
next
  case True
  with assms obtain s where s: "sanitize_path_component win name = Inr s"
    and q: "push_all win (path_push win base s) parts = Inr p"
    by (auto simp: build_file_path_def split: if_splits sum.splits)
  from s have safe: "safe_component win s" by (rule sanitize_safe)
  from push_all_Inr [OF q] obtain ss where "p = path_push win base s @ ss"
    "length ss = length parts" "list_all (safe_component win) ss" by blast
  with safe True show ?thesis by (intro exI [of _ "s # ss"]) (simp add: path_push_safe)
qed

theorem build_file_path_inside_witness:
  "build_file_path False [lit ''dl''] (lit ''t'') True [lit ''a'', lit ''b'']
     = Inr [lit ''dl'', lit ''t'', lit ''a'', lit ''b'']
   \<and> (\<exists>ss. [lit ''dl'', lit ''t'', lit ''a'', lit ''b''] = [lit ''dl''] @ ss \<and> length ss = 3
        \<and> list_all (safe_component False) ss)"
proof -
  have e: "build_file_path False [lit ''dl''] (lit ''t'') True [lit ''a'', lit ''b'']
     = Inr [lit ''dl'', lit ''t'', lit ''a'', lit ''b'']"
    by code_simp
  from build_file_path_inside [OF e] e show ?thesis by simp
qed

text \<open>
  On Windows a sanitised component is acceptable to the file system: no control character, no
  character of \<open><>:"|?*\<close>, no trailing dot or space, and its stem is not a device name.
\<close>

theorem sanitize_windows:
  assumes "sanitize_path_component True c = Inr s"
  shows "(\<forall>x \<in> set s. \<not> is_control x \<and> x \<notin> set windows_forbidden)
    \<and> last s \<noteq> 46 \<and> last s \<noteq> 32 \<and> stem_upper s \<notin> set WINDOWS_RESERVED_NAMES"
proof -
  from assms have "windows_clean c = Inr s"
    by (auto simp: sanitize_path_component_def split: if_splits)
  then show ?thesis
  proof (cases rule: windows_clean_cases)
    case (1 t)
    have "stem_upper (95 # t) \<notin> set WINDOWS_RESERVED_NAMES"
      by (simp add: stem_upper_def WINDOWS_RESERVED_NAMES_def lit_def to_ascii_upper_def)
    moreover have "\<not> is_control 95" "95 \<notin> set windows_forbidden"
      by (simp_all add: is_control_def windows_forbidden_def)
    ultimately show ?thesis using 1 by auto
  qed
qed

theorem sanitize_windows_witness:
  "sanitize_path_component True (lit ''nul.txt. '') = Inr (lit ''_nul.txt'')
   \<and> last (lit ''_nul.txt'') \<noteq> 46
   \<and> stem_upper (lit ''_nul.txt'') \<notin> set WINDOWS_RESERVED_NAMES"
proof -
  have e: "sanitize_path_component True (lit ''nul.txt. '') = Inr (lit ''_nul.txt'')"
    by code_simp
  from sanitize_windows [OF e] e show ?thesis by blast
qed

text \<open>
  The piece lengths of well-formed metadata partition the torrent: every piece has a length
  between 1 and the piece length, all but the last have the full piece length, and they add up to
  the total length.
\<close>

theorem piece_lens_partition:
  assumes "meta_wf m" "tm_total_length m = Some t"
  shows "(\<Sum>i < length (tm_pieces m). the (piece_len_at m i)) = t
    \<and> (\<forall>i < length (tm_pieces m). \<exists>l. piece_len_at m i = Some l \<and> 0 < l \<and> l \<le> tm_piece_length m
         \<and> (Suc i < length (tm_pieces m) \<longrightarrow> l = tm_piece_length m))"
proof -
  let ?n = "length (tm_pieces m)" and ?pl = "tm_piece_length m"
  have pos: "0 < ?pl" and n: "?n = div_ceil t ?pl" using assms by (auto simp: meta_wf_def)
  have le: "t \<le> ?n * ?pl" using div_ceil_le_iff [of ?pl t ?n] pos n by simp
  have "(\<Sum>i < ?n. the (piece_len_at m i)) = (\<Sum>i < ?n. min ?pl (t - i * ?pl))"
    by (intro sum.cong) (simp_all add: piece_len_at_wf [OF assms])
  then have "(\<Sum>i < ?n. the (piece_len_at m i)) = t"
    using le by (simp add: sum_min_pieces)
  moreover have "min ?pl (t - i * ?pl) = ?pl" if "Suc i < ?n" for i
    using piece_len_at_wf(2) [OF assms that] by simp
  ultimately show ?thesis using pos piece_len_at_wf [OF assms] by auto
qed

definition example_meta :: torrent_meta where
  "example_meta = meta_new (lit ''udp://t:1'') (lit ''a'') 10 3
     [replicate 20 1, replicate 20 2, replicate 20 3] (Some 25) None (replicate 20 9)"

theorem piece_lens_partition_witness:
  "meta_wf example_meta \<and> tm_total_length example_meta = Some 25
   \<and> (\<Sum>i < length (tm_pieces example_meta). the (piece_len_at example_meta i)) = 25"
proof -
  have w: "meta_wf example_meta"
    by (simp add: meta_wf_def example_meta_def meta_new_def U64_MAX_def div_ceil_def)
  have t: "tm_total_length example_meta = Some 25"
    by (simp add: example_meta_def meta_new_def)
  from piece_lens_partition [OF w t] w t show ?thesis by blast
qed

text \<open>
  Adding trackers keeps the tracker list free of duplicates and of unsupported schemes, keeps
  the ones already there in front, and adds every supported new one; nothing else changes.
\<close>

theorem with_extra_trackers_correct:
  assumes "distinct (tm_trackers m)" "list_all is_supported_tracker (tm_trackers m)"
  shows "let m' = with_extra_trackers m extra in
    distinct (tm_trackers m') \<and> list_all is_supported_tracker (tm_trackers m')
    \<and> set (tm_trackers m') = set (tm_trackers m) \<union> {u \<in> set extra. is_supported_tracker u}
    \<and> starts_with (tm_trackers m') (tm_trackers m)
    \<and> m' = m\<lparr>tm_trackers := tm_trackers m'\<rparr>"
  using assms
proof (induction extra arbitrary: m)
  case Nil
  then show ?case by (simp add: starts_with_def)
next
  case (Cons u extra)
  let ?m = "if is_supported_tracker u \<and> u \<notin> set (tm_trackers m)
    then m\<lparr>tm_trackers := tm_trackers m @ [u]\<rparr> else m"
  have p: "distinct (tm_trackers ?m)" "list_all is_supported_tracker (tm_trackers ?m)"
    using Cons.prems by auto
  have pre: "starts_with xs (ys @ zs) \<Longrightarrow> starts_with xs ys" for xs ys zs :: "rstring list"
    unfolding starts_with_def by (metis append_eq_conv_conj append_take_drop_id append.assoc)
  from Cons.IH [OF p] show ?case
    by (cases "is_supported_tracker u \<and> u \<notin> set (tm_trackers m)") (auto simp: Let_def dest: pre)
qed

theorem with_extra_trackers_correct_witness:
  "tm_trackers (with_extra_trackers example_meta
     [lit ''udp://t:1'', lit ''ftp://x'', lit ''http://y'']) = [lit ''udp://t:1'', lit ''http://y'']
   \<and> distinct (tm_trackers (with_extra_trackers example_meta
       [lit ''udp://t:1'', lit ''ftp://x'', lit ''http://y'']))"
proof -
  have d: "distinct (tm_trackers example_meta)" by code_simp
  have s: "list_all is_supported_tracker (tm_trackers example_meta)" by code_simp
  have e: "tm_trackers (with_extra_trackers example_meta
     [lit ''udp://t:1'', lit ''ftp://x'', lit ''http://y'']) = [lit ''udp://t:1'', lit ''http://y'']"
    by code_simp
  show ?thesis
    using with_extra_trackers_correct [OF d s, of "[lit ''udp://t:1'', lit ''ftp://x'', lit ''http://y'']"] e
    unfolding Let_def by blast
qed

end
