(* ===== verification/Bencode.thy ===== *)
theory Bencode
  imports Torrent
begin

text \<open>
  The hand-written bencode scanners of \<open>core/bencode.rs\<close> and the construction of torrent metadata
  from decoded dictionaries. The scanners work on byte indices as the source does. The recursive
  decoder is the \<open>serde_bencode\<close> crate, and SHA-1 the \<open>sha1\<close> crate: both are parameters of the
  definitions that call them.
\<close>

section \<open>Errors and raw data\<close>

datatype invalid_reason =
    UnsupportedPieceLength nat
  | BadPath path_error
  | NoFiles
  | TotalSizeOverflow
  | LengthXorFiles
  | NoData
  | PieceCountMismatch nat nat

datatype torrent_parse_error =
    Io string
  | Decode string
  | InvalidPiecesLength nat
  | InvalidBencode string
  | InvalidTorrent invalid_reason
  | MissingInfoDictionary

record raw_file =
  rf_length :: "64 word"
  rf_path :: "rstring list"

record raw_info =
  ri_name :: rstring
  ri_piece_length :: "32 word"
  ri_pieces :: bytes
  ri_length :: "64 word option"
  ri_files :: "raw_file list option"

record raw_torrent =
  rt_announce :: rstring
  rt_announce_list :: "rstring list list"
  rt_info :: raw_info

definition MAX_TORRENT_SIZE :: nat where "MAX_TORRENT_SIZE = 16 * 1024 * 1024"
definition MAX_BENCODE_DEPTH :: nat where "MAX_BENCODE_DEPTH = 64"
definition MAX_PIECE_LENGTH :: nat where "MAX_PIECE_LENGTH = 128 * 1024 * 1024"

section \<open>The depth check\<close>

definition is_ascii_digit :: "byte \<Rightarrow> bool" where
  "is_ascii_digit b \<longleftrightarrow> 48 \<le> b \<and> b \<le> 57"

text \<open>The loop \<open>while index < bytes.len() && p(bytes[index]) { index += 1 }\<close>.\<close>

function scan_while :: "(byte \<Rightarrow> bool) \<Rightarrow> bytes \<Rightarrow> nat \<Rightarrow> nat" where
  "scan_while p bs index =
     (if index < length bs \<and> p (bs ! index) then scan_while p bs (Suc index) else index)"
  by pat_completeness auto
termination
  by (relation "measure (\<lambda>(p, bs, index). length bs - index)") auto

function scan_len :: "bytes \<Rightarrow> nat \<Rightarrow> nat \<Rightarrow> nat \<times> nat" where
  "scan_len bs index len =
     (if index < length bs \<and> is_ascii_digit (bs ! index)
      then scan_len bs (Suc index)
             (saturating_add U64_MAX (saturating_mul U64_MAX len 10) (unat (bs ! index - 48)))
      else (index, len))"
  by pat_completeness auto
termination
  by (relation "measure (\<lambda>(bs, index, len). length bs - index)") auto

declare scan_while.simps [simp del] scan_len.simps [simp del]

lemma scan_while_ge: "index \<le> scan_while p bs index"
proof (induction p bs index rule: scan_while.induct)
  case (1 p bs index)
  then show ?case by (cases "index < length bs \<and> p (bs ! index)")
      (auto simp: scan_while.simps [of p bs index])
qed

lemma scan_len_ge: "index \<le> fst (scan_len bs index len)"
proof (induction bs index len rule: scan_len.induct)
  case (1 bs index len)
  then show ?case by (cases "index < length bs \<and> is_ascii_digit (bs ! index)")
      (auto simp: scan_len.simps [of bs index len])
qed

text \<open>
  The main loop. A slice is never as long as \<open>usize::MAX\<close>, which is what the second half of the
  guard says; it makes the saturating step to the next index an increase.
\<close>

function check_loop :: "bytes \<Rightarrow> nat \<Rightarrow> nat \<Rightarrow> torrent_parse_error + unit" where
  "check_loop bs depth index =
     (if index < length bs \<and> index < U64_MAX then
        (let b = bs ! index in
         if b = 108 \<or> b = 100 then
           (if depth + 1 > MAX_BENCODE_DEPTH
            then Inl (InvalidBencode ''bencode nesting is too deep'')
            else check_loop bs (depth + 1) (index + 1))
         else if b = 101 then check_loop bs (depth - 1) (index + 1)
         else if b = 105 then
           check_loop bs depth (scan_while (\<lambda>c. c \<noteq> 101) bs index + 1)
         else if is_ascii_digit b then
           check_loop bs depth
             (saturating_add U64_MAX (saturating_add U64_MAX (fst (scan_len bs index 0)) 1)
               (snd (scan_len bs index 0)))
         else Inr ())
      else Inr ())"
  by pat_completeness auto
termination
proof (relation "measure (\<lambda>(bs, depth, index). length bs - index)", goal_cases)
  case (4 bs depth index x)
  then show ?case using scan_while_ge [of index "\<lambda>c. c \<noteq> 101" bs] by auto
next
  case (5 bs depth index x)
  have "index < saturating_add U64_MAX (saturating_add U64_MAX (fst (scan_len bs index 0)) 1)
      (snd (scan_len bs index 0))"
    using 5 scan_len_ge [of index bs 0] by (auto simp: saturating_add_def)
  with 5 show ?case by (simp add: diff_less_mono2)
qed auto

declare check_loop.simps [simp del]

definition check_bencode_depth :: "bytes \<Rightarrow> torrent_parse_error + unit" where
  "check_bencode_depth bs = check_loop bs 0 0"

section \<open>Byte strings and skipping values\<close>

definition dec_val :: "bytes \<Rightarrow> nat" where
  "dec_val ds = foldl (\<lambda>acc b. acc * 10 + unat (b - 48)) 0 ds"

definition parse_byte_string :: "bytes \<Rightarrow> nat \<Rightarrow> torrent_parse_error + bytes \<times> nat" where
  "parse_byte_string bs start =
     (if start \<ge> length bs \<or> \<not> is_ascii_digit (bs ! start)
      then Inl (InvalidBencode ''expected bencode byte string length prefix'')
      else let index = scan_while is_ascii_digit bs start in
        if index \<ge> length bs \<or> bs ! index \<noteq> 58
        then Inl (InvalidBencode ''missing ':' after byte string length'')
        else let len = dec_val (slice start index bs) in
          if len > U64_MAX then Inl (InvalidBencode ''byte string length parse failed'')
          else let content_start = index + 1; content_end = content_start + len in
            if content_end > U64_MAX then Inl (InvalidBencode ''byte string length overflow'')
            else if content_end > length bs
            then Inl (InvalidBencode ''byte string exceeds input length'')
            else Inr (slice content_start content_end bs, content_end))"

lemma parse_byte_string_bounds:
  assumes "parse_byte_string bs start = Inr (s, e)"
  shows "start < e" "e \<le> length bs"
  using assms scan_while_ge [of start is_ascii_digit bs]
  by (auto simp: parse_byte_string_def Let_def split: if_splits)

text \<open>
  \<open>skip_bencode_value\<close> with its two inner loops as functions of their own. That the value it
  returns lies behind the start is what makes the loops end.
\<close>

function (domintros) skip_bencode_value :: "bytes \<Rightarrow> nat \<Rightarrow> nat \<Rightarrow> torrent_parse_error + nat"
  and skip_list_items :: "bytes \<Rightarrow> nat \<Rightarrow> nat \<Rightarrow> torrent_parse_error + nat"
  and skip_dict_items :: "bytes \<Rightarrow> nat \<Rightarrow> nat \<Rightarrow> torrent_parse_error + nat"
where
  "skip_bencode_value bs start depth =
     (if depth > MAX_BENCODE_DEPTH then Inl (InvalidBencode ''bencode nesting is too deep'')
      else if start \<ge> length bs
      then Inl (InvalidBencode ''unexpected end of input while reading value'')
      else if bs ! start = 105 then
        (let index = scan_while (\<lambda>c. c \<noteq> 101) bs (start + 1) in
         if index \<ge> length bs then Inl (InvalidBencode ''unterminated integer value'')
         else Inr (index + 1))
      else if bs ! start = 108 then skip_list_items bs (start + 1) depth
      else if bs ! start = 100 then skip_dict_items bs (start + 1) depth
      else if is_ascii_digit (bs ! start) then
        (case parse_byte_string bs start of Inl e \<Rightarrow> Inl e | Inr (_, e) \<Rightarrow> Inr e)
      else Inl (InvalidBencode ''unknown bencode type prefix''))"
| "skip_list_items bs index depth =
     (if index < length bs \<and> bs ! index \<noteq> 101 then
        (case skip_bencode_value bs index (depth + 1) of
           Inl e \<Rightarrow> Inl e
         | Inr next \<Rightarrow> skip_list_items bs next depth)
      else if index \<ge> length bs then Inl (InvalidBencode ''unterminated list value'')
      else Inr (index + 1))"
| "skip_dict_items bs index depth =
     (if index < length bs \<and> bs ! index \<noteq> 101 then
        (case parse_byte_string bs index of
           Inl e \<Rightarrow> Inl e
         | Inr (_, key_end) \<Rightarrow>
             (case skip_bencode_value bs key_end (depth + 1) of
                Inl e \<Rightarrow> Inl e
              | Inr next \<Rightarrow> skip_dict_items bs next depth))
      else if index \<ge> length bs then Inl (InvalidBencode ''unterminated dictionary value'')
      else Inr (index + 1))"
  by pat_completeness auto

lemma skip_bounds_dom:
  "skip_bencode_value_skip_list_items_skip_dict_items_dom (Inl (bs, start, depth)) \<Longrightarrow>
     skip_bencode_value bs start depth = Inr e \<Longrightarrow> start < e \<and> e \<le> length bs"
  "skip_bencode_value_skip_list_items_skip_dict_items_dom (Inr (Inl (bs, start, depth))) \<Longrightarrow>
     skip_list_items bs start depth = Inr e \<Longrightarrow> start < e \<and> e \<le> length bs"
  "skip_bencode_value_skip_list_items_skip_dict_items_dom (Inr (Inr (bs, start, depth))) \<Longrightarrow>
     skip_dict_items bs start depth = Inr e \<Longrightarrow> start < e \<and> e \<le> length bs"
proof (induction bs start depth and bs start depth and bs start depth arbitrary: e and e and e
    rule: skip_bencode_value_skip_list_items_skip_dict_items.pinduct)
  case (1 bs start depth)
  note eq = "1.prems" [unfolded skip_bencode_value.psimps [OF "1.hyps"]]
  have ok: "\<not> depth > MAX_BENCODE_DEPTH" "\<not> start \<ge> length bs"
    using eq by (auto split: if_splits)
  consider "bs ! start = 105" | "bs ! start = 108" | "bs ! start = 100"
    | "bs ! start \<noteq> 105" "bs ! start \<noteq> 108" "bs ! start \<noteq> 100" by blast
  then show ?case
  proof cases
    case 1
    with eq ok scan_while_ge [of "start + 1" "\<lambda>c. c \<noteq> 101" bs] show ?thesis
      by (simp add: Let_def split: if_splits)
  next
    case 2
    with eq ok "1.IH"(1) show ?thesis by force
  next
    case 3
    with eq ok "1.IH"(2) show ?thesis by force
  next
    case 4
    with eq ok show ?thesis
      by (auto dest: parse_byte_string_bounds split: if_splits sum.splits)
  qed
next
  case (2 bs index depth)
  show ?case
  proof (cases "index < length bs \<and> bs ! index \<noteq> 101")
    case True
    with "2.prems" "2.hyps" obtain n where "skip_bencode_value bs index (depth + 1) = Inr n"
      "skip_list_items bs n depth = Inr e"
      by (auto simp: skip_list_items.psimps split: sum.splits)
    with "2.IH" True show ?thesis by force
  next
    case False
    with "2.prems" "2.hyps" show ?thesis by (auto simp: skip_list_items.psimps split: if_splits)
  qed
next
  case (3 bs index depth)
  show ?case
  proof (cases "index < length bs \<and> bs ! index \<noteq> 101")
    case True
    with "3.prems" "3.hyps" obtain k ke n where p: "parse_byte_string bs index = Inr (k, ke)"
      and v: "skip_bencode_value bs ke (depth + 1) = Inr n" and r: "skip_dict_items bs n depth = Inr e"
      by (auto simp: skip_dict_items.psimps split: sum.splits prod.splits)
    have "ke < n" using "3.IH"(1) [OF True p refl v] by blast
    moreover have "n < e \<and> e \<le> length bs" using "3.IH"(2) [OF True p refl v r] .
    moreover have "index < ke" using p by (rule parse_byte_string_bounds)
    ultimately show ?thesis by linarith
  next
    case False
    with "3.prems" "3.hyps" show ?thesis by (auto simp: skip_dict_items.psimps split: if_splits)
  qed
qed

lemma skip_dom_all: "All skip_bencode_value_skip_list_items_skip_dict_items_dom"
proof (relation "measure (\<lambda>x. case x of Inl (bs, i, d) \<Rightarrow> 2 * (length bs - i)
    | Inr (Inl (bs, i, d)) \<Rightarrow> 2 * (length bs - i) + 1
    | Inr (Inr (bs, i, d)) \<Rightarrow> 2 * (length bs - i) + 1)", goal_cases)
  case 1
  then show ?case by simp
next
  case (5 bs index depth n)
  then show ?case using skip_bounds_dom(1) [of bs index "depth + 1" n] by force
next
  case (6 bs index depth p k ke)
  then show ?case using parse_byte_string_bounds [of bs index k ke] by force
next
  case (7 bs index depth p k ke n)
  then show ?case using skip_bounds_dom(1) [of bs ke "depth + 1" n]
    parse_byte_string_bounds [of bs index k ke] by force
qed auto

termination skip_bencode_value
  by (rule skip_dom_all)

lemma skip_bounds:
  "skip_bencode_value bs start depth = Inr e \<Longrightarrow> start < e \<and> e \<le> length bs"
  by (rule skip_bounds_dom(1) [OF skip_dom_all [THEN spec]])

declare skip_bencode_value.simps [simp del] skip_list_items.simps [simp del]
  skip_dict_items.simps [simp del]

definition bencode_value_len :: "bytes \<Rightarrow> torrent_parse_error + nat" where
  "bencode_value_len bs = skip_bencode_value bs 0 0"

text \<open>The bytes of \<open>b"info"\<close>.\<close>

definition info_key :: bytes where
  "info_key = [105, 110, 102, 111]"

function extract_info_loop :: "bytes \<Rightarrow> nat \<Rightarrow> torrent_parse_error + bytes" where
  "extract_info_loop bs index =
     (if index < length bs \<and> bs ! index \<noteq> 101 then
        (case parse_byte_string bs index of
           Inl e \<Rightarrow> Inl e
         | Inr (key, value_start) \<Rightarrow>
             (case skip_bencode_value bs value_start 0 of
                Inl e \<Rightarrow> Inl e
              | Inr value_end \<Rightarrow>
                  if key = info_key then Inr (slice value_start value_end bs)
                  else extract_info_loop bs value_end))
      else Inl MissingInfoDictionary)"
  by pat_completeness auto
termination
proof (relation "measure (\<lambda>(bs, index). length bs - index)", goal_cases)
  case (2 bs index p key vs ve)
  then have "index < vs" "vs < ve" "index < length bs"
    using parse_byte_string_bounds(1) [of bs index key vs] skip_bounds [of bs vs 0 ve] by simp_all
  then show ?case by simp
qed simp

declare extract_info_loop.simps [simp del]

definition extract_info_dictionary_slice :: "bytes \<Rightarrow> torrent_parse_error + bytes" where
  "extract_info_dictionary_slice bs =
     (if bs = [] \<or> hd bs \<noteq> 100
      then Inl (InvalidBencode ''top-level value must be a dictionary'')
      else extract_info_loop bs 1)"

section \<open>Metadata from the decoded dictionaries\<close>

text \<open>The loop over the files of a multi-file torrent: every path is validated, sizes are added.\<close>

fun sum_files :: "bool \<Rightarrow> rstring \<Rightarrow> raw_file list \<Rightarrow> nat \<Rightarrow> torrent_parse_error + nat" where
  "sum_files win name [] acc = Inr acc"
| "sum_files win name (f # fs) acc =
     (case build_file_path win [] name True (rf_path f) of
        Inl e \<Rightarrow> Inl (InvalidTorrent (BadPath e))
      | Inr _ \<Rightarrow>
          (case checked_add_u64 acc (unat (rf_length f)) of
             None \<Rightarrow> Inl (InvalidTorrent TotalSizeOverflow)
           | Some acc' \<Rightarrow> sum_files win name fs acc'))"

definition raw_total_length :: "bool \<Rightarrow> rstring \<Rightarrow> raw_info \<Rightarrow> torrent_parse_error + nat" where
  "raw_total_length win name info =
     (case (ri_length info, ri_files info) of
        (Some len, None) \<Rightarrow> Inr (unat len)
      | (None, Some files) \<Rightarrow>
          if files = [] then Inl (InvalidTorrent NoFiles) else sum_files win name files 0
      | _ \<Rightarrow> Inl (InvalidTorrent LengthXorFiles))"

definition to_torrent_file :: "raw_file \<Rightarrow> torrent_file" where
  "to_torrent_file f = \<lparr>tf_length = unat (rf_length f), tf_path = rf_path f\<rparr>"

definition build_meta ::
  "bool \<Rightarrow> rstring \<Rightarrow> raw_info \<Rightarrow> bytes \<Rightarrow> torrent_parse_error + torrent_meta" where
  "build_meta win announce info info_hash =
     (let pieces_len = length (ri_pieces info); piece_length = unat (ri_piece_length info) in
      if pieces_len mod 20 \<noteq> 0 then Inl (InvalidPiecesLength pieces_len)
      else if piece_length = 0 \<or> piece_length > MAX_PIECE_LENGTH
      then Inl (InvalidTorrent (UnsupportedPieceLength piece_length))
      else case sanitize_path_component win (ri_name info) of
        Inl e \<Rightarrow> Inl (InvalidTorrent (BadPath e))
      | Inr name \<Rightarrow>
          (case raw_total_length win name info of
             Inl e \<Rightarrow> Inl e
           | Inr total_length \<Rightarrow>
               if total_length = 0 then Inl (InvalidTorrent NoData)
               else let piece_count = div_ceil total_length piece_length in
                 if piece_count \<noteq> pieces_len div 20
                 then Inl (InvalidTorrent (PieceCountMismatch piece_count (pieces_len div 20)))
                 else let ps = chunks_exact 20 (ri_pieces info) in
                   Inr (meta_new announce name piece_length (as_u32 (length ps)) ps
                     (map_option unat (ri_length info))
                     (map_option (map to_torrent_file) (ri_files info)) info_hash)))"

text \<open>
  The entry points. \<open>sha1\<close> is \<open>crypto::core::hash_sha1\<close>, \<open>de_info\<close> and \<open>de_torrent\<close> are
  \<open>serde_bencode::from_bytes\<close> at the types \<open>RawInfo\<close> and \<open>RawTorrent\<close>.
\<close>

definition parse_torrent_metadata_bytes ::
  "bool \<Rightarrow> (bytes \<Rightarrow> bytes) \<Rightarrow> (bytes \<Rightarrow> string + raw_info) \<Rightarrow> bytes \<Rightarrow> bytes
   \<Rightarrow> torrent_parse_error + torrent_meta" where
  "parse_torrent_metadata_bytes win sha1 de_info info_bytes expected_info_hash =
     (if length info_bytes > MAX_TORRENT_SIZE then Inl (InvalidBencode ''metadata is too large'')
      else let actual_hash = sha1 info_bytes in
        if actual_hash \<noteq> expected_info_hash
        then Inl (InvalidBencode ''SHA-1 mismatch for metadata'')
        else case check_bencode_depth info_bytes of
          Inl e \<Rightarrow> Inl e
        | Inr _ \<Rightarrow>
            (case de_info info_bytes of
               Inl e \<Rightarrow> Inl (Decode e)
             | Inr raw \<Rightarrow> build_meta win [] raw actual_hash))"

definition parse_torrent_bytes ::
  "bool \<Rightarrow> (bytes \<Rightarrow> bytes) \<Rightarrow> (bytes \<Rightarrow> string + raw_torrent) \<Rightarrow> bytes
   \<Rightarrow> torrent_parse_error + torrent_meta" where
  "parse_torrent_bytes win sha1 de_torrent bs =
     (if length bs > MAX_TORRENT_SIZE then Inl (InvalidBencode ''torrent file is too large'')
      else case check_bencode_depth bs of
        Inl e \<Rightarrow> Inl e
      | Inr _ \<Rightarrow>
          (case de_torrent bs of
             Inl e \<Rightarrow> Inl (Decode e)
           | Inr raw \<Rightarrow>
               (case extract_info_dictionary_slice bs of
                  Inl e \<Rightarrow> Inl e
                | Inr info_slice \<Rightarrow>
                    (case build_meta win (rt_announce raw) (rt_info raw) (sha1 info_slice) of
                       Inl e \<Rightarrow> Inl e
                     | Inr m \<Rightarrow> Inr (with_extra_trackers m (concat (rt_announce_list raw)))))))"

text \<open>\<open>parse_torrent_file\<close>: \<open>meta\<close> and \<open>contents\<close> are what \<open>fs::metadata\<close> and \<open>fs::read\<close> return.\<close>

definition parse_torrent_file ::
  "bool \<Rightarrow> (bytes \<Rightarrow> bytes) \<Rightarrow> (bytes \<Rightarrow> string + raw_torrent) \<Rightarrow> string + nat \<Rightarrow> string + bytes
   \<Rightarrow> torrent_parse_error + torrent_meta" where
  "parse_torrent_file win sha1 de_torrent file_len contents =
     (case file_len of
        Inl e \<Rightarrow> Inl (Io e)
      | Inr n \<Rightarrow>
          if n > MAX_TORRENT_SIZE then Inl (InvalidBencode ''torrent file is too large'')
          else case contents of
            Inl e \<Rightarrow> Inl (Io e)
          | Inr bs \<Rightarrow> parse_torrent_bytes win sha1 de_torrent bs)"

end
