(* ===== verification/BencodeSpec.thy ===== *)
theory BencodeSpec
  imports Bencode
begin

text \<open>
  What the scanners of \<open>Bencode\<close> do on well-formed input. Bencoded values are a datatype with their
  encoding (BEP 3); the scanners are shown to step over exactly one encoded value, to reject exactly
  the values that nest too deeply, and to cut out exactly the encoding of the \<open>info\<close> value, over
  which the info hash is computed.
\<close>

section \<open>Bencoded values\<close>

datatype bval =
    BInt int
  | BStr bytes
  | BList "bval list"
  | BDict "(bytes \<times> bval) list"

fun dec_digits :: "nat \<Rightarrow> bytes" where
  "dec_digits n =
     (if n < 10 then [word_of_nat (48 + n)]
      else dec_digits (n div 10) @ [word_of_nat (48 + n mod 10)])"

declare dec_digits.simps [simp del]

definition dec_int :: "int \<Rightarrow> bytes" where
  "dec_int n = (if n < 0 then 45 # dec_digits (nat (- n)) else dec_digits (nat n))"

definition bencode_str :: "bytes \<Rightarrow> bytes" where
  "bencode_str s = dec_digits (length s) @ [58] @ s"

primrec bencode :: "bval \<Rightarrow> bytes" where
  "bencode (BInt n) = [105] @ dec_int n @ [101]"
| "bencode (BStr s) = bencode_str s"
| "bencode (BList vs) = [108] @ concat (map bencode vs) @ [101]"
| "bencode (BDict kvs) =
     [100] @ concat (map (\<lambda>(k, e). bencode_str k @ e) (map (map_prod id bencode) kvs)) @ [101]"

text \<open>The number of containers around the innermost value, and the height of the value.\<close>

primrec nest :: "bval \<Rightarrow> nat" where
  "nest (BInt n) = 0"
| "nest (BStr s) = 0"
| "nest (BList vs) = Suc (foldr max (map nest vs) 0)"
| "nest (BDict kvs) = Suc (foldr max (map snd (map (map_prod id nest) kvs)) 0)"

primrec height :: "bval \<Rightarrow> nat" where
  "height (BInt n) = 0"
| "height (BStr s) = 0"
| "height (BList vs) = foldr max (map Suc (map height vs)) 0"
| "height (BDict kvs) = foldr max (map (Suc \<circ> snd) (map (map_prod id height) kvs)) 0"

primrec bencode_items :: "(bytes \<times> bval) list \<Rightarrow> bytes" where
  "bencode_items [] = []"
| "bencode_items (kv # kvs) = bencode_str (fst kv) @ bencode (snd kv) @ bencode_items kvs"

lemma bencode_BDict: "bencode (BDict kvs) = [100] @ bencode_items kvs @ [101]"
proof -
  have "concat (map (\<lambda>(k, e). bencode_str k @ e) (map (map_prod id bencode) kvs)) = bencode_items kvs"
    by (induction kvs) auto
  then show ?thesis by simp
qed

lemma nest_BDict: "nest (BDict kvs) = Suc (foldr max (map (nest \<circ> snd) kvs) 0)"
  by simp

lemma height_BDict: "height (BDict kvs) = foldr max (map (Suc \<circ> height \<circ> snd) kvs) 0"
  by (simp add: comp_assoc)

declare bencode.simps(4) [simp del] nest.simps(4) [simp del] height.simps(4) [simp del]
declare bencode_BDict [simp] nest_BDict [simp] height_BDict [simp]

lemma foldr_max_le: "foldr max xs 0 \<le> k \<longleftrightarrow> (\<forall>x \<in> set xs. x \<le> k)" for k :: nat
  by (induction xs) auto

lemma add_foldr_max_le: "d + foldr max xs 0 \<le> k \<longleftrightarrow> d \<le> k \<and> (\<forall>x \<in> set xs. d + x \<le> k)" for k :: nat
  by (induction xs) auto

lemma add_max_le: "d + max a b \<le> k \<longleftrightarrow> d + a \<le> k \<and> d + b \<le> k" for k :: nat
  by auto

section \<open>Positions in a byte string\<close>

text \<open>\<open>at bs i xs\<close>: the bytes \<open>xs\<close> stand at index \<open>i\<close> of \<open>bs\<close>.\<close>

definition at :: "'a list \<Rightarrow> nat \<Rightarrow> 'a list \<Rightarrow> bool" where
  "at bs i xs \<longleftrightarrow> (\<exists>post. drop i bs = xs @ post)"

lemma at_Nil [simp]: "at bs i []"
  by (simp add: at_def)

lemma at_Cons [simp]: "at bs i (x # xs) \<longleftrightarrow> i < length bs \<and> bs ! i = x \<and> at bs (Suc i) xs"
proof (cases "i < length bs")
  case True
  then show ?thesis by (auto simp: at_def Cons_nth_drop_Suc [symmetric])
next
  case False
  then show ?thesis by (simp add: at_def)
qed

lemma at_append [simp]: "at bs i (xs @ ys) \<longleftrightarrow> at bs i xs \<and> at bs (i + length xs) ys"
  by (induction xs arbitrary: i) auto

lemma at_le: "at bs i xs \<Longrightarrow> xs \<noteq> [] \<Longrightarrow> i + length xs \<le> length bs"
  unfolding at_def by (metis append_is_Nil_conv drop_eq_Nil le_cases length_append length_drop
      le_add1 le_diff_conv add.commute ordered_cancel_comm_monoid_diff_class.le_diff_conv2)

lemma at_slice: "at bs i xs \<Longrightarrow> slice i (i + length xs) bs = xs"
  by (auto simp: at_def slice_def)

lemma at_self [simp]: "at (xs @ ys) 0 xs"
  by (simp add: at_def)

lemma scan_while_at:
  "at bs i (xs @ [c]) \<Longrightarrow> list_all p xs \<Longrightarrow> \<not> p c \<Longrightarrow> scan_while p bs i = i + length xs"
proof (induction xs arbitrary: i)
  case Nil
  then show ?case by (simp add: scan_while.simps)
next
  case (Cons x xs)
  then have "scan_while p bs (Suc i) = Suc i + length xs" by (intro Cons.IH) auto
  with Cons.prems show ?case by (subst scan_while.simps) simp
qed

lemma scan_len_at:
  "at bs i (xs @ [c]) \<Longrightarrow> list_all is_ascii_digit xs \<Longrightarrow> \<not> is_ascii_digit c \<Longrightarrow>
     scan_len bs i len = (i + length xs,
       foldl (\<lambda>acc b. saturating_add U64_MAX (saturating_mul U64_MAX acc 10) (unat (b - 48))) len xs)"
proof (induction xs arbitrary: i len)
  case Nil
  then show ?case by (simp add: scan_len.simps)
next
  case (Cons x xs)
  then show ?case by (subst scan_len.simps) (simp add: Cons.IH)
qed

section \<open>Decimal numbers\<close>

lemma digit_byte: "n < 10 \<Longrightarrow> is_ascii_digit (word_of_nat (48 + n))
    \<and> unat (word_of_nat (48 + n) - (48 :: byte)) = n"
proof -
  assume "n < 10"
  define w :: byte where "w = word_of_nat (48 + n)"
  have u: "unat w = 48 + n" using \<open>n < 10\<close> unfolding w_def by (simp only: unat_of_nat) simp
  then have "is_ascii_digit w" using \<open>n < 10\<close> by (simp add: is_ascii_digit_def word_le_nat_alt)
  moreover have "unat (w - 48) = n" using u by (simp add: unat_sub word_le_nat_alt)
  ultimately show ?thesis by (simp only: w_def)
qed

lemma dec_digits_ok: "list_all is_ascii_digit (dec_digits n) \<and> dec_val (dec_digits n) = n
    \<and> dec_digits n \<noteq> []"
proof (induction n rule: dec_digits.induct)
  case (1 n)
  show ?case
  proof (cases "n < 10")
    case True
    then show ?thesis using digit_byte [OF True] by (simp add: dec_digits.simps [of n] dec_val_def)
  next
    case False
    with 1 digit_byte [of "n mod 10"] show ?thesis
      by (simp add: dec_digits.simps [of n] dec_val_def)
  qed
qed

lemmas dec_digits_simps = dec_digits_ok [THEN conjunct1]
  dec_digits_ok [THEN conjunct2, THEN conjunct1] dec_digits_ok [THEN conjunct2, THEN conjunct2]

lemma saturating_fold:
  "foldl (\<lambda>acc b. saturating_add U64_MAX (saturating_mul U64_MAX acc 10) (unat (b - 48)))
     (min U64_MAX n) ds = min U64_MAX (foldl (\<lambda>acc b. acc * 10 + unat (b - 48)) n ds)"
proof (induction ds arbitrary: n)
  case Nil
  then show ?case by simp
next
  case (Cons d ds)
  have "saturating_add U64_MAX (saturating_mul U64_MAX (min U64_MAX n) 10) (unat (d - 48))
      = min U64_MAX (n * 10 + unat (d - 48))"
    by (auto simp: saturating_add_def saturating_mul_def min_def)
  with Cons show ?case by simp
qed

lemma dec_int_no_e: "101 \<notin> set (dec_int n)"
proof -
  have "101 \<notin> set (dec_digits k)" for k
    using dec_digits_simps(1) [of k] by (auto simp: list_all_iff is_ascii_digit_def)
  then show ?thesis by (simp add: dec_int_def)
qed

section \<open>One byte string, one value\<close>

lemma parse_byte_string_at:
  assumes "at bs i (bencode_str s)" "length bs \<le> U64_MAX"
  shows "parse_byte_string bs i = Inr (s, i + length (bencode_str s))"
proof -
  let ?ds = "dec_digits (length s)"
  have a: "at bs i (?ds @ [58])" and sl: "at bs (i + length ?ds + 1) s"
    using assms(1) by (simp_all add: bencode_str_def)
  have scan: "scan_while is_ascii_digit bs i = i + length ?ds"
    by (rule scan_while_at [OF a]) (simp_all add: dec_digits_simps is_ascii_digit_def)
  obtain d ds where ds: "?ds = d # ds" using dec_digits_simps(3) by (cases ?ds) auto
  then have "is_ascii_digit d" using dec_digits_simps(1) [of "length s"] by simp
  then have first: "i < length bs" "is_ascii_digit (bs ! i)" using a by (simp_all add: ds)
  have bound: "i + length ?ds + 1 + length s \<le> length bs"
    using at_le [OF assms(1)] by (simp add: bencode_str_def)
  have len: "dec_val (slice i (i + length ?ds) bs) = length s"
    using at_slice [of bs i ?ds] a by (simp add: dec_digits_simps)
  have colon: "bs ! (i + length ?ds) = 58" using a by simp
  show ?thesis
    using first scan colon len bound assms(2) at_slice [OF sl]
    by (simp add: parse_byte_string_def Let_def bencode_str_def add.assoc)
qed

lemma bencode_first:
  "bencode v \<noteq> [] \<and> (case v of BInt _ \<Rightarrow> hd (bencode v) = 105 | BStr _ \<Rightarrow> is_ascii_digit (hd (bencode v))
     | BList _ \<Rightarrow> hd (bencode v) = 108 | BDict _ \<Rightarrow> hd (bencode v) = 100)"
proof (cases v)
  case (BStr s)
  obtain d ds where "dec_digits (length s) = d # ds"
    using dec_digits_simps(3) by (cases "dec_digits (length s)") auto
  with BStr dec_digits_simps(1) [of "length s"] show ?thesis by (simp add: bencode_str_def)
qed simp_all

lemma digit_not_special: "is_ascii_digit b \<Longrightarrow> b \<noteq> 101 \<and> b \<noteq> 105 \<and> b \<noteq> 108 \<and> b \<noteq> 100 \<and> b \<noteq> 58"
  by (auto simp: is_ascii_digit_def)

lemma bencode_first_not_e: "at bs i (bencode v) \<Longrightarrow> i < length bs \<and> bs ! i \<noteq> 101"
  using bencode_first [of v] digit_not_special
  by (cases "bencode v") (auto split: bval.splits)

lemma bencode_str_first: "at bs i (bencode_str s) \<Longrightarrow> i < length bs \<and> is_ascii_digit (bs ! i)"
  using bencode_first [of "BStr s"] by (cases "bencode_str s") auto

abbreviation too_deep :: "torrent_parse_error + 'a" where
  "too_deep \<equiv> Inl (InvalidBencode ''bencode nesting is too deep'')"

lemma skip_list_items_at:
  assumes "\<And>v bs i d. v \<in> set vs \<Longrightarrow> at bs i (bencode v) \<Longrightarrow> length bs \<le> U64_MAX \<Longrightarrow>
      skip_bencode_value bs i d
        = (if d + height v \<le> MAX_BENCODE_DEPTH then Inr (i + length (bencode v)) else too_deep)"
    and "at bs i (concat (map bencode vs) @ [101])" "length bs \<le> U64_MAX"
  shows "skip_list_items bs i d = (if \<forall>v \<in> set vs. d + Suc (height v) \<le> MAX_BENCODE_DEPTH
      then Inr (i + length (concat (map bencode vs)) + 1) else too_deep)"
  using assms
proof (induction vs arbitrary: i)
  case Nil
  then show ?case by (simp add: skip_list_items.simps)
next
  case (Cons v vs)
  from Cons.prems(1) [of v bs i "Suc d"] Cons.prems(2,3) have v: "skip_bencode_value bs i (Suc d)
      = (if Suc d + height v \<le> MAX_BENCODE_DEPTH then Inr (i + length (bencode v)) else too_deep)"
    by simp
  have rest: "skip_list_items bs (i + length (bencode v)) d
      = (if \<forall>v \<in> set vs. d + Suc (height v) \<le> MAX_BENCODE_DEPTH
         then Inr (i + length (bencode v) + length (concat (map bencode vs)) + 1) else too_deep)"
    using Cons.prems by (intro Cons.IH) auto
  have ne: "i < length bs \<and> bs ! i \<noteq> 101"
    using Cons.prems(2) by (intro bencode_first_not_e [of _ _ v]) simp
  then show ?case
    by (subst skip_list_items.simps) (auto simp: v rest add.assoc)
qed

lemma skip_dict_items_at:
  assumes "\<And>kv bs i d. kv \<in> set kvs \<Longrightarrow> at bs i (bencode (snd kv)) \<Longrightarrow> length bs \<le> U64_MAX \<Longrightarrow>
      skip_bencode_value bs i d
        = (if d + height (snd kv) \<le> MAX_BENCODE_DEPTH
           then Inr (i + length (bencode (snd kv))) else too_deep)"
    and "at bs i (bencode_items kvs @ [101])"
    and "length bs \<le> U64_MAX"
  shows "skip_dict_items bs i d = (if \<forall>kv \<in> set kvs. d + Suc (height (snd kv)) \<le> MAX_BENCODE_DEPTH
      then Inr (i + length (bencode_items kvs) + 1) else too_deep)"
  using assms
proof (induction kvs arbitrary: i)
  case Nil
  then show ?case by (simp add: skip_dict_items.simps)
next
  case (Cons kv kvs)
  obtain k v where kv: "kv = (k, v)" by (cases kv)
  have key: "at bs i (bencode_str k)" using Cons.prems(2) kv by simp
  from Cons.prems(1) [of kv bs "i + length (bencode_str k)" "Suc d"] Cons.prems(2,3) kv
  have v: "skip_bencode_value bs (i + length (bencode_str k)) (Suc d)
      = (if Suc d + height v \<le> MAX_BENCODE_DEPTH
         then Inr (i + length (bencode_str k) + length (bencode v)) else too_deep)"
    by simp
  have rest: "skip_dict_items bs (i + length (bencode_str k) + length (bencode v)) d
      = (if \<forall>kv \<in> set kvs. d + Suc (height (snd kv)) \<le> MAX_BENCODE_DEPTH
         then Inr (i + length (bencode_str k) + length (bencode v)
           + length (bencode_items kvs) + 1)
         else too_deep)"
    using Cons.prems kv by (intro Cons.IH) (auto simp: add.assoc)
  from bencode_str_first [OF key] have "i < length bs \<and> bs ! i \<noteq> 101"
    using digit_not_special by blast
  then show ?case
    by (subst skip_dict_items.simps)
       (auto simp: kv v rest parse_byte_string_at [OF key Cons.prems(3)])
qed

lemma skip_bencode_value_at:
  "at bs i (bencode v) \<Longrightarrow> length bs \<le> U64_MAX \<Longrightarrow>
     skip_bencode_value bs i d
       = (if d + height v \<le> MAX_BENCODE_DEPTH then Inr (i + length (bencode v)) else too_deep)"
proof (induction v arbitrary: bs i d)
  case (BInt n)
  then have "scan_while (\<lambda>c. c \<noteq> 101) bs (Suc i) = Suc i + length (dec_int n)"
    using dec_int_no_e [of n]
    by (intro scan_while_at [where c = 101]) (auto simp: list_all_iff)
  with BInt show ?case by (auto simp: skip_bencode_value.simps Let_def)
next
  case (BStr s)
  then have a: "at bs i (bencode_str s)" by simp
  with bencode_str_first [OF a] digit_not_special [of "bs ! i"] show ?case
    by (subst skip_bencode_value.simps)
       (simp add: parse_byte_string_at [OF a BStr.prems(2)])
next
  case (BList vs)
  have "skip_list_items bs (i + 1) d = (if \<forall>v \<in> set vs. d + Suc (height v) \<le> MAX_BENCODE_DEPTH
      then Inr (i + 1 + length (concat (map bencode vs)) + 1) else too_deep)"
    using BList by (intro skip_list_items_at) simp_all
  with BList.prems show ?case
    by (subst skip_bencode_value.simps) (auto simp: add_foldr_max_le)
next
  case (BDict kvs)
  have "skip_dict_items bs (i + 1) d = (if \<forall>kv \<in> set kvs. d + Suc (height (snd kv)) \<le> MAX_BENCODE_DEPTH
      then Inr (i + 1 + length (bencode_items kvs) + 1) else too_deep)"
    using BDict by (intro skip_dict_items_at) (auto simp: snds.simps)
  with BDict.prems show ?case
    by (subst skip_bencode_value.simps) (auto simp: add_foldr_max_le)
qed

section \<open>The depth check on encoded values\<close>

lemma check_loop_str:
  assumes "at bs i (bencode_str s)" "length bs < U64_MAX"
  shows "check_loop bs depth i = check_loop bs depth (i + length (bencode_str s))"
proof -
  let ?ds = "dec_digits (length s)"
  have a: "at bs i (?ds @ [58])" using assms(1) by (simp add: bencode_str_def)
  have bound: "i + length ?ds + 1 + length s \<le> length bs"
    using at_le [OF assms(1)] by (simp add: bencode_str_def)
  have "scan_len bs i 0 = (i + length ?ds, min U64_MAX (length s))"
    using scan_len_at [OF a, of 0] saturating_fold [of 0 ?ds] dec_digits_simps [of "length s"]
    by (simp add: is_ascii_digit_def dec_val_def)
  then have "saturating_add U64_MAX (saturating_add U64_MAX (fst (scan_len bs i 0)) 1)
      (snd (scan_len bs i 0)) = i + length (bencode_str s)"
    using bound assms(2) by (simp add: saturating_add_def bencode_str_def)
  moreover have "i < length bs" "is_ascii_digit (bs ! i)"
    using bencode_str_first [OF assms(1)] by simp_all
  ultimately show ?thesis using assms(2) digit_not_special [of "bs ! i"]
    by (subst check_loop.simps) (simp add: Let_def)
qed

lemma check_loop_items:
  assumes "\<And>v bs i d. v \<in> set vs \<Longrightarrow> at bs i (bencode v) \<Longrightarrow> length bs < U64_MAX \<Longrightarrow>
      d \<le> MAX_BENCODE_DEPTH \<Longrightarrow> check_loop bs d i
        = (if d + nest v \<le> MAX_BENCODE_DEPTH then check_loop bs d (i + length (bencode v)) else too_deep)"
    and "at bs i (concat (map bencode vs))" "length bs < U64_MAX" "d \<le> MAX_BENCODE_DEPTH"
  shows "check_loop bs d i = (if d + foldr max (map nest vs) 0 \<le> MAX_BENCODE_DEPTH
      then check_loop bs d (i + length (concat (map bencode vs))) else too_deep)"
  using assms
proof (induction vs arbitrary: i)
  case Nil
  then show ?case by simp
next
  case (Cons v vs)
  have v: "check_loop bs d i = (if d + nest v \<le> MAX_BENCODE_DEPTH
      then check_loop bs d (i + length (bencode v)) else too_deep)"
    using Cons.prems by simp
  have "check_loop bs d (i + length (bencode v))
      = (if d + foldr max (map nest vs) 0 \<le> MAX_BENCODE_DEPTH
         then check_loop bs d (i + length (bencode v) + length (concat (map bencode vs))) else too_deep)"
    using Cons.prems by (intro Cons.IH) auto
  with v show ?case by (simp add: add.assoc) linarith
qed

lemma check_loop_dict_items:
  assumes "\<And>kv bs i d. kv \<in> set kvs \<Longrightarrow> at bs i (bencode (snd kv)) \<Longrightarrow> length bs < U64_MAX \<Longrightarrow>
      d \<le> MAX_BENCODE_DEPTH \<Longrightarrow> check_loop bs d i
        = (if d + nest (snd kv) \<le> MAX_BENCODE_DEPTH
           then check_loop bs d (i + length (bencode (snd kv))) else too_deep)"
    and "at bs i (bencode_items kvs)"
    and "length bs < U64_MAX" "d \<le> MAX_BENCODE_DEPTH"
  shows "check_loop bs d i
      = (if d + foldr max (map (nest \<circ> snd) kvs) 0 \<le> MAX_BENCODE_DEPTH
         then check_loop bs d (i + length (bencode_items kvs)) else too_deep)"
  using assms
proof (induction kvs arbitrary: i)
  case Nil
  then show ?case by simp
next
  case (Cons kv kvs)
  obtain k v where kv: "kv = (k, v)" by (cases kv)
  let ?i = "i + length (bencode_str k)"
  have k: "check_loop bs d i = check_loop bs d ?i"
    using Cons.prems kv by (intro check_loop_str) auto
  have v: "check_loop bs d ?i = (if d + nest v \<le> MAX_BENCODE_DEPTH
      then check_loop bs d (?i + length (bencode v)) else too_deep)"
    using Cons.prems(1) [of kv bs ?i d] Cons.prems(2-) kv by simp
  have "check_loop bs d (?i + length (bencode v))
      = (if d + foldr max (map (nest \<circ> snd) kvs) 0 \<le> MAX_BENCODE_DEPTH
         then check_loop bs d (?i + length (bencode v) + length (bencode_items kvs)) else too_deep)"
    using Cons.prems kv by (intro Cons.IH) (auto simp: add.assoc)
  with k v show ?case by (auto simp: kv comp_def add.assoc add_max_le)
qed

lemma check_loop_at:
  "at bs i (bencode v) \<Longrightarrow> length bs < U64_MAX \<Longrightarrow> d \<le> MAX_BENCODE_DEPTH \<Longrightarrow>
     check_loop bs d i
       = (if d + nest v \<le> MAX_BENCODE_DEPTH then check_loop bs d (i + length (bencode v)) else too_deep)"
proof (induction v arbitrary: bs i d)
  case (BInt n)
  have "scan_while (\<lambda>c. c \<noteq> 101) bs i = i + length (105 # dec_int n)"
    using dec_int_no_e [of n] BInt
    by (intro scan_while_at [where c = 101]) (auto simp: list_all_iff)
  with BInt show ?case by (subst check_loop.simps) (simp add: Let_def)
next
  case (BStr s)
  then show ?case by (simp add: check_loop_str)
next
  case (BList vs)
  let ?e = "i + 1 + length (concat (map bencode vs))"
  have items: "check_loop bs (d + 1) (i + 1)
      = (if d + 1 + foldr max (map nest vs) 0 \<le> MAX_BENCODE_DEPTH
         then check_loop bs (d + 1) ?e else too_deep)" if "d + 1 \<le> MAX_BENCODE_DEPTH"
    using BList that by (intro check_loop_items) simp_all
  have close: "check_loop bs (d + 1) ?e = check_loop bs d (?e + 1)"
    using BList.prems by (subst check_loop.simps) (simp add: Let_def)
  from BList.prems show ?case
    by (subst check_loop.simps)
       (use items close in \<open>auto simp: Let_def not_le\<close>)
next
  case (BDict kvs)
  let ?e = "i + 1 + length (bencode_items kvs)"
  have items: "check_loop bs (d + 1) (i + 1)
      = (if d + 1 + foldr max (map (nest \<circ> snd) kvs) 0 \<le> MAX_BENCODE_DEPTH
         then check_loop bs (d + 1) ?e else too_deep)" if "d + 1 \<le> MAX_BENCODE_DEPTH"
    using BDict that by (intro check_loop_dict_items) (auto simp: snds.simps)
  have close: "check_loop bs (d + 1) ?e = check_loop bs d (?e + 1)"
    using BDict.prems by (subst check_loop.simps) (simp add: Let_def)
  from BDict.prems show ?case
    by (subst check_loop.simps)
       (use items close in \<open>auto simp: Let_def not_le\<close>)
qed

section \<open>The info dictionary\<close>

lemma extract_info_loop_at:
  assumes "at bs i (bencode_items kvs @ [101])" "length bs \<le> U64_MAX"
    "\<forall>kv \<in> set kvs. height (snd kv) \<le> MAX_BENCODE_DEPTH"
  shows "extract_info_loop bs i
     = (case map_of kvs info_key of Some v \<Rightarrow> Inr (bencode v) | None \<Rightarrow> Inl MissingInfoDictionary)"
  using assms
proof (induction kvs arbitrary: i)
  case Nil
  then show ?case by (simp add: extract_info_loop.simps)
next
  case (Cons kv kvs)
  obtain k v where kv: "kv = (k, v)" by (cases kv)
  let ?vs = "i + length (bencode_str k)"
  have key: "at bs i (bencode_str k)" and val: "at bs ?vs (bencode v)"
    using Cons.prems(1) kv by simp_all
  have skip: "skip_bencode_value bs ?vs 0 = Inr (?vs + length (bencode v))"
    using skip_bencode_value_at [OF val Cons.prems(2), of 0] Cons.prems(3) kv by simp
  have rest: "extract_info_loop bs (?vs + length (bencode v))
     = (case map_of kvs info_key of Some v \<Rightarrow> Inr (bencode v) | None \<Rightarrow> Inl MissingInfoDictionary)"
    using Cons.prems kv by (intro Cons.IH) (auto simp: add.assoc)
  have "i < length bs \<and> bs ! i \<noteq> 101"
    using bencode_str_first [OF key] digit_not_special by blast
  then show ?case
    using at_slice [OF val] skip rest parse_byte_string_at [OF key Cons.prems(2)]
    unfolding extract_info_loop.simps [of bs i] by (cases "k = info_key") (simp_all add: kv)
qed

lemma extract_info_dictionary_slice_at:
  assumes "length (bencode (BDict kvs) @ post) \<le> U64_MAX"
    "\<forall>kv \<in> set kvs. height (snd kv) \<le> MAX_BENCODE_DEPTH"
  shows "extract_info_dictionary_slice (bencode (BDict kvs) @ post)
     = (case map_of kvs info_key of Some v \<Rightarrow> Inr (bencode v) | None \<Rightarrow> Inl MissingInfoDictionary)"
proof -
  let ?bs = "bencode (BDict kvs) @ post"
  have "at ?bs 1 (bencode_items kvs @ [101])" unfolding at_def by auto
  with extract_info_loop_at [of ?bs 1 kvs] assms show ?thesis
    by (simp add: extract_info_dictionary_slice_def)
qed

lemma extract_info_loop_sub:
  "extract_info_loop bs index = Inr s \<Longrightarrow> \<exists>i j. i < j \<and> j \<le> length bs \<and> s = slice i j bs
     \<and> skip_bencode_value bs i 0 = Inr j"
proof (induction bs index rule: extract_info_loop.induct)
  case (1 bs index)
  from "1.prems" obtain k vs ve where g: "index < length bs \<and> bs ! index \<noteq> 101"
    and p: "parse_byte_string bs index = Inr (k, vs)" and v: "skip_bencode_value bs vs 0 = Inr ve"
    and r: "if k = info_key then s = slice vs ve bs else extract_info_loop bs ve = Inr s"
    by (subst (asm) extract_info_loop.simps) (auto split: if_splits sum.splits)
  show ?case
  proof (cases "k = info_key")
    case True
    with r v skip_bounds [OF v] show ?thesis by auto
  next
    case False
    with r "1.IH" [OF g p refl v] show ?thesis by simp
  qed
qed

section \<open>The metadata\<close>

lemma sum_files_Inr:
  "sum_files win name fs acc = Inr t \<Longrightarrow> acc \<le> U64_MAX \<Longrightarrow>
     t = acc + sum_list (map (\<lambda>f. unat (rf_length f)) fs) \<and> t \<le> U64_MAX
     \<and> (\<forall>f \<in> set fs. is_ok (build_file_path win [] name True (rf_path f)))"
proof (induction fs arbitrary: acc)
  case Nil
  then show ?case by simp
next
  case (Cons f fs)
  from Cons.prems obtain p where p: "build_file_path win [] name True (rf_path f) = Inr p"
    and le: "acc + unat (rf_length f) \<le> U64_MAX"
    and r: "sum_files win name fs (acc + unat (rf_length f)) = Inr t"
    by (auto simp: checked_add_u64_def split: sum.splits if_splits)
  from Cons.IH [OF r le] p show ?case by auto
qed

lemma fold_saturating_sum:
  "acc + sum_list (map tf_length fs) \<le> U64_MAX \<Longrightarrow>
     foldl (\<lambda>acc f. saturating_add U64_MAX acc (tf_length f)) acc fs = acc + sum_list (map tf_length fs)"
  by (induction fs arbitrary: acc) (simp_all add: add.assoc)

lemma unat_u64: "unat (w :: 64 word) \<le> U64_MAX"
  using unsigned_less [of w, where 'a = nat] by (simp add: U64_MAX_def)

lemma raw_total_length_Inr:
  assumes "raw_total_length win name info = Inr t"
  shows "t \<le> U64_MAX \<and> tm_total_length (meta_new a n pl c ps (map_option unat (ri_length info))
      (map_option (map to_torrent_file) (ri_files info)) h) = Some t
    \<and> (\<forall>fs. ri_files info = Some fs \<longrightarrow>
          (\<forall>f \<in> set fs. is_ok (build_file_path win [] name True (rf_path f))))"
proof (cases "ri_length info")
  case (Some len)
  with assms show ?thesis
    by (auto simp: raw_total_length_def meta_new_def unat_u64 split: option.splits)
next
  case None
  with assms obtain fs where fs: "ri_files info = Some fs" "sum_files win name fs 0 = Inr t"
    by (auto simp: raw_total_length_def split: option.splits if_splits)
  note t = sum_files_Inr [OF fs(2)]
  have "foldl (\<lambda>acc f. saturating_add U64_MAX acc (tf_length f)) 0 (map to_torrent_file fs) = t"
    using t fold_saturating_sum [of 0 "map to_torrent_file fs"]
    by (simp add: to_torrent_file_def comp_def)
  with None fs t show ?thesis by (auto simp: meta_new_def)
qed

lemma build_meta_Inr:
  assumes "build_meta win announce info h = Inr m"
  shows "meta_wf m \<and> tm_info_hash m = h \<and> safe_component win (tm_name m)
    \<and> tm_trackers m = (if is_supported_tracker announce then [announce] else [])
    \<and> concat (tm_pieces m) = ri_pieces info
    \<and> (\<forall>fs. tm_files m = Some fs \<longrightarrow>
         (\<forall>f \<in> set fs. is_ok (build_file_path win [] (tm_name m) True (tf_path f))))"
proof -
  let ?pl = "unat (ri_piece_length info)" and ?ps = "chunks_exact 20 (ri_pieces info)"
  from assms obtain name t where d: "length (ri_pieces info) mod 20 = 0"
    and pl: "?pl \<noteq> 0" "?pl \<le> MAX_PIECE_LENGTH"
    and name: "sanitize_path_component win (ri_name info) = Inr name"
    and t: "raw_total_length win name info = Inr t" "t \<noteq> 0"
    and c: "div_ceil t ?pl = length (ri_pieces info) div 20"
    and m: "m = meta_new announce name ?pl (as_u32 (length ?ps)) ?ps
       (map_option unat (ri_length info)) (map_option (map to_torrent_file) (ri_files info)) h"
    by (auto simp: build_meta_def Let_def split: if_splits sum.splits)
  have proj: "tm_piece_length m = ?pl" "tm_pieces m = ?ps" "tm_info_hash m = h" "tm_name m = name"
    "tm_files m = map_option (map to_torrent_file) (ri_files info)"
    "tm_pieces_count m = as_u32 (length ?ps)"
    "tm_trackers m = (if is_supported_tracker announce then [announce] else [])"
    by (simp_all add: m meta_new_def)
  note tot = raw_total_length_Inr [OF t(1), of announce name ?pl "as_u32 (length ?ps)" ?ps h, folded m]
  have "meta_wf m"
    using tot t(2) pl c
    by (simp add: meta_wf_def proj MAX_PIECE_LENGTH_def length_chunks_exact list_all_iff
        chunks_exact_length)
  moreover have "concat ?ps = ri_pieces info"
    using d by (intro concat_chunks_exact) auto
  moreover have "\<forall>fs. tm_files m = Some fs \<longrightarrow>
      (\<forall>f \<in> set fs. is_ok (build_file_path win [] name True (tf_path f)))"
    using tot by (auto simp: proj to_torrent_file_def)
  ultimately show ?thesis using sanitize_safe [OF name] by (simp add: proj)
qed

lemma meta_wf_trackers [simp]: "meta_wf (m\<lparr>tm_trackers := us\<rparr>) = meta_wf m"
  by (simp add: meta_wf_def)

lemma with_extra_trackers_other:
  "tm_info_hash (with_extra_trackers m us) = tm_info_hash m
   \<and> tm_pieces (with_extra_trackers m us) = tm_pieces m
   \<and> tm_name (with_extra_trackers m us) = tm_name m
   \<and> tm_files (with_extra_trackers m us) = tm_files m
   \<and> meta_wf (with_extra_trackers m us) = meta_wf m"
  by (induction m us rule: with_extra_trackers.induct) simp_all

lemma parse_torrent_bytes_InrD:
  assumes "parse_torrent_bytes win sha1 de bs = Inr m"
  shows "length bs \<le> MAX_TORRENT_SIZE \<and> check_bencode_depth bs = Inr () \<and>
    (\<exists>raw s m0. de bs = Inr raw \<and> extract_info_dictionary_slice bs = Inr s
       \<and> build_meta win (rt_announce raw) (rt_info raw) (sha1 s) = Inr m0
       \<and> m = with_extra_trackers m0 (concat (rt_announce_list raw)))"
proof -
  have c: "length bs \<le> MAX_TORRENT_SIZE" "check_bencode_depth bs = Inr ()"
    using assms by (auto simp: parse_torrent_bytes_def split: if_splits sum.splits)
  then obtain raw where raw: "de bs = Inr raw"
    using assms by (cases "de bs") (auto simp: parse_torrent_bytes_def)
  with c obtain s where s: "extract_info_dictionary_slice bs = Inr s"
    using assms by (cases "extract_info_dictionary_slice bs") (auto simp: parse_torrent_bytes_def)
  with c raw obtain m0 where
    "build_meta win (rt_announce raw) (rt_info raw) (sha1 s) = Inr m0"
    using assms by (cases "build_meta win (rt_announce raw) (rt_info raw) (sha1 s)")
      (auto simp: parse_torrent_bytes_def)
  with c raw s assms show ?thesis by (simp add: parse_torrent_bytes_def)
qed

lemmas bencode_eval = bencode_str_def dec_int_def dec_digits.simps

section \<open>Properties\<close>

text \<open>
  On the encoding of any bencoded value the depth check succeeds exactly when the value has at
  most 64 containers nested in each other, and otherwise reports the nesting; so what reaches the
  recursive decoder has bounded depth.
\<close>

theorem check_bencode_depth_exact:
  assumes "length (bencode v) < U64_MAX"
  shows "check_bencode_depth (bencode v) = (if nest v \<le> MAX_BENCODE_DEPTH then Inr () else too_deep)"
proof -
  have "at (bencode v) 0 (bencode v)" using at_self [of "bencode v" "[]"] by simp
  from check_loop_at [OF this assms, of 0] show ?thesis
    by (simp add: check_bencode_depth_def check_loop.simps [of "bencode v" 0 "length (bencode v)"])
qed

theorem check_bencode_depth_exact_witness:
  "check_bencode_depth (bencode (BDict [([97], BList [BInt 5, BStr [1, 2]])])) = Inr ()"
proof -
  let ?v = "BDict [([97], BList [BInt 5, BStr [1, 2]])]"
  have l: "length (bencode ?v) < U64_MAX" by (simp add: bencode_eval U64_MAX_def)
  have n: "nest ?v \<le> MAX_BENCODE_DEPTH" by (simp add: MAX_BENCODE_DEPTH_def)
  from check_bencode_depth_exact [OF l] n show ?thesis by simp
qed

text \<open>
  The length of the value at the start of a message is exactly the length of its encoding,
  whatever bytes follow it (the raw data after a ut_metadata header), as long as the value is not
  nested more than 64 deep; deeper values are an error.
\<close>

theorem bencode_value_len_exact:
  assumes "length (bencode v @ rest) \<le> U64_MAX"
  shows "bencode_value_len (bencode v @ rest)
     = (if height v \<le> MAX_BENCODE_DEPTH then Inr (length (bencode v)) else too_deep)"
  using skip_bencode_value_at [of "bencode v @ rest" 0 v 0] assms
  by (simp add: bencode_value_len_def)

theorem bencode_value_len_exact_witness:
  "bencode_value_len (bencode (BDict [([97], BInt 1)]) @ [82, 65, 87]) = Inr 8"
proof -
  have l: "length (bencode (BDict [([97], BInt 1)]) @ [82, 65, 87 :: byte]) \<le> U64_MAX"
    by (simp add: bencode_eval U64_MAX_def)
  have n: "length (bencode (BDict [([97], BInt 1)])) = 8" by (simp add: bencode_eval)
  have h: "height (BDict [([97], BInt 1)]) \<le> MAX_BENCODE_DEPTH"
    by (simp add: MAX_BENCODE_DEPTH_def)
  from bencode_value_len_exact [OF l] n h show ?thesis by (simp only: if_True)
qed

text \<open>
  C13: A parsed torrent file yields well-formed metadata (the piece hashes match the size, every
  hash has 20 bytes), only supported and distinct trackers, a safe name and file paths, and its info
  hash is the SHA-1 of exactly the encoded bytes of the \<open>info\<close> value of the dictionary.
\<close>

theorem parse_torrent_bytes_sound:
  assumes "parse_torrent_bytes win sha1 de (bencode (BDict kvs)) = Inr m"
    and "\<forall>kv \<in> set kvs. height (snd kv) \<le> MAX_BENCODE_DEPTH"
  shows "meta_wf m \<and> (\<exists>v. map_of kvs info_key = Some v \<and> tm_info_hash m = sha1 (bencode v))
    \<and> distinct (tm_trackers m) \<and> list_all is_supported_tracker (tm_trackers m)
    \<and> safe_component win (tm_name m)
    \<and> (\<forall>fs. tm_files m = Some fs \<longrightarrow>
         (\<forall>f \<in> set fs. is_ok (build_file_path win [] (tm_name m) True (tf_path f))))"
proof -
  let ?bs = "bencode (BDict kvs)"
  from assms(1) obtain raw :: raw_torrent and s m0 where "length ?bs \<le> MAX_TORRENT_SIZE"
    and s: "extract_info_dictionary_slice ?bs = Inr s"
    and m0: "build_meta win (rt_announce raw) (rt_info raw) (sha1 s) = Inr m0"
    and m: "m = with_extra_trackers m0 (concat (rt_announce_list raw))"
    using parse_torrent_bytes_InrD [OF assms(1)] by blast
  then have "length (?bs @ []) \<le> U64_MAX" by (simp add: MAX_TORRENT_SIZE_def U64_MAX_def)
  with extract_info_dictionary_slice_at [of kvs "[]"] assms(2) s
  obtain v where v: "map_of kvs info_key = Some v" "s = bencode v"
    by (auto split: option.splits)
  note b = build_meta_Inr [OF m0]
  have pre: "distinct (tm_trackers m0)" "list_all is_supported_tracker (tm_trackers m0)"
    using b by auto
  have "distinct (tm_trackers m) \<and> list_all is_supported_tracker (tm_trackers m)"
    unfolding m by (rule with_extra_trackers_keeps [OF pre])
  with b v with_extra_trackers_other [of m0 "concat (rt_announce_list raw)"] show ?thesis
    by (auto simp: m)
qed

definition demo_info :: raw_info where
  "demo_info = \<lparr>ri_name = lit ''a'', ri_piece_length = 16384, ri_pieces = replicate 20 0,
     ri_length = Some 5, ri_files = None\<rparr>"

definition demo_torrent :: raw_torrent where
  "demo_torrent = \<lparr>rt_announce = lit ''udp://t:1'', rt_announce_list = [[lit ''http://u'']],
     rt_info = demo_info\<rparr>"

definition demo_dict :: "(bytes \<times> bval) list" where
  "demo_dict = [(info_key, BDict
     [([108, 101, 110, 103, 116, 104], BInt 5), ([110, 97, 109, 101], BStr [97]),
      ([112, 105, 101, 99, 101, 32, 108, 101, 110, 103, 116, 104], BInt 16384),
      ([112, 105, 101, 99, 101, 115], BStr (replicate 20 0))])]"

lemma demo_build: "\<exists>m. build_meta False (rt_announce demo_torrent) demo_info h = Inr m"
  by (simp add: build_meta_def demo_info_def MAX_PIECE_LENGTH_def sanitize_path_component_def lit_def
     utf8_len_def utf8_len1_def MAX_COMPONENT_LEN_def raw_total_length_def div_ceil_def Let_def)

lemma demo_dict_bounds:
  "length (bencode (BDict demo_dict)) \<le> MAX_TORRENT_SIZE"
  "length (bencode (BDict demo_dict)) < U64_MAX"
  "nest (BDict demo_dict) \<le> MAX_BENCODE_DEPTH"
  "\<forall>kv \<in> set demo_dict. height (snd kv) \<le> MAX_BENCODE_DEPTH"
  "\<exists>v. map_of demo_dict info_key = Some v"
  by (simp_all add: demo_dict_def bencode_eval info_key_def MAX_TORRENT_SIZE_def U64_MAX_def
      MAX_BENCODE_DEPTH_def)

lemma demo_parse:
  "\<exists>m. parse_torrent_bytes False sha1 (\<lambda>_. Inr demo_torrent) (bencode (BDict demo_dict)) = Inr m"
proof -
  let ?bs = "bencode (BDict demo_dict)"
  have "at ?bs 0 ?bs" using at_self [of ?bs "[]"] by simp
  then have "check_bencode_depth ?bs = check_loop ?bs 0 (length ?bs)"
    using check_loop_at [OF _ demo_dict_bounds(2), of 0 "BDict demo_dict" 0] demo_dict_bounds(3)
    unfolding check_bencode_depth_def by simp
  then have d: "check_bencode_depth ?bs = Inr ()" by (simp add: check_loop.simps)
  obtain s where s: "extract_info_dictionary_slice ?bs = Inr s"
    using extract_info_dictionary_slice_at [of demo_dict "[]"] demo_dict_bounds by auto
  obtain m where "build_meta False (rt_announce demo_torrent) demo_info (sha1 s) = Inr m"
    using demo_build by blast
  with d s demo_dict_bounds(1) show ?thesis
    by (simp add: parse_torrent_bytes_def demo_torrent_def not_less)
qed

theorem parse_torrent_bytes_sound_witness:
  "\<exists>m. parse_torrent_bytes False (take 20) (\<lambda>_. Inr demo_torrent) (bencode (BDict demo_dict)) = Inr m
     \<and> meta_wf m"
proof -
  obtain m where m: "parse_torrent_bytes False (take 20) (\<lambda>_. Inr demo_torrent)
      (bencode (BDict demo_dict)) = Inr m"
    using demo_parse by blast
  from parse_torrent_bytes_sound [OF m demo_dict_bounds(4)] m show ?thesis by blast
qed

text \<open>
  Metadata fetched for a magnet link is accepted only if its SHA-1 is the info hash of the
  link, and what is accepted is well formed and carries that info hash.
\<close>

theorem parse_torrent_metadata_bytes_verified:
  assumes "parse_torrent_metadata_bytes win sha1 de info_bytes expected = Inr m"
  shows "sha1 info_bytes = expected \<and> tm_info_hash m = expected \<and> meta_wf m
    \<and> length info_bytes \<le> MAX_TORRENT_SIZE \<and> check_bencode_depth info_bytes = Inr ()
    \<and> safe_component win (tm_name m)"
proof -
  have c: "length info_bytes \<le> MAX_TORRENT_SIZE" "sha1 info_bytes = expected"
    "check_bencode_depth info_bytes = Inr ()"
    using assms by (auto simp: parse_torrent_metadata_bytes_def Let_def split: if_splits sum.splits)
  with assms obtain raw where "build_meta win [] raw expected = Inr m"
    by (auto simp: parse_torrent_metadata_bytes_def split: sum.splits)
  with build_meta_Inr c show ?thesis by blast
qed

theorem parse_torrent_metadata_bytes_verified_witness:
  "\<exists>m. parse_torrent_metadata_bytes False (take 20) (\<lambda>_. Inr demo_info) [100, 101] [100, 101] = Inr m
     \<and> tm_info_hash m = [100, 101]"
proof -
  obtain m where m: "build_meta False (rt_announce demo_torrent) demo_info [100, 101] = Inr m"
    using demo_build by blast
  have "check_bencode_depth [100, 101] = Inr ()"
    by (simp add: check_bencode_depth_def check_loop.simps U64_MAX_def MAX_BENCODE_DEPTH_def Let_def)
  then have "\<exists>m. parse_torrent_metadata_bytes False (take 20) (\<lambda>_. Inr demo_info) [100, 101] [100, 101]
      = Inr m"
    using m by (auto simp: parse_torrent_metadata_bytes_def MAX_TORRENT_SIZE_def build_meta_def Let_def
        split: if_splits sum.splits)
  then obtain m where m: "parse_torrent_metadata_bytes False (take 20) (\<lambda>_. Inr demo_info)
      [100, 101] [100, 101] = Inr m" by blast
  from parse_torrent_metadata_bytes_verified [OF m] m show ?thesis by blast
qed

end
