(* ===== verification/Chunks.thy ===== *)
theory Chunks
  imports Prelude
begin

text \<open>
  Reassembly of a byte string from its chunks, shared by the piece assembler and the metadata
  assembler: chunk \<open>i\<close> of a string of \<open>n\<close> bytes starts at \<open>i * w\<close> and has \<open>w\<close> bytes except for
  the last one. The locale states what a component that collects chunks promises (a chunk it did not
  have is stored, a chunk it had may be kept or replaced, the other chunks stay); from these laws it
  follows that chunks of one string, in any order and with repetitions, give back that string.
\<close>

definition chunk_len :: "nat \<Rightarrow> nat \<Rightarrow> nat \<Rightarrow> nat" where
  "chunk_len w n i = min w (n - i * w)"

definition chunk :: "nat \<Rightarrow> 'a list \<Rightarrow> nat \<Rightarrow> 'a list" where
  "chunk w d i = slice (i * w) (i * w + chunk_len w (length d) i) d"

lemma length_chunk [simp]: "length (chunk w d i) = chunk_len w (length d) i"
  by (simp add: chunk_def chunk_len_def)

lemma chunk_len_pos: "0 < w \<Longrightarrow> i < div_ceil n w \<Longrightarrow> 0 < chunk_len w n i"
  by (simp add: chunk_len_def less_div_ceil_iff)

lemma chunk_end_le: "i * w \<le> n \<Longrightarrow> i * w + chunk_len w n i \<le> n"
  by (simp add: chunk_len_def)

lemma chunk_index_le: "0 < w \<Longrightarrow> i < div_ceil n w \<Longrightarrow> i * w \<le> n"
  by (simp add: less_div_ceil_iff)

lemma chunks_disjoint:
  assumes "i \<noteq> j"
  shows "i * w + chunk_len w n i \<le> j * w \<or> j * w + chunk_len w n j \<le> i * w"
proof (cases "i < j")
  case True
  then have "Suc i * w \<le> j * w" by (intro mult_le_mono1) simp
  then show ?thesis by (auto simp: chunk_len_def min_def)
next
  case False
  with assms have "Suc j * w \<le> i * w" by (intro mult_le_mono1) simp
  then show ?thesis by (auto simp: chunk_len_def min_def)
qed

lemma chunk_splice_same:
  assumes "0 < w" "i < div_ceil (length b) w" "length d = chunk_len w (length b) i"
  shows "chunk w (splice (i * w) d b) i = d"
proof -
  have le: "i * w + length d \<le> length b"
    using assms chunk_end_le [OF chunk_index_le] by simp
  then have "slice (i * w) (i * w + length d) (splice (i * w) d b) = d" by (rule slice_splice_same)
  with le assms(3) show ?thesis by (simp add: chunk_def)
qed

lemma chunk_splice_other:
  assumes "0 < w" "i < div_ceil (length b) w" "length d = chunk_len w (length b) i"
    "j < div_ceil (length b) w" "i \<noteq> j"
  shows "chunk w (splice (i * w) d b) j = chunk w b j"
proof -
  have le: "i * w + length d \<le> length b" "j * w + chunk_len w (length b) j \<le> length b"
    using assms chunk_end_le [OF chunk_index_le] by simp_all
  have "slice (j * w) (j * w + chunk_len w (length b) j) (splice (i * w) d b)
      = slice (j * w) (j * w + chunk_len w (length b) j) b"
    using chunks_disjoint [OF assms(5), of w "length b"] le assms(3)
    by (intro slice_splice_disjoint) auto
  with le show ?thesis by (simp add: chunk_def)
qed

lemma all_chunks_eq:
  assumes "0 < w" "length b = length d" "\<forall>i < div_ceil (length d) w. chunk w b i = chunk w d i"
  shows "b = d"
proof (rule nth_equalityI [OF assms(2)])
  fix k assume k: "k < length b"
  let ?i = "k div w"
  have e: "k = ?i * w + k mod w" by simp
  have lt: "k mod w < w" using assms(1) by simp
  have "?i * w < length d" using k e assms(2) by linarith
  then have i: "?i < div_ceil (length d) w" by (simp add: less_div_ceil_iff assms(1))
  have "k mod w < length d - ?i * w" using k e assms(2) by linarith
  with lt have m: "k mod w < chunk_len w (length d) ?i" by (simp add: chunk_len_def)
  have "chunk w b ?i ! (k mod w) = chunk w d ?i ! (k mod w)" using assms(3) i by simp
  then show "b ! k = d ! k"
    using m k e assms(2) by (simp add: chunk_def nth_slice)
qed

locale chunk_collector =
  fixes w n :: nat
    and inv :: "'s \<Rightarrow> bool"
    and buf :: "'s \<Rightarrow> bytes"
    and got :: "'s \<Rightarrow> nat set"
    and add :: "nat \<Rightarrow> bytes \<Rightarrow> 's \<Rightarrow> 's"
  assumes w_pos: "0 < w"
    and buf_length: "inv s \<Longrightarrow> length (buf s) = n"
    and got_range: "inv s \<Longrightarrow> got s \<subseteq> {..<div_ceil n w}"
    and add_inv: "inv s \<Longrightarrow> i < div_ceil n w \<Longrightarrow> length d = chunk_len w n i \<Longrightarrow> inv (add i d s)"
    and add_got: "inv s \<Longrightarrow> i < div_ceil n w \<Longrightarrow> length d = chunk_len w n i \<Longrightarrow>
        got (add i d s) = insert i (got s)"
    and add_other: "inv s \<Longrightarrow> i < div_ceil n w \<Longrightarrow> length d = chunk_len w n i \<Longrightarrow> j \<in> got s \<Longrightarrow>
        j \<noteq> i \<Longrightarrow> chunk w (buf (add i d s)) j = chunk w (buf s) j"
    and add_new: "inv s \<Longrightarrow> i < div_ceil n w \<Longrightarrow> length d = chunk_len w n i \<Longrightarrow> i \<notin> got s \<Longrightarrow>
        chunk w (buf (add i d s)) i = d"
    and add_again: "inv s \<Longrightarrow> i < div_ceil n w \<Longrightarrow> length d = chunk_len w n i \<Longrightarrow> i \<in> got s \<Longrightarrow>
        chunk w (buf (add i d s)) i \<in> {d, chunk w (buf s) i}"
begin

definition agrees :: "bytes \<Rightarrow> 's \<Rightarrow> bool" where
  "agrees D s \<longleftrightarrow> inv s \<and> (\<forall>i \<in> got s. chunk w (buf s) i = chunk w D i)"

lemma add_agrees:
  assumes "length D = n" "agrees D s" "i < div_ceil n w"
  shows "agrees D (add i (chunk w D i) s)"
proof -
  have i: "inv s" "length (chunk w D i) = chunk_len w n i" using assms by (simp_all add: agrees_def)
  have "chunk w (buf (add i (chunk w D i) s)) j = chunk w D j" if "j \<in> insert i (got s)" for j
  proof (cases "j = i")
    case True
    with add_new [OF i(1) assms(3) i(2)] add_again [OF i(1) assms(3) i(2)] assms(2) show ?thesis
      by (cases "i \<in> got s") (auto simp: agrees_def)
  next
    case False
    with that assms(2) add_other [OF i(1) assms(3) i(2)] show ?thesis by (auto simp: agrees_def)
  qed
  with add_got [OF i(1) assms(3) i(2)] add_inv [OF i(1) assms(3) i(2)] show ?thesis
    by (simp add: agrees_def)
qed

lemma run_agrees:
  assumes "length D = n" "agrees D s" "\<forall>i \<in> set is. i < div_ceil n w"
  shows "agrees D (fold (\<lambda>i. add i (chunk w D i)) is s)
    \<and> got (fold (\<lambda>i. add i (chunk w D i)) is s) = got s \<union> set is"
  using assms(2,3)
proof (induction "is" arbitrary: s)
  case Nil
  then show ?case by simp
next
  case (Cons i "is")
  have a: "agrees D (add i (chunk w D i) s)" using Cons.prems assms(1) by (intro add_agrees) simp_all
  have g: "got (add i (chunk w D i) s) = insert i (got s)"
    using Cons.prems assms(1) by (intro add_got) (simp_all add: agrees_def)
  from Cons.IH [OF a] Cons.prems g show ?case by auto
qed

lemma complete_eq:
  assumes "length D = n" "agrees D s" "got s = {..<div_ceil n w}"
  shows "buf s = D"
  using assms w_pos buf_length [of s] by (intro all_chunks_eq [of w]) (auto simp: agrees_def)

end

end
