(* ===== verification/Assembler.thy ===== *)
theory Assembler
  imports Chunks
begin

text \<open>
  The piece assembler of \<open>core/assembler.rs\<close>: a piece is downloaded in blocks of 16 KiB that
  arrive in any order; the assembler schedules the requests (with a retry after a timeout),
  classifies what arrives and hands out the piece when the last block is in. The current time is an
  argument where the source calls \<open>Instant::now()\<close>.
\<close>

section \<open>State and operations\<close>

definition BLOCK_SIZE :: nat where "BLOCK_SIZE = 16 * 1024"

datatype assembler_error = BlockExceedsPiece | UnexpectedBlock

datatype assembler_state = InProgress | Complete bytes | Error assembler_error

datatype block_class = ExpectedNew | Duplicate | Unexpected

record block_request =
  br_begin :: nat
  br_length :: nat
  br_requested_at :: "instant option"
  br_completed :: bool

record piece_assembler =
  pa_piece_index :: nat
  pa_expected_length :: nat
  pa_buffer :: bytes
  pa_blocks :: "block_request list"
  pa_received_bytes :: nat

definition pa_new :: "nat \<Rightarrow> nat \<Rightarrow> piece_assembler" where
  "pa_new piece_index expected_length =
     (let num_blocks = (if expected_length = 0 then 0 else div_ceil expected_length BLOCK_SIZE) in
      \<lparr>pa_piece_index = piece_index,
       pa_expected_length = expected_length,
       pa_buffer = replicate expected_length 0,
       pa_blocks = map (\<lambda>i. \<lparr>br_begin = i * BLOCK_SIZE,
                             br_length = min BLOCK_SIZE (expected_length - i * BLOCK_SIZE),
                             br_requested_at = None, br_completed = False\<rparr>) [0..<num_blocks],
       pa_received_bytes = 0\<rparr>)"

definition block_in_flight :: "instant \<Rightarrow> duration \<Rightarrow> block_request \<Rightarrow> bool" where
  "block_in_flight now timeout b \<longleftrightarrow> \<not> br_completed b \<and>
     (case br_requested_at b of None \<Rightarrow> False | Some t \<Rightarrow> now - t \<le> timeout)"

definition in_flight_count :: "instant \<Rightarrow> duration \<Rightarrow> piece_assembler \<Rightarrow> nat" where
  "in_flight_count now timeout a = length (filter (block_in_flight now timeout) (pa_blocks a))"

fun next_request_blocks ::
  "instant \<Rightarrow> duration \<Rightarrow> block_request list \<Rightarrow> (nat \<times> nat \<times> bool) option \<times> block_request list" where
  "next_request_blocks now timeout [] = (None, [])"
| "next_request_blocks now timeout (b # bs) =
     (if br_completed b then
        (let (r, bs') = next_request_blocks now timeout bs in (r, b # bs'))
      else case br_requested_at b of
        None \<Rightarrow> (Some (br_begin b, br_length b, False), b\<lparr>br_requested_at := Some now\<rparr> # bs)
      | Some t \<Rightarrow>
          if now - t > timeout
          then (Some (br_begin b, br_length b, True), b\<lparr>br_requested_at := Some now\<rparr> # bs)
          else (let (r, bs') = next_request_blocks now timeout bs in (r, b # bs')))"

definition next_request ::
  "instant \<Rightarrow> duration \<Rightarrow> piece_assembler \<Rightarrow> (nat \<times> nat \<times> bool) option \<times> piece_assembler" where
  "next_request now timeout a =
     (let (r, bs) = next_request_blocks now timeout (pa_blocks a) in (r, a\<lparr>pa_blocks := bs\<rparr>))"

text \<open>The first block with this offset and length, which is what the two loops look for.\<close>

definition find_block :: "piece_assembler \<Rightarrow> nat \<Rightarrow> nat \<Rightarrow> nat option" where
  "find_block a beg len = position (\<lambda>b. br_begin b = beg \<and> br_length b = len) (pa_blocks a)"

definition classify_block :: "piece_assembler \<Rightarrow> nat \<Rightarrow> nat \<Rightarrow> block_class" where
  "classify_block a beg data_len =
     (if beg + data_len > pa_expected_length a then Unexpected
      else case find_block a beg data_len of
        None \<Rightarrow> Unexpected
      | Some i \<Rightarrow> if br_completed (pa_blocks a ! i) then Duplicate else ExpectedNew)"

definition reset_requests :: "piece_assembler \<Rightarrow> piece_assembler" where
  "reset_requests a = a\<lparr>pa_blocks :=
     map (\<lambda>b. if br_completed b then b else b\<lparr>br_requested_at := None\<rparr>) (pa_blocks a)\<rparr>"

definition add_block :: "piece_assembler \<Rightarrow> nat \<Rightarrow> bytes \<Rightarrow> assembler_state \<times> piece_assembler" where
  "add_block a beg data =
     (if beg + length data > pa_expected_length a then (Error BlockExceedsPiece, a)
      else case find_block a beg (as_u32 (length data)) of
        None \<Rightarrow> (Error UnexpectedBlock, a)
      | Some i \<Rightarrow>
          if br_completed (pa_blocks a ! i) then (InProgress, a)
          else let a' = a\<lparr>pa_blocks := (pa_blocks a)[i := (pa_blocks a ! i)\<lparr>br_completed := True\<rparr>],
                          pa_buffer := splice beg data (pa_buffer a),
                          pa_received_bytes := pa_received_bytes a + as_u32 (length data)\<rparr>
               in (if pa_received_bytes a' = pa_expected_length a' then Complete (pa_buffer a')
                   else InProgress, a'))"

section \<open>Invariant\<close>

definition pa_got :: "piece_assembler \<Rightarrow> nat set" where
  "pa_got a = {i. i < length (pa_blocks a) \<and> br_completed (pa_blocks a ! i)}"

definition pa_wf :: "piece_assembler \<Rightarrow> bool" where
  "pa_wf a \<longleftrightarrow> pa_expected_length a < 2 ^ 32
     \<and> length (pa_buffer a) = pa_expected_length a
     \<and> length (pa_blocks a) = div_ceil (pa_expected_length a) BLOCK_SIZE
     \<and> (\<forall>i < length (pa_blocks a). br_begin (pa_blocks a ! i) = i * BLOCK_SIZE
          \<and> br_length (pa_blocks a ! i) = chunk_len BLOCK_SIZE (pa_expected_length a) i)
     \<and> pa_received_bytes a = (\<Sum>i \<in> pa_got a. chunk_len BLOCK_SIZE (pa_expected_length a) i)"

lemma BLOCK_SIZE_pos [simp]: "0 < BLOCK_SIZE" and BLOCK_SIZE_nonzero [simp]: "BLOCK_SIZE \<noteq> 0"
  by (simp_all add: BLOCK_SIZE_def)

lemma finite_pa_got [simp]: "finite (pa_got a)"
  by (simp add: pa_got_def)

lemma pa_new_wf: "len < 2 ^ 32 \<Longrightarrow> pa_wf (pa_new idx len)"
  by (auto simp: pa_wf_def pa_new_def Let_def chunk_len_def pa_got_def)

lemma pa_new_simps [simp]:
  "pa_got (pa_new idx len) = {}" "pa_expected_length (pa_new idx len) = len"
  by (auto simp: pa_new_def pa_got_def Let_def)

lemma pa_got_range: "pa_wf a \<Longrightarrow> pa_got a \<subseteq> {..<div_ceil (pa_expected_length a) BLOCK_SIZE}"
  by (auto simp: pa_got_def pa_wf_def)

lemma find_block_iff:
  assumes "pa_wf a"
  shows "find_block a beg len = Some i \<longleftrightarrow> i < length (pa_blocks a) \<and> beg = i * BLOCK_SIZE
     \<and> len = chunk_len BLOCK_SIZE (pa_expected_length a) i"
proof -
  have b: "br_begin (pa_blocks a ! j) = j * BLOCK_SIZE"
    "br_length (pa_blocks a ! j) = chunk_len BLOCK_SIZE (pa_expected_length a) j"
    if "j < length (pa_blocks a)" for j using assms that by (simp_all add: pa_wf_def)
  then show ?thesis by (auto simp: find_block_def position_Some_iff)
qed

lemma add_block_cases:
  assumes "pa_wf a"
  obtains (exceeds) "beg + length data > pa_expected_length a"
      "add_block a beg data = (Error BlockExceedsPiece, a)"
    | (unexpected) "beg + length data \<le> pa_expected_length a"
      "find_block a beg (length data) = None" "add_block a beg data = (Error UnexpectedBlock, a)"
    | (duplicate) i where "beg + length data \<le> pa_expected_length a"
      "find_block a beg (length data) = Some i" "i \<in> pa_got a" "add_block a beg data = (InProgress, a)"
    | (stored) i where "beg + length data \<le> pa_expected_length a"
      "find_block a beg (length data) = Some i" "i \<notin> pa_got a"
      "snd (add_block a beg data) =
         a\<lparr>pa_blocks := (pa_blocks a)[i := (pa_blocks a ! i)\<lparr>br_completed := True\<rparr>],
           pa_buffer := splice beg data (pa_buffer a),
           pa_received_bytes := pa_received_bytes a + length data\<rparr>"
      "fst (add_block a beg data) =
         (if pa_received_bytes a + length data = pa_expected_length a
          then Complete (splice beg data (pa_buffer a)) else InProgress)"
proof (cases "beg + length data > pa_expected_length a")
  case True
  then show ?thesis by (intro exceeds) (simp_all add: add_block_def)
next
  case False
  then have u: "as_u32 (length data) = length data"
    using assms by (intro as_u32_small) (simp add: pa_wf_def)
  show ?thesis
  proof (cases "find_block a beg (length data)")
    case None
    then show ?thesis using False u by (intro unexpected) (simp_all add: add_block_def)
  next
    case (Some i)
    then have i: "i < length (pa_blocks a)" using find_block_iff [OF assms] by blast
    show ?thesis
    proof (cases "br_completed (pa_blocks a ! i)")
      case True
      then show ?thesis using Some i False u by (intro duplicate) (simp_all add: add_block_def pa_got_def)
    next
      case incomplete: False
      then show ?thesis using Some i False u
        by (intro stored) (simp_all add: add_block_def pa_got_def Let_def)
    qed
  qed
qed

lemma pa_got_stored:
  "i < length (pa_blocks a) \<Longrightarrow>
   pa_got (a\<lparr>pa_blocks := (pa_blocks a)[i := (pa_blocks a ! i)\<lparr>br_completed := True\<rparr>],
            pa_buffer := b, pa_received_bytes := r\<rparr>) = insert i (pa_got a)"
  by (auto simp: pa_got_def nth_list_update)

lemma add_block_wf:
  assumes "pa_wf a"
  shows "pa_wf (snd (add_block a beg data))"
  using assms
proof (cases rule: add_block_cases [of a beg data])
  case (stored i)
  from find_block_iff [OF assms] stored(2)
  have i: "i < length (pa_blocks a)" "beg = i * BLOCK_SIZE"
    "length data = chunk_len BLOCK_SIZE (pa_expected_length a) i" by blast+
  have "pa_received_bytes a + length data
      = (\<Sum>i \<in> insert i (pa_got a). chunk_len BLOCK_SIZE (pa_expected_length a) i)"
    using assms stored(3) i(3) by (simp add: pa_wf_def)
  with assms i stored(1) show ?thesis
    unfolding stored(4) pa_wf_def pa_got_stored [OF i(1)]
    by (auto simp: nth_list_update)
qed (use assms in simp_all)

lemma received_complete_iff:
  assumes "pa_wf a"
  shows "pa_received_bytes a = pa_expected_length a
    \<longleftrightarrow> pa_got a = {..<div_ceil (pa_expected_length a) BLOCK_SIZE}"
proof -
  let ?n = "pa_expected_length a" and ?c = "chunk_len BLOCK_SIZE (pa_expected_length a)"
  let ?all = "{..<div_ceil ?n BLOCK_SIZE}"
  have "?n \<le> div_ceil ?n BLOCK_SIZE * BLOCK_SIZE"
    using div_ceil_le_iff [of BLOCK_SIZE ?n "div_ceil ?n BLOCK_SIZE"] by simp
  then have tot: "sum ?c ?all = ?n" by (simp add: chunk_len_def sum_min_pieces)
  have "sum ?c ?all = sum ?c (?all - pa_got a) + sum ?c (pa_got a)"
    using pa_got_range [OF assms] by (intro sum.subset_diff) simp_all
  moreover have "pa_received_bytes a = sum ?c (pa_got a)" using assms by (simp add: pa_wf_def)
  ultimately have "pa_received_bytes a = ?n \<longleftrightarrow> sum ?c (?all - pa_got a) = 0" using tot by linarith
  also have "\<dots> \<longleftrightarrow> (\<forall>i \<in> ?all - pa_got a. ?c i = 0)" by (rule sum_eq_0_iff) simp
  also have "\<dots> \<longleftrightarrow> ?all - pa_got a = {}"
    using chunk_len_pos [OF BLOCK_SIZE_pos, of _ ?n] by fastforce
  finally show ?thesis using pa_got_range [OF assms] by auto
qed

section \<open>Reassembly\<close>

text \<open>Delivery of block number \<open>i\<close>.\<close>

definition pa_deliver :: "nat \<Rightarrow> bytes \<Rightarrow> piece_assembler \<Rightarrow> piece_assembler" where
  "pa_deliver i data a = snd (add_block a (i * BLOCK_SIZE) data)"

lemma pa_deliver_eq:
  assumes "pa_wf a" "i < div_ceil (pa_expected_length a) BLOCK_SIZE"
    "length data = chunk_len BLOCK_SIZE (pa_expected_length a) i"
  shows "pa_deliver i data a = (if i \<in> pa_got a then a
     else a\<lparr>pa_blocks := (pa_blocks a)[i := (pa_blocks a ! i)\<lparr>br_completed := True\<rparr>],
            pa_buffer := splice (i * BLOCK_SIZE) data (pa_buffer a),
            pa_received_bytes := pa_received_bytes a + length data\<rparr>)"
proof -
  have f: "find_block a (i * BLOCK_SIZE) (length data) = Some i"
    using assms find_block_iff [OF assms(1)] by (simp add: pa_wf_def)
  have le: "i * BLOCK_SIZE + length data \<le> pa_expected_length a"
    using chunk_end_le [OF chunk_index_le [OF BLOCK_SIZE_pos assms(2)]] assms(3) by simp
  from assms(1) show ?thesis
    by (cases rule: add_block_cases [of a "i * BLOCK_SIZE" data]) (use f le in \<open>simp_all add: pa_deliver_def\<close>)
qed

interpretation pa: chunk_collector BLOCK_SIZE n
  "\<lambda>a. pa_wf a \<and> pa_expected_length a = n" pa_buffer pa_got pa_deliver
  for n
proof (unfold_locales, goal_cases)
  case (2 s)
  then show ?case by (simp add: pa_wf_def)
next
  case (3 s)
  then show ?case using pa_got_range [of s] by simp
next
  case (4 s i d)
  then have "pa_wf (pa_deliver i d s)" unfolding pa_deliver_def by (intro add_block_wf) simp
  with 4 show ?case by (auto simp: pa_deliver_eq)
next
  case (5 s i d)
  then show ?case by (auto simp: pa_deliver_eq pa_got_stored pa_wf_def)
next
  case (6 s i d j)
  then have "length (pa_buffer s) = n" "j < div_ceil n BLOCK_SIZE"
    using pa_got_range [of s] by (auto simp: pa_wf_def)
  with 6 show ?case by (auto simp: pa_deliver_eq intro!: chunk_splice_other)
next
  case (7 s i d)
  then have "length (pa_buffer s) = n" by (simp add: pa_wf_def)
  with 7 show ?case by (auto simp: pa_deliver_eq intro!: chunk_splice_same)
next
  case (8 s i d)
  then show ?case by (simp add: pa_deliver_eq)
qed simp

lemma pa_new_agrees: "length D < 2 ^ 32 \<Longrightarrow> pa.agrees (length D) D (pa_new idx (length D))"
  unfolding pa.agrees_def by (simp add: pa_new_wf)

text \<open>C12. Blocks of a piece \<open>D\<close> that arrive in any order and any number of times are put together
  to \<open>D\<close>: whatever was delivered before, the delivery of block \<open>i\<close> answers \<open>Complete D\<close> exactly when
  it is the last block that was missing, and \<open>InProgress\<close> otherwise (a duplicate included).\<close>

theorem add_block_reassembles:
  assumes "length D < 2 ^ 32"
    and "\<forall>j \<in> set is. j < div_ceil (length D) BLOCK_SIZE"
    and "i < div_ceil (length D) BLOCK_SIZE"
  shows "fst (add_block (fold (\<lambda>j. pa_deliver j (chunk BLOCK_SIZE D j)) is (pa_new idx (length D)))
            (i * BLOCK_SIZE) (chunk BLOCK_SIZE D i))
    = (if i \<notin> set is \<and> insert i (set is) = {..<div_ceil (length D) BLOCK_SIZE}
       then Complete D else InProgress)"
proof -
  let ?d = "\<lambda>j. pa_deliver j (chunk BLOCK_SIZE D j)" and ?n = "length D"
  let ?a = "fold ?d is (pa_new idx ?n)"
  from pa.run_agrees [OF refl pa_new_agrees [OF assms(1)] assms(2)]
  have ag: "pa.agrees ?n D ?a" and got: "pa_got ?a = set is" by simp_all
  then have a: "pa_wf ?a" "pa_expected_length ?a = ?n" by (simp_all add: pa.agrees_def)
  have ag': "pa.agrees ?n D (?d i ?a)" by (rule pa.add_agrees [OF refl ag assms(3)])
  then have a': "pa_wf (?d i ?a)" "pa_expected_length (?d i ?a) = ?n" by (simp_all add: pa.agrees_def)
  have got': "pa_got (?d i ?a) = insert i (set is)"
    using pa.add_got [of ?a ?n i] a assms(3) got by simp
  note full = received_complete_iff [OF a'(1), unfolded a'(2) got']
  have f: "find_block ?a (i * BLOCK_SIZE) (length (chunk BLOCK_SIZE D i)) = Some i"
    using a assms(3) find_block_iff [OF a(1)] by (simp add: pa_wf_def)
  have le: "i * BLOCK_SIZE + length (chunk BLOCK_SIZE D i) \<le> pa_expected_length ?a"
    using chunk_end_le [OF chunk_index_le [OF BLOCK_SIZE_pos assms(3)]] a(2) by simp
  from a(1) show ?thesis
  proof (cases rule: add_block_cases [of ?a "i * BLOCK_SIZE" "chunk BLOCK_SIZE D i"])
    case (stored k)
    with f got have k: "k = i" "i \<notin> set is" by simp_all
    have d: "pa_received_bytes (?d i ?a) = pa_received_bytes ?a + length (chunk BLOCK_SIZE D i)"
      "pa_buffer (?d i ?a) = splice (i * BLOCK_SIZE) (chunk BLOCK_SIZE D i) (pa_buffer ?a)"
      using stored(4) by (simp_all add: pa_deliver_def)
    have "insert i (set is) = {..<div_ceil ?n BLOCK_SIZE} \<Longrightarrow> pa_buffer (?d i ?a) = D"
      using pa.complete_eq [OF refl ag'] got' by simp
    with stored(5) full k d a(2) show ?thesis by simp
  qed (use f le got in simp_all)
qed

theorem add_block_reassembles_witness:
  "fst (add_block (fold (\<lambda>j. pa_deliver j (chunk BLOCK_SIZE (replicate 20000 7) j)) [1, 1]
           (pa_new 0 (length (replicate 20000 (7 :: 8 word)))))
         (0 * BLOCK_SIZE) (chunk BLOCK_SIZE (replicate 20000 7) 0)) = Complete (replicate 20000 7)"
proof -
  have n: "div_ceil (length (replicate 20000 (7 :: 8 word))) BLOCK_SIZE = 2"
    by (simp add: div_ceil_def BLOCK_SIZE_def)
  have s: "insert (0::nat) (set [1, 1]) = {..<2}" by auto
  show ?thesis
    by (subst add_block_reassembles) (use n s in \<open>simp_all add: n\<close>)
qed

text \<open>\<open>classify_block\<close> predicts \<open>add_block\<close> on every input: a block classified as new is stored
  (it is counted once and marked as received), a duplicate is answered \<open>InProgress\<close>, and any other
  block (out of the piece, or not on the 16 KiB grid) is an error; the last two leave the assembler
  as it is. The assembler stays well-formed.\<close>

theorem classify_block_predicts_add_block:
  assumes "pa_wf a"
  shows "pa_wf (snd (add_block a beg data)) \<and>
    (case classify_block a beg (length data) of
       ExpectedNew \<Rightarrow> \<exists>i. beg = i * BLOCK_SIZE \<and> i \<notin> pa_got a
         \<and> pa_got (snd (add_block a beg data)) = insert i (pa_got a)
         \<and> pa_received_bytes (snd (add_block a beg data)) = pa_received_bytes a + length data
         \<and> (\<nexists>e. fst (add_block a beg data) = Error e)
     | Duplicate \<Rightarrow> add_block a beg data = (InProgress, a)
     | Unexpected \<Rightarrow> \<exists>e. add_block a beg data = (Error e, a))"
  using assms
proof (cases rule: add_block_cases [of a beg data])
  case (stored i)
  from find_block_iff [OF assms] stored(2) have i: "i < length (pa_blocks a)" "beg = i * BLOCK_SIZE" by blast+
  have "classify_block a beg (length data) = ExpectedNew"
    using stored i(1) by (simp add: classify_block_def pa_got_def)
  moreover have "pa_got (snd (add_block a beg data)) = insert i (pa_got a)"
    "pa_received_bytes (snd (add_block a beg data)) = pa_received_bytes a + length data"
    unfolding stored(4) by (simp_all add: pa_got_stored [OF i(1)])
  ultimately show ?thesis
    using stored(3,5) i(2) add_block_wf [OF assms, of beg data] by (auto intro!: exI [of _ i])
next
  case (duplicate i)
  then show ?thesis using assms by (simp add: classify_block_def pa_got_def)
qed (use assms in \<open>simp_all add: classify_block_def\<close>)

theorem classify_block_predicts_add_block_witness:
  "classify_block (pa_new 0 5) 0 (length [1, 2, 3, 4, 5 :: 8 word]) = ExpectedNew
   \<and> pa_got (snd (add_block (pa_new 0 5) 0 [1, 2, 3, 4, 5])) = {0}"
proof -
  have c: "classify_block (pa_new 0 5) 0 (length [1, 2, 3, 4, 5 :: 8 word]) = ExpectedNew" by code_simp
  then show ?thesis
    using classify_block_predicts_add_block [OF pa_new_wf, of 5 0 0 "[1, 2, 3, 4, 5]"] by auto
qed

section \<open>Scheduling the requests\<close>

text \<open>The loop of a peer session that asks for blocks until nothing is left to ask for or \<open>k\<close> requests
  were issued; the clock stands still during the loop.\<close>

fun drain_requests ::
  "nat \<Rightarrow> instant \<Rightarrow> duration \<Rightarrow> piece_assembler \<Rightarrow> (nat \<times> nat \<times> bool) list \<times> piece_assembler" where
  "drain_requests 0 now timeout a = ([], a)"
| "drain_requests (Suc k) now timeout a =
     (case next_request now timeout a of
        (None, a') \<Rightarrow> ([], a')
      | (Some r, a') \<Rightarrow> (let (rs, a'') = drain_requests k now timeout a' in (r # rs, a'')))"

definition to_request :: "instant \<Rightarrow> duration \<Rightarrow> piece_assembler \<Rightarrow> (nat \<times> nat \<times> bool) list" where
  "to_request now timeout a =
     map (\<lambda>b. (br_begin b, br_length b, br_requested_at b \<noteq> None))
       (filter (\<lambda>b. \<not> br_completed b \<and> \<not> block_in_flight now timeout b) (pa_blocks a))"

lemma block_in_flight_simps [simp]:
  "br_completed b \<Longrightarrow> \<not> block_in_flight now timeout b"
  "br_requested_at b = None \<Longrightarrow> \<not> block_in_flight now timeout b"
  "\<not> br_completed b \<Longrightarrow> br_requested_at b = Some t \<Longrightarrow> block_in_flight now timeout b \<longleftrightarrow> now - t \<le> timeout"
  by (simp_all add: block_in_flight_def)

lemma next_request_blocks_spec:
  "next_request_blocks now timeout bs = (r, bs') \<Longrightarrow>
   (case filter (\<lambda>b. \<not> br_completed b \<and> \<not> block_in_flight now timeout b) bs of
      [] \<Rightarrow> r = None \<and> bs' = bs
    | b # rest \<Rightarrow> r = Some (br_begin b, br_length b, br_requested_at b \<noteq> None)
        \<and> filter (\<lambda>b. \<not> br_completed b \<and> \<not> block_in_flight now timeout b) bs' = rest
        \<and> length (filter (block_in_flight now timeout) bs')
            = Suc (length (filter (block_in_flight now timeout) bs))
        \<and> map (\<lambda>b. b\<lparr>br_requested_at := None\<rparr>) bs' = map (\<lambda>b. b\<lparr>br_requested_at := None\<rparr>) bs)"
proof (induction bs arbitrary: r bs')
  case (Cons b bs)
  obtain r1 bs1 where e: "next_request_blocks now timeout bs = (r1, bs1)" by fastforce
  note IH = Cons.IH [OF e]
  show ?case
    using Cons.prems IH e
    by (cases "br_requested_at b")
      (auto split: if_splits list.splits)
qed simp

lemma next_request_spec:
  assumes "next_request now timeout a = (r, a')"
  shows "case to_request now timeout a of
      [] \<Rightarrow> r = None \<and> a' = a
    | q # qs \<Rightarrow> r = Some q \<and> to_request now timeout a' = qs
        \<and> in_flight_count now timeout a' = Suc (in_flight_count now timeout a)"
proof -
  obtain bs where "next_request_blocks now timeout (pa_blocks a) = (r, bs)" "a' = a\<lparr>pa_blocks := bs\<rparr>"
    using assms by (auto simp: next_request_def split: prod.splits)
  with next_request_blocks_spec [OF this(1)] show ?thesis
    by (auto simp: to_request_def in_flight_count_def split: list.splits)
qed

lemma drain_requests_spec:
  "drain_requests k now timeout a = (rs, a') \<Longrightarrow>
   rs = take k (to_request now timeout a)
   \<and> to_request now timeout a' = drop k (to_request now timeout a)
   \<and> in_flight_count now timeout a' = in_flight_count now timeout a + length rs"
proof (induction k arbitrary: a rs a')
  case (Suc k)
  obtain r a1 where n: "next_request now timeout a = (r, a1)" by fastforce
  note s = next_request_spec [OF n]
  show ?case
  proof (cases r)
    case None
    with Suc.prems n s show ?thesis by (auto split: list.splits)
  next
    case (Some q)
    obtain rs1 a2 where d: "drain_requests k now timeout a1 = (rs1, a2)" by fastforce
    from Suc.IH [OF d] Suc.prems n s d Some show ?thesis by (auto split: list.splits)
  qed
qed auto

lemma reset_requests_to_request:
  "to_request now timeout (reset_requests a) =
     map (\<lambda>b. (br_begin b, br_length b, False)) (filter (\<lambda>b. \<not> br_completed b) (pa_blocks a))"
proof -
  have "map (\<lambda>b. (br_begin b, br_length b, br_requested_at b \<noteq> None))
          (filter (\<lambda>b. \<not> br_completed b \<and> \<not> block_in_flight now timeout b)
             (map (\<lambda>b. if br_completed b then b else b\<lparr>br_requested_at := None\<rparr>) bs))
      = map (\<lambda>b. (br_begin b, br_length b, False)) (filter (\<lambda>b. \<not> br_completed b) bs)" for bs
    by (induction bs) (auto simp: block_in_flight_def)
  then show ?thesis by (simp add: to_request_def reset_requests_def)
qed

text \<open>The scheduler loses no block and repeats none: \<open>k\<close> calls of \<open>next_request\<close> issue the first
  \<open>k\<close> blocks that are neither received nor in flight, each once and in order, flagged as a retry
  exactly if the block was requested before; each call raises the number of requests in flight by one;
  and after \<open>reset_requests\<close> (the peer choked us) every block not yet received is requested again, as
  a first request.\<close>

theorem next_request_schedules:
  "fst (drain_requests k now timeout a) = take k (to_request now timeout a)
   \<and> in_flight_count now timeout (snd (drain_requests k now timeout a))
       = in_flight_count now timeout a + min k (length (to_request now timeout a))
   \<and> fst (drain_requests k now timeout (reset_requests a))
       = take k (map (\<lambda>b. (br_begin b, br_length b, False)) (filter (\<lambda>b. \<not> br_completed b) (pa_blocks a)))"
  using drain_requests_spec [of k now timeout a] drain_requests_spec [of k now timeout "reset_requests a"]
  by (cases "drain_requests k now timeout a"; cases "drain_requests k now timeout (reset_requests a)")
    (auto simp: reset_requests_to_request)

end
