(* ===== verification/MetadataAssembler.thy ===== *)
theory MetadataAssembler
  imports Chunks Bencode
begin

text \<open>
  The metadata assembler of \<open>core/metadata_assembler.rs\<close>: it collects the info dictionary of a magnet
  link in pieces of 16 KiB that come from several peers. The set of received pieces is the
  \<open>HashSet\<close> of the source.
\<close>

section \<open>State and operations\<close>

definition META_PIECE_SIZE :: nat where "META_PIECE_SIZE = 16384"

datatype metadata_error = UnacceptableSize nat | PieceOutOfBounds | InvalidPieceSize nat nat

record metadata_assembler =
  ma_metadata_size :: nat
  ma_buffer :: bytes
  ma_received_pieces :: "nat set"
  ma_total_pieces :: nat

definition ma_new :: "nat \<Rightarrow> metadata_error + metadata_assembler" where
  "ma_new metadata_size =
     (if metadata_size = 0 \<or> metadata_size > MAX_TORRENT_SIZE then Inl (UnacceptableSize metadata_size)
      else Inr \<lparr>ma_metadata_size = metadata_size, ma_buffer = replicate metadata_size 0,
                ma_received_pieces = {},
                ma_total_pieces = as_u32 (div_ceil metadata_size META_PIECE_SIZE)\<rparr>)"

definition ma_is_complete :: "metadata_assembler \<Rightarrow> bool" where
  "ma_is_complete a \<longleftrightarrow> card (ma_received_pieces a) = ma_total_pieces a"

definition ma_add_piece ::
  "nat \<Rightarrow> bytes \<Rightarrow> metadata_assembler \<Rightarrow> (metadata_error + bool) \<times> metadata_assembler" where
  "ma_add_piece piece data a =
     (if piece \<ge> ma_total_pieces a then (Inl PieceOutOfBounds, a)
      else
        let start = piece * META_PIECE_SIZE;
            stop = (if start + META_PIECE_SIZE > ma_metadata_size a then ma_metadata_size a
                    else start + META_PIECE_SIZE)
        in if length data \<noteq> stop - start then (Inl (InvalidPieceSize (stop - start) (length data)), a)
           else let a' = a\<lparr>ma_buffer := splice start data (ma_buffer a),
                           ma_received_pieces := insert piece (ma_received_pieces a)\<rparr>
                in (Inr (ma_is_complete a'), a'))"

definition ma_next_missing_piece :: "metadata_assembler \<Rightarrow> nat option" where
  "ma_next_missing_piece a = find (\<lambda>i. i \<notin> ma_received_pieces a) [0..<ma_total_pieces a]"

definition ma_next_piece_where :: "(nat \<Rightarrow> bool) \<Rightarrow> metadata_assembler \<Rightarrow> nat option" where
  "ma_next_piece_where skip a =
     find (\<lambda>i. i \<notin> ma_received_pieces a \<and> \<not> skip i) [0..<ma_total_pieces a]"

section \<open>Invariant\<close>

definition ma_wf :: "metadata_assembler \<Rightarrow> bool" where
  "ma_wf a \<longleftrightarrow> 0 < ma_metadata_size a \<and> ma_metadata_size a \<le> MAX_TORRENT_SIZE
     \<and> length (ma_buffer a) = ma_metadata_size a
     \<and> ma_total_pieces a = div_ceil (ma_metadata_size a) META_PIECE_SIZE
     \<and> ma_received_pieces a \<subseteq> {..<ma_total_pieces a}"

lemma META_PIECE_SIZE_pos [simp]: "0 < META_PIECE_SIZE"
  by (simp add: META_PIECE_SIZE_def)

lemma meta_total_small: "n \<le> MAX_TORRENT_SIZE \<Longrightarrow> div_ceil n META_PIECE_SIZE < 2 ^ 32"
proof -
  assume "n \<le> MAX_TORRENT_SIZE"
  then have "div_ceil n META_PIECE_SIZE \<le> 1024"
    by (subst div_ceil_le_iff) (simp_all add: MAX_TORRENT_SIZE_def META_PIECE_SIZE_def)
  then show ?thesis by simp
qed

lemma ma_new_Inr: "ma_new n = Inr a \<Longrightarrow> ma_wf a \<and> ma_metadata_size a = n \<and> ma_received_pieces a = {}"
  using meta_total_small [of n] by (auto simp: ma_new_def ma_wf_def split: if_splits)

lemma ma_is_complete_iff: "ma_wf a \<Longrightarrow> ma_is_complete a \<longleftrightarrow> ma_received_pieces a = {..<ma_total_pieces a}"
  unfolding ma_is_complete_def ma_wf_def by (metis card_lessThan card_subset_eq finite_lessThan)

text \<open>The bounds computed by \<open>add_piece\<close> are those of chunk number \<open>piece\<close>.\<close>

lemma ma_piece_bounds:
  assumes "ma_wf a" "piece < ma_total_pieces a"
  shows "(if piece * META_PIECE_SIZE + META_PIECE_SIZE > ma_metadata_size a then ma_metadata_size a
          else piece * META_PIECE_SIZE + META_PIECE_SIZE) - piece * META_PIECE_SIZE
       = chunk_len META_PIECE_SIZE (ma_metadata_size a) piece"
    and "piece * META_PIECE_SIZE + chunk_len META_PIECE_SIZE (ma_metadata_size a) piece
         \<le> ma_metadata_size a"
  using assms chunk_index_le [OF META_PIECE_SIZE_pos, of piece "ma_metadata_size a"]
  by (auto simp: chunk_len_def ma_wf_def)

lemma ma_add_piece_eq:
  assumes "ma_wf a"
  shows "ma_add_piece piece data a =
    (if piece \<ge> ma_total_pieces a then (Inl PieceOutOfBounds, a)
     else if length data \<noteq> chunk_len META_PIECE_SIZE (ma_metadata_size a) piece
     then (Inl (InvalidPieceSize (chunk_len META_PIECE_SIZE (ma_metadata_size a) piece) (length data)), a)
     else (Inr (insert piece (ma_received_pieces a) = {..<ma_total_pieces a}),
           a\<lparr>ma_buffer := splice (piece * META_PIECE_SIZE) data (ma_buffer a),
             ma_received_pieces := insert piece (ma_received_pieces a)\<rparr>))"
proof (cases "piece < ma_total_pieces a \<and> length data = chunk_len META_PIECE_SIZE (ma_metadata_size a) piece")
  case True
  let ?a = "a\<lparr>ma_buffer := splice (piece * META_PIECE_SIZE) data (ma_buffer a),
             ma_received_pieces := insert piece (ma_received_pieces a)\<rparr>"
  have "ma_wf ?a" using assms True ma_piece_bounds(2) [OF assms, of piece] by (auto simp: ma_wf_def)
  from ma_is_complete_iff [OF this] True show ?thesis
    by (simp add: ma_add_piece_def ma_piece_bounds(1) [OF assms] Let_def)
next
  case False
  then show ?thesis by (auto simp: ma_add_piece_def ma_piece_bounds(1) [OF assms] Let_def)
qed

lemma ma_add_piece_wf: "ma_wf a \<Longrightarrow> ma_wf (snd (ma_add_piece piece data a))"
  using ma_piece_bounds(2) [of a piece] by (auto simp: ma_add_piece_eq) (auto simp: ma_wf_def)

definition ma_deliver :: "nat \<Rightarrow> bytes \<Rightarrow> metadata_assembler \<Rightarrow> metadata_assembler" where
  "ma_deliver i data a = snd (ma_add_piece i data a)"

lemma ma_deliver_eq:
  "ma_wf a \<Longrightarrow> i < ma_total_pieces a \<Longrightarrow> length data = chunk_len META_PIECE_SIZE (ma_metadata_size a) i \<Longrightarrow>
   ma_deliver i data a = a\<lparr>ma_buffer := splice (i * META_PIECE_SIZE) data (ma_buffer a),
                           ma_received_pieces := insert i (ma_received_pieces a)\<rparr>"
  by (simp add: ma_deliver_def ma_add_piece_eq)

interpretation ma: chunk_collector META_PIECE_SIZE n
  "\<lambda>a. ma_wf a \<and> ma_metadata_size a = n" ma_buffer ma_received_pieces ma_deliver
  for n
proof (unfold_locales, goal_cases)
  case (4 s i d)
  then have "ma_wf (ma_deliver i d s)" unfolding ma_deliver_def by (intro ma_add_piece_wf) simp
  moreover have "i < ma_total_pieces s" using 4 by (simp add: ma_wf_def)
  ultimately show ?case using 4 by (simp add: ma_deliver_eq)
next
  case (6 s i d j)
  then have "j < div_ceil n META_PIECE_SIZE" by (auto simp: ma_wf_def)
  with 6 show ?case by (auto simp: ma_deliver_eq ma_wf_def intro!: chunk_splice_other)
next
  case (7 s i d)
  then show ?case by (auto simp: ma_deliver_eq ma_wf_def intro!: chunk_splice_same)
next
  case (8 s i d)
  then show ?case by (auto simp: ma_deliver_eq ma_wf_def intro!: chunk_splice_same)
qed (auto simp: ma_wf_def ma_deliver_eq)

lemma find_upt_Some_iff:
  "find P [0..<n] = Some i \<longleftrightarrow> i < n \<and> P i \<and> (\<forall>j < i. \<not> P j)"
  by (auto simp: find_Some_iff)

section \<open>Properties\<close>

text \<open>Metadata pieces of one info dictionary \<open>D\<close> put the dictionary together, in any order and
  with repetitions: \<open>add_piece\<close> reports completion exactly when every piece is in, and then the buffer
  is \<open>D\<close>; until then \<open>next_missing_piece\<close> names the first piece that is missing.\<close>

theorem metadata_reassembles:
  assumes "ma_new (length D) = Inr a0"
    and "\<forall>j \<in> set is. j < div_ceil (length D) META_PIECE_SIZE"
    and "i < div_ceil (length D) META_PIECE_SIZE"
    and "a = fold (\<lambda>j. ma_deliver j (chunk META_PIECE_SIZE D j)) is a0"
    and "(r, a') = ma_add_piece i (chunk META_PIECE_SIZE D i) a"
  shows "r = Inr (insert i (set is) = {..<div_ceil (length D) META_PIECE_SIZE})
    \<and> (r = Inr True \<longrightarrow> ma_buffer a' = D)
    \<and> (ma_next_missing_piece a' = None \<longleftrightarrow> r = Inr True)
    \<and> (\<forall>j. ma_next_missing_piece a' = Some j \<longrightarrow>
          j \<notin> insert i (set is) \<and> {..<j} \<subseteq> insert i (set is))"
proof -
  let ?n = "length D"
  have "ma.agrees ?n D a0" using ma_new_Inr [OF assms(1)] by (simp add: ma.agrees_def)
  from ma.run_agrees [OF refl this assms(2)] assms(4) ma_new_Inr [OF assms(1)]
  have ag: "ma.agrees ?n D a" and got: "ma_received_pieces a = set is" by simp_all
  then have a: "ma_wf a" "ma_metadata_size a = ?n" by (simp_all add: ma.agrees_def)
  then have a3: "ma_total_pieces a = div_ceil ?n META_PIECE_SIZE" by (simp add: ma_wf_def)
  have a': "a' = ma_deliver i (chunk META_PIECE_SIZE D i) a" using assms(5) by (simp add: ma_deliver_def prod_eq_iff)
  from ma.add_agrees [OF refl ag assms(3)] have ag': "ma.agrees ?n D a'" by (simp add: a')
  then have w: "ma_wf a'" "ma_metadata_size a' = ?n" by (auto simp: ma.agrees_def)
  then have w3: "ma_total_pieces a' = div_ceil ?n META_PIECE_SIZE" by (simp add: ma_wf_def)
  have got': "ma_received_pieces a' = insert i (set is)"
    using ma.add_got [of a ?n i] a assms(3) got by (simp add: a')
  have r: "r = Inr (insert i (set is) = {..<div_ceil ?n META_PIECE_SIZE})"
    using assms(3,5) a a3 got by (simp add: ma_add_piece_eq prod_eq_iff)
  have sub: "insert i (set is) \<subseteq> {..<div_ceil ?n META_PIECE_SIZE}" using assms(2,3) by auto
  have none: "ma_next_missing_piece a' = None \<longleftrightarrow> r = Inr True"
    using sub r by (auto simp: ma_next_missing_piece_def find_None_iff got' w3)
  have some: "\<forall>j. ma_next_missing_piece a' = Some j \<longrightarrow> j \<notin> insert i (set is) \<and> {..<j} \<subseteq> insert i (set is)"
    by (auto simp: ma_next_missing_piece_def find_upt_Some_iff got')
  have "r = Inr True \<longrightarrow> ma_buffer a' = D"
    using ma.complete_eq [OF refl ag'] got' r by simp
  with r none some show ?thesis by blast
qed

theorem metadata_reassembles_witness:
  "\<exists>a0. ma_new (length (replicate 20000 (5 :: 8 word))) = Inr a0 \<and>
     ma_buffer (snd (ma_add_piece 0 (chunk META_PIECE_SIZE (replicate 20000 5) 0)
       (fold (\<lambda>j. ma_deliver j (chunk META_PIECE_SIZE (replicate 20000 5) j)) [1] a0))) = replicate 20000 5"
proof -
  let ?D = "replicate 20000 (5 :: 8 word)"
  have n: "div_ceil (length ?D) META_PIECE_SIZE = 2" by (simp add: div_ceil_def META_PIECE_SIZE_def)
  obtain a0 where a0: "ma_new (length ?D) = Inr a0"
    by (simp add: ma_new_def MAX_TORRENT_SIZE_def)
  have s: "insert (0::nat) (set [1]) = {..<2}" by auto
  have "ma_buffer (snd (ma_add_piece 0 (chunk META_PIECE_SIZE ?D 0)
       (fold (\<lambda>j. ma_deliver j (chunk META_PIECE_SIZE ?D j)) [1] a0))) = ?D"
    using metadata_reassembles [OF a0 _ _ refl prod.collapse, of "[1]" 0] s
    unfolding n by (simp del: length_replicate)
  with a0 show ?thesis by blast
qed

end
