(* ===== verification/Selection.thy ===== *)
theory Selection
  imports Bitfield Torrent
begin

text \<open>
  Selective download, \<open>core/selection.rs\<close>: the pieces that the chosen files need, and the pieces that
  cannot be served because a skipped file covers a part of them. The loops are those of the source,
  with the offset of a file as a \<open>u64\<close>; the specification speaks of the bytes of the files.
\<close>

section \<open>Operations\<close>

record selection =
  sel_wanted :: bitfield
  sel_unservable :: bitfield

definition sel_all :: "nat \<Rightarrow> selection" where
  "sel_all total_pieces = \<lparr>sel_wanted = bf_full total_pieces, sel_unservable = bf_new total_pieces\<rparr>"

definition set_range :: "nat \<Rightarrow> nat \<Rightarrow> nat \<Rightarrow> bitfield \<Rightarrow> bitfield" where
  "set_range first lst total_pieces b =
     fold (\<lambda>p b. snd (bf_set p b)) [first..<Suc (min lst (total_pieces - 1))] b"

fun from_files_loop ::
  "nat \<Rightarrow> nat \<Rightarrow> nat \<Rightarrow> (torrent_file \<times> bool) list \<Rightarrow> selection \<Rightarrow> selection" where
  "from_files_loop piece_length total_pieces offset [] s = s"
| "from_files_loop piece_length total_pieces offset ((f, keep) # rest) s =
     from_files_loop piece_length total_pieces (add_u64 offset (tf_length f)) rest
       (if tf_length f > 0 then
          let first = offset div piece_length;
              lst = (add_u64 offset (tf_length f) - 1) div piece_length
          in if keep then s\<lparr>sel_wanted := set_range first lst total_pieces (sel_wanted s)\<rparr>
             else s\<lparr>sel_unservable := set_range first lst total_pieces (sel_unservable s)\<rparr>
        else s)"

definition sel_from_files :: "torrent_file list \<Rightarrow> bool list \<Rightarrow> nat \<Rightarrow> nat \<Rightarrow> selection" where
  "sel_from_files files selected piece_length total_pieces =
     from_files_loop (max piece_length 1) total_pieces 0 (zip files selected)
       \<lparr>sel_wanted = bf_new total_pieces, sel_unservable = bf_new total_pieces\<rparr>"

fun pieces_of_files_loop ::
  "nat \<Rightarrow> nat \<Rightarrow> nat \<Rightarrow> (torrent_file \<times> bool) list \<Rightarrow> bitfield \<Rightarrow> bitfield" where
  "pieces_of_files_loop piece_length total_pieces offset [] b = b"
| "pieces_of_files_loop piece_length total_pieces offset ((f, flag) # rest) b =
     pieces_of_files_loop piece_length total_pieces (add_u64 offset (tf_length f)) rest
       (if flag \<and> tf_length f > 0 then
          set_range (offset div piece_length) ((add_u64 offset (tf_length f) - 1) div piece_length)
            total_pieces b
        else b)"

definition pieces_of_files :: "torrent_file list \<Rightarrow> bool list \<Rightarrow> nat \<Rightarrow> nat \<Rightarrow> bitfield" where
  "pieces_of_files files flags piece_length total_pieces =
     pieces_of_files_loop (max piece_length 1) total_pieces 0 (zip files flags) (bf_new total_pieces)"

definition pieces_to_refetch ::
  "torrent_file list \<Rightarrow> bool list \<Rightarrow> bool list \<Rightarrow> nat \<Rightarrow> nat \<Rightarrow> bitfield" where
  "pieces_to_refetch files before after piece_length total_pieces =
     pieces_of_files files (map (\<lambda>(was, now). \<not> was \<and> now) (zip before after)) piece_length total_pieces"

definition sel_is_all :: "selection \<Rightarrow> bool" where
  "sel_is_all s \<longleftrightarrow> bf_count (sel_wanted s) = bf_len (sel_wanted s) \<and> bf_count (sel_unservable s) = 0"

definition wanted_bytes :: "selection \<Rightarrow> nat \<Rightarrow> nat \<Rightarrow> nat" where
  "wanted_bytes s piece_length total_length =
     sum_list (map (\<lambda>piece. min (total_length - piece * piece_length) piece_length)
       (bf_iter_ones (sel_wanted s)))"

section \<open>Files as byte ranges\<close>

definition file_start :: "torrent_file list \<Rightarrow> nat \<Rightarrow> nat" where
  "file_start files k = sum_list (map tf_length (take k files))"

text \<open>Piece \<open>p\<close> holds a byte of a file that is flagged.\<close>

definition holds_byte_of :: "nat \<Rightarrow> torrent_file list \<Rightarrow> bool list \<Rightarrow> nat \<Rightarrow> bool" where
  "holds_byte_of pl files flags p \<longleftrightarrow>
     (\<exists>k < min (length files) (length flags). flags ! k \<and>
        (\<exists>b. file_start files k \<le> b \<and> b < file_start files k + tf_length (files ! k) \<and> b div pl = p))"

definition sel_wf :: "nat \<Rightarrow> selection \<Rightarrow> bool" where
  "sel_wf n s \<longleftrightarrow> bf_wf (sel_wanted s) \<and> bf_len (sel_wanted s) = n
     \<and> bf_wf (sel_unservable s) \<and> bf_len (sel_unservable s) = n"

lemma sel_all_wf: "sel_wf n (sel_all n)"
  by (simp add: sel_wf_def sel_all_def bf_full_wf bf_new_wf)

lemma file_start_0 [simp]: "file_start files 0 = 0"
  by (simp add: file_start_def)

lemma file_start_Cons [simp]: "file_start (f # files) (Suc k) = tf_length f + file_start files k"
  by (simp add: file_start_def)

lemma range_has_byte:
  assumes "0 < (pl :: nat)" "0 < len"
  shows "off div pl \<le> p \<and> p \<le> (off + len - 1) div pl \<longleftrightarrow> (\<exists>b. off \<le> b \<and> b < off + len \<and> b div pl = p)"
proof
  assume p: "off div pl \<le> p \<and> p \<le> (off + len - 1) div pl"
  show "\<exists>b. off \<le> b \<and> b < off + len \<and> b div pl = p"
  proof (cases "off div pl = p")
    case True
    then show ?thesis using assms by (intro exI [of _ off]) simp
  next
    case False
    have "p * pl \<le> off + len - 1"
      using p assms by (meson div_times_less_eq_dividend le_trans mult_le_mono1)
    moreover have "off < p * pl" using p False assms
      by (metis le_neq_implies_less less_mult_imp_div_less linorder_not_less div_mult_self_is_m
          div_le_mono)
    ultimately show ?thesis using assms by (intro exI [of _ "p * pl"]) simp
  qed
next
  assume "\<exists>b. off \<le> b \<and> b < off + len \<and> b div pl = p"
  then obtain b where "off \<le> b" "b \<le> off + len - 1" "b div pl = p" by auto
  then show "off div pl \<le> p \<and> p \<le> (off + len - 1) div pl" using div_le_mono by blast
qed

lemma set_range_props:
  assumes "bf_wf b" "bf_len b = n"
  shows "bf_wf (set_range first lst n b)" "bf_len (set_range first lst n b) = n"
    "bf_has (set_range first lst n b) p \<longleftrightarrow> bf_has b p \<or> (first \<le> p \<and> p \<le> lst \<and> p < n)"
  unfolding set_range_def using assms by (auto simp: bf.fold_put)

section \<open>The loops meet the specification\<close>

lemma pieces_of_files_loop_spec:
  assumes "0 < pl" "off + sum_list (map (tf_length \<circ> fst) fs) < 2 ^ 64" "bf_wf b" "bf_len b = n"
  shows "bf_wf (pieces_of_files_loop pl n off fs b) \<and> bf_len (pieces_of_files_loop pl n off fs b) = n
    \<and> (bf_has (pieces_of_files_loop pl n off fs b) p \<longleftrightarrow> bf_has b p \<or> (p < n \<and>
         (\<exists>k < length fs. snd (fs ! k) \<and> (\<exists>x. off + file_start (map fst fs) k \<le> x
            \<and> x < off + file_start (map fst fs) k + tf_length (fst (fs ! k)) \<and> x div pl = p))))"
  using assms(2-4)
proof (induction fs arbitrary: off b)
  case Nil
  then show ?case by simp
next
  case (Cons fl fs)
  obtain f flag where fl: "fl = (f, flag)" by (cases fl)
  let ?b = "if flag \<and> tf_length f > 0
    then set_range (off div pl) ((off + tf_length f - 1) div pl) n b else b"
  have e: "add_u64 off (tf_length f) = off + tf_length f" using Cons.prems(1) fl by simp
  have b: "bf_wf ?b" "bf_len ?b = n"
    using set_range_props [OF Cons.prems(2,3)] Cons.prems by simp_all
  have has: "bf_has ?b p \<longleftrightarrow> bf_has b p \<or> (p < n \<and> flag
     \<and> (\<exists>x. off \<le> x \<and> x < off + tf_length f \<and> x div pl = p))"
    using set_range_props(3) [OF Cons.prems(2,3)] range_has_byte [OF assms(1), of "tf_length f" off p]
    by auto
  have "off + tf_length f + sum_list (map (tf_length \<circ> fst) fs) < 2 ^ 64"
    using Cons.prems(1) fl by (simp add: comp_def)
  from Cons.IH [OF this b] show ?case
    using has by (auto simp: fl e Ex_less_Suc2 add.assoc)
qed

lemma from_files_loop_split:
  "from_files_loop pl n off fs s =
     \<lparr>sel_wanted = pieces_of_files_loop pl n off fs (sel_wanted s),
      sel_unservable = pieces_of_files_loop pl n off (map (apsnd Not) fs) (sel_unservable s)\<rparr>"
  by (induction pl n off fs s rule: from_files_loop.induct) (auto simp: Let_def)

lemma pieces_of_files_props:
  assumes "sum_list (map tf_length files) < 2 ^ 64"
  shows "bf_wf (pieces_of_files files flags pl n)" "bf_len (pieces_of_files files flags pl n) = n"
    "bf_has (pieces_of_files files flags pl n) p \<longleftrightarrow> p < n \<and> holds_byte_of (max pl 1) files flags p"
proof -
  let ?fs = "zip files flags" and ?pl = "max pl 1"
  have m: "map fst ?fs = take (min (length files) (length flags)) files"
    by (simp add: map_fst_zip_take)
  have "sum_list (map (tf_length \<circ> fst) ?fs) = sum_list (map tf_length (map fst ?fs))" by simp
  also have "\<dots> \<le> sum_list (map tf_length files)"
    unfolding m by (metis append_take_drop_id le_add1 map_append sum_list_append)
  finally have le: "0 + sum_list (map (tf_length \<circ> fst) ?fs) < 2 ^ 64" using assms by simp
  have st: "file_start (map fst ?fs) k = file_start files k"
    if "k < length files" "k < length flags" for k
    unfolding m file_start_def using that by (simp add: min_def)
  have holds: "holds_byte_of ?pl files flags p \<longleftrightarrow>
      (\<exists>k < length ?fs. snd (?fs ! k) \<and> (\<exists>x. 0 + file_start (map fst ?fs) k \<le> x
        \<and> x < 0 + file_start (map fst ?fs) k + tf_length (fst (?fs ! k)) \<and> x div ?pl = p))"
    unfolding holds_byte_of_def length_zip
    by (rule ex_cong1, rule conj_cong) (simp_all add: st)
  have pl: "0 < ?pl" by simp
  note spec = pieces_of_files_loop_spec [OF pl le bf_new_wf bf_len_new, of n p]
  show "bf_wf (pieces_of_files files flags pl n)" "bf_len (pieces_of_files files flags pl n) = n"
    using spec by (simp_all add: pieces_of_files_def)
  show "bf_has (pieces_of_files files flags pl n) p \<longleftrightarrow> p < n \<and> holds_byte_of (max pl 1) files flags p"
    using spec unfolding holds by (simp add: pieces_of_files_def)
qed

lemma sel_from_files_eq:
  "sel_from_files files selected pl n =
     \<lparr>sel_wanted = pieces_of_files files selected pl n,
      sel_unservable = pieces_of_files files (map Not selected) pl n\<rparr>"
  by (simp add: sel_from_files_def pieces_of_files_def from_files_loop_split zip_map2 apsnd_def map_prod_def)

lemma sel_from_files_wf: "sum_list (map tf_length files) < 2 ^ 64 \<Longrightarrow> sel_wf n (sel_from_files files selected pl n)"
  by (simp add: sel_wf_def sel_from_files_eq pieces_of_files_props)

lemma holds_byte_of_mono:
  assumes "holds_byte_of pl files flags p" "length flags = length flags'"
    "\<And>k. k < length flags \<Longrightarrow> flags ! k \<Longrightarrow> flags' ! k"
  shows "holds_byte_of pl files flags' p"
  using assms unfolding holds_byte_of_def by auto

section \<open>Properties\<close>

text \<open>\<open>Selection::from_files\<close> computes what its documentation says: a piece is wanted exactly when
  it holds a byte of a selected file, and unservable exactly when it holds a byte of a file that is
  skipped (so a piece on the boundary of the two is both).\<close>

theorem from_files_meets_spec:
  assumes "sum_list (map tf_length files) < 2 ^ 64" "0 < pl" "p < n"
  shows "(bf_has (sel_wanted (sel_from_files files selected pl n)) p
            \<longleftrightarrow> holds_byte_of pl files selected p)
    \<and> (bf_has (sel_unservable (sel_from_files files selected pl n)) p
            \<longleftrightarrow> holds_byte_of pl files (map Not selected) p)"
proof -
  have "max pl (Suc 0) = pl" using assms(2) by simp
  with assms(1,3) show ?thesis by (simp add: sel_from_files_eq pieces_of_files_props)
qed

theorem from_files_meets_spec_witness:
  "bf_has (sel_wanted (sel_from_files [\<lparr>tf_length = 15, tf_path = []\<rparr>, \<lparr>tf_length = 25, tf_path = []\<rparr>]
      [False, True] 10 4)) 1
   \<longleftrightarrow> holds_byte_of 10 [\<lparr>tf_length = 15, tf_path = []\<rparr>, \<lparr>tf_length = 25, tf_path = []\<rparr>] [False, True] 1"
  by (rule from_files_meets_spec [THEN conjunct1]) simp_all

text \<open>C18. Changing the selection never leaves a hole that is served: every piece that could not be
  served under the old choice of files (a part of it was discarded) and can be served under the new
  one is among the pieces that \<open>pieces_to_refetch\<close> downloads again; and only pieces that the new
  choice wants are.\<close>

theorem refetch_covers_holes:
  assumes "sum_list (map tf_length files) < 2 ^ 64" "length before = length after"
  shows "pieces (sel_unservable (sel_from_files files before pl n))
           - pieces (sel_unservable (sel_from_files files after pl n))
         \<subseteq> pieces (pieces_to_refetch files before after pl n)
    \<and> pieces (pieces_to_refetch files before after pl n)
         \<subseteq> pieces (sel_wanted (sel_from_files files after pl n))"
proof -
  have "bf_has (pieces_to_refetch files before after pl n) p"
    if "holds_byte_of (max pl 1) files (map Not before) p" "p < n"
      "\<not> holds_byte_of (max pl 1) files (map Not after) p" for p
  proof -
    from that(1) obtain k b where k: "k < length files" "k < length before" "\<not> before ! k"
      "file_start files k \<le> b" "b < file_start files k + tf_length (files ! k)" "b div (max pl 1) = p"
      unfolding holds_byte_of_def by auto
    have "after ! k"
    proof (rule ccontr)
      assume "\<not> after ! k"
      with k assms(2) have "holds_byte_of (max pl 1) files (map Not after) p"
        unfolding holds_byte_of_def by (intro exI [of _ k] conjI exI [of _ b]) simp_all
      with that(3) show False ..
    qed
    with k assms(2) that(2) show ?thesis
      by (auto simp: pieces_to_refetch_def pieces_of_files_props [OF assms(1)] holds_byte_of_def)
  qed
  moreover have "holds_byte_of (max pl 1) files after p"
    if "holds_byte_of (max pl 1) files (map (\<lambda>(was, now). \<not> was \<and> now) (zip before after)) p" for p
    using that by (rule holds_byte_of_mono) (use assms(2) in auto)
  ultimately show ?thesis
    by (auto simp: sel_from_files_eq pieces_of_files_props [OF assms(1)] pieces_to_refetch_def)
qed

theorem refetch_covers_holes_witness:
  "pieces (pieces_to_refetch [\<lparr>tf_length = 15, tf_path = []\<rparr>, \<lparr>tf_length = 25, tf_path = []\<rparr>]
      [True, False] [True, True] 10 4)
   \<subseteq> pieces (sel_wanted (sel_from_files [\<lparr>tf_length = 15, tf_path = []\<rparr>, \<lparr>tf_length = 25, tf_path = []\<rparr>]
      [True, True] 10 4))"
  by (rule refetch_covers_holes [THEN conjunct2]) simp_all

lemma card_bytes_of_piece:
  assumes "0 < pl"
  shows "card {b. b < t \<and> b div pl = p} = min (t - p * pl) pl"
proof -
  have eq: "b div pl = p \<longleftrightarrow> p * pl \<le> b \<and> b < p * pl + pl" for b
  proof
    assume "b div pl = p"
    then have "b = p * pl + b mod pl" by auto
    moreover have "b mod pl < pl" using assms by simp
    ultimately show "p * pl \<le> b \<and> b < p * pl + pl" by linarith
  next
    assume "p * pl \<le> b \<and> b < p * pl + pl"
    then show "b div pl = p" by (intro div_nat_eqI) (simp_all add: mult.commute)
  qed
  have "{b. b < t \<and> b div pl = p} = {p * pl..<min t (p * pl + pl)}"
    unfolding eq by (rule set_eqI) (simp add: conj_ac)
  then show ?thesis by simp
qed

text \<open>\<open>wanted_bytes\<close> is the number of bytes of the torrent that lie in wanted pieces, the short
  last piece included.\<close>

theorem wanted_bytes_counts:
  assumes "0 < pl" "bf_wf (sel_wanted s)"
  shows "wanted_bytes s pl t = card {b. b < t \<and> bf_has (sel_wanted s) (b div pl)}"
proof -
  have u: "{b. b < t \<and> bf_has (sel_wanted s) (b div pl)}
      = (\<Union>p \<in> pieces (sel_wanted s). {b. b < t \<and> b div pl = p})" by auto
  have "card {b. b < t \<and> bf_has (sel_wanted s) (b div pl)}
      = (\<Sum>p \<in> pieces (sel_wanted s). min (t - p * pl) pl)"
    unfolding u by (subst card_UN_disjoint) (auto simp: card_bytes_of_piece [OF assms(1)])
  also have "\<dots> = wanted_bytes s pl t"
    unfolding wanted_bytes_def set_bf_iter_ones [symmetric]
    by (intro sum.distinct_set_conv_list bf_iter_ones_distinct)
  finally show ?thesis ..
qed

theorem wanted_bytes_counts_witness:
  "wanted_bytes (sel_all 3) 10 25 = card {b. b < 25 \<and> bf_has (sel_wanted (sel_all 3)) (b div 10)}"
  by (rule wanted_bytes_counts) (simp_all add: sel_all_def bf_full_wf)

end
