(* ===== verification/Manager.thy ===== *)
theory Manager
  imports Selection "HOL-Library.AList"
begin

text \<open>
  The piece manager of \<open>core/manager.rs\<close>: which pieces are missing, in progress (and at how many
  peers) or complete, how many connected peers advertise each piece, and which piece a peer downloads
  next. The \<open>HashMap\<close> \<open>in_progress\<close> is an association list without repeated keys, in any order; the
  random tie-break is the parameter \<open>draw\<close>, where \<open>draw pos ties\<close> is the number that
  \<open>gen_range(0..=ties)\<close> returns when the scan of \<open>missing\<close> is at position \<open>pos\<close>.
\<close>

section \<open>State and operations\<close>

definition MAX_ENDGAME_HOLDERS :: nat where "MAX_ENDGAME_HOLDERS = 3"

datatype piece_state = Missing | Downloading | Downloaded

record torrent_manager =
  mgr_total_pieces :: nat
  mgr_missing :: "nat list"
  mgr_in_progress :: "(nat \<times> nat) list"
  mgr_completed :: "nat set"
  mgr_availability :: "nat list"
  mgr_missing_dirty :: bool
  mgr_selection :: selection
  mgr_wanted_total :: nat
  mgr_wanted_completed :: nat

definition with_selection :: "nat \<Rightarrow> nat list \<Rightarrow> selection \<Rightarrow> torrent_manager" where
  "with_selection total_pieces completed_pieces selection =
     (let completed = set (filter (\<lambda>idx. idx < total_pieces) completed_pieces);
          wanted_here = bf_has (sel_wanted selection)
      in \<lparr>mgr_total_pieces = total_pieces,
          mgr_missing = filter (\<lambda>idx. wanted_here idx \<and> idx \<notin> completed) [0..<total_pieces],
          mgr_in_progress = [],
          mgr_completed = completed,
          mgr_availability = replicate total_pieces 0,
          mgr_missing_dirty = False,
          mgr_selection = selection,
          mgr_wanted_total = length (filter wanted_here [0..<total_pieces]),
          mgr_wanted_completed = card (Set.filter wanted_here completed)\<rparr>)"

definition from_completed :: "nat \<Rightarrow> nat list \<Rightarrow> torrent_manager" where
  "from_completed total_pieces completed_pieces =
     with_selection total_pieces completed_pieces (sel_all total_pieces)"

definition is_wanted :: "torrent_manager \<Rightarrow> nat \<Rightarrow> bool" where
  "is_wanted m piece_index = bf_has (sel_wanted (mgr_selection m)) piece_index"

definition is_servable :: "torrent_manager \<Rightarrow> nat \<Rightarrow> bool" where
  "is_servable m piece_index \<longleftrightarrow> piece_index \<in> mgr_completed m
     \<and> \<not> bf_has (sel_unservable (mgr_selection m)) piece_index"

definition completed_pieces :: "torrent_manager \<Rightarrow> nat list" where
  "completed_pieces m = sorted_list_of_set (mgr_completed m)"

definition servable_pieces :: "torrent_manager \<Rightarrow> nat list" where
  "servable_pieces m =
     filter (\<lambda>piece. \<not> bf_has (sel_unservable (mgr_selection m)) piece) (completed_pieces m)"

text \<open>The scan for the rarest piece: \<open>best\<close> is a position in \<open>missing\<close> with its availability.\<close>

fun rarest_loop ::
  "(nat \<Rightarrow> nat \<Rightarrow> nat) \<Rightarrow> bitfield \<Rightarrow> nat list \<Rightarrow> nat \<Rightarrow> nat list \<Rightarrow> (nat \<times> nat) option \<Rightarrow> nat
   \<Rightarrow> (nat \<times> nat) option" where
  "rarest_loop draw peer_has availability pos [] best ties = best"
| "rarest_loop draw peer_has availability pos (piece # rest) best ties =
     (if \<not> bf_has peer_has piece then rarest_loop draw peer_has availability (Suc pos) rest best ties
      else
        let avail = availability ! piece in
        case best of
          None \<Rightarrow> rarest_loop draw peer_has availability (Suc pos) rest (Some (pos, avail)) 0
        | Some (_, best_avail) \<Rightarrow>
            if avail > best_avail then rarest_loop draw peer_has availability (Suc pos) rest best ties
            else if avail = best_avail then
              rarest_loop draw peer_has availability (Suc pos) rest
                (if draw pos (ties + 1) = 0 then Some (pos, avail) else best) (ties + 1)
            else rarest_loop draw peer_has availability (Suc pos) rest (Some (pos, avail)) 0)"

definition retain_missing :: "torrent_manager \<Rightarrow> torrent_manager" where
  "retain_missing m =
     (if mgr_missing_dirty m
      then m\<lparr>mgr_missing := filter (\<lambda>p. p \<notin> mgr_completed m) (mgr_missing m), mgr_missing_dirty := False\<rparr>
      else m)"

text \<open>\<open>min_by_key\<close> on the key \<open>(holders, piece)\<close>, of which the first minimum is taken.\<close>

fun min_by_holders :: "(nat \<times> nat) list \<Rightarrow> (nat \<times> nat) option" where
  "min_by_holders [] = None"
| "min_by_holders ((p, h) # rest) =
     (case min_by_holders rest of
        None \<Rightarrow> Some (p, h)
      | Some (p', h') \<Rightarrow> if h' < h \<or> (h' = h \<and> p' < p) then Some (p', h') else Some (p, h))"

definition endgame_candidate :: "bitfield \<Rightarrow> (nat \<times> nat) list \<Rightarrow> nat option" where
  "endgame_candidate peer_has in_progress =
     map_option fst (min_by_holders
       (filter (\<lambda>(piece, holders). holders < MAX_ENDGAME_HOLDERS \<and> bf_has peer_has piece) in_progress))"

definition next_work_for ::
  "(nat \<Rightarrow> nat \<Rightarrow> nat) \<Rightarrow> bitfield \<Rightarrow> torrent_manager \<Rightarrow> nat option \<times> torrent_manager" where
  "next_work_for draw peer_has m0 =
     (let m = retain_missing m0 in
      case rarest_loop draw peer_has (mgr_availability m) 0 (mgr_missing m) None 0 of
        Some (pos, _) \<Rightarrow>
          (let piece = mgr_missing m ! pos in
           (Some piece, m\<lparr>mgr_missing := remove_nth pos (mgr_missing m),
                          mgr_in_progress := AList.update piece 1 (mgr_in_progress m)\<rparr>))
      | None \<Rightarrow>
          if mgr_missing m \<noteq> [] then (None, m)
          else case endgame_candidate peer_has (mgr_in_progress m) of
            None \<Rightarrow> (None, m)
          | Some candidate \<Rightarrow>
              (Some candidate, m\<lparr>mgr_in_progress :=
                 AList.map_entry candidate (\<lambda>h. h + 1) (mgr_in_progress m)\<rparr>))"

definition return_work :: "nat \<Rightarrow> torrent_manager \<Rightarrow> torrent_manager" where
  "return_work piece_index m =
     (case map_of (mgr_in_progress m) piece_index of
        None \<Rightarrow> m
      | Some holders \<Rightarrow>
          if holders - 1 = 0 then
            (let m' = m\<lparr>mgr_in_progress := AList.delete piece_index (mgr_in_progress m)\<rparr> in
             if piece_index \<notin> mgr_completed m' \<and> is_wanted m' piece_index
             then m'\<lparr>mgr_missing := mgr_missing m' @ [piece_index]\<rparr> else m')
          else m\<lparr>mgr_in_progress := AList.update piece_index (holders - 1) (mgr_in_progress m)\<rparr>)"

definition apply_selection :: "selection \<Rightarrow> bitfield \<Rightarrow> torrent_manager \<Rightarrow> torrent_manager" where
  "apply_selection selection refetch m =
     (let completed = mgr_completed m - set (bf_iter_ones refetch);
          wanted_here = bf_has (sel_wanted selection)
      in m\<lparr>mgr_completed := completed,
           mgr_selection := selection,
           mgr_wanted_total := length (filter wanted_here [0..<mgr_total_pieces m]),
           mgr_wanted_completed := card (Set.filter wanted_here completed),
           mgr_missing := filter (\<lambda>p. wanted_here p \<and> p \<notin> completed
              \<and> map_of (mgr_in_progress m) p = None) [0..<mgr_total_pieces m],
           mgr_missing_dirty := False\<rparr>)"

definition mark_completed :: "nat \<Rightarrow> torrent_manager \<Rightarrow> torrent_manager" where
  "mark_completed piece_index m =
     (if piece_index \<ge> mgr_total_pieces m then m
      else let m' = m\<lparr>mgr_in_progress := AList.delete piece_index (mgr_in_progress m)\<rparr> in
        if piece_index \<in> mgr_completed m' then m'
        else m'\<lparr>mgr_completed := insert piece_index (mgr_completed m'),
                mgr_missing_dirty := True,
                mgr_wanted_completed := mgr_wanted_completed m' + (if is_wanted m' piece_index then 1 else 0)\<rparr>)"

definition is_completed :: "torrent_manager \<Rightarrow> nat \<Rightarrow> bool" where
  "is_completed m piece_index \<longleftrightarrow> piece_index \<in> mgr_completed m"

definition bump_slot :: "nat \<Rightarrow> nat list \<Rightarrow> nat list" where
  "bump_slot i av = (if i < length av then av[i := saturating_add U16_MAX (av ! i) 1] else av)"

definition drop_slot :: "nat \<Rightarrow> nat list \<Rightarrow> nat list" where
  "drop_slot i av = (if i < length av then av[i := av ! i - 1] else av)"

definition add_peer_pieces :: "bitfield \<Rightarrow> torrent_manager \<Rightarrow> torrent_manager" where
  "add_peer_pieces ps m = m\<lparr>mgr_availability := fold bump_slot (bf_iter_ones ps) (mgr_availability m)\<rparr>"

definition remove_peer_pieces :: "bitfield \<Rightarrow> torrent_manager \<Rightarrow> torrent_manager" where
  "remove_peer_pieces ps m = m\<lparr>mgr_availability := fold drop_slot (bf_iter_ones ps) (mgr_availability m)\<rparr>"

definition add_peer_piece :: "nat \<Rightarrow> torrent_manager \<Rightarrow> torrent_manager" where
  "add_peer_piece index m = m\<lparr>mgr_availability := bump_slot index (mgr_availability m)\<rparr>"

definition availability_of :: "torrent_manager \<Rightarrow> nat \<Rightarrow> nat" where
  "availability_of m index =
     (if index < length (mgr_availability m) then mgr_availability m ! index else 0)"

definition is_done :: "torrent_manager \<Rightarrow> bool" where
  "is_done m \<longleftrightarrow> mgr_wanted_completed m = mgr_wanted_total m"

definition completed_count :: "torrent_manager \<Rightarrow> nat" where
  "completed_count m = card (mgr_completed m)"

definition piece_state_of :: "torrent_manager \<Rightarrow> nat \<Rightarrow> piece_state option" where
  "piece_state_of m piece_index =
     (if piece_index \<ge> mgr_total_pieces m then None
      else if piece_index \<in> mgr_completed m then Some Downloaded
      else if map_of (mgr_in_progress m) piece_index \<noteq> None then Some Downloading
      else Some Missing)"

section \<open>Invariant\<close>

definition wanted_set :: "torrent_manager \<Rightarrow> nat set" where
  "wanted_set m = {p. p < mgr_total_pieces m \<and> is_wanted m p}"

definition mgr_inv :: "torrent_manager \<Rightarrow> bool" where
  "mgr_inv m \<longleftrightarrow>
     distinct (mgr_missing m)
     \<and> set (mgr_missing m) \<subseteq> wanted_set m
     \<and> distinct (map fst (mgr_in_progress m))
     \<and> fst ` set (mgr_in_progress m) \<subseteq> {..<mgr_total_pieces m}
     \<and> (\<forall>(p, h) \<in> set (mgr_in_progress m). 1 \<le> h \<and> h \<le> MAX_ENDGAME_HOLDERS)
     \<and> set (mgr_missing m) \<inter> fst ` set (mgr_in_progress m) = {}
     \<and> mgr_completed m \<subseteq> {..<mgr_total_pieces m}
     \<and> mgr_completed m \<inter> fst ` set (mgr_in_progress m) = {}
     \<and> (\<not> mgr_missing_dirty m \<longrightarrow> set (mgr_missing m) \<inter> mgr_completed m = {})
     \<and> wanted_set m \<subseteq> set (mgr_missing m) \<union> fst ` set (mgr_in_progress m) \<union> mgr_completed m
     \<and> length (mgr_availability m) = mgr_total_pieces m
     \<and> list_all (\<lambda>a. a \<le> U16_MAX) (mgr_availability m)
     \<and> mgr_wanted_total m = card (wanted_set m)
     \<and> mgr_wanted_completed m = card (wanted_set m \<inter> mgr_completed m)"

lemma mgr_invD:
  assumes "mgr_inv m"
  shows "distinct (mgr_missing m)" "set (mgr_missing m) \<subseteq> wanted_set m"
    "distinct (map fst (mgr_in_progress m))" "fst ` set (mgr_in_progress m) \<subseteq> {..<mgr_total_pieces m}"
    "\<forall>(p, h) \<in> set (mgr_in_progress m). 1 \<le> h \<and> h \<le> MAX_ENDGAME_HOLDERS"
    "set (mgr_missing m) \<inter> fst ` set (mgr_in_progress m) = {}"
    "mgr_completed m \<subseteq> {..<mgr_total_pieces m}" "mgr_completed m \<inter> fst ` set (mgr_in_progress m) = {}"
    "\<not> mgr_missing_dirty m \<Longrightarrow> set (mgr_missing m) \<inter> mgr_completed m = {}"
    "wanted_set m \<subseteq> set (mgr_missing m) \<union> fst ` set (mgr_in_progress m) \<union> mgr_completed m"
    "length (mgr_availability m) = mgr_total_pieces m" "list_all (\<lambda>a. a \<le> U16_MAX) (mgr_availability m)"
    "mgr_wanted_total m = card (wanted_set m)"
    "mgr_wanted_completed m = card (wanted_set m \<inter> mgr_completed m)"
  using assms unfolding mgr_inv_def by simp_all

lemma filter_upt_card: "length (filter P [0..<n]) = card {p. p < n \<and> P p}"
proof -
  have "set (filter P [0..<n]) = {p. p < n \<and> P p}" by auto
  then show ?thesis using distinct_card [of "filter P [0..<n]"] by simp
qed

lemma wanted_set_simps [simp]:
  "wanted_set (m\<lparr>mgr_missing := x1\<rparr>) = wanted_set m"
  "wanted_set (m\<lparr>mgr_in_progress := x2\<rparr>) = wanted_set m"
  "wanted_set (m\<lparr>mgr_completed := x3\<rparr>) = wanted_set m"
  "wanted_set (m\<lparr>mgr_availability := x4\<rparr>) = wanted_set m"
  "wanted_set (m\<lparr>mgr_missing_dirty := x5\<rparr>) = wanted_set m"
  "wanted_set (m\<lparr>mgr_wanted_completed := x6\<rparr>) = wanted_set m"
  by (simp_all add: wanted_set_def is_wanted_def)

lemma finite_wanted_set [simp]: "finite (wanted_set m)"
  by (simp add: wanted_set_def)

lemma finite_completed: "mgr_inv m \<Longrightarrow> finite (mgr_completed m)"
  using mgr_invD(7) by (rule finite_subset) simp_all

lemma with_selection_inv: "mgr_inv (with_selection n cs sel)"
proof -
  have c: "{p. p < n \<and> bf_has (sel_wanted sel) p} \<inter> {x \<in> set cs. x < n}
      = {x. x < n \<and> x \<in> set cs \<and> bf_has (sel_wanted sel) x}" by auto
  have d: "Set.filter (bf_has (sel_wanted sel)) {x \<in> set cs. x < n}
      = {x. x < n \<and> x \<in> set cs \<and> bf_has (sel_wanted sel) x}" by auto
  show ?thesis
    unfolding mgr_inv_def with_selection_def Let_def wanted_set_def is_wanted_def
    by (auto simp: filter_upt_card c d conj_ac list_all_length intro!: arg_cong [where f = card])
qed

subsection \<open>Every operation keeps it\<close>

lemma retain_missing_inv:
  assumes "mgr_inv m"
  shows "mgr_inv (retain_missing m)" and "\<not> mgr_missing_dirty (retain_missing m)"
    and "set (mgr_missing (retain_missing m)) = set (mgr_missing m) - mgr_completed m"
  using assms mgr_invD(9) [OF assms] unfolding mgr_inv_def retain_missing_def by auto

lemma retain_missing_simps [simp]:
  "mgr_total_pieces (retain_missing m) = mgr_total_pieces m"
  "mgr_in_progress (retain_missing m) = mgr_in_progress m"
  "mgr_completed (retain_missing m) = mgr_completed m"
  "mgr_availability (retain_missing m) = mgr_availability m"
  "mgr_selection (retain_missing m) = mgr_selection m"
  "wanted_set (retain_missing m) = wanted_set m"
  by (simp_all add: retain_missing_def)

lemma rarest_loop_step:
  assumes "bf_has peer piece"
  obtains best' ties' where
    "rarest_loop draw peer av pos (piece # rest) best ties
       = rarest_loop draw peer av (Suc pos) rest (Some best') ties'"
    "best' = (pos, av ! piece) \<or> Some best' = best"
    "snd best' \<le> av ! piece" "\<And>b. best = Some b \<Longrightarrow> snd best' \<le> snd b"
proof (cases best)
  case None
  with assms that [of "(pos, av ! piece)" 0] show ?thesis by simp
next
  case (Some b)
  obtain q a where b: "b = (q, a)" by (cases b)
  consider "av ! piece > a" | "av ! piece = a" | "av ! piece < a" by linarith
  then show ?thesis
  proof cases
    case 1
    with assms Some b that [of b ties] show ?thesis by simp
  next
    case 2
    with assms Some b that [of "if draw pos (ties + 1) = 0 then (pos, av ! piece) else b" "ties + 1"]
    show ?thesis by (simp split: if_splits)
  next
    case 3
    with assms Some b that [of "(pos, av ! piece)" 0] show ?thesis by simp
  qed
qed

lemma rarest_loop_None:
  "rarest_loop draw peer av pos ms best ties = None \<longleftrightarrow> best = None \<and> (\<forall>p \<in> set ms. \<not> bf_has peer p)"
proof (induction ms arbitrary: pos best ties)
  case (Cons piece rest)
  show ?case
  proof (cases "bf_has peer piece")
    case True
    from rarest_loop_step [OF this, of draw av pos rest best ties] Cons.IH True show ?thesis
      by (metis list.set_intros(1) option.distinct(1))
  qed (simp add: Cons.IH)
qed simp

lemma rarest_loop_Some:
  "rarest_loop draw peer av pos ms best ties = Some (q, a) \<Longrightarrow>
     (best = Some (q, a) \<or> (\<exists>k < length ms. q = pos + k \<and> bf_has peer (ms ! k) \<and> a = av ! (ms ! k)))
     \<and> (\<forall>b. best = Some b \<longrightarrow> a \<le> snd b) \<and> (\<forall>p \<in> set ms. bf_has peer p \<longrightarrow> a \<le> av ! p)"
proof (induction ms arbitrary: pos best ties)
  case (Cons piece rest)
  show ?case
  proof (cases "bf_has peer piece")
    case True
    obtain best' ties' where s:
      "rarest_loop draw peer av (Suc pos) rest (Some best') ties' = Some (q, a)"
      "best' = (pos, av ! piece) \<or> Some best' = best" "snd best' \<le> av ! piece"
      "\<And>b. best = Some b \<Longrightarrow> snd best' \<le> snd b"
      using rarest_loop_step [OF True, of draw av pos rest best ties] Cons.prems by metis
    from Cons.IH [OF s(1)] s(2-4) True show ?thesis
      by (auto simp: Ex_less_Suc2 intro: order.trans)
  next
    case False
    with Cons.IH [of "Suc pos" best ties] Cons.prems show ?thesis by (auto simp: Ex_less_Suc2)
  qed
qed simp

lemma min_by_holders_None: "min_by_holders xs = None \<longleftrightarrow> xs = []"
  by (induction xs rule: min_by_holders.induct) (auto split: option.splits)

lemma min_by_holders_Some:
  "min_by_holders xs = Some (p, h) \<Longrightarrow> (p, h) \<in> set xs \<and> (\<forall>(p', h') \<in> set xs. h < h' \<or> (h = h' \<and> p \<le> p'))"
  by (induction xs arbitrary: p h rule: min_by_holders.induct)
    (fastforce simp: min_by_holders_None split: option.splits if_splits)+

text \<open>The three ways \<open>next_work_for\<close> can go; \<open>left\<close> are the missing pieces that are not complete.\<close>

lemma next_work_for_cases:
  assumes "mgr_inv m"
  obtains
    (rarest) pos p where "pos < length (mgr_missing (retain_missing m))"
      "p = mgr_missing (retain_missing m) ! pos" "bf_has peer p"
      "\<forall>q \<in> set (mgr_missing m) - mgr_completed m. bf_has peer q \<longrightarrow>
         mgr_availability m ! p \<le> mgr_availability m ! q"
      "next_work_for draw peer m = (Some p, (retain_missing m)
         \<lparr>mgr_missing := remove_nth pos (mgr_missing (retain_missing m)),
          mgr_in_progress := AList.update p 1 (mgr_in_progress m)\<rparr>)"
  | (endgame) p h where "set (mgr_missing m) \<subseteq> mgr_completed m"
      "(p, h) \<in> set (mgr_in_progress m)" "h < MAX_ENDGAME_HOLDERS" "bf_has peer p"
      "\<forall>(p', h') \<in> set (mgr_in_progress m). h' < MAX_ENDGAME_HOLDERS \<longrightarrow> bf_has peer p' \<longrightarrow>
         h < h' \<or> (h = h' \<and> p \<le> p')"
      "next_work_for draw peer m = (Some p, (retain_missing m)
         \<lparr>mgr_in_progress := AList.map_entry p (\<lambda>h. h + 1) (mgr_in_progress m)\<rparr>)"
  | (idle) "\<forall>p \<in> set (mgr_missing m) - mgr_completed m. \<not> bf_has peer p"
      "\<not> set (mgr_missing m) \<subseteq> mgr_completed m \<or>
       (\<forall>(p, h) \<in> set (mgr_in_progress m). h < MAX_ENDGAME_HOLDERS \<longrightarrow> \<not> bf_has peer p)"
      "next_work_for draw peer m = (None, retain_missing m)"
proof -
  let ?m = "retain_missing m"
  let ?c = "filter (\<lambda>(piece, holders). holders < MAX_ENDGAME_HOLDERS \<and> bf_has peer piece) (mgr_in_progress m)"
  note s = retain_missing_inv(3) [OF assms]
  then have nil: "mgr_missing ?m = [] \<longleftrightarrow> set (mgr_missing m) \<subseteq> mgr_completed m" by (metis Diff_eq_empty_iff set_empty)
  show ?thesis
  proof (cases "rarest_loop draw peer (mgr_availability m) 0 (mgr_missing ?m) None 0")
    case (Some b)
    then obtain pos a where b: "rarest_loop draw peer (mgr_availability m) 0 (mgr_missing ?m) None 0 = Some (pos, a)"
      by (cases b) auto
    from rarest_loop_Some [OF b] have
      "pos < length (mgr_missing ?m)" "bf_has peer (mgr_missing ?m ! pos)"
      "\<forall>q \<in> set (mgr_missing m) - mgr_completed m. bf_has peer q \<longrightarrow>
         mgr_availability m ! (mgr_missing ?m ! pos) \<le> mgr_availability m ! q"
      unfolding s [symmetric] by auto
    with b rarest [OF _ refl] show ?thesis by (simp add: next_work_for_def Let_def)
  next
    case None
    then have no: "\<forall>p \<in> set (mgr_missing m) - mgr_completed m. \<not> bf_has peer p"
      using s by (simp add: rarest_loop_None)
    show ?thesis
    proof (cases "mgr_missing ?m = [] \<and> min_by_holders ?c \<noteq> None")
      case True
      then obtain p h where c: "min_by_holders ?c = Some (p, h)" by auto
      from min_by_holders_Some [OF c] nil True None c show ?thesis
        by (intro endgame [of p h]) (auto simp: next_work_for_def endgame_candidate_def)
    next
      case False
      then have "next_work_for draw peer m = (None, ?m)"
        using None by (auto simp: next_work_for_def endgame_candidate_def Let_def split: option.splits)
      moreover have "\<not> set (mgr_missing m) \<subseteq> mgr_completed m \<or>
          (\<forall>(p, h) \<in> set (mgr_in_progress m). h < MAX_ENDGAME_HOLDERS \<longrightarrow> \<not> bf_has peer p)"
        using False nil by (auto simp: min_by_holders_None filter_empty_conv)
      ultimately show ?thesis using no idle by blast
    qed
  qed
qed

lemma set_update_new:
  "p \<notin> fst ` set al \<Longrightarrow> set (AList.update p v al) = insert (p, v) (set al)"
  by (induction al) (auto simp: insert_commute)

lemma set_delete: "set (AList.delete p al) = {x \<in> set al. fst x \<noteq> p}"
  by (auto simp: AList.delete_eq)

lemma fst_set_delete: "fst ` set (AList.delete p al) = fst ` set al - {p}"
  by (auto simp: set_delete)

lemma keys_map_entry [simp]: "fst ` set (AList.map_entry p f al) = fst ` set al"
  "map fst (AList.map_entry p f al) = map fst al"
  by (induction al) auto

lemma set_map_entry: "distinct (map fst al) \<Longrightarrow>
    set (AList.map_entry p f al) = {(q, h). if q = p then \<exists>h0. (p, h0) \<in> set al \<and> h = f h0 else (q, h) \<in> set al}"
  by (induction al) (auto simp: image_iff split: if_splits)

lemma set_update: "distinct (map fst al) \<Longrightarrow>
    set (AList.update p v al) = insert (p, v) {x \<in> set al. fst x \<noteq> p}"
  by (induction al) (auto simp: image_iff)

lemma next_work_for_inv:
  assumes "mgr_inv m"
  shows "mgr_inv (snd (next_work_for draw peer m))"
  using assms
proof (cases rule: next_work_for_cases [of m peer draw])
  case (rarest pos p)
  let ?m = "retain_missing m"
  note inv = mgr_invD [OF retain_missing_inv(1) [OF assms]]
  note r = set_remove_nth_distinct [OF inv(1) rarest(1)]
  have p: "p \<in> set (mgr_missing ?m)" using rarest by simp
  then have n: "p \<notin> fst ` set (mgr_in_progress m)" using inv(6) by auto
  have np: "p \<notin> mgr_completed m" using p inv(9) retain_missing_inv(2) [OF assms] by auto
  let ?ip = "AList.update p 1 (mgr_in_progress m)"
  have k: "fst ` set ?ip = insert p (fst ` set (mgr_in_progress m))" "distinct (map fst ?ip)"
    using inv(3) by (simp_all add: set_update_new [OF n] distinct_update)
  have h: "\<forall>(q, h) \<in> set ?ip. 1 \<le> h \<and> h \<le> MAX_ENDGAME_HOLDERS"
    using inv(5) by (simp add: set_update_new [OF n] MAX_ENDGAME_HOLDERS_def)
  have lt: "p < mgr_total_pieces m" using p inv(2) by (auto simp: wanted_set_def)
  have r1: "set (remove_nth pos (mgr_missing ?m)) = set (mgr_missing ?m) - {p}"
    using r(1) rarest(2) by simp
  have w: "wanted_set m \<subseteq> set (mgr_missing ?m) - {p} \<union> insert p (fst ` set (mgr_in_progress m)) \<union> mgr_completed m"
    using inv(10) by auto
  have d: "set (mgr_missing ?m) - {p} \<subseteq> wanted_set m" "insert p (fst ` set (mgr_in_progress m)) \<subseteq> {..<mgr_total_pieces m}"
    "(set (mgr_missing ?m) - {p}) \<inter> insert p (fst ` set (mgr_in_progress m)) = {}"
    "mgr_completed m \<inter> insert p (fst ` set (mgr_in_progress m)) = {}"
    "(set (mgr_missing ?m) - {p}) \<inter> mgr_completed m = {}"
    using inv(2,4,6,8,9) retain_missing_inv(2) [OF assms] lt np by auto
  show ?thesis
    unfolding rarest(5) mgr_inv_def using inv(7,11-14) r(2) k(2) h w d
    by (simp add: r1 k(1) [unfolded One_nat_def])
next
  case (endgame p h)
  note inv = mgr_invD [OF retain_missing_inv(1) [OF assms]]
  have "1 \<le> h' \<and> h' \<le> MAX_ENDGAME_HOLDERS"
    if "(q, h') \<in> set (AList.map_entry p (\<lambda>h. h + 1) (mgr_in_progress m))" for q h'
  proof (cases "q = p")
    case True
    with that inv(3) obtain h0 where h0: "(p, h0) \<in> set (mgr_in_progress m)" "h' = h0 + 1"
      by (auto simp: set_map_entry)
    then have "h0 = h" using endgame(2) inv(3) by (auto simp: eq_key_imp_eq_value)
    with h0 endgame(3) show ?thesis by simp
  next
    case False
    with that inv(3,5) show ?thesis by (auto simp: set_map_entry)
  qed
  with inv show ?thesis unfolding endgame(6) mgr_inv_def by auto
next
  case idle
  then show ?thesis using retain_missing_inv(1) [OF assms] by simp
qed

lemma return_work_inv:
  assumes "mgr_inv m"
  shows "mgr_inv (return_work p m)"
proof (cases "map_of (mgr_in_progress m) p")
  case None
  with assms show ?thesis by (simp add: return_work_def)
next
  case (Some h)
  note inv = mgr_invD [OF assms]
  from Some have ph: "(p, h) \<in> set (mgr_in_progress m)" by (rule map_of_SomeD)
  then have p: "p \<in> fst ` set (mgr_in_progress m)" by force
  have lt: "p < mgr_total_pieces m" "p \<notin> set (mgr_missing m)" using p inv(4,6) by auto
  show ?thesis
  proof (cases "h - 1 = 0")
    case True
    let ?m = "m\<lparr>mgr_in_progress := AList.delete p (mgr_in_progress m)\<rparr>"
    have w: "wanted_set m \<subseteq> set (mgr_missing m) \<union> insert p (fst ` set (AList.delete p (mgr_in_progress m)))
        \<union> mgr_completed m" using inv(10) p unfolding fst_set_delete by blast
    have h: "\<forall>(q, h) \<in> set (AList.delete p (mgr_in_progress m)). 1 \<le> h \<and> h \<le> MAX_ENDGAME_HOLDERS"
      using inv(5) by (auto simp: set_delete)
    have k: "fst ` set (AList.delete p (mgr_in_progress m)) = fst ` set (mgr_in_progress m) - {p}"
      "distinct (map fst (AList.delete p (mgr_in_progress m)))"
      using inv(3) by (auto simp: fst_set_delete distinct_delete)
    have pw: "p \<in> wanted_set m \<longleftrightarrow> is_wanted m p" using lt by (simp add: wanted_set_def)
    have iw: "is_wanted ?m p = is_wanted m p" by (simp add: is_wanted_def)
    show ?thesis
      using inv(1,2,4,6-9,11-14) Some True lt w h k pw unfolding mgr_inv_def return_work_def Let_def
      by (auto simp: iw)
  next
    case False
    have "h \<le> MAX_ENDGAME_HOLDERS" using ph inv(5) by auto
    with False inv Some p show ?thesis unfolding mgr_inv_def return_work_def
      by (auto simp: set_update [OF inv(3)] dom_update distinct_update image_iff)
  qed
qed

lemma mark_completed_inv:
  assumes "mgr_inv m"
  shows "mgr_inv (mark_completed p m)"
proof (cases "p < mgr_total_pieces m \<and> p \<notin> mgr_completed m")
  case True
  note inv = mgr_invD [OF assms]
  have "card (wanted_set m \<inter> insert p (mgr_completed m))
      = card (wanted_set m \<inter> mgr_completed m) + (if is_wanted m p then 1 else 0)"
    using True by (simp add: wanted_set_def Int_insert_right)
  with True inv show ?thesis unfolding mgr_inv_def mark_completed_def Let_def
    by (auto simp: fst_set_delete set_delete distinct_delete is_wanted_def)
next
  case False
  note inv = mgr_invD [OF assms]
  have "p \<in> mgr_completed m \<Longrightarrow> AList.delete p (mgr_in_progress m) = mgr_in_progress m"
    using inv(8) by (intro delete_id) auto
  with False assms show ?thesis by (auto simp: mark_completed_def)
qed

lemma apply_selection_inv:
  assumes "mgr_inv m"
  shows "mgr_inv (apply_selection sel refetch m)"
proof -
  note inv = mgr_invD [OF assms]
  let ?c = "mgr_completed m - pieces refetch"
  have "Set.filter (bf_has (sel_wanted sel)) ?c
      = {p. p < mgr_total_pieces m \<and> bf_has (sel_wanted sel) p} \<inter> ?c" using inv(7) by auto
  with inv show ?thesis unfolding mgr_inv_def apply_selection_def Let_def
    by (auto simp: filter_upt_card wanted_set_def is_wanted_def map_of_eq_None_iff)
qed

lemma slot_props [simp]:
  "length (bump_slot i av) = length av" "length (drop_slot i av) = length av"
  by (simp_all add: bump_slot_def drop_slot_def)

lemma slot_nth:
  "j < length av \<Longrightarrow> bump_slot i av ! j = (if i = j then saturating_add U16_MAX (av ! j) 1 else av ! j)"
  "j < length av \<Longrightarrow> drop_slot i av ! j = (if i = j then av ! j - 1 else av ! j)"
  by (auto simp: bump_slot_def drop_slot_def)

lemma slot_bounded:
  "list_all (\<lambda>a. a \<le> U16_MAX) av \<Longrightarrow> list_all (\<lambda>a. a \<le> U16_MAX) (bump_slot i av)"
  "list_all (\<lambda>a. a \<le> U16_MAX) av \<Longrightarrow> list_all (\<lambda>a. a \<le> U16_MAX) (drop_slot i av)"
  by (auto simp: bump_slot_def drop_slot_def saturating_add_def list_all_length nth_list_update
      intro: le_trans [OF diff_le_self])

lemma fold_slots:
  "length (fold bump_slot is av) = length av" "length (fold drop_slot is av) = length av"
  "list_all (\<lambda>a. a \<le> U16_MAX) av \<Longrightarrow> list_all (\<lambda>a. a \<le> U16_MAX) (fold bump_slot is av)"
  "list_all (\<lambda>a. a \<le> U16_MAX) av \<Longrightarrow> list_all (\<lambda>a. a \<le> U16_MAX) (fold drop_slot is av)"
  by (induction "is" arbitrary: av) (simp_all add: slot_bounded)

lemma fold_bump_nth:
  "distinct is \<Longrightarrow> j < length av \<Longrightarrow>
   fold bump_slot is av ! j = (if j \<in> set is then saturating_add U16_MAX (av ! j) 1 else av ! j)"
  by (induction "is" arbitrary: av) (auto simp: slot_nth)

lemma fold_drop_nth:
  "distinct is \<Longrightarrow> j < length av \<Longrightarrow> fold drop_slot is av ! j = (if j \<in> set is then av ! j - 1 else av ! j)"
  by (induction "is" arbitrary: av) (auto simp: slot_nth)

lemma availability_inv:
  assumes "mgr_inv m" "length av = length (mgr_availability m)" "list_all (\<lambda>a. a \<le> U16_MAX) av"
  shows "mgr_inv (m\<lparr>mgr_availability := av\<rparr>)"
  using assms by (auto simp: mgr_inv_def)

lemma peer_pieces_inv:
  assumes "mgr_inv m"
  shows "mgr_inv (add_peer_pieces ps m)" "mgr_inv (remove_peer_pieces ps m)" "mgr_inv (add_peer_piece i m)"
  unfolding add_peer_pieces_def remove_peer_pieces_def add_peer_piece_def
  using assms mgr_invD(12) [OF assms] by (auto intro!: availability_inv simp: fold_slots slot_bounded)

section \<open>Runs of the manager\<close>

text \<open>The coordinator drives one manager with these calls, in any order.\<close>

inductive mgr_step :: "torrent_manager \<Rightarrow> torrent_manager \<Rightarrow> bool" where
  step_next: "mgr_step m (snd (next_work_for draw peer_has m))"
| step_return: "mgr_step m (return_work p m)"
| step_completed: "mgr_step m (mark_completed p m)"
| step_selection: "mgr_step m (apply_selection sel refetch m)"
| step_add_peer: "mgr_step m (add_peer_pieces ps m)"
| step_remove_peer: "mgr_step m (remove_peer_pieces ps m)"
| step_have: "mgr_step m (add_peer_piece p m)"

inductive mgr_reachable :: "torrent_manager \<Rightarrow> bool" where
  start: "mgr_reachable (with_selection n cs sel)"
| step: "mgr_reachable m \<Longrightarrow> mgr_step m m' \<Longrightarrow> mgr_reachable m'"

inductive_cases mgr_stepE: "mgr_step m m'"

lemma mgr_step_inv: "mgr_step m m' \<Longrightarrow> mgr_inv m \<Longrightarrow> mgr_inv m'"
  by (auto elim!: mgr_stepE simp: next_work_for_inv return_work_inv mark_completed_inv
      apply_selection_inv peer_pieces_inv)

lemma reachable_inv: "mgr_reachable m \<Longrightarrow> mgr_inv m"
  by (induction rule: mgr_reachable.induct) (auto simp: with_selection_inv dest: mgr_step_inv)

text \<open>The pieces that still have to be assigned to a peer.\<close>

definition unassigned :: "torrent_manager \<Rightarrow> nat set" where
  "unassigned m = {p. p < mgr_total_pieces m \<and> is_wanted m p \<and> p \<notin> mgr_completed m
     \<and> map_of (mgr_in_progress m) p = None}"

lemma unassigned_eq: "unassigned m = wanted_set m - mgr_completed m - fst ` set (mgr_in_progress m)"
  unfolding unassigned_def map_of_eq_None_iff wanted_set_def by blast

lemma missing_unassigned: "mgr_inv m \<Longrightarrow> set (mgr_missing m) - mgr_completed m = unassigned m"
  unfolding unassigned_eq using mgr_invD(2,6,10) [of m] by blast

lemma is_done_wanted: "mgr_inv m \<Longrightarrow> is_done m \<longleftrightarrow> wanted_set m \<subseteq> mgr_completed m"
  unfolding is_done_def by (metis card_subset_eq finite_wanted_set inf.absorb_iff1 inf_le1 mgr_invD(13,14))

lemma retain_unassigned [simp]: "unassigned (retain_missing m) = unassigned m"
  by (simp add: unassigned_def is_wanted_def)

lemma next_work_for_result:
  assumes "mgr_inv m" "next_work_for draw peer m = (r, m')"
  shows "case r of
      Some p \<Rightarrow> p < mgr_total_pieces m \<and> bf_has peer p \<and> p \<notin> mgr_completed m
        \<and> piece_state_of m' p = Some Downloading
        \<and> (if unassigned m \<noteq> {}
           then p \<in> unassigned m \<and> unassigned m' = unassigned m - {p}
             \<and> (\<forall>q \<in> unassigned m. bf_has peer q \<longrightarrow> availability_of m p \<le> availability_of m q)
           else \<exists>h < MAX_ENDGAME_HOLDERS. map_of (mgr_in_progress m) p = Some h
             \<and> map_of (mgr_in_progress m') p = Some (h + 1))
    | None \<Rightarrow> (\<forall>p \<in> unassigned m. \<not> bf_has peer p)
        \<and> (unassigned m \<noteq> {} \<or> (\<forall>p h. map_of (mgr_in_progress m) p = Some h \<longrightarrow> bf_has peer p \<longrightarrow>
             MAX_ENDGAME_HOLDERS \<le> h))"
  using assms(1)
proof (cases rule: next_work_for_cases [of m peer draw])
  case (rarest pos p)
  note u = missing_unassigned [OF assms(1)] and inv = mgr_invD [OF assms(1)]
  have p: "p \<in> unassigned m"
    using rarest(1,2) u retain_missing_inv(3) [OF assms(1)] by (metis nth_mem)
  have lt: "q < length (mgr_availability m)" if "q \<in> unassigned m" for q
    using that inv(11) by (simp add: unassigned_def)
  have m': "r = Some p" "mgr_in_progress m' = AList.update p 1 (mgr_in_progress m)"
    "mgr_total_pieces m' = mgr_total_pieces m" "mgr_completed m' = mgr_completed m"
    "mgr_selection m' = mgr_selection m" using rarest(5) assms(2) by auto
  have "unassigned m' = unassigned m - {p}"
    by (auto simp: unassigned_def is_wanted_def m' update_conv')
  moreover have "piece_state_of m' p = Some Downloading"
    using p by (simp add: piece_state_of_def m' update_conv' unassigned_def)
  ultimately show ?thesis
    using p rarest(3,4) lt u by (auto simp: m'(1) availability_of_def) (simp_all add: unassigned_def)
next
  case (endgame p h)
  note u = missing_unassigned [OF assms(1)] and inv = mgr_invD [OF assms(1)]
  have m': "r = Some p" "mgr_in_progress m' = AList.map_entry p (\<lambda>h. h + 1) (mgr_in_progress m)"
    "mgr_total_pieces m' = mgr_total_pieces m" "mgr_completed m' = mgr_completed m"
    using endgame(6) assms(2) by auto
  have "unassigned m = {}" using endgame(1) u by auto
  moreover have h: "map_of (mgr_in_progress m) p = Some h" using endgame(2) inv(3) by simp
  moreover have "map_of (mgr_in_progress m') p = Some (h + 1)"
    by (simp add: m' map_of_map_entry h)
  moreover have "p < mgr_total_pieces m" "p \<notin> mgr_completed m" using endgame(2) inv(4,8) by force+
  ultimately show ?thesis using endgame(3,4) by (auto simp: m' piece_state_of_def)
next
  case idle
  note u = missing_unassigned [OF assms(1)]
  have "r = None" using idle(3) assms(2) by simp
  moreover have "set (mgr_missing m) \<subseteq> mgr_completed m \<longleftrightarrow> unassigned m = {}" using u by blast
  ultimately show ?thesis using idle(1,2) u by (auto dest!: map_of_SomeD)
qed

section \<open>Properties\<close>

text \<open>C5. In every state the manager can reach, whatever calls the coordinator makes and in whatever
  order, its bookkeeping is consistent (\<open>mgr_inv\<close>): \<open>missing\<close> has no repetition and is disjoint from
  \<open>in_progress\<close>, one to three peers hold a piece in progress, no piece is complete and in progress at
  once, no wanted piece is lost (each is missing, in progress or complete), and the two counters count
  the wanted and the wanted complete pieces.\<close>

theorem mgr_reachable_inv: "mgr_reachable m \<Longrightarrow> mgr_inv m"
  by (rule reachable_inv)

theorem mgr_reachable_inv_witness:
  "mgr_inv (mark_completed 1 (snd (next_work_for (\<lambda>_ _. 0) (bf_full 2) (with_selection 2 [] (sel_all 2)))))"
  by (rule mgr_reachable_inv [OF mgr_reachable.step [OF mgr_reachable.step [OF mgr_reachable.start
        step_next] step_completed]])

text \<open>C11. \<open>next_work_for\<close> does what it promises in every reachable state. A piece it hands out is one the
  peer has and that is not complete; as long as some wanted piece is unassigned it hands out such a
  piece, and a rarest one among those the peer has; only when none is left (endgame) does it hand out a
  piece that fewer than three peers are already downloading. It answers \<open>None\<close> only if there is nothing of
  this kind.\<close>

theorem next_work_for_correct:
  assumes "mgr_reachable m" "next_work_for draw peer m = (r, m')"
  shows "case r of
      Some p \<Rightarrow> p < mgr_total_pieces m \<and> bf_has peer p \<and> p \<notin> mgr_completed m
        \<and> piece_state_of m' p = Some Downloading
        \<and> (if unassigned m \<noteq> {}
           then p \<in> unassigned m \<and> unassigned m' = unassigned m - {p}
             \<and> (\<forall>q \<in> unassigned m. bf_has peer q \<longrightarrow> availability_of m p \<le> availability_of m q)
           else \<exists>h < MAX_ENDGAME_HOLDERS. map_of (mgr_in_progress m) p = Some h
             \<and> map_of (mgr_in_progress m') p = Some (h + 1))
    | None \<Rightarrow> (\<forall>p \<in> unassigned m. \<not> bf_has peer p)
        \<and> (unassigned m \<noteq> {} \<or> (\<forall>p h. map_of (mgr_in_progress m) p = Some h \<longrightarrow> bf_has peer p \<longrightarrow>
             MAX_ENDGAME_HOLDERS \<le> h))"
  using next_work_for_result [OF reachable_inv [OF assms(1)] assms(2)] .

theorem next_work_for_correct_witness:
  "fst (next_work_for (\<lambda>_ _. 0) (bf_full 2) (with_selection 2 [0] (sel_all 2))) = Some 1
   \<and> unassigned (with_selection 2 [0] (sel_all 2)) = {1}
   \<and> unassigned (snd (next_work_for (\<lambda>_ _. 0) (bf_full 2) (with_selection 2 [0] (sel_all 2)))) = {}"
proof -
  define m where "m = with_selection 2 [0] (sel_all 2)"
  have "mgr_completed m = {0}" "mgr_total_pieces m = 2" "mgr_in_progress m = []"
    "mgr_selection m = sel_all 2" by (simp_all add: with_selection_def Let_def m_def)
  then have "unassigned m = {p. p < 2 \<and> bf_has (bf_full 2) p \<and> p \<noteq> 0}"
    by (simp add: unassigned_def is_wanted_def sel_all_def)
  also have "\<dots> = {p. p < 2 \<and> p \<noteq> 0}" by (simp add: bf_full_has)
  also have "\<dots> = {1}" by (rule set_eqI) (simp, arith)
  finally have u: "unassigned m = {1}" .
  obtain r m' where n: "next_work_for (\<lambda>_ _. 0) (bf_full 2) m = (r, m')" by fastforce
  have "mgr_reachable m" unfolding m_def by (rule mgr_reachable.start)
  from next_work_for_correct [OF this n] u have "r = Some 1 \<and> unassigned m' = {}"
    by (auto simp: bf_full_has split: option.splits)
  with n u show ?thesis by (simp add: m_def)
qed

text \<open>\<open>is_done\<close> is right in every reachable state: it holds exactly when every wanted piece is
  complete. The pieces offered to other peers are the complete ones that no skipped file touches, in
  ascending order.\<close>

theorem is_done_servable_correct:
  assumes "mgr_reachable m"
  shows "(is_done m \<longleftrightarrow> (\<forall>p < mgr_total_pieces m. is_wanted m p \<longrightarrow> is_completed m p))
    \<and> set (servable_pieces m) = {p. is_servable m p} \<and> sorted (servable_pieces m) \<and> distinct (servable_pieces m)"
proof -
  have i: "mgr_inv m" using assms by (rule reachable_inv)
  have "wanted_set m \<subseteq> mgr_completed m \<longleftrightarrow> (\<forall>p < mgr_total_pieces m. is_wanted m p \<longrightarrow> is_completed m p)"
    by (auto simp: wanted_set_def is_completed_def)
  with is_done_wanted [OF i] show ?thesis
    by (auto simp: servable_pieces_def completed_pieces_def is_servable_def finite_completed [OF i] sorted_wrt_filter)
qed

theorem is_done_servable_correct_witness:
  "is_done (with_selection 2 [0, 1] (sel_all 2))
   \<and> set (servable_pieces (with_selection 2 [0, 1] (sel_all 2))) = {p. is_servable (with_selection 2 [0, 1] (sel_all 2)) p}"
proof -
  have "p < 2 \<longrightarrow> is_completed (with_selection 2 [0, 1] (sel_all 2)) p" for p
    by (auto simp: is_completed_def with_selection_def Let_def)
  moreover have "mgr_total_pieces (with_selection 2 [0, 1] (sel_all 2)) = 2"
    by (simp add: with_selection_def Let_def)
  ultimately show ?thesis
    using is_done_servable_correct [OF mgr_reachable.start, of 2 "[0, 1]" "sel_all 2"] by simp
qed

section \<open>Progress\<close>

text \<open>Rounds in which a peer is asked for a piece and delivers it.\<close>

fun download_rounds :: "(nat \<Rightarrow> nat \<Rightarrow> nat) \<Rightarrow> bitfield \<Rightarrow> nat \<Rightarrow> torrent_manager \<Rightarrow> torrent_manager option" where
  "download_rounds draw peer 0 m = Some m"
| "download_rounds draw peer (Suc k) m =
     (case next_work_for draw peer m of
        (None, _) \<Rightarrow> None
      | (Some p, m') \<Rightarrow> download_rounds draw peer k (mark_completed p m'))"

lemma mark_completed_wanted [simp]:
  "wanted_set (mark_completed p m) = wanted_set m"
  by (simp add: mark_completed_def wanted_set_def is_wanted_def Let_def)

lemma next_work_for_keeps:
  "mgr_inv m \<Longrightarrow> next_work_for draw peer m = (r, m') \<Longrightarrow> wanted_set m' = wanted_set m
     \<and> mgr_completed m' = mgr_completed m \<and> mgr_total_pieces m' = mgr_total_pieces m"
  by (cases rule: next_work_for_cases [of m peer draw]; force)

lemma mark_completed_completed:
  "mgr_completed (mark_completed p m) = (if p < mgr_total_pieces m then insert p (mgr_completed m) else mgr_completed m)"
  by (auto simp: mark_completed_def Let_def)

lemma download_round:
  assumes "mgr_inv m" "fst ` set (mgr_in_progress m) = {}" "wanted_set m \<subseteq> pieces peer" "\<not> is_done m"
  obtains p m' where "next_work_for draw peer m = (Some p, m')"
    "mgr_inv (mark_completed p m')" "fst ` set (mgr_in_progress (mark_completed p m')) = {}"
    "wanted_set (mark_completed p m') = wanted_set m"
    "card (wanted_set m - mgr_completed (mark_completed p m')) = card (wanted_set m - mgr_completed m) - 1"
proof -
  obtain r m' where n: "next_work_for draw peer m = (r, m')" by fastforce
  have u: "unassigned m = wanted_set m - mgr_completed m" using assms(2) by (simp add: unassigned_eq)
  then have ne: "unassigned m \<noteq> {}" using assms(4) is_done_wanted [OF assms(1)] by auto
  note k = next_work_for_keeps [OF assms(1) n]
  note res = next_work_for_result [OF assms(1) n]
  show ?thesis
  proof (cases r)
    case None
    from ne obtain q where "q \<in> unassigned m" by blast
    with None res u assms(3) show ?thesis by auto
  next
    case (Some p)
    with res ne have p: "p \<in> unassigned m" "p < mgr_total_pieces m" by auto
    from assms(1) n Some p ne have ip: "mgr_in_progress m' = AList.update p 1 (mgr_in_progress m)"
      by (cases rule: next_work_for_cases [of m peer draw])
        (use missing_unassigned [OF assms(1)] in auto)
    have i: "mgr_inv (mark_completed p m')"
      using next_work_for_inv [OF assms(1), of draw peer] n by (simp add: mark_completed_inv)
    have z: "mgr_in_progress m = []" using assms(2) by simp
    have "mgr_in_progress (mark_completed p m') = []" using p k by (simp add: mark_completed_def Let_def ip z)
    moreover have "wanted_set m - mgr_completed (mark_completed p m') = (wanted_set m - mgr_completed m) - {p}"
      using p k by (auto simp: mark_completed_completed)
    ultimately show ?thesis using that [OF n [unfolded Some] i] k p(1) u by simp
  qed
qed

lemma download_rounds_done:
  "mgr_inv m \<Longrightarrow> fst ` set (mgr_in_progress m) = {} \<Longrightarrow> wanted_set m \<subseteq> pieces peer \<Longrightarrow>
   card (wanted_set m - mgr_completed m) = k \<Longrightarrow>
   \<exists>m'. download_rounds draw peer k m = Some m' \<and> is_done m'"
proof (induction k arbitrary: m)
  case 0
  then show ?case by (simp add: is_done_wanted)
next
  case (Suc k)
  then have "\<not> is_done m" using is_done_wanted [of m] by (metis Diff_eq_empty_iff card.empty nat.distinct(1))
  from download_round [OF Suc.prems(1-3) this, of draw] obtain p m' where
    "next_work_for draw peer m = (Some p, m')"
    "mgr_inv (mark_completed p m')" "fst ` set (mgr_in_progress (mark_completed p m')) = {}"
    "wanted_set (mark_completed p m') = wanted_set m"
    "card (wanted_set m - mgr_completed (mark_completed p m')) = card (wanted_set m - mgr_completed m) - 1" by metis
  with Suc.IH [of "mark_completed p m'"] Suc.prems(3,4) show ?case by simp
qed

text \<open>C17. The download makes progress: from the state that the manager starts in, one peer that has
  every wanted piece is handed a new piece in each round, and after as many rounds as there are wanted
  incomplete pieces the torrent is done.\<close>

theorem seed_completes_download:
  assumes "\<forall>p < n. bf_has (sel_wanted sel) p \<longrightarrow> bf_has peer p"
  shows "\<exists>m'. download_rounds draw peer
      (card {p. p < n \<and> bf_has (sel_wanted sel) p \<and> p \<notin> set cs}) (with_selection n cs sel) = Some m'
    \<and> is_done m'"
proof (rule download_rounds_done)
  let ?m = "with_selection n cs sel"
  show "mgr_inv ?m" by (rule with_selection_inv)
  have w: "wanted_set ?m = {p. p < n \<and> bf_has (sel_wanted sel) p}"
    by (simp add: wanted_set_def is_wanted_def with_selection_def Let_def)
  show "wanted_set ?m \<subseteq> pieces peer" using assms by (auto simp: w)
  show "card (wanted_set ?m - mgr_completed ?m) = card {p. p < n \<and> bf_has (sel_wanted sel) p \<and> p \<notin> set cs}"
    unfolding w by (rule arg_cong [where f = card]) (auto simp: with_selection_def Let_def)
qed (simp add: with_selection_def Let_def)

theorem seed_completes_download_witness:
  "\<exists>m'. download_rounds (\<lambda>_ _. 1) (bf_full 5)
      (card {p. p < 5 \<and> bf_has (sel_wanted (sel_all 5)) p \<and> p \<notin> set [2]}) (with_selection 5 [2] (sel_all 5)) = Some m'
    \<and> is_done m'"
  by (rule seed_completes_download) (simp add: bf_full_has)

section \<open>Availability\<close>

lemma availability_add:
  assumes "i < length (mgr_availability m)"
  shows "availability_of (add_peer_pieces b m) i =
    (if bf_has b i then saturating_add U16_MAX (availability_of m i) 1 else availability_of m i)"
  using assms by (simp add: availability_of_def add_peer_pieces_def fold_slots fold_bump_nth bf_iter_ones_distinct)

lemma availability_remove:
  assumes "i < length (mgr_availability m)"
  shows "availability_of (remove_peer_pieces b m) i =
    (if bf_has b i then availability_of m i - 1 else availability_of m i)"
  using assms by (simp add: availability_of_def remove_peer_pieces_def fold_slots fold_drop_nth bf_iter_ones_distinct)

lemma length_availability_add [simp]: "length (mgr_availability (add_peer_pieces b m)) = length (mgr_availability m)"
  by (simp add: add_peer_pieces_def fold_slots)

lemma availability_adds:
  "i < length (mgr_availability m) \<Longrightarrow> availability_of m i + length bs \<le> U16_MAX \<Longrightarrow>
   availability_of (fold add_peer_pieces bs m) i = availability_of m i + length (filter (\<lambda>b. bf_has b i) bs)
   \<and> length (mgr_availability (fold add_peer_pieces bs m)) = length (mgr_availability m)"
  by (induction bs arbitrary: m) (auto simp: availability_add)

lemma length_filter_remove1:
  "x \<in> set xs \<Longrightarrow> length (filter P xs) = length (filter P (remove1 x xs)) + (if P x then 1 else 0)"
  by (induction xs) auto

text \<open>The availability of a piece is the number of connected peers that have it: when the peers of
  the list \<open>bs\<close> connected with these bitfields (at most 65535 of them) and one of them leaves, the count
  is the number of the remaining peers whose bitfield has the piece.\<close>

theorem availability_counts_peers:
  assumes "i < n" "length bs \<le> U16_MAX" "b \<in> set bs"
  shows "availability_of (fold add_peer_pieces bs (with_selection n cs sel)) i
         = length (filter (\<lambda>b. bf_has b i) bs)
    \<and> availability_of (remove_peer_pieces b (fold add_peer_pieces bs (with_selection n cs sel))) i
         = length (filter (\<lambda>b. bf_has b i) (remove1 b bs))"
proof -
  let ?m = "with_selection n cs sel"
  have a: "i < length (mgr_availability ?m)" "availability_of ?m i = 0"
    using assms(1) by (simp_all add: with_selection_def Let_def availability_of_def)
  with availability_adds [OF a(1), of bs] assms(2)
  have "availability_of (fold add_peer_pieces bs ?m) i = length (filter (\<lambda>b. bf_has b i) bs)"
    "i < length (mgr_availability (fold add_peer_pieces bs ?m))" by auto
  with length_filter_remove1 [OF assms(3), of "\<lambda>b. bf_has b i"] show ?thesis
    by (simp add: availability_remove)
qed

theorem availability_counts_peers_witness:
  "availability_of (remove_peer_pieces (bf_full 2)
      (fold add_peer_pieces [bf_full 2, bf_from_indices 2 [1]] (with_selection 2 [] (sel_all 2)))) 1 = 1"
  using availability_counts_peers [of 1 2 "[bf_full 2, bf_from_indices 2 [1]]" "bf_full 2" "[]" "sel_all 2"]
  by (simp add: U16_MAX_def bf_full_has)

end
