(* ===== verification/Filesystem.thy ===== *)
theory Filesystem
  imports Torrent
begin

text \<open>
  The part of a filesystem that the storage code of tortor uses: named byte strings, each with the
  contents that reads see (\<open>fs_cache\<close>) and the contents that survive a crash (\<open>fs_stable\<close>, which only
  \<open>sync\<close>, and the \<open>rename\<close> of a synced file, advance). Every system call may fail: \<open>env_fails n\<close> says whether call number
  \<open>n\<close> of the run does, and \<open>env_amount n\<close> how many bytes a failing write or a short transfer moves. The
  environment is a parameter of every operation, so theorems hold for all patterns of faults. A crash gives every file its
  stable contents (a machine may also keep some of the bytes that were not synced; the theorems are about bytes whose stable value is their current one).

  Two faults are not reported by the call that has them. A write of \<open>tokio::fs::File\<close> returns before it is done,
  and the failure of the last one before a \<open>sync_data\<close> is returned neither by the write nor by the sync:
  \<open>env_lost n = Some k\<close> says that the write of call \<open>n\<close> reports success and stores only \<open>k\<close> bytes. (That
  a later write of the file may then fail is one more failing call.) Only the standard backend writes this way;
  \<open>reports_writes\<close> says that none of its writes is lost. And a \<open>rename\<close> that succeeds is seen by later reads but
  need not survive a crash, since the directory is not synced: \<open>env_renamed n\<close> says whether the one of call
  \<open>n\<close> does (whichever renames have reached the disk when a crash strikes, the last of them is one that survives and the later ones do not).
\<close>

datatype io_error = IoFailed | UnexpectedEof | ZeroTransfer | OutOfBounds | BadPath path_error

record filesystem =
  fs_cache :: "path \<Rightarrow> bytes option"
  fs_stable :: "path \<Rightarrow> bytes option"
  fs_calls :: nat

record io_env =
  env_fails :: "nat \<Rightarrow> bool"
  env_amount :: "nat \<Rightarrow> nat"
  env_lost :: "nat \<Rightarrow> nat option"
  env_renamed :: "nat \<Rightarrow> bool"

definition fs_empty :: filesystem where
  "fs_empty = \<lparr>fs_cache = (\<lambda>_. None), fs_stable = (\<lambda>_. None), fs_calls = 0\<rparr>"

definition no_faults :: io_env where
  "no_faults = \<lparr>env_fails = (\<lambda>_. False), env_amount = (\<lambda>_. 1), env_lost = (\<lambda>_. None), env_renamed = (\<lambda>_. True)\<rparr>"

text \<open>The environment with the lost writes made good, and the environments that have none.\<close>

definition reporting :: "io_env \<Rightarrow> io_env" where
  "reporting env = env\<lparr>env_lost := (\<lambda>_. None)\<rparr>"

definition reports_writes :: "io_env \<Rightarrow> bool" where
  "reports_writes env \<longleftrightarrow> (\<forall>n. env_lost env n = None)"

lemma reporting_simps [simp]:
  "env_fails (reporting env) = env_fails env" "env_amount (reporting env) = env_amount env"
  "env_lost (reporting env) n = None" "env_renamed (reporting env) = env_renamed env"
  "reports_writes (reporting env)" "reports_writes no_faults"
  by (simp_all add: reporting_def reports_writes_def no_faults_def)

lemma reporting_eq: "reports_writes env \<Longrightarrow> reporting env = env"
  by (cases env) (auto simp: reporting_def reports_writes_def)

definition call :: "filesystem \<Rightarrow> filesystem" where
  "call fs = fs\<lparr>fs_calls := Suc (fs_calls fs)\<rparr>"

definition call_fails :: "io_env \<Rightarrow> filesystem \<Rightarrow> bool" where
  "call_fails env fs = env_fails env (fs_calls fs)"

definition contents :: "filesystem \<Rightarrow> path \<Rightarrow> bytes" where
  "contents fs p = (case fs_cache fs p of None \<Rightarrow> [] | Some b \<Rightarrow> b)"

definition write_at :: "nat \<Rightarrow> bytes \<Rightarrow> bytes \<Rightarrow> bytes" where
  "write_at off data b = take off (b @ replicate (off - length b) 0) @ data @ drop (off + length data) b"

definition put :: "path \<Rightarrow> nat \<Rightarrow> bytes \<Rightarrow> filesystem \<Rightarrow> filesystem" where
  "put p off data fs = fs\<lparr>fs_cache := (fs_cache fs)(p \<mapsto> write_at off data (contents fs p))\<rparr>"

definition set_len :: "nat \<Rightarrow> bytes \<Rightarrow> bytes" where
  "set_len n b = take n b @ replicate (n - length b) 0"

definition sync :: "path \<Rightarrow> filesystem \<Rightarrow> filesystem" where
  "sync p fs = fs\<lparr>fs_stable := (fs_stable fs)(p := fs_cache fs p)\<rparr>"

lemma call_simps [simp]:
  "fs_cache (call fs) = fs_cache fs" "fs_stable (call fs) = fs_stable fs" "contents (call fs) p = contents fs p"
  by (simp_all add: call_def contents_def)

lemma put_simps [simp]:
  "fs_stable (put p off data fs) = fs_stable fs"
  "contents (put p off data fs) q = (if q = p then write_at off data (contents fs p) else contents fs q)"
  by (simp_all add: put_def contents_def)

lemma sync_simps [simp]:
  "fs_cache (sync p fs) = fs_cache fs" "contents (sync p fs) q = contents fs q"
  "fs_stable (sync p fs) q = (if q = p then fs_cache fs p else fs_stable fs q)"
  by (simp_all add: sync_def contents_def)

lemma write_at_inside: "off + length data \<le> length b \<Longrightarrow> write_at off data b = splice off data b"
  by (simp add: write_at_def splice_def)

lemma length_set_len [simp]: "length (set_len n b) = n"
  by (simp add: set_len_def)

lemma write_at_append:
  "write_at (off + length d1) d2 (write_at off d1 b) = write_at off (d1 @ d2) b"
proof (cases "length b \<le> off")
  case True
  then show ?thesis by (simp add: write_at_def)
next
  case False
  then show ?thesis by (simp add: write_at_def) (simp add: add.commute add.left_commute min_def)
qed

lemma write_at_Nil_inside: "off \<le> length b \<Longrightarrow> write_at off [] b = b"
  by (simp add: write_at_def)

lemma put_put: "put p (off + length d1) d2 (put p off d1 fs) = put p off (d1 @ d2) fs"
  by (simp add: put_def contents_def write_at_append)

end
