(* ===== verification/Disk.thy ===== *)
theory Disk
  imports Filesystem
begin

text \<open>
  Storage of pieces in files, \<open>core/disk.rs\<close> and \<open>core/disk_uring.rs\<close>. Both backends lay the files of a
  torrent out back to back and split a piece over the files it covers; they differ in how they read and
  write one file. The loops over the files are parameterised by these two operations, whose contract is
  the locale \<open>file_io\<close>; the standard backend and the io_uring backend are its interpretations. A handle
  \<open>Option<File>\<close> is a flag, the file it refers to being that of the mapping's path.
\<close>

section \<open>Layout\<close>

record file_plan =
  fp_path :: path
  fp_start :: nat
  fp_end :: nat

fun plan_files_loop ::
  "bool \<Rightarrow> path \<Rightarrow> rstring \<Rightarrow> bool \<Rightarrow> nat \<Rightarrow> torrent_file list \<Rightarrow> io_error + file_plan list" where
  "plan_files_loop win base_dir name is_multi offset [] = Inr []"
| "plan_files_loop win base_dir name is_multi offset (f # files) =
     (case build_file_path win base_dir name is_multi (tf_path f) of
        Inl e \<Rightarrow> Inl (BadPath e)
      | Inr path \<Rightarrow>
          bind_result (plan_files_loop win base_dir name is_multi (add_u64 offset (tf_length f)) files)
            (\<lambda>plans. Inr (\<lparr>fp_path = path, fp_start = offset, fp_end = add_u64 offset (tf_length f)\<rparr> # plans)))"

definition plan_files ::
  "bool \<Rightarrow> path \<Rightarrow> rstring \<Rightarrow> bool \<Rightarrow> torrent_file list \<Rightarrow> io_error + file_plan list" where
  "plan_files win base_dir name is_multi files = plan_files_loop win base_dir name is_multi 0 files"

text \<open>Three calls can fail: creating the directories, opening, and setting the length.\<close>

definition open_preallocated :: "io_env \<Rightarrow> path \<Rightarrow> nat \<Rightarrow> filesystem \<Rightarrow> (io_error + unit) \<times> filesystem" where
  "open_preallocated env p len fs =
     (if call_fails env fs then (Inl IoFailed, call fs)
      else let fs1 = call fs in
        if call_fails env fs1 then (Inl IoFailed, call fs1)
        else let fs2 = (call fs1)\<lparr>fs_cache := (fs_cache fs1)(p \<mapsto> contents fs1 p)\<rparr> in
          if length (contents fs2 p) \<noteq> len then
            if call_fails env fs2 then (Inl IoFailed, call fs2)
            else (Inr (), (call fs2)\<lparr>fs_cache := (fs_cache fs2)(p \<mapsto> set_len len (contents fs2 p))\<rparr>)
          else (Inr (), fs2))"

definition is_selected :: "bool list option \<Rightarrow> nat \<Rightarrow> bool" where
  "is_selected selected index =
     (case selected of
        None \<Rightarrow> True
      | Some flags \<Rightarrow> if index < length flags then flags ! index else True)"

record file_mapping =
  fm_path :: path
  fm_open :: bool
  fm_start :: nat
  fm_end :: nat
  fm_dirty :: bool

record disk =
  dk_files :: "file_mapping list"
  dk_piece_length :: nat

fun open_plans ::
  "(path \<Rightarrow> nat \<Rightarrow> filesystem \<Rightarrow> (io_error + unit) \<times> filesystem) \<Rightarrow> bool list option \<Rightarrow> nat
   \<Rightarrow> file_plan list \<Rightarrow> filesystem \<Rightarrow> (io_error + file_mapping list) \<times> filesystem" where
  "open_plans opn selected index [] fs = (Inr [], fs)"
| "open_plans opn selected index (pl # plans) fs =
     (if is_selected selected index then
        (case opn (fp_path pl) (fp_end pl - fp_start pl) fs of
           (Inl e, fs') \<Rightarrow> (Inl e, fs')
         | (Inr _, fs') \<Rightarrow>
             (case open_plans opn selected (Suc index) plans fs' of
                (Inl e, fs'') \<Rightarrow> (Inl e, fs'')
              | (Inr ms, fs'') \<Rightarrow>
                  (Inr (\<lparr>fm_path = fp_path pl, fm_open = True, fm_start = fp_start pl, fm_end = fp_end pl,
                         fm_dirty = False\<rparr> # ms), fs'')))
      else
        (case open_plans opn selected (Suc index) plans fs of
           (Inl e, fs'') \<Rightarrow> (Inl e, fs'')
         | (Inr ms, fs'') \<Rightarrow>
             (Inr (\<lparr>fm_path = fp_path pl, fm_open = False, fm_start = fp_start pl, fm_end = fp_end pl,
                    fm_dirty = False\<rparr> # ms), fs'')))"

text \<open>\<open>init_with_selection\<close> of both backends, which differ in how a file is opened.\<close>

definition init_with_selection ::
  "(path \<Rightarrow> nat \<Rightarrow> filesystem \<Rightarrow> (io_error + unit) \<times> filesystem) \<Rightarrow> io_env \<Rightarrow> bool \<Rightarrow> path \<Rightarrow> nat \<Rightarrow> nat
   \<Rightarrow> torrent_file list option \<Rightarrow> rstring \<Rightarrow> bool list option \<Rightarrow> filesystem
   \<Rightarrow> (io_error + disk) \<times> filesystem" where
  "init_with_selection opn env win base_dir total_size piece_length files_meta name selected fs =
     (let torrent_files = (case files_meta of Some fs \<Rightarrow> fs
                           | None \<Rightarrow> [\<lparr>tf_length = total_size, tf_path = [name]\<rparr>])
      in if call_fails env fs then (Inl IoFailed, call fs)
         else case plan_files win base_dir name (files_meta \<noteq> None) torrent_files of
           Inl e \<Rightarrow> (Inl e, call fs)
         | Inr plans \<Rightarrow>
             (case open_plans opn selected 0 plans (call fs) of
                (Inl e, fs') \<Rightarrow> (Inl e, fs')
              | (Inr ms, fs') \<Rightarrow> (Inr \<lparr>dk_files = ms, dk_piece_length = piece_length\<rparr>, fs')))"

section \<open>Access by absolute offset\<close>

text \<open>\<open>partition_point\<close> is the number of leading mappings that end at or before the offset.\<close>

definition locate :: "file_mapping list \<Rightarrow> nat \<Rightarrow> nat option" where
  "locate ms offset =
     (let idx = length (takeWhile (\<lambda>m. fm_end m \<le> offset) ms) in
      if idx < length ms \<and> fm_start (ms ! idx) \<le> offset then Some idx else None)"

lemma locate_SomeD:
  assumes "locate ms off = Some i"
  shows "i < length ms" "fm_start (ms ! i) \<le> off" "off < fm_end (ms ! i)"
  using assms nth_length_takeWhile [of "\<lambda>m. fm_end m \<le> off" ms]
  by (auto simp: locate_def Let_def split: if_splits)

function write_loop ::
  "(path \<Rightarrow> nat \<Rightarrow> bytes \<Rightarrow> filesystem \<Rightarrow> (io_error + unit) \<times> filesystem) \<Rightarrow> nat \<Rightarrow> bytes \<Rightarrow> nat
   \<Rightarrow> file_mapping list \<Rightarrow> filesystem \<Rightarrow> (io_error + unit) \<times> file_mapping list \<times> filesystem" where
  "write_loop wr piece_offset data written ms fs =
     (if written < length data then
        let cur = piece_offset + written in
        (case locate ms cur of
           None \<Rightarrow> (Inl OutOfBounds, ms, fs)
         | Some i \<Rightarrow>
             let m = ms ! i;
                 n = min (length data - written) (fm_end m - cur)
             in if fm_open m then
                  (case wr (fm_path m) (cur - fm_start m) (slice written (written + n) data) fs of
                     (Inl e, fs') \<Rightarrow> (Inl e, ms, fs')
                   | (Inr _, fs') \<Rightarrow>
                       write_loop wr piece_offset data (written + n) (ms[i := m\<lparr>fm_dirty := True\<rparr>]) fs')
                else write_loop wr piece_offset data (written + n) ms fs)
      else (Inr (), ms, fs))"
  by pat_completeness auto
termination
  by (relation "measure (\<lambda>(wr, piece_offset, data, written, ms, fs). length data - written)")
    (auto dest: locate_SomeD)

function read_loop ::
  "(path \<Rightarrow> nat \<Rightarrow> nat \<Rightarrow> filesystem \<Rightarrow> (io_error + bytes) \<times> filesystem) \<Rightarrow> nat \<Rightarrow> nat \<Rightarrow> nat \<Rightarrow> bytes
   \<Rightarrow> file_mapping list \<Rightarrow> filesystem \<Rightarrow> (io_error + bytes) \<times> filesystem" where
  "read_loop rd absolute_offset len got buffer ms fs =
     (if got < len then
        let cur = absolute_offset + got in
        (case locate ms cur of
           None \<Rightarrow> (Inl OutOfBounds, fs)
         | Some i \<Rightarrow>
             let m = ms ! i;
                 n = min (len - got) (fm_end m - cur)
             in if fm_open m then
                  (case rd (fm_path m) (cur - fm_start m) n fs of
                     (Inl e, fs') \<Rightarrow> (Inl e, fs')
                   | (Inr b, fs') \<Rightarrow> read_loop rd absolute_offset len (got + n) (splice got b buffer) ms fs')
                else read_loop rd absolute_offset len (got + n) buffer ms fs)
      else (Inr buffer, fs))"
  by pat_completeness auto
termination
  by (relation "measure (\<lambda>(rd, absolute_offset, len, got, buffer, ms, fs). len - got)")
    (auto dest: locate_SomeD)

declare write_loop.simps [simp del] read_loop.simps [simp del]

definition write_piece ::
  "(path \<Rightarrow> nat \<Rightarrow> bytes \<Rightarrow> filesystem \<Rightarrow> (io_error + unit) \<times> filesystem)
   \<Rightarrow> nat \<Rightarrow> bytes \<Rightarrow> disk \<Rightarrow> filesystem \<Rightarrow> (io_error + unit) \<times> disk \<times> filesystem" where
  "write_piece wr piece_index data d fs =
     (let (r, ms, fs') = write_loop wr (piece_index * dk_piece_length d) data 0 (dk_files d) fs
      in (r, d\<lparr>dk_files := ms\<rparr>, fs'))"

definition read_piece ::
  "(path \<Rightarrow> nat \<Rightarrow> nat \<Rightarrow> filesystem \<Rightarrow> (io_error + bytes) \<times> filesystem)
   \<Rightarrow> nat \<Rightarrow> nat \<Rightarrow> nat \<Rightarrow> disk \<Rightarrow> filesystem \<Rightarrow> (io_error + bytes) \<times> filesystem" where
  "read_piece rd piece_index offset len d fs =
     read_loop rd (piece_index * dk_piece_length d + offset) len 0 (replicate len 0) (dk_files d) fs"

fun flush_loop ::
  "io_env \<Rightarrow> file_mapping list \<Rightarrow> filesystem \<Rightarrow> (io_error + unit) \<times> file_mapping list \<times> filesystem" where
  "flush_loop env [] fs = (Inr (), [], fs)"
| "flush_loop env (m # ms) fs =
     (if \<not> fm_dirty m then (let (r, ms', fs') = flush_loop env ms fs in (r, m # ms', fs'))
      else if fm_open m then
        (if call_fails env fs then (Inl IoFailed, m # ms, call fs)
         else (let (r, ms', fs') = flush_loop env ms (sync (fm_path m) (call fs))
               in (r, m\<lparr>fm_dirty := False\<rparr> # ms', fs')))
      else (let (r, ms', fs') = flush_loop env ms fs in (r, m\<lparr>fm_dirty := False\<rparr> # ms', fs')))"

definition flush :: "io_env \<Rightarrow> disk \<Rightarrow> filesystem \<Rightarrow> (io_error + unit) \<times> disk \<times> filesystem" where
  "flush env d fs = (let (r, ms, fs') = flush_loop env (dk_files d) fs in (r, d\<lparr>dk_files := ms\<rparr>, fs'))"

text \<open>A released handle is taken out of the mapping before it is synced; \<open>cls\<close> says whether closing it is
  a call of its own (io_uring).\<close>

fun set_selection_loop ::
  "(path \<Rightarrow> nat \<Rightarrow> filesystem \<Rightarrow> (io_error + unit) \<times> filesystem) \<Rightarrow> bool \<Rightarrow> io_env \<Rightarrow> bool list \<Rightarrow> nat
   \<Rightarrow> file_mapping list \<Rightarrow> filesystem \<Rightarrow> (io_error + unit) \<times> file_mapping list \<times> filesystem" where
  "set_selection_loop opn cls env selected index [] fs = (Inr (), [], fs)"
| "set_selection_loop opn cls env selected index (m # ms) fs =
     (if is_selected (Some selected) index \<and> \<not> fm_open m then
        (case opn (fm_path m) (fm_end m - fm_start m) fs of
           (Inl e, fs') \<Rightarrow> (Inl e, m # ms, fs')
         | (Inr _, fs') \<Rightarrow>
             (let (r, ms', fs'') = set_selection_loop opn cls env selected (Suc index) ms fs'
              in (r, m\<lparr>fm_open := True\<rparr> # ms', fs'')))
      else if \<not> is_selected (Some selected) index \<and> fm_open m then
        (if call_fails env fs then (Inl IoFailed, m\<lparr>fm_open := False\<rparr> # ms, call fs)
         else
           let fs1 = sync (fm_path m) (call fs) in
           if cls \<and> call_fails env fs1 then (Inl IoFailed, m\<lparr>fm_open := False\<rparr> # ms, call fs1)
           else (let (r, ms', fs'') = set_selection_loop opn cls env selected (Suc index) ms
                       (if cls then call fs1 else fs1)
                 in (r, m\<lparr>fm_open := False, fm_dirty := False\<rparr> # ms', fs'')))
      else (let (r, ms', fs'') = set_selection_loop opn cls env selected (Suc index) ms fs in (r, m # ms', fs'')))"

definition set_selection ::
  "(path \<Rightarrow> nat \<Rightarrow> filesystem \<Rightarrow> (io_error + unit) \<times> filesystem) \<Rightarrow> bool \<Rightarrow> io_env \<Rightarrow> bool list
   \<Rightarrow> disk \<Rightarrow> filesystem \<Rightarrow> (io_error + unit) \<times> disk \<times> filesystem" where
  "set_selection opn cls env selected d fs =
     (let (r, ms, fs') = set_selection_loop opn cls env selected 0 (dk_files d) fs
      in (r, d\<lparr>dk_files := ms\<rparr>, fs'))"

section \<open>The standard backend\<close>

text \<open>\<open>seek\<close>, then \<open>write_all\<close> or \<open>read_exact\<close>. A failing write may have stored a part of the data, and since
  the file is not flushed, one that reports success may have stored only a part of it too (\<open>env_lost\<close>).\<close>

definition std_write ::
  "io_env \<Rightarrow> path \<Rightarrow> nat \<Rightarrow> bytes \<Rightarrow> filesystem \<Rightarrow> (io_error + unit) \<times> filesystem" where
  "std_write env p off data fs =
     (if call_fails env fs then (Inl IoFailed, call fs)
      else let fs1 = call fs in
        if call_fails env fs1
        then (Inl IoFailed, put p off (take (env_amount env (fs_calls fs1)) data) (call fs1))
        else (Inr (), put p off (case env_lost env (fs_calls fs1) of None \<Rightarrow> data | Some k \<Rightarrow> take k data) (call fs1)))"

definition std_read ::
  "io_env \<Rightarrow> path \<Rightarrow> nat \<Rightarrow> nat \<Rightarrow> filesystem \<Rightarrow> (io_error + bytes) \<times> filesystem" where
  "std_read env p off n fs =
     (if call_fails env fs then (Inl IoFailed, call fs)
      else let fs1 = call fs in
        if call_fails env fs1 then (Inl IoFailed, call fs1)
        else if off + n \<le> length (contents fs1 p) then (Inr (slice off (off + n) (contents fs1 p)), call fs1)
        else (Inl UnexpectedEof, call fs1))"

definition std_init_with_selection where
  "std_init_with_selection env = init_with_selection (open_preallocated env) env"

definition std_write_piece where "std_write_piece env = write_piece (std_write env)"
definition std_read_piece where "std_read_piece env = read_piece (std_read env)"
definition std_set_selection where
  "std_set_selection env = set_selection (open_preallocated env) False env"

section \<open>The io_uring backend\<close>

text \<open>\<open>write_fully\<close> and \<open>read_fully\<close>: a transfer may be short, and one of zero bytes is an error.\<close>

function write_fully ::
  "io_env \<Rightarrow> path \<Rightarrow> bytes \<Rightarrow> nat \<Rightarrow> nat \<Rightarrow> filesystem \<Rightarrow> (io_error + unit) \<times> filesystem" where
  "write_fully env p buf pos dn fs =
     (if dn < length buf then
        if call_fails env fs then (Inl IoFailed, call fs)
        else
          let written = min (env_amount env (fs_calls fs)) (length buf - dn);
              fs' = put p (pos + dn) (slice dn (dn + written) buf) (call fs)
          in if written = 0 then (Inl ZeroTransfer, call fs)
             else write_fully env p buf pos (dn + written) fs'
      else (Inr (), fs))"
  by pat_completeness auto
termination
  by (relation "measure (\<lambda>(env, p, buf, pos, d, fs). length buf - d)") auto

function read_fully ::
  "io_env \<Rightarrow> path \<Rightarrow> nat \<Rightarrow> nat \<Rightarrow> nat \<Rightarrow> bytes \<Rightarrow> filesystem \<Rightarrow> (io_error + bytes) \<times> filesystem" where
  "read_fully env p len pos dn buf fs =
     (if dn < len then
        if call_fails env fs then (Inl IoFailed, call fs)
        else
          let got = min (env_amount env (fs_calls fs))
                      (min (len - dn) (length (contents fs p) - (pos + dn)))
          in if got = 0 then (Inl UnexpectedEof, call fs)
             else read_fully env p len pos (dn + got)
                    (splice dn (slice (pos + dn) (pos + dn + got) (contents fs p)) buf) (call fs)
      else (Inr buf, fs))"
  by pat_completeness auto
termination
  by (relation "measure (\<lambda>(env, p, len, pos, d, buf, fs). len - d)") auto

declare write_fully.simps [simp del] read_fully.simps [simp del]

definition open_uring ::
  "io_env \<Rightarrow> path \<Rightarrow> filesystem \<Rightarrow> (io_error + unit) \<times> filesystem" where
  "open_uring env p fs =
     (if call_fails env fs \<or> fs_cache fs p = None then (Inl IoFailed, call fs) else (Inr (), call fs))"

definition uring_open ::
  "io_env \<Rightarrow> path \<Rightarrow> nat \<Rightarrow> filesystem \<Rightarrow> (io_error + unit) \<times> filesystem" where
  "uring_open env p len fs =
     (case open_preallocated env p len fs of
        (Inl e, fs') \<Rightarrow> (Inl e, fs')
      | (Inr _, fs') \<Rightarrow> open_uring env p fs')"

definition uring_write where "uring_write env p off data fs = write_fully env p data off 0 fs"
definition uring_read where "uring_read env p off n fs = read_fully env p n off 0 (replicate n 0) fs"

function uring_read_loop ::
  "io_env \<Rightarrow> nat \<Rightarrow> nat \<Rightarrow> nat \<Rightarrow> bytes \<Rightarrow> file_mapping list \<Rightarrow> filesystem
   \<Rightarrow> (io_error + bytes) \<times> filesystem" where
  "uring_read_loop env absolute_offset len got final_buffer ms fs =
     (if got < len then
        let cur = absolute_offset + got in
        (case locate ms cur of
           None \<Rightarrow> (Inl OutOfBounds, fs)
         | Some i \<Rightarrow>
             let m = ms ! i;
                 n = min (len - got) (fm_end m - cur)
             in if fm_open m then
                  (case uring_read env (fm_path m) (cur - fm_start m) n fs of
                     (Inl e, fs') \<Rightarrow> (Inl e, fs')
                   | (Inr b, fs') \<Rightarrow>
                       uring_read_loop env absolute_offset len (got + n) (final_buffer @ b) ms fs')
                else uring_read_loop env absolute_offset len (got + n) (final_buffer @ replicate n 0) ms fs)
      else (Inr final_buffer, fs))"
  by pat_completeness auto
termination
  by (relation "measure (\<lambda>(env, absolute_offset, len, got, buffer, ms, fs). len - got)")
    (auto dest: locate_SomeD)

declare uring_read_loop.simps [simp del]

definition uring_init_with_selection where
  "uring_init_with_selection env = init_with_selection (uring_open env) env"

definition uring_write_piece where "uring_write_piece env = write_piece (uring_write env)"
definition uring_set_selection where "uring_set_selection env = set_selection (uring_open env) True env"

definition uring_read_piece ::
  "io_env \<Rightarrow> nat \<Rightarrow> nat \<Rightarrow> nat \<Rightarrow> disk \<Rightarrow> filesystem \<Rightarrow> (io_error + bytes) \<times> filesystem" where
  "uring_read_piece env piece_index offset len d fs =
     uring_read_loop env (piece_index * dk_piece_length d + offset) len 0 [] (dk_files d) fs"

section \<open>The byte string on disk\<close>

fun chained :: "nat \<Rightarrow> file_mapping list \<Rightarrow> bool" where
  "chained off [] = True"
| "chained off (m # ms) \<longleftrightarrow> fm_start m = off \<and> off \<le> fm_end m \<and> chained (fm_end m) ms"

definition disk_end :: "nat \<Rightarrow> file_mapping list \<Rightarrow> nat" where
  "disk_end off ms = (if ms = [] then off else fm_end (last ms))"

text \<open>No two files that are written share a path.\<close>

definition paths_distinct :: "file_mapping list \<Rightarrow> bool" where
  "paths_distinct ms \<longleftrightarrow>
     (\<forall>i < length ms. \<forall>j < length ms. fm_open (ms ! i) \<longrightarrow> fm_open (ms ! j) \<longrightarrow>
        fm_path (ms ! i) = fm_path (ms ! j) \<longrightarrow> i = j)"

definition sized :: "file_mapping list \<Rightarrow> filesystem \<Rightarrow> bool" where
  "sized ms fs \<longleftrightarrow> (\<forall>m \<in> set ms. fm_open m \<longrightarrow> length (contents fs (fm_path m)) = fm_end m - fm_start m)"

definition layout_ok :: "file_mapping list \<Rightarrow> filesystem \<Rightarrow> bool" where
  "layout_ok ms fs \<longleftrightarrow> chained 0 ms \<and> paths_distinct ms \<and> sized ms fs"

definition stored :: "file_mapping list \<Rightarrow> nat \<Rightarrow> bool" where
  "stored ms k = (case locate ms k of None \<Rightarrow> False | Some i \<Rightarrow> fm_open (ms ! i))"

definition byte_at :: "file_mapping list \<Rightarrow> filesystem \<Rightarrow> nat \<Rightarrow> byte" where
  "byte_at ms fs k =
     (case locate ms k of
        None \<Rightarrow> 0
      | Some i \<Rightarrow> if fm_open (ms ! i) then contents fs (fm_path (ms ! i)) ! (k - fm_start (ms ! i)) else 0)"

text \<open>What the disk holds: the bytes of the torrent, those of files that are not stored being zero.\<close>

definition disk_image :: "disk \<Rightarrow> filesystem \<Rightarrow> bytes" where
  "disk_image d fs = map (byte_at (dk_files d) fs) [0..<disk_end 0 (dk_files d)]"

definition disk_wf :: "disk \<Rightarrow> filesystem \<Rightarrow> bool" where
  "disk_wf d fs \<longleftrightarrow> layout_ok (dk_files d) fs"

lemma chained_end: "chained off ms \<Longrightarrow> off \<le> disk_end off ms"
  by (induction ms arbitrary: off) (fastforce simp: disk_end_def split: if_splits)+

lemma chained_nth:
  "chained off ms \<Longrightarrow> i < length ms \<Longrightarrow>
     off \<le> fm_start (ms ! i) \<and> fm_start (ms ! i) \<le> fm_end (ms ! i) \<and> fm_end (ms ! i) \<le> disk_end off ms
     \<and> (\<forall>j < i. fm_end (ms ! j) \<le> fm_start (ms ! i))"
proof (induction ms arbitrary: off i)
  case (Cons m ms)
  have e: "disk_end off (m # ms) = disk_end (fm_end m) ms" by (simp add: disk_end_def)
  show ?case
  proof (cases i)
    case 0
    then show ?thesis using Cons.prems chained_end [of "fm_end m" ms] by (simp add: e)
  next
    case (Suc k)
    with Cons.IH [of "fm_end m" k] Cons.prems show ?thesis
      by (auto simp: e All_less_Suc2)
  qed
qed simp

lemma locate_eq_Some_iff:
  assumes "chained 0 ms"
  shows "locate ms off = Some i \<longleftrightarrow> i < length ms \<and> fm_start (ms ! i) \<le> off \<and> off < fm_end (ms ! i)"
proof
  assume r: "i < length ms \<and> fm_start (ms ! i) \<le> off \<and> off < fm_end (ms ! i)"
  have "\<forall>j < i. fm_end (ms ! j) \<le> off" using chained_nth [OF assms, of i] r by auto
  then have "takeWhile (\<lambda>m. fm_end m \<le> off) ms = take i ms"
    using r by (intro takeWhile_eq_take_P_nth) auto
  then have "length (takeWhile (\<lambda>m. fm_end m \<le> off) ms) = i" using r by simp
  with r show "locate ms off = Some i" by (simp add: locate_def)
qed (auto dest: locate_SomeD)

lemma locate_None_iff:
  assumes "chained 0 ms"
  shows "locate ms off = None \<longleftrightarrow> disk_end 0 ms \<le> off"
proof -
  have gen: "off < disk_end b ms \<Longrightarrow> b \<le> off \<Longrightarrow> chained b ms \<Longrightarrow>
      \<exists>i < length ms. fm_start (ms ! i) \<le> off \<and> off < fm_end (ms ! i)" for b ms
  proof (induction ms arbitrary: b)
    case (Cons m ms)
    then show ?case
      by (cases "off < fm_end m") (fastforce simp: disk_end_def Ex_less_Suc2 split: if_splits)+
  qed (simp add: disk_end_def)
  show ?thesis
  proof
    assume "locate ms off = None"
    then show "disk_end 0 ms \<le> off"
      using gen [of 0 ms] locate_eq_Some_iff [OF assms, of off] assms by (metis le0 not_le option.distinct(1))
  next
    assume e: "disk_end 0 ms \<le> off"
    have False if "locate ms off = Some i" for i
      using that e chained_nth [OF assms, of i] locate_eq_Some_iff [OF assms] by fastforce
    then show "locate ms off = None" by (cases "locate ms off") auto
  qed
qed

end
