(* ===== verification/DiskSpec.thy ===== *)
theory DiskSpec
  imports Disk
begin

text \<open>
  Correctness of the storage code against one flat byte string. The locale \<open>file_io\<close> says what a backend
  promises about reading and writing one file; the loops over the files are verified from this contract
  alone, and both backends are interpretations of it: the standard one for the environments in which no
  unflushed write is lost without an error, the io_uring one for all.
\<close>

section \<open>Mappings up to the dirty flag\<close>

definition strip :: "file_mapping \<Rightarrow> file_mapping" where
  "strip m = m\<lparr>fm_dirty := False\<rparr>"

lemma strip_simps [simp]:
  "fm_path (strip m) = fm_path m" "fm_open (strip m) = fm_open m" "fm_start (strip m) = fm_start m"
  "fm_end (strip m) = fm_end m"
  by (simp_all add: strip_def)

lemma locate_strip [simp]: "locate (map strip ms) = locate ms"
  by (rule ext) (auto simp: locate_def takeWhile_map comp_def Let_def)

lemma byte_at_strip [simp]: "byte_at (map strip ms) fs = byte_at ms fs" "stored (map strip ms) = stored ms"
  by (auto simp: byte_at_def stored_def fun_eq_iff dest: locate_SomeD(1) split: option.splits)

lemma chained_strip [simp]: "chained off (map strip ms) = chained off ms"
  by (induction ms arbitrary: off) auto

lemma disk_end_strip [simp]: "disk_end off (map strip ms) = disk_end off ms"
  by (simp add: disk_end_def last_map)

lemma layout_ok_strip [simp]: "layout_ok (map strip ms) fs = layout_ok ms fs"
  by (auto simp: layout_ok_def paths_distinct_def sized_def)

lemma strip_eq:
  assumes "map strip ms' = map strip ms"
  shows "locate ms' = locate ms" "byte_at ms' fs = byte_at ms fs" "stored ms' = stored ms"
    "layout_ok ms' fs = layout_ok ms fs" "disk_end 0 ms' = disk_end 0 ms" "length ms' = length ms"
    "i < length ms \<Longrightarrow> fm_open (ms' ! i) = fm_open (ms ! i)" "i < length ms \<Longrightarrow> fm_path (ms' ! i) = fm_path (ms ! i)"
proof -
  show "locate ms' = locate ms" by (metis assms locate_strip)
  show "byte_at ms' fs = byte_at ms fs" "stored ms' = stored ms" by (metis assms byte_at_strip)+
  show "layout_ok ms' fs = layout_ok ms fs" by (metis assms layout_ok_strip)
  show "disk_end 0 ms' = disk_end 0 ms" by (metis assms disk_end_strip)
  show l: "length ms' = length ms" by (metis assms length_map)
  assume "i < length ms"
  then have "strip (ms' ! i) = strip (ms ! i)" using assms l by (metis nth_map)
  then show "fm_open (ms' ! i) = fm_open (ms ! i)" "fm_path (ms' ! i) = fm_path (ms ! i)"
    by (metis strip_simps)+
qed

lemma strip_mark: "i < length ms \<Longrightarrow> map strip (ms[i := (ms ! i)\<lparr>fm_dirty := b\<rparr>]) = map strip ms"
  by (rule nth_equalityI) (auto simp: nth_list_update strip_def)

text \<open>What a run of the write loop from \<open>w\<close> leaves behind.\<close>

definition wrote ::
  "bool \<Rightarrow> nat \<Rightarrow> bytes \<Rightarrow> nat \<Rightarrow> file_mapping list \<Rightarrow> filesystem \<Rightarrow> (io_error + unit) \<Rightarrow> file_mapping list
   \<Rightarrow> filesystem \<Rightarrow> bool" where
  "wrote reliable poff data w ms fs r ms' fs' \<longleftrightarrow>
     layout_ok ms' fs' \<and> map strip ms' = map strip ms \<and> fs_stable fs' = fs_stable fs
     \<and> (\<forall>i < length ms. fm_dirty (ms ! i) \<longrightarrow> fm_dirty (ms' ! i))
     \<and> (\<forall>k. \<not> (poff + w \<le> k \<and> k < poff + length data) \<longrightarrow> byte_at ms' fs' k = byte_at ms fs k)
     \<and> (r = Inr () \<longrightarrow> (\<forall>k. poff + w \<le> k \<longrightarrow> k < poff + length data \<longrightarrow>
          byte_at ms' fs' k = (if stored ms k then data ! (k - poff) else 0)
          \<and> (\<forall>i. locate ms k = Some i \<longrightarrow> fm_open (ms ! i) \<longrightarrow> fm_dirty (ms' ! i))))
     \<and> (w < length data \<longrightarrow> r = Inr () \<longrightarrow> poff + length data \<le> disk_end 0 ms)
     \<and> (reliable \<longrightarrow> poff + length data \<le> disk_end 0 ms \<longrightarrow> r = Inr ())"

lemma wroteD:
  assumes "wrote reliable poff data w ms fs r ms' fs'"
  shows "layout_ok ms' fs'" "map strip ms' = map strip ms" "fs_stable fs' = fs_stable fs"
    "i < length ms \<Longrightarrow> fm_dirty (ms ! i) \<Longrightarrow> fm_dirty (ms' ! i)"
    "k < poff + w \<or> poff + length data \<le> k \<Longrightarrow> byte_at ms' fs' k = byte_at ms fs k"
    "r = Inr () \<Longrightarrow> poff + w \<le> k \<Longrightarrow> k < poff + length data \<Longrightarrow>
       byte_at ms' fs' k = (if stored ms k then data ! (k - poff) else 0)"
    "r = Inr () \<Longrightarrow> poff + w \<le> k \<Longrightarrow> k < poff + length data \<Longrightarrow> locate ms k = Some i \<Longrightarrow> fm_open (ms ! i) \<Longrightarrow>
       fm_dirty (ms' ! i)"
    "w < length data \<Longrightarrow> r = Inr () \<Longrightarrow> poff + length data \<le> disk_end 0 ms"
    "reliable \<Longrightarrow> poff + length data \<le> disk_end 0 ms \<Longrightarrow> r = Inr ()"
  using assms unfolding wrote_def by auto

lemma wrote_skip:
  assumes ch: "chained 0 ms" and i: "locate ms (poff + w) = Some i" "\<not> fm_open (ms ! i)"
    and n: "n = min (length data - w) (fm_end (ms ! i) - (poff + w))" "w < length data"
    and IH: "wrote reliable poff data (w + n) ms fs r ms' fs'"
  shows "wrote reliable poff data w ms fs r ms' fs'"
proof -
  note l = locate_SomeD [OF i(1)]
  have loc: "locate ms k = Some i" if "poff + w \<le> k" "k < poff + w + n" for k
    using that l n by (auto simp: locate_eq_Some_iff [OF ch])
  have z: "byte_at ms' fs' k = 0" "\<not> stored ms k" if "poff + w \<le> k" "k < poff + w + n" for k
  proof -
    have "byte_at ms' fs' k = byte_at ms fs k" using IH that by (simp add: wrote_def)
    then show "byte_at ms' fs' k = 0" "\<not> stored ms k"
      using loc [OF that] i(2) by (simp_all add: byte_at_def stored_def)
  qed
  have n2: "w + n \<le> length data" "0 < n" using n l by auto
  have len: "poff + length data \<le> disk_end 0 ms" if "r = Inr ()"
  proof (cases "w + n < length data")
    case True
    with IH that show ?thesis by (simp add: wrote_def)
  next
    case False
    then have "poff + length data \<le> fm_end (ms ! i)" using n n2 by auto
    with chained_nth [OF ch l(1)] show ?thesis by auto
  qed
  have done_part: "byte_at ms' fs' k = (if stored ms k then data ! (k - poff) else 0)
      \<and> (\<forall>j. locate ms k = Some j \<longrightarrow> fm_open (ms ! j) \<longrightarrow> fm_dirty (ms' ! j))"
    if "r = Inr ()" "poff + w \<le> k" "k < poff + length data" for k
  proof (cases "k < poff + w + n")
    case True
    with z [OF that(2)] loc [OF that(2)] i(2) show ?thesis by auto
  next
    case False
    with that have k: "poff + (w + n) \<le> k" by simp
    from wroteD(6,7) [OF IH that(1) k that(3)] show ?thesis by blast
  qed
  have other: "byte_at ms' fs' k = byte_at ms fs k" if "\<not> (poff + w \<le> k \<and> k < poff + length data)" for k
    using that by (intro wroteD(5) [OF IH]) auto
  from IH len done_part other show ?thesis unfolding wrote_def by blast
qed

lemma wrote_cons:
  assumes ch: "chained 0 ms" and i: "locate ms (poff + w) = Some i" "fm_open (ms ! i)"
    and n: "n = min (length data - w) (fm_end (ms ! i) - (poff + w))" "w < length data"
    and b: "\<And>k. byte_at ms fs1 k = (if poff + w \<le> k \<and> k < poff + w + n then data ! (k - poff) else byte_at ms fs k)"
    and s1: "fs_stable fs1 = fs_stable fs"
    and IH: "wrote reliable poff data (w + n) (ms[i := (ms ! i)\<lparr>fm_dirty := True\<rparr>]) fs1 r ms' fs'"
  shows "wrote reliable poff data w ms fs r ms' fs'"
proof -
  let ?ms = "ms[i := (ms ! i)\<lparr>fm_dirty := True\<rparr>]"
  note l = locate_SomeD [OF i(1)]
  note se = strip_eq [OF strip_mark [OF l(1), of True]]
  have loc: "locate ms k = Some i" if "poff + w \<le> k" "k < poff + w + n" for k
    using that l n by (auto simp: locate_eq_Some_iff [OF ch])
  have n2: "w + n \<le> length data" "0 < n" using n l by auto
  have dirty: "\<forall>j < length ms. fm_dirty (?ms ! j) \<longrightarrow> fm_dirty (ms' ! j)" using IH by (simp add: wrote_def)
  then have di: "fm_dirty (ms' ! i)" using l(1) by auto
  have len: "poff + length data \<le> disk_end 0 ms" if "r = Inr ()"
  proof (cases "w + n < length data")
    case True
    with IH that show ?thesis by (simp add: wrote_def se)
  next
    case False
    then have "poff + length data \<le> fm_end (ms ! i)" using n n2 by auto
    with chained_nth [OF ch l(1)] show ?thesis by auto
  qed
  have "byte_at ms' fs' k = byte_at ?ms fs1 k" if "k < poff + w + n \<or> poff + length data \<le> k" for k
    using that by (intro wroteD(5) [OF IH]) auto
  then have first: "byte_at ms' fs' k = data ! (k - poff)" "stored ms k" if "poff + w \<le> k" "k < poff + w + n" for k
    using that b [of k] loc [OF that] i(2) by (simp_all add: se stored_def)
  have done_part: "byte_at ms' fs' k = (if stored ms k then data ! (k - poff) else 0)
      \<and> (\<forall>j. locate ms k = Some j \<longrightarrow> fm_open (ms ! j) \<longrightarrow> fm_dirty (ms' ! j))"
    if k: "r = Inr ()" "poff + w \<le> k" "k < poff + length data" for k
  proof (cases "k < poff + w + n")
    case True
    with first [OF k(2)] loc [OF k(2)] di show ?thesis by auto
  next
    case False
    then have k2: "poff + (w + n) \<le> k" by simp
    have "fm_dirty (ms' ! j)" if "locate ms k = Some j" "fm_open (ms ! j)" for j
      using wroteD(7) [OF IH k(1) k2 k(3), of j] that locate_SomeD(1) [OF that(1)] by (simp add: se)
    with wroteD(6) [OF IH k(1) k2 k(3)] show ?thesis by (simp add: se)
  qed
  have other: "byte_at ms' fs' k = byte_at ms fs k" if "\<not> (poff + w \<le> k \<and> k < poff + length data)" for k
  proof -
    have "byte_at ms' fs' k = byte_at ?ms fs1 k" using that by (intro wroteD(5) [OF IH]) auto
    moreover have "\<not> (poff + w \<le> k \<and> k < poff + w + n)" using that n2 by auto
    ultimately show ?thesis using b [of k] by (simp add: se)
  qed
  have dm: "\<forall>j < length ms. fm_dirty (ms ! j) \<longrightarrow> fm_dirty (ms' ! j)"
    using dirty di by (metis nth_list_update_neq)
  show ?thesis unfolding wrote_def
    using IH len done_part other dm s1 strip_mark [OF l(1), of True] by (simp add: wrote_def se)
qed

section \<open>Reading and writing one file\<close>

locale file_io =
  fixes wr :: "path \<Rightarrow> nat \<Rightarrow> bytes \<Rightarrow> filesystem \<Rightarrow> (io_error + unit) \<times> filesystem"
    and rd :: "path \<Rightarrow> nat \<Rightarrow> nat \<Rightarrow> filesystem \<Rightarrow> (io_error + bytes) \<times> filesystem"
    and reliable :: bool
  assumes wr_ok: "wr p off data fs = (Inr u, fs') \<Longrightarrow> off + length data \<le> length (contents fs p) \<Longrightarrow>
      contents fs' p = splice off data (contents fs p)"
    and wr_err: "wr p off data fs = (Inl e, fs') \<Longrightarrow> off + length data \<le> length (contents fs p) \<Longrightarrow>
      \<exists>n \<le> length data. contents fs' p = splice off (take n data) (contents fs p)"
    and wr_other: "wr p off data fs = (r, fs') \<Longrightarrow> q \<noteq> p \<Longrightarrow> contents fs' q = contents fs q"
    and wr_stable: "wr p off data fs = (r, fs') \<Longrightarrow> fs_stable fs' = fs_stable fs"
    and wr_live: "reliable \<Longrightarrow> \<exists>fs'. wr p off data fs = (Inr (), fs')"
    and rd_ok: "rd p off n fs = (Inr b, fs') \<Longrightarrow> off + n \<le> length (contents fs p) \<Longrightarrow>
      b = slice off (off + n) (contents fs p)"
    and rd_same: "rd p off n fs = (r', fs') \<Longrightarrow> fs_cache fs' = fs_cache fs \<and> fs_stable fs' = fs_stable fs"
    and rd_live: "reliable \<Longrightarrow> off + n \<le> length (contents fs p) \<Longrightarrow> \<exists>b fs'. rd p off n fs = (Inr b, fs')"
begin

lemma wr_sized:
  assumes "layout_ok ms fs" "locate ms cur = Some i" "fm_open (ms ! i)" "length d \<le> fm_end (ms ! i) - cur"
    "wr (fm_path (ms ! i)) (cur - fm_start (ms ! i)) d fs = (r, fs')"
  shows "cur - fm_start (ms ! i) + length d \<le> length (contents fs (fm_path (ms ! i)))"
    "layout_ok ms fs'"
proof -
  note l = locate_SomeD [OF assms(2)]
  show le: "cur - fm_start (ms ! i) + length d \<le> length (contents fs (fm_path (ms ! i)))"
    using assms(1,3,4) l by (auto simp: layout_ok_def sized_def)
  have "length (contents fs' (fm_path (ms ! i))) = length (contents fs (fm_path (ms ! i)))"
    using wr_ok [OF _ le, of _ fs'] wr_err [OF _ le, of _ fs'] assms(5) le
    by (cases r) (auto simp: min_def)
  with wr_other [OF assms(5)] assms(1) show "layout_ok ms fs'"
    unfolding layout_ok_def sized_def by (metis (full_types))
qed

text \<open>The bytes that one write to one file changes.\<close>

lemma wr_bytes:
  assumes "layout_ok ms fs" "locate ms cur = Some i" "fm_open (ms ! i)" "length d \<le> fm_end (ms ! i) - cur"
    "contents fs' (fm_path (ms ! i)) = splice (cur - fm_start (ms ! i)) d (contents fs (fm_path (ms ! i)))"
    "\<And>q. q \<noteq> fm_path (ms ! i) \<Longrightarrow> contents fs' q = contents fs q"
  shows "byte_at ms fs' k = (if cur \<le> k \<and> k < cur + length d then d ! (k - cur) else byte_at ms fs k)"
    "cur \<le> k \<Longrightarrow> k < cur + length d \<Longrightarrow> locate ms k = Some i"
proof -
  note l = locate_SomeD [OF assms(2)]
  have ch: "chained 0 ms" and sz: "length (contents fs (fm_path (ms ! i))) = fm_end (ms ! i) - fm_start (ms ! i)"
    using assms(1,3) l(1) by (auto simp: layout_ok_def sized_def)
  show loc: "cur \<le> k \<Longrightarrow> k < cur + length d \<Longrightarrow> locate ms k = Some i"
    using l assms(4) by (auto simp: locate_eq_Some_iff [OF ch])
  show "byte_at ms fs' k = (if cur \<le> k \<and> k < cur + length d then d ! (k - cur) else byte_at ms fs k)"
  proof (cases "locate ms k")
    case None
    then show ?thesis using loc by (auto simp: byte_at_def)
  next
    case (Some j)
    note lj = locate_SomeD [OF Some]
    show ?thesis
    proof (cases "j = i")
      case True
      with Some lj l assms(3,4) sz show ?thesis by (auto simp: byte_at_def assms(5) nth_splice)
    next
      case False
      then have "\<not> (cur \<le> k \<and> k < cur + length d)" using loc Some by auto
      moreover have "fm_open (ms ! j) \<Longrightarrow> fm_path (ms ! j) \<noteq> fm_path (ms ! i)"
        using assms(1,3) l(1) lj(1) False by (auto simp: layout_ok_def paths_distinct_def)
      ultimately show ?thesis using Some assms(6) by (auto simp: byte_at_def)
    qed
  qed
qed

lemma write_loop_spec:
  "layout_ok ms fs \<Longrightarrow> write_loop wr poff data w ms fs = (r, ms', fs') \<Longrightarrow>
     wrote reliable poff data w ms fs r ms' fs'"
proof (induction "length data - w" arbitrary: w ms fs rule: less_induct)
  case less
  have ch: "chained 0 ms" using less.prems(1) by (simp add: layout_ok_def)
  note eq = less.prems(2) [unfolded write_loop.simps [of wr poff data w ms fs]]
  show ?case
  proof (cases "w < length data")
    case False
    with eq less.prems(1) show ?thesis by (auto simp: wrote_def)
  next
    case w: True
    show ?thesis
    proof (cases "locate ms (poff + w)")
      case None
      then have "disk_end 0 ms \<le> poff + w" by (simp add: locate_None_iff [OF ch])
      with None eq w less.prems(1) show ?thesis by (auto simp: wrote_def)
    next
      case (Some i)
      note l = locate_SomeD [OF Some]
      define n where n: "n = min (length data - w) (fm_end (ms ! i) - (poff + w))"
      have n2: "w + n \<le> length data" "0 < n" "n \<le> fm_end (ms ! i) - (poff + w)" using n w l by auto
      then have dec: "length data - (w + n) < length data - w" using w by auto
      let ?d = "slice w (w + n) data"
      have ld: "length ?d = n" using n2 by simp
      show ?thesis
      proof (cases "fm_open (ms ! i)")
        case False
        with eq w Some n have "write_loop wr poff data (w + n) ms fs = (r, ms', fs')" by simp
        from less.hyps [OF dec less.prems(1) this] show ?thesis
          by (rule wrote_skip [OF ch Some False n w])
      next
        case True
        obtain q fs1 where wq: "wr (fm_path (ms ! i)) (poff + w - fm_start (ms ! i)) ?d fs = (q, fs1)" by fastforce
        note sz = wr_sized [OF less.prems(1) Some True _ wq, unfolded ld, OF n2(3)]
        show ?thesis
        proof (cases q)
          case (Inl e)
          with eq w Some True n wq have r: "r = Inl e" "ms' = ms" "fs' = fs1" by auto
          from wr_err [OF wq [unfolded Inl]] sz(1) ld obtain t where
            t: "contents fs1 (fm_path (ms ! i)) = splice (poff + w - fm_start (ms ! i)) (take t ?d) (contents fs (fm_path (ms ! i)))"
            by auto
          have "length (take t ?d) \<le> fm_end (ms ! i) - (poff + w)" using n2 by simp
          from wr_bytes(1) [OF less.prems(1) Some True this t wr_other [OF wq]]
          have "byte_at ms fs1 k = byte_at ms fs k" if "\<not> (poff + w \<le> k \<and> k < poff + length data)" for k
            using that n2 by auto
          moreover have "\<not> reliable" using wr_live [of "fm_path (ms ! i)"] wq Inl by (metis Inl_Inr_False prod.inject)
          ultimately show ?thesis
            using r sz(2) wr_stable [OF wq] by (auto simp: wrote_def)
        next
          case (Inr u)
          with eq w Some True n wq have
            rec: "write_loop wr poff data (w + n) (ms[i := (ms ! i)\<lparr>fm_dirty := True\<rparr>]) fs1 = (r, ms', fs')"
            by (simp add: Let_def)
          have c: "contents fs1 (fm_path (ms ! i)) = splice (poff + w - fm_start (ms ! i)) ?d (contents fs (fm_path (ms ! i)))"
            using wr_ok [OF wq [unfolded Inr]] sz(1) ld by simp
          have "byte_at ms fs1 k = (if poff + w \<le> k \<and> k < poff + w + n then data ! (k - poff) else byte_at ms fs k)" for k
            using wr_bytes(1) [OF less.prems(1) Some True _ c wr_other [OF wq], unfolded ld, OF n2(3), of k] n2
            by (auto simp: nth_slice)
          from wrote_cons [OF ch Some True n w this wr_stable [OF wq]] less.hyps [OF dec _ rec]
            sz(2) strip_eq(4) [OF strip_mark [OF l(1), of True]] show ?thesis by blast
        qed
      qed
    qed
  qed
qed

lemma read_loop_spec:
  "layout_ok ms fs \<Longrightarrow> read_loop rd a len g buf ms fs = (r, fs') \<Longrightarrow> length buf = len \<Longrightarrow> g \<le> len \<Longrightarrow>
   \<forall>j. g \<le> j \<longrightarrow> j < len \<longrightarrow> buf ! j = 0 \<Longrightarrow>
     fs_cache fs' = fs_cache fs \<and> fs_stable fs' = fs_stable fs
     \<and> (\<forall>b. r = Inr b \<longrightarrow> length b = len \<and> (\<forall>j < len. b ! j = (if j < g then buf ! j else byte_at ms fs (a + j))))
     \<and> (g < len \<longrightarrow> (\<exists>b. r = Inr b) \<longrightarrow> a + len \<le> disk_end 0 ms)
     \<and> (reliable \<longrightarrow> a + len \<le> disk_end 0 ms \<longrightarrow> (\<exists>b. r = Inr b))"
proof (induction "len - g" arbitrary: g buf fs rule: less_induct)
  case less
  have ch: "chained 0 ms" using less.prems(1) by (simp add: layout_ok_def)
  note eq = less.prems(2) [unfolded read_loop.simps [of rd a len g buf ms fs]]
  show ?case
  proof (cases "g < len")
    case False
    with eq less.prems show ?thesis by auto
  next
    case g: True
    show ?thesis
    proof (cases "locate ms (a + g)")
      case None
      then have "disk_end 0 ms \<le> a + g" by (simp add: locate_None_iff [OF ch])
      with None eq g show ?thesis by auto
    next
      case (Some i)
      note l = locate_SomeD [OF Some]
      define n where n: "n = min (len - g) (fm_end (ms ! i) - (a + g))"
      have n2: "g + n \<le> len" "0 < n" "n \<le> fm_end (ms ! i) - (a + g)" using n g l by auto
      then have dec: "len - (g + n) < len - g" using g by auto
      have loc: "locate ms k = Some i" if "a + g \<le> k" "k < a + g + n" for k
        using that l n2 by (auto simp: locate_eq_Some_iff [OF ch])
      have fin: "a + len \<le> disk_end 0 ms" if "\<not> g + n < len"
        using that n n2 chained_nth [OF ch l(1)] by auto
      show ?thesis
      proof (cases "fm_open (ms ! i)")
        case False
        with eq g Some n have rec: "read_loop rd a len (g + n) buf ms fs = (r, fs')" by (simp add: Let_def)
        have "byte_at ms fs (a + j) = buf ! j" if "g \<le> j" "j < g + n" for j
          using loc [of "a + j"] that False less.prems(5) n2 by (simp add: byte_at_def)
        then have same: "(if j < g + n then buf ! j else byte_at ms fs (a + j))
            = (if j < g then buf ! j else byte_at ms fs (a + j))" for j by auto
        from less.hyps [OF dec less.prems(1) rec less.prems(3) n2(1)] less.prems(5) fin show ?thesis
          unfolding same by auto
      next
        case True
        have sz: "a + g - fm_start (ms ! i) + n \<le> length (contents fs (fm_path (ms ! i)))"
          using less.prems(1) True l n2 by (auto simp: layout_ok_def sized_def)
        obtain q fs1 where rq: "rd (fm_path (ms ! i)) (a + g - fm_start (ms ! i)) n fs = (q, fs1)" by fastforce
        note rs = rd_same [OF rq]
        have "contents fs1 = contents fs" using rs by (simp add: contents_def fun_eq_iff)
        then have lay: "layout_ok ms fs1" "byte_at ms fs1 = byte_at ms fs"
          using less.prems(1)
          by (simp_all add: layout_ok_def sized_def byte_at_def fun_eq_iff split: option.split)
        show ?thesis
        proof (cases q)
          case (Inl e)
          moreover have "\<not> reliable" using rd_live [OF _ sz] rq Inl by (metis Inl_Inr_False prod.inject)
          ultimately show ?thesis using eq g Some True n rq rs by (auto simp: Let_def)
        next
          case (Inr b)
          then have b: "b = slice (a + g - fm_start (ms ! i)) (a + g - fm_start (ms ! i) + n) (contents fs (fm_path (ms ! i)))"
            using rd_ok [OF rq [unfolded Inr] sz] by simp
          then have lb: "length b = n" using sz by simp
          have bj: "b ! (j - g) = byte_at ms fs (a + j)" if "g \<le> j" "j < g + n" for j
            using loc [of "a + j"] that True l sz unfolding b by (simp add: byte_at_def nth_slice)
          from Inr eq g Some True n rq
          have rec: "read_loop rd a len (g + n) (splice g b buf) ms fs1 = (r, fs')" by (simp add: Let_def)
          have len: "length (splice g b buf) = len" using lb n2 less.prems(3) by simp
          have z: "\<forall>j. g + n \<le> j \<longrightarrow> j < len \<longrightarrow> splice g b buf ! j = 0"
            using less.prems(3,5) lb n2 by (simp add: nth_splice)
          have same: "(if j < g + n then splice g b buf ! j else byte_at ms fs (a + j))
            = (if j < g then buf ! j else byte_at ms fs (a + j))" if "j < len" for j
            using that less.prems(3) lb n2 bj [of j] by (auto simp: nth_splice)
          have eqv: "(\<forall>j < len. c ! j = (if j < g + n then splice g b buf ! j else byte_at ms fs (a + j)))
            \<longleftrightarrow> (\<forall>j < len. c ! j = (if j < g then buf ! j else byte_at ms fs (a + j)))" for c
            by (intro all_cong1 imp_cong refl) (simp only: same)
          from less.hyps [OF dec lay(1) rec len n2(1) z, unfolded lay(2) eqv] fin rs show ?thesis by auto
        qed
      qed
    qed
  qed
qed

end

section \<open>Both backends keep the contract\<close>

definition env_reliable :: "io_env \<Rightarrow> bool" where
  "env_reliable env \<longleftrightarrow> (\<forall>n. \<not> env_fails env n \<and> 0 < env_amount env n)"

text \<open>The standard backend keeps it as long as no write is lost; what it reads does not depend on that.\<close>

lemma call_fails_reporting [simp]: "call_fails (reporting env) = call_fails env"
  by (intro ext) (simp add: call_fails_def)

lemma read_reporting [simp]: "std_read (reporting env) = std_read env" "env_reliable (reporting env) = env_reliable env"
  by (intro ext, simp add: std_read_def Let_def) (simp add: env_reliable_def)

interpretation std: file_io "std_write (reporting env)" "std_read env" "env_reliable env" for env
proof (unfold_locales, goal_cases)
  case (1 p off data fs u fs')
  then show ?case by (auto simp: std_write_def Let_def write_at_inside split: if_splits)
next
  case (2 p off data fs e fs')
  show ?case
  proof (cases "call_fails env fs")
    case True
    with 2 show ?thesis by (intro exI [of _ 0]) (auto simp: std_write_def splice_def)
  next
    case False
    let ?n = "env_amount env (Suc (fs_calls fs))"
    have "contents fs' p = splice off (take ?n data) (contents fs p)"
      using 2 False by (auto simp: std_write_def Let_def call_def write_at_inside contents_def put_def split: if_splits)
    then show ?thesis by (intro exI [of _ "min ?n (length data)"]) (simp add: min_def)
  qed
next
  case (3 p off data fs r fs' q)
  then show ?case by (auto simp: std_write_def Let_def split: if_splits)
next
  case (4 p off data fs r fs')
  then show ?case by (auto simp: std_write_def Let_def split: if_splits)
next
  case (5 p off data fs)
  then show ?case by (simp add: std_write_def env_reliable_def call_fails_def Let_def)
next
  case (6 p off n fs b fs')
  then show ?case by (auto simp: std_read_def Let_def split: if_splits)
next
  case (7 p off n fs r fs')
  then show ?case by (auto simp: std_read_def Let_def split: if_splits)
next
  case (8 off n fs p)
  then show ?case by (simp add: std_read_def env_reliable_def call_fails_def Let_def)
qed

lemma splice_Nil [simp]: "off \<le> length b \<Longrightarrow> splice off [] b = b"
  by (simp add: splice_def)

lemma write_fully_step:
  assumes "d < length buf" "\<not> call_fails env fs" "w = min (env_amount env (fs_calls fs)) (length buf - d)" "0 < w"
  shows "write_fully env p buf pos d fs
    = write_fully env p buf pos (d + w) (put p (pos + d) (slice d (d + w) buf) (call fs))"
  by (subst write_fully.simps)
    (simp only: Let_def assms(1,2) assms(3) [symmetric] if_True if_False, use assms(4) in simp)

lemma write_fully_cases:
  obtains (stop) r fs' where "write_fully env p buf pos d fs = (r, fs')" "fs_cache fs' = fs_cache fs"
      "fs_stable fs' = fs_stable fs" "r = Inr () \<Longrightarrow> length buf \<le> d" "env_reliable env \<Longrightarrow> r = Inr ()"
  | (step) w where "d < length buf" "0 < w" "d + w \<le> length buf"
      "write_fully env p buf pos d fs
         = write_fully env p buf pos (d + w) (put p (pos + d) (slice d (d + w) buf) (call fs))"
proof (cases "d < length buf \<and> \<not> call_fails env fs \<and> 0 < min (env_amount env (fs_calls fs)) (length buf - d)")
  case True
  then show ?thesis using step [OF _ _ _ write_fully_step [OF _ _ refl]] by auto
next
  case False
  then consider "length buf \<le> d" | "d < length buf" "call_fails env fs"
    | "d < length buf" "\<not> call_fails env fs" "min (env_amount env (fs_calls fs)) (length buf - d) = 0"
    by fastforce
  then show ?thesis
  proof cases
    case 1
    then show ?thesis by (intro stop [of "Inr ()" fs]) (simp_all add: write_fully.simps)
  next
    case 2
    then show ?thesis
      by (intro stop [of "Inl IoFailed" "call fs"])
        (simp_all add: write_fully.simps env_reliable_def call_fails_def)
  next
    case 3
    then have "env_amount env (fs_calls fs) = 0" by (simp add: min_def split: if_splits)
    then have "\<not> env_reliable env" by (metis env_reliable_def less_irrefl)
    with 3 show ?thesis
      by (intro stop [of "Inl ZeroTransfer" "call fs"]) (auto simp: write_fully.simps)
  qed
qed

lemma write_fully_frame:
  "write_fully env p buf pos d fs = (r, fs') \<Longrightarrow>
     fs_stable fs' = fs_stable fs \<and> (q \<noteq> p \<longrightarrow> contents fs' q = contents fs q) \<and> (env_reliable env \<longrightarrow> r = Inr ())"
proof (induction "length buf - d" arbitrary: d fs rule: less_induct)
  case less
  show ?case
  proof (cases rule: write_fully_cases [of env p buf pos d fs])
    case (stop r' fs'')
    with less.prems show ?thesis by (simp add: contents_def)
  next
    case (step w)
    then have "length buf - (d + w) < length buf - d" by linarith
    from less.hyps [OF this] step(4) less.prems show ?thesis by fastforce
  qed
qed

lemma write_fully_contents:
  "d \<le> length buf \<Longrightarrow> write_fully env p buf pos d fs = (r, fs') \<Longrightarrow> pos + length buf \<le> length (contents fs p) \<Longrightarrow>
     \<exists>n. d \<le> n \<and> n \<le> length buf \<and> (r = Inr () \<longrightarrow> n = length buf)
          \<and> contents fs' p = splice (pos + d) (slice d n buf) (contents fs p)"
proof (induction "length buf - d" arbitrary: d fs rule: less_induct)
  case less
  show ?case
  proof (cases rule: write_fully_cases [of env p buf pos d fs])
    case (stop r' fs'')
    have "slice d d buf = []" by (simp add: slice_def)
    with stop less.prems show ?thesis by (intro exI [of _ d]) (auto simp: contents_def)
  next
    case (step w)
    let ?fs = "put p (pos + d) (slice d (d + w) buf) (call fs)"
    have le: "pos + d + length (slice d (d + w) buf) \<le> length (contents fs p)" using less.prems step by auto
    have c: "contents ?fs p = splice (pos + d) (slice d (d + w) buf) (contents fs p)"
      using le by (simp add: write_at_inside)
    have lt: "length buf - (d + w) < length buf - d" using step by linarith
    have "pos + length buf \<le> length (contents ?fs p)" using less.prems(3) le c by simp
    from less.hyps [OF lt step(3) _ this] step(4) less.prems(2) obtain n where
      n: "d + w \<le> n" "n \<le> length buf" "r = Inr () \<longrightarrow> n = length buf"
      "contents fs' p = splice (pos + (d + w)) (slice (d + w) n buf) (contents ?fs p)" by auto
    have "splice (pos + (d + w)) (slice (d + w) n buf) (splice (pos + d) (slice d (d + w) buf) (contents fs p))
        = splice (pos + d) (slice d n buf) (contents fs p)"
      using n(1,2) less.prems(3) step by (intro nth_equalityI) (auto simp: nth_splice nth_slice)
    with n c show ?thesis by (intro exI [of _ n]) simp
  qed
qed

lemma read_fully_spec:
  "read_fully env p len pos d buf fs = (r, fs') \<Longrightarrow> length buf = len \<Longrightarrow> d \<le> len \<Longrightarrow>
     fs_cache fs' = fs_cache fs \<and> fs_stable fs' = fs_stable fs
     \<and> (\<forall>b. r = Inr b \<longrightarrow> b = take d buf @ slice (pos + d) (pos + len) (contents fs p) \<and> length b = len)
     \<and> (env_reliable env \<longrightarrow> pos + len \<le> length (contents fs p) \<longrightarrow> (\<exists>b. r = Inr b))"
proof (induction "len - d" arbitrary: d buf fs rule: less_induct)
  case less
  note eq = less.prems(1) [unfolded read_fully.simps [of env p len pos d buf fs]]
  define w where "w = min (env_amount env (fs_calls fs)) (min (len - d) (length (contents fs p) - (pos + d)))"
  show ?case
  proof (cases "d < len \<and> \<not> call_fails env fs \<and> w \<noteq> 0")
    case False
    have "slice (pos + d) (pos + d) (contents fs p) = []" by (simp add: slice_def)
    moreover have "\<not> (env_reliable env \<and> pos + len \<le> length (contents fs p) \<and> d < len)"
    proof
      assume h: "env_reliable env \<and> pos + len \<le> length (contents fs p) \<and> d < len"
      then have "0 < env_amount env (fs_calls fs)" "0 < length (contents fs p) - (pos + d)"
        by (auto simp: env_reliable_def)
      with h False show False by (simp add: w_def env_reliable_def call_fails_def)
    qed
    ultimately show ?thesis using False eq less.prems
      by (auto simp: Let_def w_def [symmetric] split: if_splits)
  next
    case True
    let ?buf = "splice d (slice (pos + d) (pos + d + w) (contents fs p)) buf"
    from True eq have rec: "read_fully env p len pos (d + w) ?buf (call fs) = (r, fs')"
      by (simp add: Let_def w_def [symmetric])
    have w2: "d + w \<le> len" "pos + d + w \<le> length (contents fs p)" using True by (auto simp: w_def)
    then have lb: "length ?buf = len" using less.prems(2) by simp
    have "len - (d + w) < len - d" using True by linarith
    note IH = less.hyps [OF this rec lb w2(1)]
    have "take (d + w) ?buf @ slice (pos + (d + w)) (pos + len) (contents fs p)
        = take d buf @ slice (pos + d) (pos + len) (contents fs p)"
    proof -
      have l: "length (slice (pos + d) (pos + d + w) (contents fs p)) = w" using w2 by simp
      have "take (d + w) ?buf = take d buf @ slice (pos + d) (pos + d + w) (contents fs p)"
        using take_splice [of d buf "slice (pos + d) (pos + d + w) (contents fs p)"] less.prems(2,3)
        unfolding l by simp
      moreover have "slice (pos + d) (pos + d + w) (contents fs p) @ slice (pos + (d + w)) (pos + len) (contents fs p)
          = slice (pos + d) (pos + len) (contents fs p)"
        using slice_append_slice [of "pos + d" "pos + d + w" "pos + len"] w2(1) by (simp add: add.assoc)
      ultimately show ?thesis by simp
    qed
    with IH show ?thesis by simp
  qed
qed

interpretation uring: file_io "uring_write env" "uring_read env" "env_reliable env" for env
proof (unfold_locales, goal_cases)
  case (1 p off data fs u fs')
  then show ?case using write_fully_contents [of 0 data env p off fs "Inr ()" fs']
    by (auto simp: uring_write_def slice_all)
next
  case (2 p off data fs e fs')
  then obtain n where "n \<le> length data" "contents fs' p = splice off (slice 0 n data) (contents fs p)"
    using write_fully_contents [of 0 data env p off fs "Inl e" fs'] by (auto simp: uring_write_def)
  then show ?case by (auto simp: slice_def)
next
  case (3 p off data fs r fs' q)
  then show ?case using write_fully_frame [of env p data off 0 fs r fs' q] by (simp add: uring_write_def)
next
  case (4 p off data fs r fs')
  then show ?case using write_fully_frame [of env p data off 0 fs r fs'] by (simp add: uring_write_def)
next
  case (5 p off data fs)
  obtain r fs' where "write_fully env p data off 0 fs = (r, fs')" by fastforce
  with write_fully_frame [OF this] 5 show ?case by (auto simp: uring_write_def)
next
  case (6 p off n fs b fs')
  then show ?case using read_fully_spec [of env p n off 0 "replicate n 0" fs "Inr b" fs'] by (simp add: uring_read_def)
next
  case (7 p off n fs r fs')
  then show ?case using read_fully_spec [of env p n off 0 "replicate n 0" fs r fs'] by (simp add: uring_read_def)
next
  case (8 off n fs p)
  obtain r fs' where "read_fully env p n off 0 (replicate n 0) fs = (r, fs')" by fastforce
  with read_fully_spec [OF this] 8 show ?case by (auto simp: uring_read_def)
qed

lemma uring_read_loop_eq:
  "length acc = g \<Longrightarrow> g \<le> len \<Longrightarrow>
   uring_read_loop env a len g acc ms fs = read_loop (uring_read env) a len g (acc @ replicate (len - g) 0) ms fs"
proof (induction "len - g" arbitrary: g acc fs rule: less_induct)
  case less
  show ?case
  proof (cases "g < len")
    case False
    with less.prems show ?thesis by (simp add: uring_read_loop.simps read_loop.simps)
  next
    case g: True
    show ?thesis
    proof (cases "locate ms (a + g)")
      case None
      with g show ?thesis by (simp add: uring_read_loop.simps read_loop.simps)
    next
      case (Some i)
      define n where n: "n = min (len - g) (fm_end (ms ! i) - (a + g))"
      have n2: "g + n \<le> len" "0 < n" using n g locate_SomeD [OF Some] by auto
      have dec: "len - (g + n) < len - g" using n2 g by linarith
      have zz: "acc @ replicate (len - g) 0 = acc @ replicate n 0 @ replicate (len - (g + n)) 0"
        using n2 by (simp add: replicate_add [symmetric])
      have sp: "splice g b (acc @ replicate (len - g) 0) = (acc @ b) @ replicate (len - (g + n)) 0"
        if "length b = n" for b
        using less.prems(1) n2 that unfolding zz by (simp add: splice_def)
      show ?thesis
      proof (cases "fm_open (ms ! i)")
        case False
        have "length (acc @ replicate n 0) = g + n" using less.prems by simp
        note IH = less.hyps [OF dec this n2(1)]
        show ?thesis
          by (subst uring_read_loop.simps, subst read_loop.simps)
            (use g Some False IH zz in \<open>simp add: Let_def n\<close>)
      next
        case True
        obtain q fs1 where q: "uring_read env (fm_path (ms ! i)) (a + g - fm_start (ms ! i)) n fs = (q, fs1)" by fastforce
        have "length b = n" if "q = Inr b" for b
          using q that read_fully_spec [of env "fm_path (ms ! i)" n "a + g - fm_start (ms ! i)" 0 "replicate n 0" fs q fs1]
          by (auto simp: uring_read_def simp del: length_slice)
        then have "case q of Inl e \<Rightarrow> True | Inr b \<Rightarrow>
            uring_read_loop env a len (g + n) (acc @ b) ms fs1
            = read_loop (uring_read env) a len (g + n) (splice g b (acc @ replicate (len - g) 0)) ms fs1"
          using less.hyps [OF dec _ n2(1)] less.prems sp by (auto split: sum.splits)
        with g Some True q show ?thesis
          by (subst uring_read_loop.simps, subst read_loop.simps) (auto simp: Let_def n split: sum.splits)
      qed
    qed
  qed
qed

lemma uring_read_piece_eq: "uring_read_piece env = read_piece (uring_read env)"
  by (simp add: fun_eq_iff uring_read_piece_def read_piece_def uring_read_loop_eq)

section \<open>The loops on a whole disk\<close>

definition overwrite :: "(nat \<Rightarrow> bool) \<Rightarrow> nat \<Rightarrow> bytes \<Rightarrow> bytes \<Rightarrow> bytes" where
  "overwrite keep a data im =
     map (\<lambda>k. if a \<le> k \<and> k < a + length data \<and> keep k then data ! (k - a) else im ! k) [0..<length im]"

text \<open>With every file stored this is an overwrite of the piece's range.\<close>

lemma overwrite_all:
  assumes "a + length data \<le> length im" "\<And>k. a \<le> k \<Longrightarrow> k < a + length data \<Longrightarrow> keep k"
  shows "overwrite keep a data im = splice a data im"
  using assms by (intro nth_equalityI) (auto simp: overwrite_def nth_splice)

lemma length_disk_image [simp]: "length (disk_image d fs) = disk_end 0 (dk_files d)"
  by (simp add: disk_image_def)

context file_io
begin

lemma write_piece_spec:
  assumes "disk_wf d fs" "write_piece wr i data d fs = (r, d', fs')"
  shows "disk_wf d' fs' \<and> dk_piece_length d' = dk_piece_length d \<and> stored (dk_files d') = stored (dk_files d)
    \<and> length (disk_image d' fs') = length (disk_image d fs)
    \<and> (r = Inr () \<longrightarrow>
        disk_image d' fs' = overwrite (stored (dk_files d)) (i * dk_piece_length d) data (disk_image d fs))
    \<and> (data \<noteq> [] \<longrightarrow> r = Inr () \<longrightarrow> i * dk_piece_length d + length data \<le> length (disk_image d fs))
    \<and> (reliable \<longrightarrow> i * dk_piece_length d + length data \<le> length (disk_image d fs) \<longrightarrow> r = Inr ())"
proof -
  let ?ms = "dk_files d" and ?a = "i * dk_piece_length d"
  obtain ms where w: "write_loop wr ?a data 0 ?ms fs = (r, ms, fs')" and d': "d' = d\<lparr>dk_files := ms\<rparr>"
    using assms(2) by (auto simp: write_piece_def split: prod.splits)
  from write_loop_spec [OF assms(1) [unfolded disk_wf_def] w] have W: "wrote reliable ?a data 0 ?ms fs r ms fs'" .
  note se = strip_eq [OF wroteD(2) [OF W]]
  have nz: "byte_at ?ms fs k = 0" if "\<not> stored ?ms k" for k
    using that by (auto simp: stored_def byte_at_def split: option.splits)
  have "disk_image d' fs' = overwrite (stored ?ms) ?a data (disk_image d fs)" if r: "r = Inr ()"
  proof (rule nth_equalityI)
    fix k assume "k < length (disk_image d' fs')"
    then have k: "k < disk_end 0 ?ms" by (simp add: d' se)
    show "disk_image d' fs' ! k = overwrite (stored ?ms) ?a data (disk_image d fs) ! k"
    proof (cases "?a \<le> k \<and> k < ?a + length data")
      case True
      with wroteD(6) [OF W r, of k] nz [of k] k show ?thesis
        by (simp add: disk_image_def overwrite_def d' se)
    next
      case False
      then have "byte_at ms fs' k = byte_at ?ms fs k" by (intro wroteD(5) [OF W]) auto
      with False k show ?thesis by (auto simp: disk_image_def overwrite_def d' se)
    qed
  qed (simp add: d' se overwrite_def)
  then show ?thesis
    using wroteD(1) [OF W] wroteD(8) [OF W] wroteD(9) [OF W] by (simp add: d' se disk_wf_def)
qed

lemma write_piece_durable:
  assumes "disk_wf d fs" "write_piece wr i data d fs = (Inr (), d', fs')"
    "i * dk_piece_length d \<le> k" "k < i * dk_piece_length d + length data" "locate (dk_files d) k = Some j" "fm_open (dk_files d ! j)"
  shows "fm_dirty (dk_files d' ! j)"
proof -
  obtain ms where w: "write_loop wr (i * dk_piece_length d) data 0 (dk_files d) fs = (Inr (), ms, fs')" and d': "d' = d\<lparr>dk_files := ms\<rparr>"
    using assms(2) by (auto simp: write_piece_def split: prod.splits)
  from wroteD(7) [OF write_loop_spec [OF assms(1) [unfolded disk_wf_def] w]] assms(3-6) show ?thesis by (simp add: d')
qed

lemma read_piece_spec:
  assumes "disk_wf d fs" "read_piece rd i off len d fs = (r, fs')"
  shows "fs_cache fs' = fs_cache fs \<and> fs_stable fs' = fs_stable fs
    \<and> (\<forall>b. 0 < len \<longrightarrow> r = Inr b \<longrightarrow>
         b = slice (i * dk_piece_length d + off) (i * dk_piece_length d + off + len) (disk_image d fs)
         \<and> i * dk_piece_length d + off + len \<le> length (disk_image d fs))
    \<and> (reliable \<longrightarrow> i * dk_piece_length d + off + len \<le> length (disk_image d fs) \<longrightarrow> (\<exists>b. r = Inr b))"
proof -
  let ?a = "i * dk_piece_length d + off"
  have rl: "read_loop rd ?a len 0 (replicate len 0) (dk_files d) fs = (r, fs')"
    using assms(2) by (simp add: read_piece_def)
  have z: "\<forall>j. 0 \<le> j \<longrightarrow> j < len \<longrightarrow> replicate len (0 :: byte) ! j = 0" by simp
  have R0: "fs_cache fs' = fs_cache fs \<and> fs_stable fs' = fs_stable fs
     \<and> (\<forall>b. r = Inr b \<longrightarrow> length b = len \<and> (\<forall>j < len. b ! j = byte_at (dk_files d) fs (?a + j)))
     \<and> (0 < len \<longrightarrow> (\<exists>b. r = Inr b) \<longrightarrow> ?a + len \<le> disk_end 0 (dk_files d))
     \<and> (reliable \<longrightarrow> ?a + len \<le> disk_end 0 (dk_files d) \<longrightarrow> (\<exists>b. r = Inr b))"
    using read_loop_spec [OF assms(1) [unfolded disk_wf_def] rl length_replicate le0 z]
    unfolding less_nat_zero_code if_False .
  then have R: "fs_cache fs' = fs_cache fs" "fs_stable fs' = fs_stable fs"
    "\<And>b. r = Inr b \<Longrightarrow> length b = len" "\<And>b j. r = Inr b \<Longrightarrow> j < len \<Longrightarrow> b ! j = byte_at (dk_files d) fs (?a + j)"
    "\<And>b. 0 < len \<Longrightarrow> r = Inr b \<Longrightarrow> ?a + len \<le> disk_end 0 (dk_files d)"
    "reliable \<Longrightarrow> ?a + len \<le> disk_end 0 (dk_files d) \<Longrightarrow> \<exists>b. r = Inr b"
    by blast+
  have "b = slice ?a (?a + len) (disk_image d fs)" if "r = Inr b" "0 < len" for b
  proof (rule nth_equalityI)
    have le: "?a + len \<le> disk_end 0 (dk_files d)" using R(5) that by blast
    then show "length b = length (slice ?a (?a + len) (disk_image d fs))" using R(3) that by simp
    fix j assume "j < length b"
    then have "j < len" using R(3) that by simp
    with R(4) [OF that(1)] le show "b ! j = slice ?a (?a + len) (disk_image d fs) ! j"
      by (simp add: nth_slice disk_image_def)
  qed
  with R show ?thesis by auto
qed

lemma write_piece_frame:
  assumes "disk_wf d fs" "write_piece wr i data d fs = (r, d', fs')"
  shows "map strip (dk_files d') = map strip (dk_files d)"
    "j < length (dk_files d) \<Longrightarrow> fm_dirty (dk_files d ! j) \<Longrightarrow> fm_dirty (dk_files d' ! j)"
proof -
  obtain ms where w: "write_loop wr (i * dk_piece_length d) data 0 (dk_files d) fs = (r, ms, fs')" and d': "d' = d\<lparr>dk_files := ms\<rparr>"
    using assms(2) by (auto simp: write_piece_def split: prod.splits)
  note W = write_loop_spec [OF assms(1) [unfolded disk_wf_def] w]
  show "map strip (dk_files d') = map strip (dk_files d)" using wroteD(2) [OF W] by (simp add: d')
  show "j < length (dk_files d) \<Longrightarrow> fm_dirty (dk_files d ! j) \<Longrightarrow> fm_dirty (dk_files d' ! j)"
    using wroteD(4) [OF W] by (simp add: d')
qed

lemma writes_keep:
  "disk_wf d fs \<Longrightarrow> fold (\<lambda>(i, data) (d, fs). snd (write_piece wr i data d fs)) ws (d, fs) = (d', fs') \<Longrightarrow>
     disk_wf d' fs' \<and> map strip (dk_files d') = map strip (dk_files d)
     \<and> (\<forall>j < length (dk_files d). fm_dirty (dk_files d ! j) \<longrightarrow> fm_dirty (dk_files d' ! j))"
proof (induction ws arbitrary: d fs)
  case (Cons w ws)
  obtain i data where w: "w = (i, data)" by (cases w)
  obtain r d1 fs1 where e: "write_piece wr i data d fs = (r, d1, fs1)" by (metis prod_cases3)
  have wf: "disk_wf d1 fs1" using write_piece_spec [OF Cons.prems(1) e] by simp
  note f = write_piece_frame [OF Cons.prems(1) e]
  from Cons.IH [OF wf] Cons.prems(2) e f strip_eq(6) [OF f(1)] show ?case by (simp add: w)
qed simp

end

section \<open>Flushing\<close>

definition after_crash :: "filesystem \<Rightarrow> filesystem" where
  "after_crash fs = fs\<lparr>fs_cache := fs_stable fs\<rparr>"

lemma flush_loop_spec:
  "flush_loop env ms fs = (r, ms', fs') \<Longrightarrow>
     map strip ms' = map strip ms \<and> fs_cache fs' = fs_cache fs
     \<and> (\<forall>p. fs_stable fs' p = fs_stable fs p \<or> fs_stable fs' p = fs_cache fs p)
     \<and> (\<forall>i < length ms. fm_dirty (ms ! i) \<longrightarrow> fm_open (ms ! i) \<longrightarrow> \<not> fm_dirty (ms' ! i) \<longrightarrow>
          fs_stable fs' (fm_path (ms ! i)) = fs_cache fs (fm_path (ms ! i)))
     \<and> (r = Inr () \<longrightarrow> (\<forall>m \<in> set ms'. \<not> fm_dirty m))"
proof (induction env ms fs arbitrary: r ms' fs' rule: flush_loop.induct)
  case (1 env fs)
  then show ?case by simp
next
  case (2 env m ms fs)
  consider "\<not> fm_dirty m" | "fm_dirty m" "fm_open m" "call_fails env fs"
    | "fm_dirty m" "fm_open m" "\<not> call_fails env fs" | "fm_dirty m" "\<not> fm_open m" by blast
  then show ?case
  proof cases
    case 1
    obtain r1 ms1 fs1 where e: "flush_loop env ms fs = (r1, ms1, fs1)" by (metis prod_cases3)
    from "2.IH"(1) [OF 1 e] "2.prems" e 1 show ?thesis by (auto simp: All_less_Suc2)
  next
    case 2
    then show ?thesis using "2.prems" by (auto simp: All_less_Suc2)
  next
    case 3
    obtain r1 ms1 fs1 where e: "flush_loop env ms (sync (fm_path m) (call fs)) = (r1, ms1, fs1)" by (metis prod_cases3)
    from "2.IH"(2) [OF _ 3(2,3) e] "2.prems" e 3 show ?thesis
      by (auto simp: All_less_Suc2 strip_def split: if_splits)
  next
    case 4
    obtain r1 ms1 fs1 where e: "flush_loop env ms fs = (r1, ms1, fs1)" by (metis prod_cases3)
    from "2.IH"(3) [OF _ 4(2) e] "2.prems" e 4 show ?thesis by (auto simp: All_less_Suc2 strip_def)
  qed
qed

lemma flush_durable:
  assumes "flush env d fs = (Inr (), d', fs')" "j < length (dk_files d)" "fm_dirty (dk_files d ! j)" "fm_open (dk_files d ! j)"
  shows "contents (after_crash fs') (fm_path (dk_files d ! j)) = contents fs (fm_path (dk_files d ! j))"
proof -
  obtain ms where f: "flush_loop env (dk_files d) fs = (Inr (), ms, fs')"
    using assms(1) by (auto simp: flush_def split: prod.splits)
  note F = flush_loop_spec [OF f]
  have "length ms = length (dk_files d)" using F by (metis length_map)
  then have "\<not> fm_dirty (ms ! j)" using F assms(2) by simp
  with F assms(2-4) show ?thesis by (simp add: after_crash_def contents_def)
qed

section \<open>The interface of a disk\<close>

text \<open>\<open>AsyncDiskIO\<close>: what the coordinator holds as \<open>Box<dyn AsyncDiskIO>\<close>, with the state of the backend
  and of the filesystem as \<open>'d\<close>.\<close>

record 'd disk_ops =
  do_write :: "nat \<Rightarrow> bytes \<Rightarrow> 'd \<Rightarrow> (io_error + unit) \<times> 'd"
  do_read :: "nat \<Rightarrow> nat \<Rightarrow> nat \<Rightarrow> 'd \<Rightarrow> (io_error + bytes) \<times> 'd"
  do_flush :: "'d \<Rightarrow> (io_error + unit) \<times> 'd"
  do_set_selection :: "bool list \<Rightarrow> 'd \<Rightarrow> (io_error + unit) \<times> 'd"

definition std_ops :: "io_env \<Rightarrow> (disk \<times> filesystem) disk_ops" where
  "std_ops env = \<lparr>do_write = (\<lambda>i data (d, fs). std_write_piece env i data d fs),
     do_read = (\<lambda>i off len (d, fs). map_prod id (Pair d) (std_read_piece env i off len d fs)),
     do_flush = (\<lambda>(d, fs). flush env d fs),
     do_set_selection = (\<lambda>sel (d, fs). std_set_selection env sel d fs)\<rparr>"

definition uring_ops :: "io_env \<Rightarrow> (disk \<times> filesystem) disk_ops" where
  "uring_ops env = \<lparr>do_write = (\<lambda>i data (d, fs). uring_write_piece env i data d fs),
     do_read = (\<lambda>i off len (d, fs). map_prod id (Pair d) (uring_read_piece env i off len d fs)),
     do_flush = (\<lambda>(d, fs). flush env d fs),
     do_set_selection = (\<lambda>sel (d, fs). uring_set_selection env sel d fs)\<rparr>"

text \<open>\<open>DummyDisk\<close> of the coordinator: the place-holder while the state is moved.\<close>

definition dummy_ops :: "'d disk_ops" where
  "dummy_ops = \<lparr>do_write = (\<lambda>_ _ d. (Inr (), d)), do_read = (\<lambda>_ _ _ d. (Inr [], d)),
     do_flush = (\<lambda>d. (Inr (), d)), do_set_selection = (\<lambda>_ d. (Inr (), d))\<rparr>"

lemma std_ops_simps [simp]:
  "do_write (std_ops env) i data (d, fs) = write_piece (std_write env) i data d fs"
  "do_read (std_ops env) i off len (d, fs) = map_prod id (Pair d) (read_piece (std_read env) i off len d fs)"
  "do_flush (std_ops env) (d, fs) = flush env d fs"
  by (simp_all add: std_ops_def std_write_piece_def std_read_piece_def)

lemma uring_ops_simps [simp]:
  "do_write (uring_ops env) i data (d, fs) = write_piece (uring_write env) i data d fs"
  "do_read (uring_ops env) i off len (d, fs) = map_prod id (Pair d) (read_piece (uring_read env) i off len d fs)"
  "do_flush (uring_ops env) (d, fs) = flush env d fs"
  by (simp_all add: uring_ops_def uring_write_piece_def uring_read_piece_eq)

section \<open>Opening\<close>

definition opens :: "(path \<Rightarrow> nat \<Rightarrow> filesystem \<Rightarrow> (io_error + unit) \<times> filesystem) \<Rightarrow> bool" where
  "opens opn \<longleftrightarrow> (\<forall>p len fs u fs'. opn p len fs = (Inr u, fs') \<longrightarrow>
     length (contents fs' p) = len \<and> (length (contents fs p) = len \<longrightarrow> contents fs' p = contents fs p)
     \<and> (\<forall>q. q \<noteq> p \<longrightarrow> contents fs' q = contents fs q))"

lemma open_preallocated_opens: "opens (open_preallocated env)"
  unfolding opens_def open_preallocated_def Let_def
  by (auto simp: contents_def split: if_splits)

lemma uring_open_opens: "opens (uring_open env)"
  unfolding opens_def
proof (intro allI impI)
  fix p len fs u fs' assume u: "uring_open env p len fs = (Inr u, fs')"
  obtain r fs1 where r: "open_preallocated env p len fs = (r, fs1)" by fastforce
  with u have "r = Inr ()" "fs' = call fs1"
    by (auto simp: uring_open_def open_uring_def split: sum.splits if_splits)
  with r open_preallocated_opens [of env] show "length (contents fs' p) = len
      \<and> (length (contents fs p) = len \<longrightarrow> contents fs' p = contents fs p)
      \<and> (\<forall>q. q \<noteq> p \<longrightarrow> contents fs' q = contents fs q)"
    unfolding opens_def by (metis call_simps(3))
qed

definition mapping_of :: "file_plan \<Rightarrow> bool \<Rightarrow> file_mapping" where
  "mapping_of pl b = \<lparr>fm_path = fp_path pl, fm_open = b, fm_start = fp_start pl, fm_end = fp_end pl, fm_dirty = False\<rparr>"

lemma open_plans_spec:
  assumes "opens opn"
  shows "open_plans opn sel idx plans fs = (Inr ms, fs') \<Longrightarrow>
     ms = map (\<lambda>(i, pl). mapping_of pl (is_selected sel i)) (enumerate idx plans)
     \<and> (\<forall>q. q \<notin> fp_path ` set plans \<longrightarrow> contents fs' q = contents fs q)
     \<and> (distinct (map fp_path plans) \<longrightarrow> sized ms fs'
         \<and> (\<forall>pl \<in> set plans. length (contents fs (fp_path pl)) = fp_end pl - fp_start pl \<longrightarrow>
              contents fs' (fp_path pl) = contents fs (fp_path pl)))"
proof (induction plans arbitrary: idx fs ms fs')
  case Nil
  then show ?case by (simp add: sized_def)
next
  case (Cons pl plans)
  obtain fs1 where fs1: "open_plans opn sel (Suc idx) plans fs1 = (Inr (tl ms), fs')"
    "ms = mapping_of pl (is_selected sel idx) # tl ms"
    "is_selected sel idx \<Longrightarrow> opn (fp_path pl) (fp_end pl - fp_start pl) fs = (Inr (), fs1)"
    "\<not> is_selected sel idx \<Longrightarrow> fs1 = fs"
    using Cons.prems by (auto simp: mapping_of_def split: if_splits sum.splits prod.splits)
  note IH = Cons.IH [OF fs1(1)]
  have o: "\<forall>q. q \<noteq> fp_path pl \<longrightarrow> contents fs1 q = contents fs q"
    "is_selected sel idx \<Longrightarrow> length (contents fs1 (fp_path pl)) = fp_end pl - fp_start pl"
    "length (contents fs (fp_path pl)) = fp_end pl - fp_start pl \<Longrightarrow> contents fs1 (fp_path pl) = contents fs (fp_path pl)"
    using assms fs1(3,4) unfolding opens_def by (cases "is_selected sel idx"; metis)+
  have ms: "ms = map (\<lambda>(i, pl). mapping_of pl (is_selected sel i)) (enumerate idx (pl # plans))"
    using fs1(2) IH by (metis (no_types, lifting) case_prod_conv enumerate_simps(2) list.simps(9))
  have q: "\<forall>q. q \<notin> fp_path ` set (pl # plans) \<longrightarrow> contents fs' q = contents fs q" using IH o(1) by simp
  have "sized ms fs' \<and> (\<forall>p \<in> set (pl # plans). length (contents fs (fp_path p)) = fp_end p - fp_start p \<longrightarrow>
          contents fs' (fp_path p) = contents fs (fp_path p))" if d: "distinct (map fp_path (pl # plans))"
  proof -
    have np: "fp_path pl \<notin> fp_path ` set plans" using d by simp
    then have e: "contents fs' (fp_path pl) = contents fs1 (fp_path pl)" using IH by simp
    have "sized [mapping_of pl (is_selected sel idx)] fs'"
      using o(2) e by (simp add: sized_def mapping_of_def)
    moreover have "distinct (map fp_path plans)" using d by simp
    then have "sized (tl ms) fs'" using IH by blast
    ultimately have "sized (mapping_of pl (is_selected sel idx) # tl ms) fs'" by (simp add: sized_def)
    then have "sized ms fs'" using fs1(2) by simp
    moreover have "contents fs' (fp_path p) = contents fs (fp_path p)"
      if "p \<in> set plans" "length (contents fs (fp_path p)) = fp_end p - fp_start p" for p
    proof -
      have "contents fs1 (fp_path p) = contents fs (fp_path p)" using np that(1) o(1) by (metis image_eqI)
      with IH d that show ?thesis by simp
    qed
    ultimately show ?thesis using e o(3) by simp
  qed
  with ms q show ?case by blast
qed

lemma plan_files_loop_spec:
  "plan_files_loop win base name multi off files = Inr plans \<Longrightarrow> off + sum_list (map tf_length files) < 2 ^ 64 \<Longrightarrow>
     length plans = length files
     \<and> chained off (map (\<lambda>(i, pl). mapping_of pl (f i)) (enumerate n plans))
     \<and> disk_end off (map (\<lambda>(i, pl). mapping_of pl (f i)) (enumerate n plans)) = off + sum_list (map tf_length files)
     \<and> list_all2 (\<lambda>pl t. build_file_path win base name multi (tf_path t) = Inr (fp_path pl)
          \<and> fp_end pl - fp_start pl = tf_length t) plans files"
proof (induction files arbitrary: off plans n)
  case Nil
  then show ?case by (simp add: disk_end_def)
next
  case (Cons t files)
  obtain path plans' where p: "build_file_path win base name multi (tf_path t) = Inr path"
    "plan_files_loop win base name multi (off + tf_length t) files = Inr plans'"
    "plans = \<lparr>fp_path = path, fp_start = off, fp_end = off + tf_length t\<rparr> # plans'"
    using Cons.prems by (auto split: sum.splits)
  have "off + tf_length t + sum_list (map tf_length files) < 2 ^ 64" using Cons.prems(2) by simp
  from Cons.IH [OF p(2) this, of "Suc n"] p(1,3) show ?case
    by (auto simp: mapping_of_def disk_end_def split: if_splits)
qed

lemma enumerate_nth_mapping:
  "i < length plans \<Longrightarrow> map (\<lambda>(i, pl). mapping_of pl (f i)) (enumerate n plans) ! i = mapping_of (plans ! i) (f (n + i))"
  by (simp add: nth_enumerate_eq)

lemma init_spec:
  assumes "opens opn" "init_with_selection opn env win base tot pl files_meta name sel fs = (Inr d, fs')"
    "files = (case files_meta of Some ts \<Rightarrow> ts | None \<Rightarrow> [\<lparr>tf_length = tot, tf_path = [name]\<rparr>])"
    "sum_list (map tf_length files) < 2 ^ 64"
    "distinct (map (\<lambda>t. build_file_path win base name (files_meta \<noteq> None) (tf_path t)) files)"
  shows "disk_wf d fs' \<and> length (disk_image d fs') = sum_list (map tf_length files) \<and> dk_piece_length d = pl
    \<and> length (dk_files d) = length files
    \<and> (\<forall>i < length files. fm_open (dk_files d ! i) = is_selected sel i \<and> \<not> fm_dirty (dk_files d ! i)
        \<and> build_file_path win base name (files_meta \<noteq> None) (tf_path (files ! i)) = Inr (fm_path (dk_files d ! i))
        \<and> fm_end (dk_files d ! i) - fm_start (dk_files d ! i) = tf_length (files ! i)
        \<and> (length (contents fs (fm_path (dk_files d ! i))) = tf_length (files ! i) \<longrightarrow>
             contents fs' (fm_path (dk_files d ! i)) = contents fs (fm_path (dk_files d ! i))))"
proof -
  obtain plans ms where p: "plan_files_loop win base name (files_meta \<noteq> None) 0 files = Inr plans"
    and o: "open_plans opn sel 0 plans (call fs) = (Inr ms, fs')" and d: "d = \<lparr>dk_files = ms, dk_piece_length = pl\<rparr>"
    using assms(2,3) by (auto simp: init_with_selection_def plan_files_def Let_def split: if_splits sum.splits prod.splits)
  note P = plan_files_loop_spec [OF p, of "is_selected sel" 0, simplified add_0, OF assms(4)]
  note O = open_plans_spec [OF assms(1) o]
  have l: "length plans = length files" using P by simp
  have paths: "build_file_path win base name (files_meta \<noteq> None) (tf_path (files ! i)) = Inr (fp_path (plans ! i))"
    "fp_end (plans ! i) - fp_start (plans ! i) = tf_length (files ! i)" if "i < length files" for i
    using P that l by (auto simp: list_all2_conv_all_nth)
  have dis: "distinct (map fp_path plans)"
    unfolding distinct_conv_nth
  proof (intro allI impI)
    fix i j assume ij: "i < length (map fp_path plans)" "j < length (map fp_path plans)" "i \<noteq> j"
    then show "map fp_path plans ! i \<noteq> map fp_path plans ! j"
      using assms(5) paths(1) [of i] paths(1) [of j] l unfolding distinct_conv_nth by fastforce
  qed
  have ms: "ms ! i = mapping_of (plans ! i) (is_selected sel i)" if "i < length files" for i
    using O enumerate_nth_mapping [of i plans "is_selected sel" 0] that l by simp
  have lm: "length ms = length files" using O l by simp
  have "paths_distinct ms" unfolding paths_distinct_def
    using dis l lm ms by (auto simp: mapping_of_def distinct_conv_nth)
  moreover have "sized ms fs'" "chained 0 ms" "disk_end 0 ms = sum_list (map tf_length files)"
    using O dis P by blast+
  ultimately have wf: "disk_wf d fs'" "disk_end 0 ms = sum_list (map tf_length files)"
    by (simp_all add: disk_wf_def layout_ok_def d)
  have keep: "contents fs' (fp_path (plans ! i)) = contents fs (fp_path (plans ! i))"
    if "i < length files" "length (contents fs (fp_path (plans ! i))) = tf_length (files ! i)" for i
    using O dis that l paths(2) [OF that(1)] by (metis call_simps(3) nth_mem)
  show ?thesis using wf lm l ms paths keep by (simp add: d mapping_of_def)
qed

section \<open>Properties\<close>

definition demo_fs :: filesystem where
  "demo_fs = \<lparr>fs_cache = [[[1]] \<mapsto> [10, 11, 12], [[2]] \<mapsto> [20, 21, 22]], fs_stable = (\<lambda>_. None), fs_calls = 0\<rparr>"

definition demo_disk :: disk where
  "demo_disk = \<lparr>dk_files = [\<lparr>fm_path = [[1]], fm_open = True, fm_start = 0, fm_end = 3, fm_dirty = False\<rparr>,
      \<lparr>fm_path = [[2]], fm_open = True, fm_start = 3, fm_end = 6, fm_dirty = False\<rparr>], dk_piece_length = 4\<rparr>"

lemma demo_wf: "disk_wf demo_disk demo_fs"
  by (auto simp: disk_wf_def layout_ok_def demo_disk_def demo_fs_def paths_distinct_def sized_def contents_def
      less_Suc_eq numeral_2_eq_2)

lemma no_faults_reliable: "env_reliable no_faults"
  by (simp add: env_reliable_def no_faults_def)

text \<open>C9. Both storage backends refine one flat byte string. For every pattern of failing and short I/O calls,
  and for the standard backend as long as none of its unflushed writes is lost without an error: a write that
  reports success has replaced the bytes of the piece, wherever file boundaries fall, except in files
  that are not downloaded, and has changed nothing else; a write, successful or not, keeps the layout.
  Without faults every write inside the torrent succeeds.\<close>

theorem disk_write_refines:
  assumes "ops = std_ops env \<and> reports_writes env \<or> ops = uring_ops env" "disk_wf d fs" "do_write ops i data (d, fs) = (r, d', fs')"
  shows "disk_wf d' fs' \<and> length (disk_image d' fs') = length (disk_image d fs)
    \<and> (r = Inr () \<longrightarrow>
        disk_image d' fs' = overwrite (stored (dk_files d)) (i * dk_piece_length d) data (disk_image d fs))
    \<and> (env_reliable env \<longrightarrow> i * dk_piece_length d + length data \<le> length (disk_image d fs) \<longrightarrow> r = Inr ())"
  using assms(1)
proof
  assume "ops = std_ops env \<and> reports_writes env"
  with assms(3) have "write_piece (std_write (reporting env)) i data d fs = (r, d', fs')" by (simp add: reporting_eq)
  from std.write_piece_spec [OF assms(2) this] show ?thesis by blast
next
  assume "ops = uring_ops env"
  with assms(3) have "write_piece (uring_write env) i data d fs = (r, d', fs')" by simp
  from uring.write_piece_spec [OF assms(2) this] show ?thesis by blast
qed

theorem disk_write_refines_witness:
  "\<exists>d' fs'. do_write (uring_ops no_faults) 0 [1, 2, 3, 4] (demo_disk, demo_fs) = (Inr (), d', fs')
     \<and> disk_image d' fs' = overwrite (stored (dk_files demo_disk)) 0 [1, 2, 3, 4] (disk_image demo_disk demo_fs)"
proof -
  obtain r d' fs' where w: "do_write (uring_ops no_faults) 0 [1, 2, 3, 4] (demo_disk, demo_fs) = (r, d', fs')"
    by (metis prod_cases3)
  have "length (disk_image demo_disk demo_fs) = 6" by (simp add: demo_disk_def disk_end_def)
  with disk_write_refines [OF disjI2 [OF refl] demo_wf w] no_faults_reliable w show ?thesis by auto
qed

text \<open>C10. A read that reports success returns exactly the requested bytes of this byte string and changes
  nothing on disk; reading beyond the end is refused, and without faults every read inside it succeeds.\<close>

theorem disk_read_refines:
  assumes "ops = std_ops env \<or> ops = uring_ops env" "disk_wf d fs" "0 < len"
    "do_read ops i off len (d, fs) = (r, d', fs')" "a = i * dk_piece_length d + off"
  shows "d' = d \<and> fs_cache fs' = fs_cache fs \<and> fs_stable fs' = fs_stable fs
    \<and> (\<forall>b. r = Inr b \<longrightarrow> a + len \<le> length (disk_image d fs) \<and> b = slice a (a + len) (disk_image d fs))
    \<and> (env_reliable env \<longrightarrow> a + len \<le> length (disk_image d fs) \<longrightarrow> (\<exists>b. r = Inr b))"
  using assms(1)
proof
  assume o: "ops = std_ops env"
  then have "read_piece (std_read env) i off len d fs = (r, fs')" "d' = d"
    using assms(4) by (cases "read_piece (std_read env) i off len d fs"; simp)+
  with std.read_piece_spec [OF assms(2) this(1)] assms(3,5) show ?thesis by auto
next
  assume o: "ops = uring_ops env"
  then have "read_piece (uring_read env) i off len d fs = (r, fs')" "d' = d"
    using assms(4) by (cases "read_piece (uring_read env) i off len d fs"; simp)+
  with uring.read_piece_spec [OF assms(2) this(1)] assms(3,5) show ?thesis by auto
qed

theorem disk_read_refines_witness:
  "\<exists>b fs'. do_read (std_ops no_faults) 0 2 3 (demo_disk, demo_fs) = (Inr b, demo_disk, fs')
     \<and> b = slice 2 5 (disk_image demo_disk demo_fs)"
proof -
  obtain r d' fs' where w: "do_read (std_ops no_faults) 0 2 3 (demo_disk, demo_fs) = (r, d', fs')"
    by (metis prod_cases3)
  have "length (disk_image demo_disk demo_fs) = 6" by (simp add: demo_disk_def disk_end_def)
  with disk_read_refines [OF disjI1 [OF refl] demo_wf _ w refl] no_faults_reliable
  have "d' = demo_disk \<and> r = Inr (slice 2 5 (disk_image demo_disk demo_fs))" by (auto simp: numeral_2_eq_2)
  with w show ?thesis by simp
qed

text \<open>Data is durable once a flush has succeeded: when a piece was written successfully, any further
  writes followed (successful or not) and then \<open>flush\<close> reported success, every stored byte of the piece has,
  after a crash, the value it had before the flush.\<close>

theorem flush_makes_durable:
  assumes "wr = std_write env \<and> reports_writes env \<or> wr = uring_write env" "disk_wf d fs"
    "write_piece wr i data d fs = (Inr (), d1, fs1)"
    "fold (\<lambda>(i, data) (d, fs). snd (write_piece wr i data d fs)) ws (d1, fs1) = (d2, fs2)"
    "flush env d2 fs2 = (Inr (), d3, fs3)"
    "i * dk_piece_length d \<le> k" "k < i * dk_piece_length d + length data" "stored (dk_files d) k"
  shows "byte_at (dk_files d3) (after_crash fs3) k = byte_at (dk_files d2) fs2 k"
proof -
  have wr: "wr = std_write (reporting env) \<or> wr = uring_write env" using assms(1) reporting_eq [of env] by auto
  obtain j where j: "locate (dk_files d) k = Some j" "fm_open (dk_files d ! j)"
    using assms(8) by (auto simp: stored_def split: option.splits)
  note lj = locate_SomeD(1) [OF j(1)]
  have a: "map strip (dk_files d1) = map strip (dk_files d) \<and> disk_wf d1 fs1 \<and> fm_dirty (dk_files d1 ! j)"
    using wr
    by (elim disjE; metis assms(2,3,6,7) j std.write_piece_frame(1) std.write_piece_spec std.write_piece_durable
        uring.write_piece_frame(1) uring.write_piece_spec uring.write_piece_durable)
  note s1 = strip_eq [OF a [THEN conjunct1]]
  have b: "map strip (dk_files d2) = map strip (dk_files d1) \<and> fm_dirty (dk_files d2 ! j)"
    using wr std.writes_keep [of d1 fs1 env ws d2 fs2] uring.writes_keep [of d1 fs1 env ws d2 fs2] assms(4) a lj s1(6)
    by auto
  note s2 = strip_eq [OF b [THEN conjunct1]]
  obtain ms where f: "flush_loop env (dk_files d2) fs2 = (Inr (), ms, fs3)" "d3 = d2\<lparr>dk_files := ms\<rparr>"
    using assms(5) by (auto simp: flush_def split: prod.splits)
  note s3 = strip_eq [OF flush_loop_spec [OF f(1), THEN conjunct1]]
  have j2: "locate (dk_files d2) k = Some j" "fm_open (dk_files d2 ! j)" "j < length (dk_files d2)"
    using j lj s1 s2 by simp_all
  from flush_durable [OF assms(5) j2(3) _ j2(2)] b j2 show ?thesis
    by (simp add: byte_at_def f(2) s3)
qed

theorem flush_makes_durable_witness:
  "byte_at (dk_files (fst (snd (flush no_faults (fst (snd (write_piece (std_write no_faults) 1 [7, 8] demo_disk demo_fs)))
       (snd (snd (write_piece (std_write no_faults) 1 [7, 8] demo_disk demo_fs)))))))
     (after_crash (snd (snd (flush no_faults (fst (snd (write_piece (std_write no_faults) 1 [7, 8] demo_disk demo_fs)))
       (snd (snd (write_piece (std_write no_faults) 1 [7, 8] demo_disk demo_fs))))))) 4
   = byte_at (dk_files (fst (snd (write_piece (std_write no_faults) 1 [7, 8] demo_disk demo_fs))))
       (snd (snd (write_piece (std_write no_faults) 1 [7, 8] demo_disk demo_fs))) 4"
proof -
  obtain r d1 fs1 where w: "write_piece (std_write no_faults) 1 [7, 8] demo_disk demo_fs = (r, d1, fs1)"
    by (metis prod_cases3)
  have "length (disk_image demo_disk demo_fs) = 6" by (simp add: demo_disk_def disk_end_def)
  then have r: "r = Inr ()"
    using std.write_piece_spec [of demo_disk demo_fs no_faults 1 "[7, 8]" r d1 fs1] w demo_wf no_faults_reliable
    by (simp add: reporting_eq demo_disk_def)
  obtain q d3 fs3 where f: "flush no_faults d1 fs1 = (q, d3, fs3)" by (metis prod_cases3)
  have live: "fst (flush_loop no_faults ms fs) = Inr ()" for ms fs
    by (induction no_faults ms fs rule: flush_loop.induct)
      (auto simp: call_fails_def no_faults_def split: prod.splits)
  have q: "q = Inr ()" using f live [of "dk_files d1" fs1] by (auto simp: flush_def split: prod.splits)
  have st: "stored (dk_files demo_disk) 4" by (simp add: stored_def locate_def demo_disk_def)
  have "1 * dk_piece_length demo_disk \<le> 4" "4 < 1 * dk_piece_length demo_disk + length [7, 8 :: 8 word]"
    by (simp_all add: demo_disk_def)
  from flush_makes_durable [OF disjI1 [OF conjI [OF refl reporting_simps(6)]] demo_wf w [unfolded r] _ f [unfolded q] this st, of "[]"]
  show ?thesis unfolding w r f q by (simp add: f q)
qed

text \<open>Opening a torrent gives a well-formed disk of the torrent's size with exactly the selected files
  open, each at the path built for it, and keeps the contents of a file that already has its length (which
  is what a resumed download relies on), provided the paths of the files differ.\<close>

theorem init_opens_disk:
  assumes "opn = open_preallocated env \<or> opn = uring_open env"
    "init_with_selection opn env win base tot pl files_meta name sel fs = (Inr d, fs')"
    "files = (case files_meta of Some ts \<Rightarrow> ts | None \<Rightarrow> [\<lparr>tf_length = tot, tf_path = [name]\<rparr>])"
    "sum_list (map tf_length files) < 2 ^ 64"
    "distinct (map (\<lambda>t. build_file_path win base name (files_meta \<noteq> None) (tf_path t)) files)"
  shows "disk_wf d fs' \<and> length (disk_image d fs') = sum_list (map tf_length files)
    \<and> length (dk_files d) = length files
    \<and> (\<forall>i < length files. fm_open (dk_files d ! i) = is_selected sel i
        \<and> build_file_path win base name (files_meta \<noteq> None) (tf_path (files ! i)) = Inr (fm_path (dk_files d ! i))
        \<and> (length (contents fs (fm_path (dk_files d ! i))) = tf_length (files ! i) \<longrightarrow>
             contents fs' (fm_path (dk_files d ! i)) = contents fs (fm_path (dk_files d ! i))))"
proof -
  have "opens opn" using assms(1) open_preallocated_opens uring_open_opens by auto
  from init_spec [OF this assms(2-5)] show ?thesis by simp
qed

theorem init_opens_disk_witness:
  "\<exists>d fs'. init_with_selection (open_preallocated no_faults) no_faults False [] 3 2 None (lit ''a'') None fs_empty = (Inr d, fs')
     \<and> disk_wf d fs' \<and> length (disk_image d fs') = 3"
proof -
  have p: "build_file_path False [] (lit ''a'') False [lit ''a''] = Inr [lit ''a'']" by code_simp
  obtain d fs' where i: "init_with_selection (open_preallocated no_faults) no_faults False [] 3 2 None (lit ''a'') None fs_empty = (Inr d, fs')"
  proof -
    have nf: "\<not> call_fails no_faults fs" for fs by (simp add: call_fails_def no_faults_def)
    then have "\<exists>fs'. open_preallocated no_faults q len fs = (Inr (), fs')" for q len fs
      by (simp add: open_preallocated_def Let_def)
    then obtain fs1 where "open_preallocated no_faults [lit ''a''] 3 (call fs_empty) = (Inr (), fs1)" by blast
    with that show thesis by (simp add: init_with_selection_def plan_files_def p nf is_selected_def)
  qed
  from init_opens_disk [OF disjI1 [OF refl] i refl] i show ?thesis by simp
qed

text \<open>C19. A change of selection whose sync fails loses data silently (both backends take the handle out of
  the mapping before they sync it): \<open>set_selection\<close> reports an error, but from then on every write to the
  file reports success and stores nothing, and a flush succeeds.\<close>

theorem failed_deselect_discards_writes:
  assumes "call_fails env fs" "fm_open m" "fm_start m = 0"
    "d = \<lparr>dk_files = [m], dk_piece_length = pl\<rparr>" "std_set_selection env [False] d fs = (r, d', fs')"
    "i * pl + length data \<le> fm_end m"
  shows "r = Inl IoFailed \<and> fst (std_write_piece env i data d' fs') = Inr ()
    \<and> snd (snd (std_write_piece env i data d' fs')) = fs' \<and> fst (flush env d' fs') = Inr ()"
proof -
  have d': "r = Inl IoFailed" "d' = \<lparr>dk_files = [m\<lparr>fm_open := False\<rparr>], dk_piece_length = pl\<rparr>"
    using assms by (auto simp: std_set_selection_def set_selection_def is_selected_def)
  have "write_loop wr (i * pl) data w [m\<lparr>fm_open := False\<rparr>] f = (Inr (), [m\<lparr>fm_open := False\<rparr>], f)" for wr w f
  proof (induction "length data - w" arbitrary: w rule: less_induct)
    case less
    show ?case
    proof (cases "w < length data")
      case True
      then have l: "locate [m\<lparr>fm_open := False\<rparr>] (i * pl + w) = Some 0"
        using assms(3,6) by (simp add: locate_def)
      define n where "n = min (length data - w) (fm_end m - (i * pl + w))"
      have "length data - (w + n) < length data - w" using True assms(6) by (simp add: n_def)
      from less.hyps [OF this] True l show ?thesis
        by (subst write_loop.simps) (simp add: Let_def n_def)
    qed (simp add: write_loop.simps)
  qed
  with d' show ?thesis by (simp add: std_write_piece_def write_piece_def flush_def)
qed

definition faulty_env :: io_env where
  "faulty_env = \<lparr>env_fails = (\<lambda>n. n = 0), env_amount = (\<lambda>_. 1), env_lost = (\<lambda>_. None), env_renamed = (\<lambda>_. True)\<rparr>"

definition one_file :: file_mapping where
  "one_file = \<lparr>fm_path = [], fm_open = True, fm_start = 0, fm_end = 2, fm_dirty = True\<rparr>"

theorem failed_deselect_discards_writes_witness:
  "\<exists>d' fs'. std_set_selection faulty_env [False] \<lparr>dk_files = [one_file], dk_piece_length = 2\<rparr> fs_empty
       = (Inl IoFailed, d', fs')
     \<and> fst (std_write_piece faulty_env 0 [1, 2] d' fs') = Inr ()
     \<and> snd (snd (std_write_piece faulty_env 0 [1, 2] d' fs')) = fs'"
proof -
  obtain r d' fs' where e: "std_set_selection faulty_env [False] \<lparr>dk_files = [one_file], dk_piece_length = 2\<rparr> fs_empty
      = (r, d', fs')" by (metis prod_cases3)
  have "call_fails faulty_env fs_empty" "fm_open one_file" "fm_start one_file = 0"
    "0 * 2 + length [1, 2 :: 8 word] \<le> fm_end one_file"
    by (simp_all add: call_fails_def faulty_env_def fs_empty_def one_file_def)
  from failed_deselect_discards_writes [OF this(1-3) refl e this(4)] e show ?thesis by blast
qed

end
