(* ===== verification/Resume.thy ===== *)
theory Resume
  imports Manager Filesystem
begin

text \<open>
  Persistence: crash-safe replacement of a file (\<open>core/fsutil.rs\<close>), the fast-resume record of a torrent
  (\<open>core/resume.rs\<close>) and the session list (\<open>core/session_store.rs\<close>). The JSON codec of \<open>serde_json\<close> is a
  parameter. A rename may be lost in a crash. The per-user directories of the \<open>dirs\<close> crate are parameters too.
\<close>

section \<open>Atomic replacement of a file\<close>

definition tmp_sibling :: "path \<Rightarrow> path" where
  "tmp_sibling p = (if p = [] then [lit ''.tmp''] else butlast p @ [last p @ lit ''.tmp''])"

text \<open>\<open>rename\<close> replaces one name by another at once for every reader; the directory is not synced afterwards, so
  a crash may still find the old names.\<close>

definition fs_rename :: "io_env \<Rightarrow> path \<Rightarrow> path \<Rightarrow> filesystem \<Rightarrow> filesystem" where
  "fs_rename env a b fs = (call fs)\<lparr>fs_cache := (fs_cache fs)(b := fs_cache fs a, a := None),
     fs_stable := (if env_renamed env (fs_calls fs) then (fs_stable fs)(b := fs_stable fs a, a := None) else fs_stable fs)\<rparr>"

definition fs_remove :: "path \<Rightarrow> filesystem \<Rightarrow> filesystem" where
  "fs_remove p fs = fs\<lparr>fs_cache := (fs_cache fs)(p := None), fs_stable := (fs_stable fs)(p := None)\<rparr>"

text \<open>The closure: create, write, sync, rename. Beside the result the states between the calls are
  returned, at which a crash may strike.\<close>

definition write_tmp ::
  "io_env \<Rightarrow> path \<Rightarrow> path \<Rightarrow> bytes \<Rightarrow> filesystem \<Rightarrow> (io_error + unit) \<times> filesystem list" where
  "write_tmp env tmp p data fs0 =
     (if call_fails env fs0 then (Inl IoFailed, [call fs0])
      else let fs1 = (call fs0)\<lparr>fs_cache := (fs_cache fs0)(tmp \<mapsto> [])\<rparr> in
        if call_fails env fs1
        then (Inl IoFailed, [fs1, put tmp 0 (take (env_amount env (fs_calls fs1)) data) (call fs1)])
        else let fs2 = put tmp 0 data (call fs1) in
          if call_fails env fs2 then (Inl IoFailed, [fs1, fs2, call fs2])
          else let fs3 = sync tmp (call fs2) in
            if call_fails env fs3 then (Inl IoFailed, [fs1, fs2, fs3, call fs3])
            else (Inr (), [fs1, fs2, fs3, fs_rename env tmp p fs3]))"

text \<open>The whole function: the directories first, and the temporary file removed after a failure. The last
  state of the list is the one it leaves.\<close>

definition atomic_write ::
  "io_env \<Rightarrow> path \<Rightarrow> bytes \<Rightarrow> filesystem \<Rightarrow> (io_error + unit) \<times> filesystem list" where
  "atomic_write env p data fs =
     (let has_parent = length p > 1;
          fs0 = (if has_parent then call fs else fs)
      in if has_parent \<and> call_fails env fs then (Inl IoFailed, [fs0])
         else let (r, trace) = write_tmp env (tmp_sibling p) p data fs0 in
           case r of
             Inr u \<Rightarrow> (Inr u, fs0 # trace)
           | Inl e \<Rightarrow>
               let fs' = last trace;
                   fs'' = (if call_fails env fs' then call fs' else fs_remove (tmp_sibling p) (call fs'))
               in (Inl e, fs0 # trace @ [fs'']))"

lemma tmp_sibling_neq [simp]: "tmp_sibling p \<noteq> p" "p \<noteq> tmp_sibling p"
proof -
  show "tmp_sibling p \<noteq> p"
  proof (cases "p = []")
    case False
    then have "length (last (tmp_sibling p)) = length (last p) + 4" by (simp add: tmp_sibling_def lit_def)
    then show ?thesis by auto
  qed (simp add: tmp_sibling_def)
  then show "p \<noteq> tmp_sibling p" by metis
qed

lemma write_at_empty: "write_at 0 data [] = data"
  by (simp add: write_at_def)

lemma write_tmp_spec:
  assumes "write_tmp env tmp p data fs0 = (r, trace)" "tmp \<noteq> p"
  shows "trace \<noteq> [] \<and> (\<forall>s \<in> set trace. (fs_stable s p = fs_stable fs0 p \<and> fs_cache s p = fs_cache fs0 p)
            \<or> (s = last trace \<and> fs_stable s p \<in> {fs_stable fs0 p, Some data} \<and> fs_cache s p = Some data))
    \<and> (r = Inr () \<longrightarrow> fs_cache (last trace) p = Some data)
    \<and> (r \<noteq> Inr () \<longrightarrow> (\<forall>s \<in> set trace. fs_stable s p = fs_stable fs0 p \<and> fs_cache s p = fs_cache fs0 p))
    \<and> (\<forall>s \<in> set trace. \<forall>q. q \<noteq> p \<longrightarrow> q \<noteq> tmp \<longrightarrow> fs_stable s q = fs_stable fs0 q \<and> fs_cache s q = fs_cache fs0 q)"
  using assms unfolding write_tmp_def Let_def
  by (auto simp: call_def put_def sync_def fs_rename_def contents_def write_at_empty split: if_splits)

section \<open>Fast resume\<close>

definition RESUME_MAGIC :: bytes where "RESUME_MAGIC = [84, 84, 82, 83]"
definition FORMAT_VERSION :: nat where "FORMAT_VERSION = 2"
definition HEADER_LEN :: nat where "HEADER_LEN = 4 + 1 + 4"
definition MAX_PIECES :: nat where "MAX_PIECES = 16 * 1024 * 1024"

record fast_resume_state =
  fr_version :: nat
  fr_total_pieces :: nat
  fr_completed :: "nat list"

datatype resume_error =
    ResumeTruncated
  | ResumeVersion nat
  | ResumeTooManyPieces nat
  | ResumeBitfield
  | ResumeJson
  | ResumeIo

definition fr_from_manager :: "torrent_manager \<Rightarrow> fast_resume_state" where
  "fr_from_manager m = \<lparr>fr_version = FORMAT_VERSION, fr_total_pieces = mgr_total_pieces m,
                        fr_completed = completed_pieces m\<rparr>"

definition fr_into_manager :: "nat \<Rightarrow> fast_resume_state \<Rightarrow> torrent_manager" where
  "fr_into_manager fallback_total_pieces s =
     from_completed (if fr_total_pieces s = fallback_total_pieces then fr_total_pieces s else fallback_total_pieces)
       (fr_completed s)"

definition fr_encode :: "fast_resume_state \<Rightarrow> bytes" where
  "fr_encode s = RESUME_MAGIC @ [word_of_nat FORMAT_VERSION] @ le_bytes 4 (fr_total_pieces s)
     @ bf_bytes (bf_from_indices (fr_total_pieces s) (fr_completed s))"

definition fr_decode :: "(bytes \<Rightarrow> fast_resume_state option) \<Rightarrow> bytes \<Rightarrow> resume_error + fast_resume_state" where
  "fr_decode from_json bs =
     (if starts_with bs RESUME_MAGIC then
        if length bs < HEADER_LEN then Inl ResumeTruncated
        else if unat (bs ! 4) \<noteq> FORMAT_VERSION then Inl (ResumeVersion (unat (bs ! 4)))
        else let total_pieces = le_val (slice 5 9 bs) in
          if total_pieces > MAX_PIECES then Inl (ResumeTooManyPieces total_pieces)
          else case bf_from_wire total_pieces (drop HEADER_LEN bs) of
            None \<Rightarrow> Inl ResumeBitfield
          | Some b \<Rightarrow> Inr \<lparr>fr_version = FORMAT_VERSION, fr_total_pieces = total_pieces,
                           fr_completed = bf_iter_ones b\<rparr>
      else ok_or (from_json bs) ResumeJson)"

definition load_fastresume ::
  "(bytes \<Rightarrow> fast_resume_state option) \<Rightarrow> io_env \<Rightarrow> path \<Rightarrow> filesystem
   \<Rightarrow> (resume_error + fast_resume_state option) \<times> filesystem" where
  "load_fastresume from_json env p fs =
     (if call_fails env fs then (Inl ResumeIo, call fs)
      else case fs_cache fs p of
        None \<Rightarrow> (Inr None, call fs)
      | Some bs \<Rightarrow> (bind_result (fr_decode from_json bs) (\<lambda>s. Inr (Some s)), call fs))"

definition save_fastresume ::
  "io_env \<Rightarrow> path \<Rightarrow> fast_resume_state \<Rightarrow> filesystem \<Rightarrow> (io_error + unit) \<times> filesystem list" where
  "save_fastresume env p s fs = atomic_write env p (fr_encode s) fs"

lemma magic_prefix: "starts_with (RESUME_MAGIC @ xs) RESUME_MAGIC"
  by simp

lemma fr_encode_parts:
  "starts_with (fr_encode s) RESUME_MAGIC" "fr_encode s ! 4 = 2" "slice 5 9 (fr_encode s) = le_bytes 4 (fr_total_pieces s)"
  "drop HEADER_LEN (fr_encode s) = bf_bytes (bf_from_indices (fr_total_pieces s) (fr_completed s))"
  "HEADER_LEN \<le> length (fr_encode s)"
  by (simp_all add: fr_encode_def RESUME_MAGIC_def FORMAT_VERSION_def HEADER_LEN_def slice_def starts_with_def)

lemma fr_decode_encode:
  assumes "fr_total_pieces s \<le> MAX_PIECES"
  shows "fr_decode from_json (fr_encode s) = Inr \<lparr>fr_version = 2, fr_total_pieces = fr_total_pieces s,
     fr_completed = filter (\<lambda>i. i \<in> set (fr_completed s)) [0..<fr_total_pieces s]\<rparr>"
proof -
  let ?b = "bf_from_indices (fr_total_pieces s) (fr_completed s)"
  have v: "le_val (le_bytes 4 (fr_total_pieces s)) = fr_total_pieces s"
    using assms by (intro le_val_le_bytes) (simp add: MAX_PIECES_def)
  have w: "bf_from_wire (fr_total_pieces s) (bf_bytes ?b) = Some ?b"
    using bf_from_wire_Some [OF bf_from_indices_wf] by simp
  have i: "bf_iter_ones ?b = filter (\<lambda>i. i \<in> set (fr_completed s)) [0..<fr_total_pieces s]"
    by (auto simp: bf_iter_ones_def intro: filter_cong)
  show ?thesis using assms w
    by (simp add: fr_decode_def fr_encode_parts v i FORMAT_VERSION_def not_less Let_def)
qed

lemma le_bytes_le_val: "length bs = k \<Longrightarrow> le_bytes k (le_val bs) = bs"
  using be_bytes_be_val [of "rev bs"] by (simp add: le_bytes_def le_val_def)

lemma starts_withD: "starts_with xs p \<Longrightarrow> xs = p @ drop (length p) xs"
  unfolding starts_with_def by (metis append_take_drop_id)

lemma fr_encode_decode:
  assumes "starts_with bs RESUME_MAGIC" "fr_decode from_json bs = Inr s"
  shows "fr_encode s = bs"
proof -
  obtain b where b: "HEADER_LEN \<le> length bs" "unat (bs ! 4) = FORMAT_VERSION"
    "bf_from_wire (le_val (slice 5 9 bs)) (drop HEADER_LEN bs) = Some b"
    "s = \<lparr>fr_version = FORMAT_VERSION, fr_total_pieces = le_val (slice 5 9 bs), fr_completed = bf_iter_ones b\<rparr>"
    using assms by (auto simp: fr_decode_def Let_def split: if_splits option.splits)
  from b(3) have w: "bf_wf b" "bf_len b = le_val (slice 5 9 bs)" "bf_bytes b = drop HEADER_LEN bs"
    by (simp_all add: bf_from_wire_eq)
  have "bf_from_indices (bf_len b) (bf_iter_ones b) = b"
    using w(1) by (intro bf_eqI bf_from_indices_wf) (auto simp: bf_has_less)
  then have ind: "bf_from_indices (le_val (slice 5 9 bs)) (bf_iter_ones b) = b" using w(2) by simp
  have l9: "9 \<le> length bs" using b(1) by (simp add: HEADER_LEN_def)
  have le: "le_bytes 4 (le_val (slice 5 9 bs)) = slice 5 9 bs" using l9 by (intro le_bytes_le_val) simp
  have v: "word_of_nat FORMAT_VERSION = bs ! 4" using b(2) by (simp flip: b(2))
  have "bs = take 4 bs @ [bs ! 4] @ slice 5 9 bs @ drop 9 bs"
    using l9 id_take_nth_drop [of 4 bs] append_take_drop_id [of 4 "drop 5 bs"] by (simp add: slice_def)
  moreover have "take 4 bs = RESUME_MAGIC" using assms(1)
    by (simp add: starts_with_def RESUME_MAGIC_def numeral_eq_Suc)
  ultimately show ?thesis by (simp add: fr_encode_def b(4) le v ind w(3) HEADER_LEN_def)
qed

section \<open>The session list\<close>

datatype torrent_source = SourceFile path | SourceMagnet rstring

record session_entry =
  se_source :: torrent_source
  se_output_dir :: path
  se_is_paused :: bool
  se_selected_files :: "bool list option"

record session_store =
  ss_entries :: "session_entry list"
  ss_download_limit_kib :: nat
  ss_upload_limit_kib :: nat

definition ss_default :: session_store where
  "ss_default = \<lparr>ss_entries = [], ss_download_limit_kib = 0, ss_upload_limit_kib = 0\<rparr>"

definition ss_load ::
  "(bytes \<Rightarrow> session_store option) \<Rightarrow> io_env \<Rightarrow> path \<Rightarrow> filesystem \<Rightarrow> (resume_error + session_store) \<times> filesystem" where
  "ss_load from_json env p fs =
     (case fs_cache fs p of
        None \<Rightarrow> (Inr ss_default, fs)
      | Some bs \<Rightarrow> if call_fails env fs then (Inl ResumeIo, call fs) else (ok_or (from_json bs) ResumeJson, call fs))"

definition ss_save ::
  "(session_store \<Rightarrow> bytes) \<Rightarrow> io_env \<Rightarrow> path \<Rightarrow> session_store \<Rightarrow> filesystem \<Rightarrow> (io_error + unit) \<times> filesystem list" where
  "ss_save to_json env p s fs = atomic_write env p (to_json s) fs"

definition legacy_session_file :: path where "legacy_session_file = [lit ''session.json'']"

definition ss_load_default ::
  "(bytes \<Rightarrow> session_store option) \<Rightarrow> (session_store \<Rightarrow> bytes) \<Rightarrow> path \<Rightarrow> io_env \<Rightarrow> filesystem
   \<Rightarrow> session_store \<times> filesystem" where
  "ss_load_default from_json to_json p env fs =
     (let (m, fs1) = (if fs_cache fs p = None \<and> fs_cache fs legacy_session_file \<noteq> None
                      then ss_load from_json env legacy_session_file fs else (Inl ResumeIo, fs))
      in case m of
        Inr store \<Rightarrow>
          (let (r, trace) = ss_save to_json env p store fs1; fs2 = last trace
           in (store, if is_ok r then (if call_fails env fs2 then call fs2 else fs_remove legacy_session_file (call fs2))
                      else fs2))
      | Inl _ \<Rightarrow>
          (let (r, fs2) = ss_load from_json env p fs1
           in (case r of Inr store \<Rightarrow> store | Inl _ \<Rightarrow> ss_default, fs2)))"

lemma atomic_write_spec:
  assumes "atomic_write env p data fs = (r, trace)"
  shows "trace \<noteq> [] \<and> (\<forall>s \<in> set trace. fs_stable s p \<in> {fs_stable fs p, Some data} \<and> fs_cache s p \<in> {fs_cache fs p, Some data})
    \<and> (r = Inr () \<longrightarrow> fs_cache (last trace) p = Some data)
    \<and> (r \<noteq> Inr () \<longrightarrow> fs_cache (last trace) p = fs_cache fs p \<and> fs_stable (last trace) p = fs_stable fs p)
    \<and> (\<forall>q. q \<noteq> p \<longrightarrow> q \<noteq> tmp_sibling p \<longrightarrow> fs_cache (last trace) q = fs_cache fs q)"
proof -
  let ?fs0 = "if length p > 1 then call fs else fs"
  have f0: "fs_stable ?fs0 = fs_stable fs" "fs_cache ?fs0 = fs_cache fs" by simp_all
  obtain r1 t1 where w: "write_tmp env (tmp_sibling p) p data ?fs0 = (r1, t1)" by fastforce
  note W = write_tmp_spec [OF w tmp_sibling_neq(1)]
  have ne: "t1 \<noteq> []" using W by blast
  then have lt: "last t1 \<in> set t1" by simp
  show ?thesis
  proof (cases "length p > 1 \<and> call_fails env fs")
    case True
    with assms show ?thesis by (auto simp: atomic_write_def)
  next
    case False
    show ?thesis
    proof (cases r1)
      case (Inr u)
      with False assms w have "r = Inr ()" "trace = ?fs0 # t1" by (auto simp: atomic_write_def Let_def)
      with W Inr f0 ne lt show ?thesis by auto
    next
      case (Inl e)
      let ?l = "last t1"
      let ?f = "if call_fails env ?l then call ?l else fs_remove (tmp_sibling p) (call ?l)"
      from Inl False assms w have r: "r = Inl e" "trace = ?fs0 # t1 @ [?f]" by (auto simp: atomic_write_def Let_def)
      have "fs_stable ?f p = fs_stable fs p" "fs_cache ?f p = fs_cache fs p"
        using W Inl f0 lt by (auto simp: fs_remove_def)
      moreover have "\<forall>q. q \<noteq> p \<longrightarrow> q \<noteq> tmp_sibling p \<longrightarrow> fs_cache ?f q = fs_cache fs q"
        using W f0 lt by (auto simp: fs_remove_def)
      ultimately show ?thesis using r W Inl f0 by (auto split: if_splits)
    qed
  qed
qed

lemma atomic_write_renamed:
  assumes "atomic_write env p data fs = (Inr (), trace)" "\<And>n. env_renamed env n"
  shows "fs_stable (last trace) p = Some data"
  using assms
  by (auto simp: atomic_write_def write_tmp_def fs_rename_def call_def put_def sync_def contents_def write_at_empty Let_def
      split: if_splits prod.splits sum.splits)

lemma tmp_not_legacy: "legacy_session_file \<noteq> tmp_sibling p"
proof
  assume e: "legacy_session_file = tmp_sibling p"
  have "last (last (tmp_sibling p)) = of_char CHR ''p''" by (simp add: tmp_sibling_def lit_def)
  moreover have "last (last legacy_session_file) = of_char CHR ''n''"
    by (simp add: legacy_session_file_def lit_def)
  ultimately show False using e by simp
qed

section \<open>Properties\<close>

text \<open>C16. \<open>atomic_write\<close> is crash-safe: at every point between its system calls, and at the end whether it
  succeeded or failed, readers see, and a crash leaves, either what the file held before or the complete new
  contents, never anything in between; after a success readers see the new contents (a crash may still
  find the old ones, for the directory is not synced), after an error the file is unchanged for both.\<close>

theorem atomic_write_crash_safe:
  assumes "atomic_write env p data fs = (r, trace)"
  shows "trace \<noteq> [] \<and> (\<forall>s \<in> set trace. fs_stable s p \<in> {fs_stable fs p, Some data} \<and> fs_cache s p \<in> {fs_cache fs p, Some data})
    \<and> (r = Inr () \<longrightarrow> fs_cache (last trace) p = Some data)
    \<and> (r \<noteq> Inr () \<longrightarrow> fs_cache (last trace) p = fs_cache fs p \<and> fs_stable (last trace) p = fs_stable fs p)
    \<and> (\<forall>q. q \<noteq> p \<longrightarrow> q \<noteq> tmp_sibling p \<longrightarrow> fs_cache (last trace) q = fs_cache fs q)"
  using atomic_write_spec [OF assms] .

theorem atomic_write_crash_safe_witness:
  "list_all (\<lambda>s. fs_stable s [lit ''f''] \<in> {fs_stable fs_empty [lit ''f''], Some [1, 2]})
     (snd (atomic_write no_faults [lit ''f''] [1, 2] fs_empty))"
  using atomic_write_crash_safe [OF prod.collapse [symmetric], of no_faults "[lit ''f'']" "[1, 2]" fs_empty]
  by (simp only: list_all_iff) blast

text \<open>A filesystem from which the completed pieces of a manager can be loaded again: unless the read itself fails, the
  resume file gives a record from which a manager with exactly these pieces is built.\<close>

definition restores :: "(bytes \<Rightarrow> fast_resume_state option) \<Rightarrow> path \<Rightarrow> torrent_manager \<Rightarrow> filesystem \<Rightarrow> bool" where
  "restores from_json p m fs \<longleftrightarrow> (\<forall>env. \<not> call_fails env fs \<longrightarrow> (\<exists>s. fst (load_fastresume from_json env p fs) = Inr (Some s)
     \<and> mgr_completed (fr_into_manager (mgr_total_pieces m) s) = mgr_completed m))"

lemma restoresI:
  assumes "mgr_reachable m" "mgr_total_pieces m \<le> MAX_PIECES" "fs_cache fs p = Some (fr_encode (fr_from_manager m))"
  shows "restores from_json p m fs"
proof -
  have i: "mgr_inv m" using assms(1) by (rule reachable_inv)
  have "set (completed_pieces m) = mgr_completed m"
    by (simp add: completed_pieces_def finite_completed [OF i])
  moreover have "{x. x < mgr_total_pieces m \<and> x \<in> mgr_completed m} = mgr_completed m"
    using mgr_invD(7) [OF i] by auto
  ultimately have "\<exists>s. fr_decode from_json (fr_encode (fr_from_manager m)) = Inr s
      \<and> mgr_completed (fr_into_manager (mgr_total_pieces m) s) = mgr_completed m"
    using fr_decode_encode [of "fr_from_manager m" from_json] assms(2)
    by (auto simp: fr_from_manager_def fr_into_manager_def from_completed_def with_selection_def Let_def)
  then show ?thesis using assms(3) by (auto simp: restores_def load_fastresume_def)
qed

text \<open>C20. The resume file round-trips with the manager: after \<open>save_fastresume\<close> of a manager in any reachable state (of
  at most 16777216 pieces) has succeeded, \<open>load_fastresume\<close> gives back exactly its completed pieces, unless the read fails;
  whether it succeeds or not, a crash at any point of it leaves the resume file as it was or one that gives them back.
  And a file that is accepted in the binary format is the encoding of the state it gave, so every truncated,
  padded or altered header is refused.\<close>

theorem fastresume_roundtrip:
  assumes "mgr_reachable m" "mgr_total_pieces m \<le> MAX_PIECES" "save_fastresume env p (fr_from_manager m) fs = (r, trace)"
  shows "(r = Inr () \<longrightarrow> restores from_json p m (last trace))
    \<and> (\<forall>t \<in> set trace. fs_stable t p = fs_stable fs p \<or> restores from_json p m (t\<lparr>fs_cache := fs_stable t\<rparr>))
    \<and> (\<forall>env' fs' bs s. fs_cache fs' p = Some bs \<longrightarrow> starts_with bs RESUME_MAGIC \<longrightarrow>
         fst (load_fastresume from_json env' p fs') = Inr (Some s) \<longrightarrow> fr_encode s = bs)"
proof -
  have a: "atomic_write env p (fr_encode (fr_from_manager m)) fs = (r, trace)" using assms(3) by (simp add: save_fastresume_def)
  note A = atomic_write_spec [OF a]
  have "fs_stable t p = fs_stable fs p \<or> restores from_json p m (t\<lparr>fs_cache := fs_stable t\<rparr>)" if "t \<in> set trace" for t
    using A that restoresI [OF assms(1,2), of "t\<lparr>fs_cache := fs_stable t\<rparr>" p from_json] by auto
  moreover have "fr_encode s = bs"
    if "fs_cache fs' p = Some bs" "starts_with bs RESUME_MAGIC" "fst (load_fastresume from_json env' p fs') = Inr (Some s)"
    for env' fs' bs s
    using fr_encode_decode [OF that(2), of from_json s] that(1,3)
    by (cases "fr_decode from_json bs") (auto simp: load_fastresume_def split: if_splits)
  ultimately show ?thesis using A restoresI [OF assms(1,2), of "last trace" p from_json] by blast
qed

theorem fastresume_roundtrip_witness:
  "\<exists>trace. save_fastresume no_faults [lit ''f''] (fr_from_manager (with_selection 9 [2, 4] (sel_all 9))) fs_empty = (Inr (), trace)
     \<and> restores (\<lambda>_. None) [lit ''f''] (with_selection 9 [2, 4] (sel_all 9)) (last trace)"
proof -
  let ?m = "with_selection 9 [2, 4] (sel_all 9)"
  obtain r trace where s: "save_fastresume no_faults [lit ''f''] (fr_from_manager ?m) fs_empty = (r, trace)" by fastforce
  have "r = Inr ()" using s
    by (auto simp: save_fastresume_def atomic_write_def write_tmp_def call_fails_def no_faults_def Let_def)
  moreover have "mgr_total_pieces ?m \<le> MAX_PIECES" by (simp add: with_selection_def Let_def MAX_PIECES_def)
  ultimately show ?thesis using fastresume_roundtrip [OF mgr_reachable.start _ s, of "\<lambda>_. None"] s by blast
qed

text \<open>The one-time migration of the session list never loses it: whatever I/O call fails, after
  \<open>load_default\<close> the list that the old file held is still in the old or in the new file.\<close>

theorem migration_keeps_session:
  assumes "fs_cache fs p = None" "fs_cache fs legacy_session_file = Some bs" "from_json bs = Some store"
    "from_json (to_json store) = Some store" "ss_load_default from_json to_json p env fs = (store', fs')"
  shows "\<exists>q \<in> {p, legacy_session_file}. \<exists>b. fs_cache fs' q = Some b \<and> from_json b = Some store"
proof (cases "call_fails env fs")
  case True
  then have "fs' = call fs"
    using assms by (auto simp: ss_load_default_def ss_load_def)
  with assms(2,3) show ?thesis by simp
next
  case False
  obtain r trace where a: "atomic_write env p (to_json store) (call fs) = (r, trace)" by fastforce
  note A = atomic_write_spec [OF a]
  have l: "p \<noteq> legacy_session_file" using assms(1,2) by auto
  have fs': "fs' = (if is_ok r then (if call_fails env (last trace) then call (last trace)
        else fs_remove legacy_session_file (call (last trace))) else last trace)"
    using assms False a by (simp add: ss_load_default_def ss_load_def ss_save_def ok_or_def Let_def)
  show ?thesis
  proof (cases r)
    case (Inr u)
    then have "fs_cache fs' p = Some (to_json store)" using A l by (simp add: fs' fs_remove_def)
    with assms(4) show ?thesis by blast
  next
    case (Inl e)
    then have "fs_cache fs' legacy_session_file = Some bs"
      using A l tmp_not_legacy assms(2) by (simp add: fs')
    with assms(3) show ?thesis by blast
  qed
qed

theorem migration_keeps_session_witness:
  "\<exists>q \<in> {[lit ''cfg'', lit ''session.json''], legacy_session_file}.
     \<exists>b. fs_cache (snd (ss_load_default (\<lambda>b. if b = [1] then Some ss_default else None) (\<lambda>_. [1]) [lit ''cfg'', lit ''session.json'']
       no_faults (fs_empty\<lparr>fs_cache := [legacy_session_file \<mapsto> [1]]\<rparr>))) q = Some b
     \<and> (if b = [1] then Some ss_default else None) = Some ss_default"
  by (rule migration_keeps_session [OF _ _ _ _ prod.collapse [symmetric]])
    (auto simp: legacy_session_file_def fs_empty_def)

end
