(* ===== verification/Wire.thy ===== *)
theory Wire
  imports Prelude "HOL-Library.Sublist"
begin

text \<open>
  The peer wire protocol, \<open>net/wire.rs\<close> and \<open>net/handshake.rs\<close>: the incremental message decoder with
  its buffer, the encoders of \<open>PeerMessage::send_*\<close> (the bytes they write) and the handshake. A 32-bit
  field is a natural number below \<open>2 ^ 32\<close>. Reads from the peer are a list: \<open>Some\<close> the bytes one read
  returned, \<open>None\<close> a failed read; a connection whose list is used up is closed.
\<close>

section \<open>Messages\<close>

datatype peer_message =
    KeepAlive
  | Choke
  | Unchoke
  | Interested
  | NotInterested
  | Have nat
  | BitfieldMsg bytes
  | Request nat nat nat
  | Piece nat nat bytes
  | Extended byte bytes

datatype wire_error =
    TooLarge nat
  | InvalidHave nat
  | InvalidRequest nat
  | InvalidPiece nat
  | InvalidExtended
  | PeerClosed
  | ReadFailed

definition MAX_MESSAGE_LEN :: nat where "MAX_MESSAGE_LEN = 1024 * 1024"
definition MAX_BLOCK_REQUEST :: nat where "MAX_BLOCK_REQUEST = 32 * 1024"
definition READ_CHUNK :: nat where "READ_CHUNK = 16 * 1024"
definition COMPACT_THRESHOLD :: nat where "COMPACT_THRESHOLD = 64 * 1024"

definition parse_message :: "byte \<Rightarrow> bytes \<Rightarrow> wire_error + peer_message option" where
  "parse_message msg_id payload =
     (let be32 = (\<lambda>offset. be_val (slice offset (offset + 4) payload)) in
      if msg_id = 0 then Inr (Some Choke)
      else if msg_id = 1 then Inr (Some Unchoke)
      else if msg_id = 2 then Inr (Some Interested)
      else if msg_id = 3 then Inr (Some NotInterested)
      else if msg_id = 4 then
        (if length payload \<noteq> 4 then Inl (InvalidHave (length payload)) else Inr (Some (Have (be32 0))))
      else if msg_id = 5 then Inr (Some (BitfieldMsg payload))
      else if msg_id = 6 then
        (if length payload \<noteq> 12 then Inl (InvalidRequest (length payload))
         else Inr (Some (Request (be32 0) (be32 4) (be32 8))))
      else if msg_id = 7 then
        (if length payload < 8 then Inl (InvalidPiece (length payload))
         else Inr (Some (Piece (be32 0) (be32 4) (drop 8 payload))))
      else if msg_id = 20 then
        (if payload = [] then Inl InvalidExtended
         else Inr (Some (Extended (payload ! 0) (drop 1 payload))))
      else Inr None)"

section \<open>The decoder\<close>

record message_decoder =
  md_buf :: bytes
  md_pos :: nat

definition decoder_new :: message_decoder where
  "decoder_new = \<lparr>md_buf = [], md_pos = 0\<rparr>"

definition feed :: "bytes \<Rightarrow> message_decoder \<Rightarrow> message_decoder" where
  "feed data d = d\<lparr>md_buf := md_buf d @ data\<rparr>"

definition compact :: "message_decoder \<Rightarrow> message_decoder" where
  "compact d =
     (if md_pos d = length (md_buf d) then d\<lparr>md_buf := [], md_pos := 0\<rparr>
      else if md_pos d \<ge> COMPACT_THRESHOLD then d\<lparr>md_buf := drop (md_pos d) (md_buf d), md_pos := 0\<rparr>
      else d)"

function decode :: "message_decoder \<Rightarrow> (wire_error + peer_message option) \<times> message_decoder" where
  "decode d =
     (let available = drop (md_pos d) (md_buf d) in
      if length available < 4 then (Inr None, compact d)
      else let len = be_val (take 4 available) in
        if len > MAX_MESSAGE_LEN then (Inl (TooLarge len), d)
        else if length available < 4 + len then (Inr None, compact d)
        else case (if len = 0 then Inr (Some KeepAlive)
                   else parse_message (available ! 4) (slice 5 (4 + len) available)) of
          Inl e \<Rightarrow> (Inl e, d)
        | Inr None \<Rightarrow> decode (d\<lparr>md_pos := md_pos d + (4 + len)\<rparr>)
        | Inr (Some msg) \<Rightarrow> (Inr (Some msg), d\<lparr>md_pos := md_pos d + (4 + len)\<rparr>))"
  by pat_completeness auto
termination decode
  by (relation "measure (\<lambda>d. length (md_buf d) - md_pos d)") auto

declare decode.simps [simp del]

fun next_message ::
  "message_decoder \<Rightarrow> bytes option list \<Rightarrow> (wire_error + peer_message) \<times> message_decoder \<times> bytes option list" where
  "next_message d reads =
     (case decode d of
        (Inl e, d') \<Rightarrow> (Inl e, d', reads)
      | (Inr (Some msg), d') \<Rightarrow> (Inr msg, d', reads)
      | (Inr None, d') \<Rightarrow>
          (case reads of
             [] \<Rightarrow> (Inl PeerClosed, d', [])
           | None # rest \<Rightarrow> (Inl ReadFailed, d', rest)
           | Some chunk # rest \<Rightarrow>
               if chunk = [] then (Inl PeerClosed, d', rest) else next_message (feed chunk d') rest))"

declare next_message.simps [simp del]

section \<open>The encoders\<close>

definition send_keepalive :: bytes where "send_keepalive = [0, 0, 0, 0]"
definition send_choke :: bytes where "send_choke = [0, 0, 0, 1, 0]"
definition send_unchoke :: bytes where "send_unchoke = [0, 0, 0, 1, 1]"
definition send_interested :: bytes where "send_interested = [0, 0, 0, 1, 2]"
definition send_not_interested :: bytes where "send_not_interested = [0, 0, 0, 1, 3]"

definition send_have :: "nat \<Rightarrow> bytes" where
  "send_have piece_index = be_bytes 4 5 @ [4] @ be_bytes 4 piece_index"

definition send_request :: "nat \<Rightarrow> nat \<Rightarrow> nat \<Rightarrow> bytes" where
  "send_request index begn len =
     be_bytes 4 13 @ [6] @ be_bytes 4 index @ be_bytes 4 begn @ be_bytes 4 len"

definition send_bitfield :: "bytes \<Rightarrow> bytes" where
  "send_bitfield payload = be_bytes 4 (as_u32 (1 + as_u32 (length payload))) @ [5] @ payload"

definition send_piece :: "nat \<Rightarrow> nat \<Rightarrow> bytes \<Rightarrow> bytes" where
  "send_piece index begn block =
     be_bytes 4 (as_u32 (9 + as_u32 (length block))) @ [7] @ be_bytes 4 index @ be_bytes 4 begn @ block"

definition send_extended :: "byte \<Rightarrow> bytes \<Rightarrow> bytes" where
  "send_extended extended_id payload =
     be_bytes 4 (as_u32 (2 + as_u32 (length payload))) @ [20] @ [extended_id] @ payload"

fun send_message :: "peer_message \<Rightarrow> bytes" where
  "send_message KeepAlive = send_keepalive"
| "send_message Choke = send_choke"
| "send_message Unchoke = send_unchoke"
| "send_message Interested = send_interested"
| "send_message NotInterested = send_not_interested"
| "send_message (Have i) = send_have i"
| "send_message (BitfieldMsg bs) = send_bitfield bs"
| "send_message (Request i b l) = send_request i b l"
| "send_message (Piece i b block) = send_piece i b block"
| "send_message (Extended x payload) = send_extended x payload"

section \<open>The handshake\<close>

record handshake =
  hs_reserved :: bytes
  hs_info_hash :: bytes
  hs_peer_id :: bytes

datatype handshake_error = HandshakeLength nat | HandshakeStringLength | HandshakeString

definition PROTOCOL_STRING :: bytes where
  "PROTOCOL_STRING = map of_char ''BitTorrent protocol''"

definition HANDSHAKE_LEN :: nat where "HANDSHAKE_LEN = 68"

definition handshake_new :: "bytes \<Rightarrow> bytes \<Rightarrow> handshake" where
  "handshake_new info_hash peer_id =
     \<lparr>hs_reserved = (replicate 8 0)[5 := Bit_Operations.or 0 0x10],
      hs_info_hash = info_hash, hs_peer_id = peer_id\<rparr>"

definition supports_extension_protocol :: "handshake \<Rightarrow> bool" where
  "supports_extension_protocol h \<longleftrightarrow> Bit_Operations.and (hs_reserved h ! 5) 0x10 \<noteq> 0"

definition handshake_as_bytes :: "handshake \<Rightarrow> bytes" where
  "handshake_as_bytes h =
     splice 48 (hs_peer_id h) (splice 28 (hs_info_hash h) (splice 20 (hs_reserved h)
       (splice 1 PROTOCOL_STRING ((replicate HANDSHAKE_LEN 0)
          [0 := word_of_nat (length PROTOCOL_STRING)]))))"

definition handshake_from_bytes :: "bytes \<Rightarrow> handshake_error + handshake" where
  "handshake_from_bytes bs =
     (if length bs \<noteq> HANDSHAKE_LEN then Inl (HandshakeLength (length bs))
      else if unat (bs ! 0) \<noteq> length PROTOCOL_STRING then Inl HandshakeStringLength
      else if slice 1 20 bs \<noteq> PROTOCOL_STRING then Inl HandshakeString
      else Inr \<lparr>hs_reserved = slice 20 28 bs, hs_info_hash = slice 28 48 bs, hs_peer_id = slice 48 68 bs\<rparr>)"

section \<open>The reference parser\<close>

text \<open>The frames of a byte string, read in one go: the messages, the first error, and what follows.\<close>

definition frame_message :: "bytes \<Rightarrow> nat \<Rightarrow> wire_error + peer_message option" where
  "frame_message bs len =
     (if len = 0 then Inr (Some KeepAlive) else parse_message (bs ! 4) (slice 5 (4 + len) bs))"

definition incomplete :: "bytes \<Rightarrow> bool" where
  "incomplete bs \<longleftrightarrow> length bs < 4 \<or>
     (be_val (take 4 bs) \<le> MAX_MESSAGE_LEN \<and> length bs < 4 + be_val (take 4 bs))"

function parse_stream :: "bytes \<Rightarrow> peer_message list \<times> wire_error option \<times> bytes" where
  "parse_stream bs =
     (if incomplete bs then ([], None, bs)
      else let len = be_val (take 4 bs) in
        if len > MAX_MESSAGE_LEN then ([], Some (TooLarge len), bs)
        else case frame_message bs len of
          Inl e \<Rightarrow> ([], Some e, bs)
        | Inr parsed \<Rightarrow>
            (let (msgs, e, rest) = parse_stream (drop (4 + len) bs)
             in ((case parsed of None \<Rightarrow> [] | Some msg \<Rightarrow> [msg]) @ msgs, e, rest)))"
  by pat_completeness auto
termination parse_stream
  by (relation "measure length") (auto simp: incomplete_def)

declare parse_stream.simps [simp del]

section \<open>The decoder takes frames from the front of its buffer\<close>


definition pending :: "message_decoder \<Rightarrow> bytes" where
  "pending d = drop (md_pos d) (md_buf d)"

lemma pending_simps [simp]:
  "pending decoder_new = []"
  "pending (compact d) = pending d"
  "md_pos d \<le> length (md_buf d) \<Longrightarrow> pending (feed data d) = pending d @ data"
  "pending (d\<lparr>md_pos := md_pos d + n\<rparr>) = drop n (pending d)"
  by (auto simp: pending_def decoder_new_def compact_def feed_def add.commute)

lemma parse_stream_frame:
  assumes "\<not> incomplete bs" "be_val (take 4 bs) = len" "len \<le> MAX_MESSAGE_LEN"
  shows "parse_stream bs = (case frame_message bs len of
      Inl e \<Rightarrow> ([], Some e, bs)
    | Inr parsed \<Rightarrow> (let (msgs, e, rest) = parse_stream (drop (4 + len) bs)
        in ((case parsed of None \<Rightarrow> [] | Some msg \<Rightarrow> [msg]) @ msgs, e, rest)))"
  using assms(1,3) unfolding assms(2) [symmetric] by (subst parse_stream.simps) (simp add: Let_def)

lemma parse_stream_big:
  "\<not> incomplete bs \<Longrightarrow> be_val (take 4 bs) > MAX_MESSAGE_LEN \<Longrightarrow>
     parse_stream bs = ([], Some (TooLarge (be_val (take 4 bs))), bs)"
  by (subst parse_stream.simps) simp

text \<open>One call of \<open>decode\<close> takes the first message of the reference parser.\<close>

lemma decode_parse:
  assumes "decode d = (r, d')"
  shows "case parse_stream (pending d) of
      ([], None, rest) \<Rightarrow> r = Inr None \<and> pending d' = rest
    | ([], Some e, rest) \<Rightarrow> r = Inl e
    | (m # msgs, e, rest) \<Rightarrow> r = Inr (Some m) \<and> parse_stream (pending d') = (msgs, e, rest)
        \<and> length (pending d') < length (pending d)"
  using assms
proof (induction d rule: decode.induct)
  case (1 d)
  define len where "len = be_val (take 4 (pending d))"
  have d: "decode d = (if length (pending d) < 4 then (Inr None, compact d)
      else if len > MAX_MESSAGE_LEN then (Inl (TooLarge len), d)
      else if length (pending d) < 4 + len then (Inr None, compact d)
      else case frame_message (pending d) len of
          Inl e \<Rightarrow> (Inl e, d)
        | Inr None \<Rightarrow> decode (d\<lparr>md_pos := md_pos d + (4 + len)\<rparr>)
        | Inr (Some msg) \<Rightarrow> (Inr (Some msg), d\<lparr>md_pos := md_pos d + (4 + len)\<rparr>))"
    unfolding decode.simps [of d] Let_def pending_def len_def frame_message_def by (rule refl)
  consider (short) "incomplete (pending d)" | (big) "\<not> incomplete (pending d)" "len > MAX_MESSAGE_LEN"
    | (frame) "\<not> incomplete (pending d)" "len \<le> MAX_MESSAGE_LEN" by linarith
  then show ?case
  proof cases
    case short
    then have "r = Inr None \<and> d' = compact d" using "1.prems" unfolding d incomplete_def len_def [symmetric] by (auto split: if_splits)
    with short show ?thesis by (simp add: parse_stream.simps)
  next
    case big
    then have "r = Inl (TooLarge len)" using "1.prems" unfolding d incomplete_def len_def [symmetric] by (auto split: if_splits)
    with big show ?thesis by (simp add: parse_stream.simps len_def)
  next
    case frame
    then have l: "4 \<le> length (pending d)" "4 + len \<le> length (pending d)" by (auto simp: incomplete_def len_def)
    note p = parse_stream_frame [OF frame(1) len_def [symmetric] frame(2)]
    have e: "decode d = (case frame_message (pending d) len of Inl e \<Rightarrow> (Inl e, d)
        | Inr None \<Rightarrow> decode (d\<lparr>md_pos := md_pos d + (4 + len)\<rparr>)
        | Inr (Some msg) \<Rightarrow> (Inr (Some msg), d\<lparr>md_pos := md_pos d + (4 + len)\<rparr>))"
      using l frame by (simp add: d)
    show ?thesis
    proof (cases "frame_message (pending d) len")
      case (Inl e)
      then have "r = Inl e" using "1.prems" by (simp add: e)
      then show ?thesis by (simp add: p [unfolded Inl])
    next
      case (Inr parsed)
      show ?thesis
      proof (cases parsed)
        case None
        have "decode (d\<lparr>md_pos := md_pos d + (4 + len)\<rparr>) = (r, d')" using "1.prems" by (simp add: e Inr None)
        moreover have "(if len = 0 then Inr (Some KeepAlive)
            else parse_message (pending d ! 4) (slice 5 (4 + len) (pending d))) = Inr None"
          using Inr None by (simp add: frame_message_def)
        ultimately have "case parse_stream (drop (4 + len) (pending d)) of
            ([], None, rest) \<Rightarrow> r = Inr None \<and> pending d' = rest
          | ([], Some e, rest) \<Rightarrow> r = Inl e
          | (m # msgs, e, rest) \<Rightarrow> r = Inr (Some m) \<and> parse_stream (pending d') = (msgs, e, rest)
              \<and> length (pending d') < length (drop (4 + len) (pending d))"
          using "1.IH" [OF pending_def _ len_def _ _ _ refl] l frame unfolding pending_simps(4) by simp
        then show ?thesis using l
          by (auto simp: p [unfolded Inr None] simp del: drop_drop split: prod.splits list.splits option.splits)
      next
        case (Some m)
        have "r = Inr (Some m)" "pending d' = drop (4 + len) (pending d)"
          using "1.prems" by (auto simp: e Inr Some simp del: drop_drop)
        then show ?thesis using l by (auto simp: p [unfolded Inr Some] simp del: drop_drop split: prod.splits)
      qed
    qed
  qed
qed


definition decoder_ok :: "message_decoder \<Rightarrow> bool" where
  "decoder_ok d \<longleftrightarrow> md_pos d \<le> length (md_buf d)"

lemma decode_ok:
  assumes "decode d = (r, d')" "decoder_ok d"
  shows "decoder_ok d'" "length (md_buf d') \<le> length (md_buf d)"
    "r = Inr None \<Longrightarrow> length (md_buf d') \<le> COMPACT_THRESHOLD + (4 + MAX_MESSAGE_LEN)"
proof -
  have "decoder_ok d' \<and> length (md_buf d') \<le> length (md_buf d)
      \<and> (r = Inr None \<longrightarrow> length (md_buf d') \<le> COMPACT_THRESHOLD + (4 + MAX_MESSAGE_LEN))"
    using assms
  proof (induction d rule: decode.induct)
    case (1 d)
    define av where "av = drop (md_pos d) (md_buf d)"
    define len where "len = be_val (take 4 av)"
    define F where "F = (if len = 0 then Inr (Some KeepAlive) else parse_message (av ! 4) (slice 5 (4 + len) av))"
    have small: "length av < 4 \<or> (len \<le> MAX_MESSAGE_LEN \<and> length av < 4 + len) \<Longrightarrow> ?case" if "(r, d') = (Inr None, compact d)"
      using that "1.prems"(2) by (auto simp: compact_def decoder_ok_def av_def)
    consider "length av < 4 \<or> (len \<le> MAX_MESSAGE_LEN \<and> length av < 4 + len)" "(r, d') = (Inr None, compact d)"
      | e where "(r, d') = (Inl e, d)"
      | m where "4 + len \<le> length av" "(r, d') = (Inr (Some m), d\<lparr>md_pos := md_pos d + (4 + len)\<rparr>)"
      | "\<not> length av < 4" "\<not> len > MAX_MESSAGE_LEN" "\<not> length av < 4 + len"
        "F = Inr None" "decode (d\<lparr>md_pos := md_pos d + (4 + len)\<rparr>) = (r, d')"
      using "1.prems"(1) unfolding decode.simps [of d] Let_def av_def [symmetric] len_def [symmetric] F_def [symmetric]
      by (cases F) (auto split: if_splits option.splits)
    then show ?case
    proof cases
      case 1
      then show ?thesis using small by blast
    next
      case 2
      then show ?thesis using "1.prems"(2) by simp
    next
      case 3
      then show ?thesis using "1.prems"(2) by (auto simp: decoder_ok_def av_def)
    next
      case 4
      then have "decoder_ok (d\<lparr>md_pos := md_pos d + (4 + len)\<rparr>)" using "1.prems"(2) by (auto simp: decoder_ok_def av_def)
      from "1.IH" [OF av_def _ len_def _ _ _ refl, OF 4(1-3) _ 4(5) this] 4(4) show ?thesis by (simp add: F_def)
    qed
  qed
  then show "decoder_ok d'" "length (md_buf d') \<le> length (md_buf d)"
    "r = Inr None \<Longrightarrow> length (md_buf d') \<le> COMPACT_THRESHOLD + (4 + MAX_MESSAGE_LEN)" by auto
qed

lemma feed_ok [simp]: "decoder_ok d \<Longrightarrow> decoder_ok (feed data d)" "decoder_ok decoder_new"
  by (simp_all add: decoder_ok_def feed_def decoder_new_def)

lemma pending_feed: "decoder_ok d \<Longrightarrow> pending (feed data d) = pending d @ data"
  by (simp add: decoder_ok_def)

text \<open>The reference parser is incremental: what is complete in a prefix is parsed there.\<close>

lemma frame_message_append:
  "4 + len \<le> length a \<Longrightarrow> frame_message (a @ b) len = frame_message a len"
  by (auto simp: frame_message_def nth_append slice_def)

lemma parse_stream_append:
  "parse_stream (a @ b) = (case parse_stream a of
      (ms, None, rest) \<Rightarrow> (let (ms', e, rest') = parse_stream (rest @ b) in (ms @ ms', e, rest'))
    | (ms, Some e, rest) \<Rightarrow> (ms, Some e, rest @ b))"
proof (induction a rule: parse_stream.induct)
  case (1 a)
  define len where "len = be_val (take 4 a)"
  show ?case
  proof (cases "incomplete a")
    case True
    then show ?thesis by (simp add: parse_stream.simps [of a] split: prod.splits)
  next
    case False
    then have l4: "4 \<le> length a" by (simp add: incomplete_def)
    then have t: "take 4 (a @ b) = take 4 a" by simp
    have inc: "\<not> incomplete (a @ b)" using False by (auto simp: incomplete_def)
    show ?thesis
    proof (cases "len > MAX_MESSAGE_LEN")
      case True
      then show ?thesis using parse_stream_big [OF False] parse_stream_big [OF inc, unfolded t]
        by (simp add: len_def)
    next
      case small: False
      then have l: "4 + len \<le> length a" using False by (auto simp: incomplete_def len_def)
      have p: "be_val (take 4 a) = len" "be_val (take 4 (a @ b)) = len" unfolding t len_def by (rule refl)+
      have small': "len \<le> MAX_MESSAGE_LEN" using small by simp
      note pa = parse_stream_frame [OF False p(1) small']
        and pab = parse_stream_frame [OF inc p(2) small', unfolded frame_message_append [OF l]]
      show ?thesis
      proof (cases "frame_message a len")
        case (Inl e)
        then show ?thesis by (simp add: pa [unfolded Inl] pab [unfolded Inl])
      next
        case (Inr parsed)
        have d: "drop (4 + len) (a @ b) = drop (4 + len) a @ b" using l by simp
        from "1.IH" [OF False p(1) [symmetric] small Inr]
        show ?thesis
          by (simp add: pa [unfolded Inr] pab [unfolded Inr d] split: prod.splits option.splits)
      qed
    qed
  qed
qed

lemma parse_stream_rest: "length (snd (snd (parse_stream bs))) \<le> length bs"
proof (induction bs rule: parse_stream.induct)
  case (1 bs)
  then show ?case
    by (subst parse_stream.simps) (fastforce simp: Let_def split: sum.splits prod.splits)
qed

lemma decode_cases:
  assumes "decode d = (r, d')"
  obtains (message) m msgs e rest where "parse_stream (pending d) = (m # msgs, e, rest)" "r = Inr (Some m)"
      "parse_stream (pending d') = (msgs, e, rest)" "length (pending d') < length (pending d)"
  | (wait) rest where "parse_stream (pending d) = ([], None, rest)" "r = Inr None" "pending d' = rest"
  | (fail) e rest where "parse_stream (pending d) = ([], Some e, rest)" "r = Inl e"
proof -
  obtain ms e rest where p: "parse_stream (pending d) = (ms, e, rest)" by (metis prod_cases3)
  show thesis
    using decode_parse [OF assms] p message wait fail by (cases ms; cases e) auto
qed

lemma next_message_parse:
  "decoder_ok d \<Longrightarrow> [] \<notin> set frags \<Longrightarrow> next_message d (map Some frags) = (r, d', reads) \<Longrightarrow>
   decoder_ok d' \<and> (case parse_stream (pending d @ concat frags) of
      ([], None, rest) \<Rightarrow> r = Inl PeerClosed
    | ([], Some e, rest) \<Rightarrow> r = Inl e
    | (m # msgs, e, rest) \<Rightarrow> r = Inr m \<and> (\<exists>frags'. reads = map Some frags' \<and> [] \<notin> set frags'
        \<and> parse_stream (pending d' @ concat frags') = (msgs, e, rest)
        \<and> length (pending d' @ concat frags') < length (pending d @ concat frags)))"
proof (induction frags arbitrary: d)
  case Nil
  obtain r1 d1 where d: "decode d = (r1, d1)" by fastforce
  from d show ?case using decode_ok(1) [OF d Nil.prems(1)] Nil.prems(3)
    by (cases rule: decode_cases) (auto simp: next_message.simps [of d] d)
next
  case (Cons c frags)
  obtain r1 d1 where d: "decode d = (r1, d1)" by fastforce
  note ok = decode_ok(1) [OF d Cons.prems(1)]
  from d show ?case
  proof (cases rule: decode_cases)
    case (message m msgs e rest)
    then have "r = Inr m" "d' = d1" "reads = map Some (c # frags)"
      using Cons.prems(3) by (auto simp: next_message.simps [of d] d)
    with message Cons.prems(2) ok show ?thesis
      by (cases e) (auto simp: parse_stream_append [of "pending d"] parse_stream_append [of "pending d1"]
          split: prod.splits intro!: exI [of _ "c # frags"])
  next
    case (wait rest)
    then have "next_message (feed c d1) (map Some frags) = (r, d', reads)"
      using Cons.prems(2,3) by (auto simp: next_message.simps [of d] d)
    from Cons.IH [OF feed_ok(1) [OF ok] _ this, unfolded pending_feed [OF ok] append_assoc wait(3)] Cons.prems(2) wait parse_stream_append [of "pending d" "c @ concat frags"]
    have "decoder_ok d'" and IH: "case parse_stream (pending d @ c @ concat frags) of
        ([], None, rest) \<Rightarrow> r = Inl PeerClosed
      | ([], Some e, rest) \<Rightarrow> r = Inl e
      | (m # msgs, e, rest') \<Rightarrow> r = Inr m \<and> (\<exists>frags'. reads = map Some frags' \<and> [] \<notin> set frags'
          \<and> parse_stream (pending d' @ concat frags') = (msgs, e, rest')
          \<and> length (pending d' @ concat frags') < length (rest @ c @ concat frags))"
      by simp_all
    moreover have "length rest \<le> length (pending d)" using parse_stream_rest [of "pending d"] wait(1) by simp
    ultimately show ?thesis by (auto split: list.splits option.splits)
  next
    case (fail e rest)
    with Cons.prems(3) ok show ?thesis
      by (auto simp: next_message.simps [of d] d parse_stream_append [of "pending d"])
  qed
qed


text \<open>A session reads messages until an error ends it.\<close>

function read_messages :: "message_decoder \<Rightarrow> bytes list \<Rightarrow> peer_message list \<times> wire_error" where
  "read_messages d frags =
     (if \<not> decoder_ok d \<or> [] \<in> set frags then ([], PeerClosed)
      else case next_message d (map Some frags) of
        (Inl e, d', reads) \<Rightarrow> ([], e)
      | (Inr m, d', reads) \<Rightarrow> (let (ms, e) = read_messages d' (map the reads) in (m # ms, e)))"
  by pat_completeness auto
termination read_messages
proof (relation "measure (\<lambda>(d, frags). length (pending d @ concat frags))", goal_cases)
  case (2 d frags r y m d' reads)
  then have "next_message d (map Some frags) = (Inr m, d', reads)" by simp
  from next_message_parse [OF _ _ this] 2(1) show ?case
    by (auto split: prod.splits list.splits option.splits)
qed simp

declare read_messages.simps [simp del]

lemma read_messages_parse:
  assumes "decoder_ok d" "[] \<notin> set frags"
  shows "read_messages d frags = (case parse_stream (pending d @ concat frags) of (ms, e, rest) \<Rightarrow>
     (ms, case e of None \<Rightarrow> PeerClosed | Some e \<Rightarrow> e))"
  using assms
proof (induction d frags rule: read_messages.induct)
  case (1 d frags)
  obtain r d' reads where n: "next_message d (map Some frags) = (r, d', reads)" by (metis prod_cases3)
  note N = next_message_parse [OF "1.prems" n]
  obtain ms e rest where p: "parse_stream (pending d @ concat frags) = (ms, e, rest)" by (metis prod_cases3)
  show ?case
  proof (cases ms)
    case Nil
    then show ?thesis using N p "1.prems" by (auto simp: read_messages.simps [of d] n split: option.splits)
  next
    case (Cons m ms')
    with N p obtain frags' where f: "r = Inr m" "reads = map Some frags'" "[] \<notin> set frags'" "decoder_ok d'"
      "parse_stream (pending d' @ concat frags') = (ms', e, rest)" by auto
    from "1.IH" [OF _ n [symmetric] f(1) refl] f "1.prems"
    have "read_messages d' frags' = (ms', case e of None \<Rightarrow> PeerClosed | Some e \<Rightarrow> e)"
      by (simp add: comp_def)
    then show ?thesis using f "1.prems" p Cons by (simp add: read_messages.simps [of d] n comp_def)
  qed
qed


section \<open>Round trips\<close>

definition msg_valid :: "peer_message \<Rightarrow> bool" where
  "msg_valid m = (case m of
     Have i \<Rightarrow> i < 2 ^ 32
   | BitfieldMsg bs \<Rightarrow> length bs < MAX_MESSAGE_LEN
   | Request i b l \<Rightarrow> i < 2 ^ 32 \<and> b < 2 ^ 32 \<and> l < 2 ^ 32
   | Piece i b block \<Rightarrow> i < 2 ^ 32 \<and> b < 2 ^ 32 \<and> length block + 9 \<le> MAX_MESSAGE_LEN
   | Extended x payload \<Rightarrow> length payload + 2 \<le> MAX_MESSAGE_LEN
   | _ \<Rightarrow> True)"

lemma be_bytes4: "n < 2 ^ 32 \<Longrightarrow> be_val (be_bytes 4 n) = n"
  by (rule be_val_be_bytes) simp

definition msg_id :: "peer_message \<Rightarrow> byte" where
  "msg_id m = (case m of KeepAlive \<Rightarrow> 0 | Choke \<Rightarrow> 0 | Unchoke \<Rightarrow> 1 | Interested \<Rightarrow> 2 | NotInterested \<Rightarrow> 3 | Have _ \<Rightarrow> 4
     | BitfieldMsg _ \<Rightarrow> 5 | Request _ _ _ \<Rightarrow> 6 | Piece _ _ _ \<Rightarrow> 7 | Extended _ _ \<Rightarrow> 20)"

definition msg_payload :: "peer_message \<Rightarrow> bytes" where
  "msg_payload m = (case m of Have i \<Rightarrow> be_bytes 4 i | BitfieldMsg bs \<Rightarrow> bs
     | Request i b l \<Rightarrow> be_bytes 4 i @ be_bytes 4 b @ be_bytes 4 l
     | Piece i b block \<Rightarrow> be_bytes 4 i @ be_bytes 4 b @ block
     | Extended x payload \<Rightarrow> x # payload | _ \<Rightarrow> [])"

lemma max_message_small: "n \<le> MAX_MESSAGE_LEN \<Longrightarrow> n < 2 ^ 32"
  by (simp add: MAX_MESSAGE_LEN_def)

lemma send_message_frame:
  assumes "msg_valid m" "m \<noteq> KeepAlive"
  shows "send_message m = be_bytes 4 (Suc (length (msg_payload m))) @ [msg_id m] @ msg_payload m"
    "Suc (length (msg_payload m)) \<le> MAX_MESSAGE_LEN"
proof -
  have one: "be_bytes 4 (Suc 0) = [0, 0, 0, 1]" by code_simp
  have u: "k + n \<le> MAX_MESSAGE_LEN \<Longrightarrow> as_u32 (k + as_u32 n) = k + n" for k n
    using max_message_small [of "k + n"] max_message_small [of n] by simp
  show "send_message m = be_bytes 4 (Suc (length (msg_payload m))) @ [msg_id m] @ msg_payload m"
    using assms u [of 1] u [of 2] u [of 9]
    by (cases m) (simp_all add: msg_valid_def msg_payload_def msg_id_def one
      send_choke_def send_unchoke_def send_interested_def send_not_interested_def send_have_def
      send_bitfield_def send_request_def send_piece_def send_extended_def)
  show "Suc (length (msg_payload m)) \<le> MAX_MESSAGE_LEN"
    using assms by (cases m) (auto simp: msg_valid_def msg_payload_def MAX_MESSAGE_LEN_def)
qed

lemma parse_message_payload:
  assumes "msg_valid m" "m \<noteq> KeepAlive"
  shows "parse_message (msg_id m) (msg_payload m) = Inr (Some m)"
  using assms by (cases m)
    (simp_all add: msg_valid_def msg_id_def msg_payload_def parse_message_def slice_def be_bytes4)

lemma parse_stream_send:
  assumes "msg_valid m"
  shows "parse_stream (send_message m @ bs) = (let (ms, e, rest) = parse_stream bs in (m # ms, e, rest))"
proof (cases "m = KeepAlive")
  case True
  have "be_val [0, 0, 0, 0] = 0" by (simp add: be_val_def)
  then show ?thesis
    by (subst parse_stream.simps) (simp add: True send_keepalive_def incomplete_def frame_message_def)
next
  case False
  define len where "len = Suc (length (msg_payload m))"
  note s = send_message_frame [OF assms False, folded len_def]
  have v: "be_val (take 4 (send_message m @ bs)) = len"
    using s be_bytes4 [OF max_message_small [OF s(2)]] by simp
  have l: "length (send_message m) = 4 + len" by (simp add: s(1) len_def)
  have i: "\<not> incomplete (send_message m @ bs)" unfolding incomplete_def v by (simp add: l)
  have "frame_message (send_message m @ bs) len = Inr (Some m)"
    by (simp add: frame_message_def s(1) slice_def len_def nth_append parse_message_payload [OF assms False])
  then show ?thesis using parse_stream_frame [OF i v s(2)] l by simp
qed

lemma parse_stream_sends:
  "list_all msg_valid ms \<Longrightarrow> parse_stream (concat (map send_message ms)) = (ms, None, [])"
  by (induction ms) (simp_all add: parse_stream_send parse_stream.simps [of "[]"] incomplete_def)


section \<open>Bounds\<close>

definition BUFFER_BOUND :: nat where
  "BUFFER_BOUND = COMPACT_THRESHOLD + (4 + MAX_MESSAGE_LEN) + READ_CHUNK"

lemma next_message_bound:
  "decoder_ok d \<Longrightarrow> length (md_buf d) \<le> BUFFER_BOUND \<Longrightarrow>
   list_all (\<lambda>r. case r of None \<Rightarrow> True | Some c \<Rightarrow> length c \<le> READ_CHUNK) reads \<Longrightarrow>
   next_message d reads = (r, d', reads') \<Longrightarrow>
     decoder_ok d' \<and> length (md_buf d') \<le> BUFFER_BOUND \<and> suffix reads' reads"
proof (induction d reads rule: next_message.induct)
  case (1 d reads)
  obtain r1 d1 where d: "decode d = (r1, d1)" by fastforce
  note ok = decode_ok [OF d "1.prems"(1)]
  have b: "length (md_buf d1) \<le> BUFFER_BOUND" using ok(2) "1.prems"(2) by simp
  show ?case
  proof (cases "r1 = Inr None \<and> (\<exists>c rest. reads = Some c # rest \<and> c \<noteq> [])")
    case True
    then obtain c rest where c: "reads = Some c # rest" "c \<noteq> []" "r1 = Inr None" by auto
    have n: "next_message (feed c d1) rest = (r, d', reads')"
      using "1.prems"(4) c by (simp add: next_message.simps [of d] d)
    have "length (md_buf (feed c d1)) \<le> BUFFER_BOUND"
      using ok(3) c "1.prems"(3) by (simp add: feed_def BUFFER_BOUND_def)
    from "1.IH" [OF d [symmetric] c(3) refl c(1) refl c(2) feed_ok(1) [OF ok(1)] this _ n] "1.prems"(3) c(1)
    show ?thesis by (auto intro: suffix_ConsI)
  next
    case False
    then have "d' = d1 \<and> suffix reads' reads"
      using "1.prems"(4) by (auto simp: next_message.simps [of d] d suffix_def
          split: sum.splits option.splits list.splits)
    with ok(1) b show ?thesis by simp
  qed
qed

section \<open>The handshake\<close>

definition handshake_wf :: "handshake \<Rightarrow> bool" where
  "handshake_wf h \<longleftrightarrow> length (hs_reserved h) = 8 \<and> length (hs_info_hash h) = 20 \<and> length (hs_peer_id h) = 20"

lemma length_protocol_string: "length PROTOCOL_STRING = 19"
  by (simp add: PROTOCOL_STRING_def)

lemma handshake_as_bytes_eq:
  assumes "handshake_wf h"
  shows "handshake_as_bytes h = 19 # PROTOCOL_STRING @ hs_reserved h @ hs_info_hash h @ hs_peer_id h"
proof -
  have r: "(replicate HANDSHAKE_LEN 0 :: bytes)[0 := word_of_nat (length PROTOCOL_STRING)] = 19 # replicate 67 0"
    by (simp add: HANDSHAKE_LEN_def length_protocol_string numeral_eq_Suc)
  show ?thesis using assms unfolding handshake_as_bytes_def r
    by (simp add: splice_def length_protocol_string handshake_wf_def)
qed

lemma handshake_parse_print:
  assumes "handshake_wf h"
  shows "handshake_from_bytes (handshake_as_bytes h) = Inr h"
  using assms
  by (simp add: handshake_from_bytes_def handshake_as_bytes_eq length_protocol_string handshake_wf_def
      HANDSHAKE_LEN_def slice_def)

lemma handshake_print_parse:
  assumes "handshake_from_bytes bs = Inr h"
  shows "handshake_wf h" "handshake_as_bytes h = bs"
proof -
  have b: "length bs = 68" "unat (bs ! 0) = 19" "slice 1 20 bs = PROTOCOL_STRING"
    "h = \<lparr>hs_reserved = slice 20 28 bs, hs_info_hash = slice 28 48 bs, hs_peer_id = slice 48 68 bs\<rparr>"
    using assms by (auto simp: handshake_from_bytes_def HANDSHAKE_LEN_def length_protocol_string split: if_splits)
  show wf: "handshake_wf h" using b(1) by (simp add: b(4) handshake_wf_def)
  have "bs ! 0 = 19" using b(2) by (metis of_nat_numeral of_nat_unat ucast_id)
  then have "bs = 19 # drop 1 bs" using b(1) by (cases bs) auto
  also have "drop 1 bs = slice 1 20 bs @ slice 20 28 bs @ slice 28 48 bs @ slice 48 68 bs"
    using b(1) slice_append_slice [of 28 48 68 bs] slice_append_slice [of 20 28 68 bs] slice_append_slice [of 1 20 68 bs]
    by (simp add: slice_def)
  finally have e: "bs = 19 # slice 1 20 bs @ slice 20 28 bs @ slice 28 48 bs @ slice 48 68 bs" .
  show "handshake_as_bytes h = bs"
    unfolding handshake_as_bytes_eq [OF wf] b(3) [symmetric] using e [symmetric] by (simp add: b(4))
qed

inductive decoder_reachable :: "message_decoder \<Rightarrow> bool" where
  fresh: "decoder_reachable decoder_new"
| read: "decoder_reachable d \<Longrightarrow> list_all (\<lambda>r. case r of None \<Rightarrow> True | Some c \<Rightarrow> length c \<le> READ_CHUNK) reads \<Longrightarrow>
    next_message d reads = (r, d', reads') \<Longrightarrow> decoder_reachable d'"

section \<open>Properties\<close>

text \<open>C15. Framing does not depend on how the network fragments the stream: reading messages one by one from
  any sequence of non-empty reads gives exactly the messages, in order, and the first error of the reference
  parser on the concatenation; in particular what the encoders of this program write, cut anywhere, is read
  back as the messages that were sent.\<close>

theorem decoder_any_fragmentation:
  assumes "[] \<notin> set frags"
  shows "read_messages decoder_new frags = (case parse_stream (concat frags) of (ms, e, rest) \<Rightarrow>
           (ms, case e of None \<Rightarrow> PeerClosed | Some e \<Rightarrow> e))
    \<and> (list_all msg_valid ms \<longrightarrow> concat frags = concat (map send_message ms) \<longrightarrow>
         read_messages decoder_new frags = (ms, PeerClosed))"
  using read_messages_parse [OF feed_ok(2) assms] parse_stream_sends [of ms] by auto

theorem decoder_any_fragmentation_witness:
  "read_messages decoder_new [[0, 0, 0], [1, 1, 0, 0], [0, 5, 4, 0], [0, 0, 7]] = ([Unchoke, Have 7], PeerClosed)"
proof -
  have "list_all msg_valid [Unchoke, Have 7]" by (simp add: msg_valid_def)
  moreover have "concat [[0, 0, 0], [1, 1, 0, 0], [0, 5, 4, 0], [0, 0, 7]] = concat (map send_message [Unchoke, Have 7])"
    by code_simp
  ultimately show ?thesis
    using decoder_any_fragmentation [of "[[0, 0, 0], [1, 1, 0, 0], [0, 5, 4, 0], [0, 0, 7]]" "[Unchoke, Have 7]"] by auto
qed

text \<open>The receive buffer is bounded: whatever a peer sends and however long the session runs, the
  decoder never holds more than one maximal message, the compaction threshold and one read (1130500 bytes).\<close>

theorem decoder_buffer_bounded:
  assumes "decoder_reachable d"
  shows "length (md_buf d) \<le> 1130500 \<and> md_pos d \<le> length (md_buf d)"
proof -
  have "decoder_ok d \<and> length (md_buf d) \<le> BUFFER_BOUND"
    using assms
  proof induction
    case fresh
    then show ?case by (simp add: decoder_new_def decoder_ok_def)
  next
    case (read d reads r d' reads')
    then show ?case using next_message_bound by blast
  qed
  then show ?thesis
    by (simp add: decoder_ok_def BUFFER_BOUND_def COMPACT_THRESHOLD_def MAX_MESSAGE_LEN_def READ_CHUNK_def)
qed

theorem decoder_buffer_bounded_witness:
  "length (md_buf (fst (snd (next_message decoder_new [Some [0, 0, 0, 1, 1, 0]])))) \<le> 1130500"
proof -
  obtain r d' reads' where n: "next_message decoder_new [Some [0, 0, 0, 1, 1, 0]] = (r, d', reads')"
    by (metis prod_cases3)
  have "decoder_reachable d'"
    by (rule decoder_reachable.read [OF decoder_reachable.fresh _ n]) (simp add: READ_CHUNK_def)
  from decoder_buffer_bounded [OF this] n show ?thesis by simp
qed

text \<open>The handshake round-trips: every handshake with fields of the right lengths is parsed back from its
  68 bytes, every accepted input is the serialisation of the result, and the client's own handshake announces
  the extension protocol.\<close>

theorem handshake_roundtrip:
  "(handshake_wf h \<longrightarrow> handshake_from_bytes (handshake_as_bytes h) = Inr h)
   \<and> (handshake_from_bytes bs = Inr h \<longrightarrow> handshake_wf h \<and> handshake_as_bytes h = bs)
   \<and> supports_extension_protocol (handshake_new info_hash peer_id)"
proof (intro conjI impI)
  show "supports_extension_protocol (handshake_new info_hash peer_id)"
    by (simp add: supports_extension_protocol_def handshake_new_def)
qed (auto intro: handshake_parse_print handshake_print_parse)

theorem handshake_roundtrip_witness:
  "handshake_from_bytes (handshake_as_bytes (handshake_new (replicate 20 1) (replicate 20 2)))
     = Inr (handshake_new (replicate 20 1) (replicate 20 2))"
  using handshake_roundtrip [of "handshake_new (replicate 20 1) (replicate 20 2)"]
  by (simp add: handshake_wf_def handshake_new_def)

end
