(* ===== verification/PieceStore.thy ===== *)
theory PieceStore
  imports DiskSpec
begin

text \<open>
  The contract of \<open>AsyncDiskIO\<close> that the coordinator relies on: what a write, a read, a flush and a change of
  the selection do to the byte string on disk and to the part of it that survives a crash. Both backends are
  interpretations, the standard one as long as none of its writes is lost without an error.
\<close>

section \<open>Durability of single bytes\<close>

definition cell :: "filesystem \<Rightarrow> path \<Rightarrow> nat \<Rightarrow> byte" where
  "cell fs p off = (if off < length (contents fs p) then contents fs p ! off else 0)"

text \<open>A byte of the torrent is durable if a crash, followed by the opening that extends files with zeros,
  leaves it as it is.\<close>

definition durable :: "file_mapping list \<Rightarrow> filesystem \<Rightarrow> nat \<Rightarrow> bool" where
  "durable ms fs k = (case locate ms k of
     None \<Rightarrow> True
   | Some i \<Rightarrow> cell (after_crash fs) (fm_path (ms ! i)) (k - fm_start (ms ! i))
               = cell fs (fm_path (ms ! i)) (k - fm_start (ms ! i)))"

definition dirty_at :: "file_mapping list \<Rightarrow> nat \<Rightarrow> bool" where
  "dirty_at ms k = (case locate ms k of None \<Rightarrow> False | Some i \<Rightarrow> fm_dirty (ms ! i))"

definition store_ok :: "disk \<Rightarrow> filesystem \<Rightarrow> bool" where
  "store_ok d fs \<longleftrightarrow> disk_wf d fs \<and> distinct (map fm_path (dk_files d))"

definition same_files :: "file_mapping list \<Rightarrow> file_mapping list \<Rightarrow> bool" where
  "same_files ms ms' \<longleftrightarrow> map (\<lambda>m. (fm_path m, fm_start m, fm_end m)) ms = map (\<lambda>m. (fm_path m, fm_start m, fm_end m)) ms'"

lemma same_filesD:
  assumes "same_files ms ms'"
  shows "length ms = length ms'" "i < length ms' \<Longrightarrow> fm_path (ms ! i) = fm_path (ms' ! i)"
    "i < length ms' \<Longrightarrow> fm_start (ms ! i) = fm_start (ms' ! i)" "i < length ms' \<Longrightarrow> fm_end (ms ! i) = fm_end (ms' ! i)"
    "map fm_path ms = map fm_path ms'"
proof -
  show l: "length ms = length ms'" using assms unfolding same_files_def by (rule map_eq_imp_length_eq)
  have eq: "fm_path (ms ! i) = fm_path (ms' ! i) \<and> fm_start (ms ! i) = fm_start (ms' ! i) \<and> fm_end (ms ! i) = fm_end (ms' ! i)"
    if "i < length ms'" for i
    using arg_cong [OF assms [unfolded same_files_def], of "\<lambda>xs. xs ! i"] that l by simp
  show "map fm_path ms = map fm_path ms'" using l eq by (simp add: list_eq_iff_nth_eq)
  show "i < length ms' \<Longrightarrow> fm_path (ms ! i) = fm_path (ms' ! i)"
    "i < length ms' \<Longrightarrow> fm_start (ms ! i) = fm_start (ms' ! i)" "i < length ms' \<Longrightarrow> fm_end (ms ! i) = fm_end (ms' ! i)"
    using eq by blast+
qed

lemma same_files_refl [simp]: "same_files ms ms"
  by (simp add: same_files_def)

lemma takeWhile_length_cong:
  "length xs = length ys \<Longrightarrow> (\<And>i. i < length ys \<Longrightarrow> P (xs ! i) = Q (ys ! i)) \<Longrightarrow>
     length (takeWhile P xs) = length (takeWhile Q ys)"
proof (induction xs ys rule: list_induct2)
  case (Cons x xs y ys)
  from Cons.prems [of 0] Cons.prems [of "Suc _"] Cons.IH show ?case by simp
qed simp

lemma same_files_layout:
  assumes "same_files ms ms'"
  shows "locate ms = locate ms'" "chained off ms = chained off ms'" "disk_end off ms = disk_end off ms'"
proof -
  note s = same_filesD [OF assms]
  have "length (takeWhile (\<lambda>m. fm_end m \<le> k) ms) = length (takeWhile (\<lambda>m. fm_end m \<le> k) ms')" for k
    using s by (intro takeWhile_length_cong) auto
  then show "locate ms = locate ms'" using s by (auto simp: locate_def Let_def fun_eq_iff)
  show "chained off ms = chained off ms'" using s(1-4)
  proof (induction ms ms' arbitrary: off rule: list_induct2)
    case (Cons x xs y ys)
    from Cons.prems [of 0] Cons.prems [of "Suc _"] Cons.IH show ?case by simp
  qed simp
  show "disk_end off ms = disk_end off ms'"
    using s(1) s(4) [of "length ms' - 1"] by (cases ms'; cases ms) (auto simp: disk_end_def last_conv_nth)
qed

lemma strip_same_files: "map strip ms' = map strip ms \<Longrightarrow> same_files ms' ms"
proof -
  assume "map strip ms' = map strip ms"
  then have "map (\<lambda>m. (fm_path m, fm_start m, fm_end m)) (map strip ms')
      = map (\<lambda>m. (fm_path m, fm_start m, fm_end m)) (map strip ms)" by simp
  then show ?thesis by (simp add: same_files_def comp_def)
qed

lemma stored_cell:
  assumes "layout_ok ms fs" "stored ms k" "locate ms k = Some i"
  shows "byte_at ms fs k = cell fs (fm_path (ms ! i)) (k - fm_start (ms ! i))"
proof -
  have i: "i < length ms" "fm_start (ms ! i) \<le> k" "k < fm_end (ms ! i)" using assms(3) by (rule locate_SomeD)+
  have o: "fm_open (ms ! i)" using assms(2,3) by (simp add: stored_def)
  then have "length (contents fs (fm_path (ms ! i))) = fm_end (ms ! i) - fm_start (ms ! i)"
    using assms(1) i(1) by (simp add: layout_ok_def sized_def)
  then have "k - fm_start (ms ! i) < length (contents fs (fm_path (ms ! i)))" using i by simp
  with o assms(3) show ?thesis by (simp add: byte_at_def cell_def)
qed

section \<open>Changing the selection\<close>

definition preallocates :: "(path \<Rightarrow> nat \<Rightarrow> filesystem \<Rightarrow> (io_error + unit) \<times> filesystem) \<Rightarrow> bool" where
  "preallocates opn \<longleftrightarrow> (\<forall>p len fs u fs'. opn p len fs = (Inr u, fs') \<longrightarrow>
     (\<forall>q. contents fs' q = (if q = p then set_len len (contents fs p) else contents fs q)) \<and> fs_stable fs' = fs_stable fs)"

lemma preallocatesD:
  assumes "preallocates opn" "opn p len fs = (Inr u, fs')"
  shows "contents fs' q = (if q = p then set_len len (contents fs p) else contents fs q)" "fs_stable fs' = fs_stable fs"
  using assms unfolding preallocates_def by blast+

lemma set_len_same [simp]: "set_len (length b) b = b"
  by (simp add: set_len_def)

lemma open_preallocated_preallocates: "preallocates (open_preallocated env)"
  unfolding preallocates_def open_preallocated_def Let_def
  by (auto simp: contents_def split: if_splits)

lemma uring_open_preallocates: "preallocates (uring_open env)"
  unfolding preallocates_def
proof (intro allI impI)
  fix p len fs u fs' assume u: "uring_open env p len fs = (Inr u, fs')"
  obtain r fs1 where r: "open_preallocated env p len fs = (r, fs1)" by fastforce
  with u have "r = Inr ()" "fs' = call fs1"
    by (auto simp: uring_open_def open_uring_def split: sum.splits if_splits)
  with r preallocatesD [OF open_preallocated_preallocates]
  show "(\<forall>q. contents fs' q = (if q = p then set_len len (contents fs p) else contents fs q)) \<and> fs_stable fs' = fs_stable fs"
    by auto
qed

lemma cell_set_len: "contents fs' p = set_len len (contents fs p) \<Longrightarrow> off < len \<Longrightarrow> cell fs' p off = cell fs p off"
  by (auto simp: cell_def set_len_def nth_append)

text \<open>Effect on one file: \<open>b\<close> says whether it is selected now.\<close>

definition reselected1 :: "bool \<Rightarrow> file_mapping \<Rightarrow> filesystem \<Rightarrow> file_mapping \<Rightarrow> filesystem \<Rightarrow> bool" where
  "reselected1 b m fs m' fs' \<longleftrightarrow>
     fm_path m' = fm_path m \<and> fm_start m' = fm_start m \<and> fm_end m' = fm_end m \<and> fm_open m' = b
     \<and> (fm_open m \<longrightarrow> b \<longrightarrow> m' = m)
     \<and> contents fs' (fm_path m) = (if b then set_len (fm_end m - fm_start m) (contents fs (fm_path m)) else contents fs (fm_path m))
     \<and> (contents (after_crash fs') (fm_path m) = contents (after_crash fs) (fm_path m)
        \<or> contents (after_crash fs') (fm_path m) = contents fs (fm_path m))"

lemma after_crash_cong: "fs_stable fs' = fs_stable fs \<Longrightarrow> contents (after_crash fs') p = contents (after_crash fs) p"
  by (simp add: after_crash_def contents_def)

lemma after_crash_simps [simp]:
  "contents (after_crash (call fs)) p = contents (after_crash fs) p"
  "contents (after_crash (sync q fs)) p = (if p = q then contents fs p else contents (after_crash fs) p)"
  by (simp_all add: after_crash_def contents_def sync_def)

lemma set_selection_loop_spec:
  assumes "preallocates opn"
  shows "set_selection_loop opn cls env sel idx ms fs = (Inr (), ms', fs') \<Longrightarrow> distinct (map fm_path ms) \<Longrightarrow> sized ms fs \<Longrightarrow>
    length ms' = length ms
    \<and> (\<forall>i < length ms. reselected1 (is_selected (Some sel) (idx + i)) (ms ! i) fs (ms' ! i) fs')
    \<and> (\<forall>q. q \<notin> fm_path ` set ms \<longrightarrow> contents fs' q = contents fs q \<and> fs_stable fs' q = fs_stable fs q)"
proof (induction ms arbitrary: idx fs ms')
  case Nil
  then show ?case by simp
next
  case (Cons m ms)
  let ?b = "is_selected (Some sel) idx"
  have new: "fm_path m \<notin> fm_path ` set ms" and dist: "distinct (map fm_path ms)" using Cons.prems(2) by auto
  have szm: "fm_open m \<Longrightarrow> length (contents fs (fm_path m)) = fm_end m - fm_start m" using Cons.prems(3) by (simp add: sized_def)
  obtain m' fs1 ms1 where step: "reselected1 ?b m fs m' fs1" "ms' = m' # ms1"
    "\<And>q. q \<noteq> fm_path m \<Longrightarrow> contents fs1 q = contents fs q \<and> fs_stable fs1 q = fs_stable fs q"
    "set_selection_loop opn cls env sel (Suc idx) ms fs1 = (Inr (), ms1, fs')"
  proof -
    consider (opn) "?b" "\<not> fm_open m" | (cls) "\<not> ?b" "fm_open m" | (same) "?b = fm_open m" by blast
    then show thesis
    proof cases
      case opn
      obtain r fs1 where o: "opn (fm_path m) (fm_end m - fm_start m) fs = (r, fs1)" by fastforce
      obtain r1 ms1 fs2 where l: "set_selection_loop opn cls env sel (Suc idx) ms fs1 = (r1, ms1, fs2)" by (metis prod_cases3)
      have r: "r = Inr ()" "ms' = m\<lparr>fm_open := True\<rparr> # ms1" "r1 = Inr ()" "fs2 = fs'"
        using Cons.prems(1) opn o l by (auto split: sum.splits)
      note P = preallocatesD [OF assms o [unfolded r]]
      show thesis
        by (rule that [of "m\<lparr>fm_open := True\<rparr>" fs1 ms1])
          (use opn r l P after_crash_cong [OF P(2)] in \<open>auto simp: reselected1_def\<close>)
    next
      case cls
      let ?fs1 = "sync (fm_path m) (call fs)"
      obtain r1 ms1 fs2 where l: "set_selection_loop opn cls env sel (Suc idx) ms (if cls then call ?fs1 else ?fs1) = (r1, ms1, fs2)"
        by (metis prod_cases3)
      have r: "ms' = m\<lparr>fm_open := False, fm_dirty := False\<rparr> # ms1" "r1 = Inr ()" "fs2 = fs'"
        using Cons.prems(1) cls l by (auto simp: Let_def split: if_splits)
      show thesis
        by (rule that [of "m\<lparr>fm_open := False, fm_dirty := False\<rparr>" "if cls then call ?fs1 else ?fs1" ms1])
          (use cls r l in \<open>auto simp: reselected1_def\<close>)
    next
      case same
      obtain r1 ms1 fs2 where l: "set_selection_loop opn cls env sel (Suc idx) ms fs = (r1, ms1, fs2)" by (metis prod_cases3)
      have keep: "fm_open m \<Longrightarrow> set_len (fm_end m - fm_start m) (contents fs (fm_path m)) = contents fs (fm_path m)"
        using szm set_len_same [of "contents fs (fm_path m)"] by simp
      have r: "ms' = m # ms1" "r1 = Inr ()" "fs2 = fs'" using Cons.prems(1) same l by auto
      show thesis
        by (rule that [of m fs ms1]) (use same r l keep in \<open>auto simp: reselected1_def\<close>)
    qed
  qed
  have other: "x \<in> set ms \<Longrightarrow> fm_path x \<noteq> fm_path m" for x using new by (metis imageI)
  have sz1: "sized ms fs1"
    unfolding sized_def
  proof (intro ballI impI)
    fix x assume "x \<in> set ms" "fm_open x"
    then show "length (contents fs1 (fm_path x)) = fm_end x - fm_start x"
      using Cons.prems(3) step(3) [OF other] by (simp add: sized_def)
  qed
  note IH = Cons.IH [OF step(4) dist sz1]
  have keep: "contents fs' (fm_path m) = contents fs1 (fm_path m)"
    "contents (after_crash fs') (fm_path m) = contents (after_crash fs1) (fm_path m)"
    using IH new by (auto simp: after_crash_def contents_def)
  have first: "reselected1 ?b m fs m' fs'" using step(1) keep unfolding reselected1_def by simp
  have rest: "reselected1 (is_selected (Some sel) (idx + Suc i)) (ms ! i) fs (ms1 ! i) fs'" if "i < length ms" for i
  proof -
    have "fm_path (ms ! i) \<noteq> fm_path m" using other that by simp
    then have "contents fs1 (fm_path (ms ! i)) = contents fs (fm_path (ms ! i))"
      "contents (after_crash fs1) (fm_path (ms ! i)) = contents (after_crash fs) (fm_path (ms ! i))"
      using step(3) by (auto simp: after_crash_def contents_def)
    moreover have "reselected1 (is_selected (Some sel) (Suc idx + i)) (ms ! i) fs1 (ms1 ! i) fs'" using IH that by blast
    ultimately show ?thesis unfolding reselected1_def by simp
  qed
  show ?case using IH first rest step(2,3) new by (auto simp: nth_Cons split: nat.split)
qed


section \<open>The contract\<close>

definition reselected :: "bool list \<Rightarrow> disk \<Rightarrow> filesystem \<Rightarrow> disk \<Rightarrow> filesystem \<Rightarrow> bool" where
  "reselected flags d fs d' fs' \<longleftrightarrow> dk_piece_length d' = dk_piece_length d
     \<and> length (dk_files d') = length (dk_files d)
     \<and> (\<forall>i < length (dk_files d).
          reselected1 (is_selected (Some flags) i) (dk_files d ! i) fs (dk_files d' ! i) fs')
     \<and> (\<forall>q. q \<notin> fm_path ` set (dk_files d) \<longrightarrow> fs_stable fs' q = fs_stable fs q)"

definition flushed :: "disk \<Rightarrow> filesystem \<Rightarrow> (io_error + unit) \<Rightarrow> disk \<Rightarrow> filesystem \<Rightarrow> bool" where
  "flushed d fs r d' fs' \<longleftrightarrow> dk_piece_length d' = dk_piece_length d
     \<and> map strip (dk_files d') = map strip (dk_files d) \<and> fs_cache fs' = fs_cache fs
     \<and> (\<forall>p. fs_stable fs' p = fs_stable fs p \<or> (p \<in> fm_path ` set (dk_files d) \<and> fs_stable fs' p = fs_cache fs p))
     \<and> (\<forall>i < length (dk_files d). fm_dirty (dk_files d ! i) \<longrightarrow> fm_open (dk_files d ! i) \<longrightarrow> \<not> fm_dirty (dk_files d' ! i) \<longrightarrow>
          fs_stable fs' (fm_path (dk_files d ! i)) = fs_cache fs (fm_path (dk_files d ! i)))
     \<and> (r = Inr () \<longrightarrow> (\<forall>m \<in> set (dk_files d'). \<not> fm_dirty m))"

locale piece_store =
  fixes ops :: "(disk \<times> filesystem) disk_ops"
  assumes write_law: "disk_wf d fs \<Longrightarrow> do_write ops i data (d, fs) = (r, d', fs') \<Longrightarrow>
      dk_piece_length d' = dk_piece_length d
      \<and> wrote False (i * dk_piece_length d) data 0 (dk_files d) fs r (dk_files d') fs'"
    and read_law: "disk_wf d fs \<Longrightarrow> 0 < len \<Longrightarrow> do_read ops i off len (d, fs) = (r', d', fs') \<Longrightarrow>
      d' = d \<and> fs_cache fs' = fs_cache fs \<and> fs_stable fs' = fs_stable fs
      \<and> (\<forall>b. r' = Inr b \<longrightarrow> i * dk_piece_length d + off + len \<le> length (disk_image d fs)
           \<and> b = slice (i * dk_piece_length d + off) (i * dk_piece_length d + off + len) (disk_image d fs))"
    and flush_law: "do_flush ops (d, fs) = (r, d', fs') \<Longrightarrow> flushed d fs r d' fs'"
    and select_law: "store_ok d fs \<Longrightarrow> do_set_selection ops flags (d, fs) = (Inr u, d', fs') \<Longrightarrow>
      reselected flags d fs d' fs'"

lemma flush_loop_outside:
  "flush_loop env ms fs = (r, ms', fs') \<Longrightarrow> p \<notin> fm_path ` set ms \<Longrightarrow> fs_stable fs' p = fs_stable fs p"
proof (induction env ms fs arbitrary: r ms' fs' rule: flush_loop.induct)
  case (2 env m ms fs)
  then show ?case by (auto split: if_splits prod.splits)
qed simp

lemma flush_flushed:
  assumes "flush env d fs = (r, d', fs')"
  shows "flushed d fs r d' fs'"
proof -
  obtain ms where f: "flush_loop env (dk_files d) fs = (r, ms, fs')" "d' = d\<lparr>dk_files := ms\<rparr>"
    using assms by (auto simp: flush_def split: prod.splits)
  show ?thesis
    using flush_loop_spec [OF f(1)] flush_loop_outside [OF f(1)] unfolding flushed_def f(2) by auto
qed

lemma set_selection_reselected:
  assumes "preallocates opn" "store_ok d fs" "set_selection opn cls env flags d fs = (Inr u, d', fs')"
  shows "reselected flags d fs d' fs'"
proof -
  obtain ms where f: "set_selection_loop opn cls env flags 0 (dk_files d) fs = (Inr (), ms, fs')" "d' = d\<lparr>dk_files := ms\<rparr>"
    using assms(3) by (auto simp: set_selection_def split: prod.splits)
  show ?thesis
    using set_selection_loop_spec [OF assms(1) f(1)] assms(2)
    by (simp add: f(2) reselected_def store_ok_def disk_wf_def layout_ok_def)
qed

context file_io
begin

lemma store_write:
  assumes "disk_wf d fs" "write_piece wr i data d fs = (r, d', fs')"
  shows "dk_piece_length d' = dk_piece_length d
    \<and> wrote False (i * dk_piece_length d) data 0 (dk_files d) fs r (dk_files d') fs'"
proof -
  obtain ms where w: "write_loop wr (i * dk_piece_length d) data 0 (dk_files d) fs = (r, ms, fs')" "d' = d\<lparr>dk_files := ms\<rparr>"
    using assms(2) by (auto simp: write_piece_def split: prod.splits)
  have "layout_ok (dk_files d) fs" using assms(1) by (simp add: disk_wf_def)
  from write_loop_spec [OF this w(1)] show ?thesis by (simp add: w(2) wrote_def)
qed

lemma store_read:
  assumes "disk_wf d fs" "0 < len" "map_prod id (Pair d) (read_piece rd i off len d fs) = (r', d', fs')"
  shows "d' = d \<and> fs_cache fs' = fs_cache fs \<and> fs_stable fs' = fs_stable fs
      \<and> (\<forall>b. r' = Inr b \<longrightarrow> i * dk_piece_length d + off + len \<le> length (disk_image d fs)
           \<and> b = slice (i * dk_piece_length d + off) (i * dk_piece_length d + off + len) (disk_image d fs))"
proof -
  have "read_piece rd i off len d fs = (r', fs')" "d' = d" using assms(3) by (auto simp: map_prod_def split: prod.splits)
  with read_piece_spec [OF assms(1)] assms(2) show ?thesis by metis
qed

end

interpretation std_store: piece_store "std_ops (reporting env)" for env
proof (unfold_locales, goal_cases)
  case (1 d fs i data r d' fs')
  then show ?case by (intro std.store_write) simp_all
next
  case (2 d fs len i off r' d' fs')
  then show ?case by (intro std.store_read) simp_all
next
  case (3 d fs r d' fs')
  then show ?case by (intro flush_flushed) simp
next
  case (4 d fs flags u d' fs')
  then show ?case
    by (intro set_selection_reselected [OF open_preallocated_preallocates]) (auto simp: std_ops_def std_set_selection_def)
qed

interpretation uring_store: piece_store "uring_ops env" for env
proof (unfold_locales, goal_cases)
  case (1 d fs i data r d' fs')
  then show ?case by (intro uring.store_write) simp_all
next
  case (2 d fs len i off r' d' fs')
  then show ?case by (intro uring.store_read) simp_all
next
  case (3 d fs r d' fs')
  then show ?case by (intro flush_flushed) simp
next
  case (4 d fs flags u d' fs')
  then show ?case
    by (intro set_selection_reselected [OF uring_open_preallocates]) (auto simp: uring_ops_def uring_set_selection_def)
qed

end
