(* ===== verification/Pex.thy ===== *)
theory Pex
  imports Prelude
begin

text \<open>
  Peer exchange and the compact address format, \<open>net/pex.rs\<close>. An address is its octets and its port; the
  flow label and the scope of an IPv6 socket address are zero wherever the program builds one. The bencode
  form of a message is produced by \<open>serde_bencode\<close> and is not modelled.
\<close>

section \<open>Addresses and messages\<close>

datatype socket_addr = V4 bytes nat | V6 bytes nat

fun port_of :: "socket_addr \<Rightarrow> nat" where
  "port_of (V4 ip port) = port"
| "port_of (V6 ip port) = port"

record pex_message =
  px_added :: bytes
  px_added_f :: bytes
  px_added6 :: bytes
  px_added6_f :: bytes
  px_dropped :: bytes
  px_dropped6 :: bytes

text \<open>\<open>Ipv6Addr::to_ipv4_mapped\<close>: the prefix \<open>::ffff:0:0/96\<close>.\<close>

definition MAPPED_PREFIX :: bytes where
  "MAPPED_PREFIX = replicate 10 0 @ [0xFF, 0xFF]"

definition to_ipv4_mapped :: "bytes \<Rightarrow> bytes option" where
  "to_ipv4_mapped octets = (if take 12 octets = MAPPED_PREFIX then Some (drop 12 octets) else None)"

definition canonical :: "socket_addr \<Rightarrow> socket_addr" where
  "canonical peer = (case peer of
     V6 ip port \<Rightarrow> (case to_ipv4_mapped ip of Some ip4 \<Rightarrow> V4 ip4 port | None \<Rightarrow> V6 ip port)
   | V4 ip port \<Rightarrow> V4 ip port)"

fun split_compact :: "socket_addr list \<Rightarrow> bytes \<times> bytes" where
  "split_compact [] = ([], [])"
| "split_compact (peer # peers) =
     (let (v4, v6) = split_compact peers in
      case canonical peer of
        V4 ip port \<Rightarrow> (ip @ be_bytes 2 port @ v4, v6)
      | V6 ip port \<Rightarrow> (v4, ip @ be_bytes 2 port @ v6))"

definition encode_compact_ipv4 :: "socket_addr list \<Rightarrow> bytes" where
  "encode_compact_ipv4 peers = fst (split_compact peers)"

definition read_ipv4 :: "bytes \<Rightarrow> socket_addr" where
  "read_ipv4 chunk = V4 (take 4 chunk) (be_val (slice 4 6 chunk))"

definition read_ipv6 :: "bytes \<Rightarrow> socket_addr" where
  "read_ipv6 chunk = V6 (take 16 chunk) (be_val (slice 16 18 chunk))"

definition decode_compact_ipv4 :: "bytes \<Rightarrow> socket_addr list" where
  "decode_compact_ipv4 bs = map read_ipv4 (chunks_exact 6 bs)"

definition decode_compact_ipv6 :: "bytes \<Rightarrow> socket_addr list" where
  "decode_compact_ipv6 bs = map read_ipv6 (chunks_exact 18 bs)"

definition decode_compact_peers :: "bytes \<Rightarrow> socket_addr list" where
  "decode_compact_peers bs = (if length bs = 18 then decode_compact_ipv6 bs else decode_compact_ipv4 bs)"

definition from_peers :: "socket_addr list \<Rightarrow> socket_addr list \<Rightarrow> pex_message" where
  "from_peers added dropped =
     (let (added4, added6) = split_compact added;
          (dropped4, dropped6) = split_compact dropped
      in \<lparr>px_added = added4, px_added_f = replicate (length added4 div 6) 0, px_added6 = added6,
          px_added6_f = replicate (length added6 div 18) 0, px_dropped = dropped4, px_dropped6 = dropped6\<rparr>)"

definition decode_added_ipv4 :: "pex_message \<Rightarrow> socket_addr list" where
  "decode_added_ipv4 msg = decode_compact_ipv4 (px_added msg)"

definition decode_added :: "pex_message \<Rightarrow> socket_addr list" where
  "decode_added msg = decode_compact_ipv4 (px_added msg) @ decode_compact_ipv6 (px_added6 msg)"

section \<open>The two codecs\<close>

fun is_v4 :: "socket_addr \<Rightarrow> bool" where
  "is_v4 (V4 ip port) = True"
| "is_v4 (V6 ip port) = False"

fun addr_wf :: "socket_addr \<Rightarrow> bool" where
  "addr_wf (V4 ip port) \<longleftrightarrow> length ip = 4 \<and> port < 2 ^ 16"
| "addr_wf (V6 ip port) \<longleftrightarrow> length ip = 16 \<and> port < 2 ^ 16"

fun addr_bytes :: "socket_addr \<Rightarrow> bytes" where
  "addr_bytes (V4 ip port) = ip @ be_bytes 2 port"
| "addr_bytes (V6 ip port) = ip @ be_bytes 2 port"

lemma be_val_port: "port < 2 ^ 16 \<Longrightarrow> be_val (be_bytes 2 port) = port"
  by (rule be_val_be_bytes) simp

interpretation v4: fixed_width_codec 6 "\<lambda>a. is_v4 a \<and> addr_wf a" addr_bytes read_ipv4
proof (unfold_locales, goal_cases)
  case (2 x)
  then show ?case by (cases x) simp_all
next
  case (3 x)
  then show ?case by (cases x) (simp_all add: read_ipv4_def slice_def be_val_port)
qed simp

interpretation v6: fixed_width_codec 18 "\<lambda>a. \<not> is_v4 a \<and> addr_wf a" addr_bytes read_ipv6
proof (unfold_locales, goal_cases)
  case (2 x)
  then show ?case by (cases x) simp_all
next
  case (3 x)
  then show ?case by (cases x) (simp_all add: read_ipv6_def slice_def be_val_port)
qed simp

lemma canonical_wf: "addr_wf a \<Longrightarrow> addr_wf (canonical a)"
  by (cases a) (auto simp: canonical_def to_ipv4_mapped_def split: option.split)

lemma split_compact_eq:
  "split_compact peers = (concat (map addr_bytes (filter is_v4 (map canonical peers))),
     concat (map addr_bytes (filter (Not \<circ> is_v4) (map canonical peers))))"
  by (induction peers) (auto split: socket_addr.splits)

lemma filter_wf:
  "list_all addr_wf peers \<Longrightarrow> list_all (\<lambda>a. is_v4 a \<and> addr_wf a) (filter is_v4 (map canonical peers))"
  "list_all addr_wf peers \<Longrightarrow> list_all (\<lambda>a. \<not> is_v4 a \<and> addr_wf a) (filter (Not \<circ> is_v4) (map canonical peers))"
  by (auto simp: list_all_iff canonical_wf)

lemma decode_split_compact:
  assumes "list_all addr_wf peers"
  shows "decode_compact_ipv4 (fst (split_compact peers)) = filter is_v4 (map canonical peers)"
    "decode_compact_ipv6 (snd (split_compact peers)) = filter (Not \<circ> is_v4) (map canonical peers)"
  using v4.chunks_enc [OF filter_wf(1) [OF assms], of "[]"] v6.chunks_enc [OF filter_wf(2) [OF assms], of "[]"]
  by (simp_all add: decode_compact_ipv4_def decode_compact_ipv6_def split_compact_eq)

section \<open>Properties\<close>

text \<open>C26. Peer exchange round-trips: the added list of a message built from any addresses decodes to exactly
  these addresses, IPv4 ones first and both kinds in order, where an IPv4-mapped IPv6 address counts as the
  IPv4 address it stands for; the flag strings have one byte per address, and trailing bytes of a truncated
  list are ignored.\<close>

theorem pex_roundtrip:
  assumes "list_all addr_wf added" "length junk < 6"
  shows "decode_added (from_peers added dropped)
      = filter is_v4 (map canonical added) @ filter (Not \<circ> is_v4) (map canonical added)
    \<and> length (px_added_f (from_peers added dropped)) = length (decode_added_ipv4 (from_peers added dropped))
    \<and> length (px_added_f (from_peers added dropped)) + length (px_added6_f (from_peers added dropped)) = length added
    \<and> decode_compact_ipv4 (encode_compact_ipv4 added @ junk) = filter is_v4 (map canonical added)"
proof -
  obtain a4 a6 where a: "split_compact added = (a4, a6)" by fastforce
  obtain d4 d6 where d: "split_compact dropped = (d4, d6)" by fastforce
  have D: "decode_compact_ipv4 a4 = filter is_v4 (map canonical added)"
    "decode_compact_ipv6 a6 = filter (Not \<circ> is_v4) (map canonical added)"
    using decode_split_compact [OF assms(1)] a by simp_all
  have L: "length a4 div 6 = length (filter is_v4 (map canonical added))"
    "length a6 div 18 = length (filter (Not \<circ> is_v4) (map canonical added))"
    using v4.length_concat_enc [OF filter_wf(1) [OF assms(1)]] v6.length_concat_enc [OF filter_wf(2) [OF assms(1)]] a
    by (auto simp: split_compact_eq)
  have S: "length (filter is_v4 (map canonical added)) + length (filter (Not \<circ> is_v4) (map canonical added)) = length added"
    using sum_length_filter_compl [of is_v4 "map canonical added"] by (simp add: comp_def)
  have J: "decode_compact_ipv4 (encode_compact_ipv4 added @ junk) = filter is_v4 (map canonical added)"
    using v4.chunks_enc [OF filter_wf(1) [OF assms(1)] assms(2)]
    by (simp add: decode_compact_ipv4_def encode_compact_ipv4_def split_compact_eq)
  show ?thesis using D L S J by (simp add: from_peers_def a d decode_added_def decode_added_ipv4_def)
qed

theorem pex_roundtrip_witness:
  "decode_added (from_peers [V6 (replicate 10 0 @ [255, 255, 10, 1, 2, 3]) 6881, V6 (replicate 16 1) 7] [])
     = [V4 [10, 1, 2, 3] 6881, V6 (replicate 16 1) 7]"
proof -
  have "decode_added (from_peers [V6 (replicate 10 0 @ [255, 255, 10, 1, 2, 3]) 6881, V6 (replicate 16 1) 7] [])
      = filter is_v4 (map canonical [V6 (replicate 10 0 @ [255, 255, 10, 1, 2, 3]) 6881, V6 (replicate 16 1) 7])
        @ filter (Not \<circ> is_v4) (map canonical [V6 (replicate 10 0 @ [255, 255, 10, 1, 2, 3]) 6881, V6 (replicate 16 1) 7])"
    by (rule pex_roundtrip [where junk = "[]", THEN conjunct1]) simp_all
  also have "\<dots> = [V4 [10, 1, 2, 3] 6881, V6 (replicate 16 1) 7]"
    by (simp add: canonical_def to_ipv4_mapped_def MAPPED_PREFIX_def numeral_eq_Suc)
  finally show ?thesis .
qed

end
