(* ===== verification/Coordinator.thy ===== *)
theory Coordinator
  imports DiskSpec Resume MetadataAssembler Wire Pex
begin

text \<open>
  The coordinator of one torrent, \<open>core/coordinator.rs\<close>: the task that owns the piece manager and the
  disk, answers the peer sessions and records progress. Its three states are a datatype, every arm of its
  message loop is one operation on a \<open>coordinator\<close>, and what it sends (replies, messages to the user
  interface, broadcast events) is the list of effects the operation returns. What is not part of the file is
  a field of \<open>coord_cfg\<close>: the disk backend, the faults of the file system, SHA-1, the decoder of the info
  dictionary, the random tie-break and the function that opens a disk. Percentages and speeds shown to the user are left
  out of the messages.
\<close>

section \<open>Messages and state\<close>

definition RESUME_PERSIST_INTERVAL :: duration where "RESUME_PERSIST_INTERVAL = secs 5"

datatype coordinator_msg =
    RequestWork bitfield
  | PeerBitfield bitfield
  | PeerHave nat
  | PeerGone bitfield
  | PieceDownloaded nat bytes
  | PieceFailed nat
  | GetCompletedPieces
  | ReadPiece nat nat nat
  | RequestMetadataWork
  | MetadataPieceDownloaded nat bytes
  | MetadataPieceFailed nat
  | Pause
  | Resume
  | SetSelection selection "bool list" bitfield

datatype coordinator_state =
    DownloadingMetadata metadata_assembler bytes path
  | CheckingFiles torrent_manager disk "bytes list" nat nat nat
  | DownloadingData torrent_manager disk bool bool

datatype session_event =
    PieceCompleted nat
  | ActivePeersSnapshot "socket_addr list"
  | EvDownloadComplete
  | EvSelectionChanged

datatype status_text = CheckingProgress nat nat | FileCheckComplete | FileSelectionUpdated

datatype core_message =
    Status status_text
  | MetadataReady torrent_meta
  | GlobalProgress
  | DownloadComplete
  | SelectionError io_error
  | PausedState bool

datatype coord_effect =
    ReplyWork "nat option"
  | ReplyCompleted "nat list"
  | ReplyBlock "bytes option"
  | ReplyMetadataWork "nat option"
  | Ui core_message
  | Announce session_event

record coordinator =
  co_state :: coordinator_state
  co_fs :: filesystem
  co_last_persist :: instant

record coord_cfg =
  cc_ops :: "(disk \<times> filesystem) disk_ops"
  cc_init :: "path \<Rightarrow> nat \<Rightarrow> nat \<Rightarrow> torrent_file list option \<Rightarrow> rstring \<Rightarrow> filesystem \<Rightarrow> (io_error + disk) \<times> filesystem"
  cc_env :: io_env
  cc_resume_path :: path
  cc_win :: bool
  cc_sha1 :: "bytes \<Rightarrow> bytes"
  cc_de_info :: "bytes \<Rightarrow> string + raw_info"
  cc_draw :: "nat \<Rightarrow> nat \<Rightarrow> nat"
  cc_exists :: "path \<Rightarrow> filesystem \<Rightarrow> bool"

definition manager_of :: "coordinator_state \<Rightarrow> torrent_manager option" where
  "manager_of st = (case st of
     DownloadingMetadata _ _ _ \<Rightarrow> None
   | CheckingFiles m _ _ _ _ _ \<Rightarrow> Some m
   | DownloadingData m _ _ _ \<Rightarrow> Some m)"

definition manager_mut :: "(torrent_manager \<Rightarrow> torrent_manager) \<Rightarrow> coordinator_state \<Rightarrow> coordinator_state" where
  "manager_mut f st = (case st of
     DownloadingMetadata a h dir \<Rightarrow> st
   | CheckingFiles m d hs pl tlen n \<Rightarrow> CheckingFiles (f m) d hs pl tlen n
   | DownloadingData m d p c \<Rightarrow> DownloadingData (f m) d p c)"

section \<open>Checking files\<close>

definition check_length :: "nat \<Rightarrow> nat \<Rightarrow> nat \<Rightarrow> nat \<Rightarrow> nat" where
  "check_length index total_pieces piece_length total_length =
     (if index = total_pieces - 1 then
        (let rem = as_u32 (total_length mod piece_length) in if rem = 0 then piece_length else rem)
      else piece_length)"

definition finish_check :: "torrent_manager \<Rightarrow> disk \<Rightarrow> coordinator_state \<times> coord_effect list" where
  "finish_check m d =
     (DownloadingData m d False (is_done m),
      (if is_done m then [Ui DownloadComplete, Announce EvDownloadComplete] else [])
      @ [Ui (Status FileCheckComplete)])"

definition check_tick :: "coord_cfg \<Rightarrow> coordinator \<Rightarrow> coordinator \<times> coord_effect list" where
  "check_tick cfg c = (case co_state c of
     CheckingFiles m d hashes pl tlen index \<Rightarrow>
       (let n = mgr_total_pieces m in
        if index \<ge> n then
          (let (st, eff) = finish_check m d in (c\<lparr>co_state := st\<rparr>, eff))
        else
          let (r, d', fs') = (if is_wanted m index
                              then do_read (cc_ops cfg) index 0 (check_length index n pl tlen) (d, co_fs c)
                              else (Inl IoFailed, d, co_fs c));
              verified = (case r of Inl _ \<Rightarrow> False | Inr data \<Rightarrow> cc_sha1 cfg data = hashes ! index);
              m' = (if verified then mark_completed index m else m);
              eff = (if verified \<and> is_servable m' index then [Announce (PieceCompleted index)] else [])
                    @ (if Suc index mod 10 = 0 \<or> Suc index = n
                       then [Ui (Status (CheckingProgress (Suc index) n)), Ui GlobalProgress] else []);
              c' = c\<lparr>co_fs := fs'\<rparr>
          in if Suc index \<ge> n then
               (let (st, eff') = finish_check m' d' in (c'\<lparr>co_state := st\<rparr>, eff @ eff'))
             else (c'\<lparr>co_state := CheckingFiles m' d' hashes pl tlen (Suc index)\<rparr>, eff))
   | _ \<Rightarrow> (c, []))"

section \<open>Persisting progress\<close>

definition persist_resume :: "coord_cfg \<Rightarrow> torrent_manager \<Rightarrow> filesystem \<Rightarrow> (io_error + unit) \<times> filesystem list" where
  "persist_resume cfg m fs = save_fastresume (cc_env cfg) (cc_resume_path cfg) (fr_from_manager m) fs"

text \<open>Progress is recorded only once the data is on disk.\<close>

definition flush_and_persist :: "coord_cfg \<Rightarrow> torrent_manager \<Rightarrow> disk \<Rightarrow> filesystem \<Rightarrow> disk \<times> filesystem" where
  "flush_and_persist cfg m d fs =
     (case do_flush (cc_ops cfg) (d, fs) of
        (Inl _, d', fs') \<Rightarrow> (d', fs')
      | (Inr _, d', fs') \<Rightarrow> (d', last (snd (persist_resume cfg m fs'))))"

section \<open>The message handlers\<close>

definition request_work :: "coord_cfg \<Rightarrow> bitfield \<Rightarrow> coordinator \<Rightarrow> coordinator \<times> coord_effect list" where
  "request_work cfg have c = (case co_state c of
     DownloadingData m d paused hc \<Rightarrow>
       if paused then (c, [ReplyWork None])
       else (let (work, m') = next_work_for (cc_draw cfg) have m
             in (c\<lparr>co_state := DownloadingData m' d paused hc\<rparr>, [ReplyWork work]))
   | _ \<Rightarrow> (c, [ReplyWork None]))"

definition piece_downloaded ::
  "coord_cfg \<Rightarrow> instant \<Rightarrow> nat \<Rightarrow> bytes \<Rightarrow> coordinator \<Rightarrow> coordinator \<times> coord_effect list" where
  "piece_downloaded cfg now index data c = (case co_state c of
     DownloadingData m d paused hc \<Rightarrow>
       if is_completed m index then (c, [])
       else (case do_write (cc_ops cfg) index data (d, co_fs c) of
         (Inl _, d', fs') \<Rightarrow>
           (c\<lparr>co_state := DownloadingData (return_work index m) d' paused hc, co_fs := fs'\<rparr>, [])
       | (Inr _, d', fs') \<Rightarrow>
           (let m' = mark_completed index m;
                persist = is_done m' \<or> now - co_last_persist c \<ge> RESUME_PERSIST_INTERVAL;
                (d'', fs'') = (if persist then flush_and_persist cfg m' d' fs' else (d', fs'));
                finished = is_done m' \<and> \<not> hc
            in (c\<lparr>co_state := DownloadingData m' d'' paused (hc \<or> finished), co_fs := fs'',
                  co_last_persist := (if persist then now else co_last_persist c)\<rparr>,
                (if is_servable m' index then [Announce (PieceCompleted index)] else [])
                @ [Ui GlobalProgress]
                @ (if finished then [Ui DownloadComplete, Announce EvDownloadComplete] else []))))
   | _ \<Rightarrow> (c, []))"

definition piece_failed :: "nat \<Rightarrow> coordinator \<Rightarrow> coordinator" where
  "piece_failed index c = (case co_state c of
     DownloadingData m d paused hc \<Rightarrow> c\<lparr>co_state := DownloadingData (return_work index m) d paused hc\<rparr>
   | _ \<Rightarrow> c)"

definition get_completed_pieces :: "coordinator \<Rightarrow> nat list" where
  "get_completed_pieces c = (case co_state c of
     DownloadingData m d paused hc \<Rightarrow> servable_pieces m
   | _ \<Rightarrow> [])"

definition read_block :: "coord_cfg \<Rightarrow> nat \<Rightarrow> nat \<Rightarrow> nat \<Rightarrow> coordinator \<Rightarrow> coordinator \<times> coord_effect list" where
  "read_block cfg index begn len c = (case co_state c of
     DownloadingData m d paused hc \<Rightarrow>
       if len > 0 \<and> len \<le> MAX_BLOCK_REQUEST \<and> is_servable m index then
         (case do_read (cc_ops cfg) index begn len (d, co_fs c) of
            (Inr block, d', fs') \<Rightarrow>
              (c\<lparr>co_state := DownloadingData m d' paused hc, co_fs := fs'\<rparr>, [ReplyBlock (Some block)])
          | (Inl _, d', fs') \<Rightarrow>
              (c\<lparr>co_state := DownloadingData m d' paused hc, co_fs := fs'\<rparr>, [ReplyBlock None]))
       else (c, [ReplyBlock None])
   | _ \<Rightarrow> (c, [ReplyBlock None]))"

definition request_metadata_work :: "coordinator \<Rightarrow> nat option" where
  "request_metadata_work c = (case co_state c of
     DownloadingMetadata a h dir \<Rightarrow> ma_next_missing_piece a
   | _ \<Rightarrow> None)"

definition metadata_total_size :: "torrent_meta \<Rightarrow> nat" where
  "metadata_total_size meta =
     (case tm_total_length meta of Some t \<Rightarrow> t | None \<Rightarrow> tm_piece_length meta * tm_pieces_count meta)"

text \<open>The metadata is complete and verified: open the disk and check what is there, or start from nothing.\<close>

definition enter_data :: "coord_cfg \<Rightarrow> torrent_meta \<Rightarrow> path \<Rightarrow> coordinator \<Rightarrow> coordinator" where
  "enter_data cfg meta output_dir c =
     (let m = from_completed (as_u32 (length (tm_pieces meta))) [];
          total_size = metadata_total_size meta
      in case cc_init cfg output_dir total_size (tm_piece_length meta) (tm_files meta) (tm_name meta) (co_fs c) of
           (Inl _, fs') \<Rightarrow> c\<lparr>co_fs := fs'\<rparr>
         | (Inr d, fs') \<Rightarrow>
             if cc_exists cfg (path_push (cc_win cfg) output_dir (tm_name meta)) fs'
             then c\<lparr>co_fs := fs',
                    co_state := CheckingFiles m d (tm_pieces meta) (tm_piece_length meta) total_size 0\<rparr>
             else c\<lparr>co_fs := fs', co_state := DownloadingData m d False False\<rparr>)"

definition metadata_piece_downloaded ::
  "coord_cfg \<Rightarrow> nat \<Rightarrow> bytes \<Rightarrow> coordinator \<Rightarrow> coordinator \<times> coord_effect list" where
  "metadata_piece_downloaded cfg index data c = (case co_state c of
     DownloadingMetadata a h dir \<Rightarrow>
       (let (r, a') = ma_add_piece index data a;
            c' = c\<lparr>co_state := DownloadingMetadata a' h dir\<rparr>
        in case r of
             Inr True \<Rightarrow>
               (case parse_torrent_metadata_bytes (cc_win cfg) (cc_sha1 cfg) (cc_de_info cfg) (ma_buffer a') h of
                  Inl _ \<Rightarrow> (c', [])
                | Inr meta \<Rightarrow> (enter_data cfg meta dir c', [Ui (MetadataReady meta)]))
           | _ \<Rightarrow> (c', []))
   | _ \<Rightarrow> (c, []))"

definition apply_set_selection ::
  "coord_cfg \<Rightarrow> selection \<Rightarrow> bool list \<Rightarrow> bitfield \<Rightarrow> coordinator \<Rightarrow> coordinator \<times> coord_effect list" where
  "apply_set_selection cfg sel flags refetch c = (case co_state c of
     DownloadingMetadata _ _ _ \<Rightarrow> (c, [])
   | CheckingFiles m d hs pl tlen n \<Rightarrow>
       (case do_set_selection (cc_ops cfg) flags (d, co_fs c) of
          (Inl e, d', fs') \<Rightarrow> (c\<lparr>co_state := CheckingFiles m d' hs pl tlen n, co_fs := fs'\<rparr>, [Ui (SelectionError e)])
        | (Inr _, d', fs') \<Rightarrow>
            (c\<lparr>co_state := CheckingFiles (apply_selection sel refetch m) d' hs pl tlen n, co_fs := fs'\<rparr>,
             [Ui GlobalProgress, Ui (Status FileSelectionUpdated)]))
   | DownloadingData m d paused hc \<Rightarrow>
       (case do_set_selection (cc_ops cfg) flags (d, co_fs c) of
          (Inl e, d', fs') \<Rightarrow> (c\<lparr>co_state := DownloadingData m d' paused hc, co_fs := fs'\<rparr>, [Ui (SelectionError e)])
        | (Inr _, d', fs') \<Rightarrow>
            (let m' = apply_selection sel refetch m;
                 (d'', fs'') = flush_and_persist cfg m' d' fs'
             in (c\<lparr>co_state := DownloadingData m' d'' paused (is_done m'), co_fs := fs''\<rparr>,
                 [Ui GlobalProgress, Ui (Status FileSelectionUpdated)]
                 @ (if is_done m' \<and> \<not> hc then [Ui DownloadComplete, Announce EvDownloadComplete]
                    else if \<not> is_done m' then [Announce EvSelectionChanged] else [])))))"

definition set_paused :: "bool \<Rightarrow> coordinator \<Rightarrow> coordinator \<times> coord_effect list" where
  "set_paused p c = (case co_state c of
     DownloadingData m d _ hc \<Rightarrow> (c\<lparr>co_state := DownloadingData m d p hc\<rparr>, [Ui (PausedState p)])
   | _ \<Rightarrow> (c, []))"

fun handle_msg :: "coord_cfg \<Rightarrow> instant \<Rightarrow> coordinator_msg \<Rightarrow> coordinator \<Rightarrow> coordinator \<times> coord_effect list" where
  "handle_msg cfg now (RequestWork have) c = request_work cfg have c"
| "handle_msg cfg now (PeerBitfield ps) c = (c\<lparr>co_state := manager_mut (add_peer_pieces ps) (co_state c)\<rparr>, [])"
| "handle_msg cfg now (PeerHave i) c = (c\<lparr>co_state := manager_mut (add_peer_piece i) (co_state c)\<rparr>, [])"
| "handle_msg cfg now (PeerGone ps) c = (c\<lparr>co_state := manager_mut (remove_peer_pieces ps) (co_state c)\<rparr>, [])"
| "handle_msg cfg now (PieceDownloaded i data) c = piece_downloaded cfg now i data c"
| "handle_msg cfg now (PieceFailed i) c = (piece_failed i c, [])"
| "handle_msg cfg now GetCompletedPieces c = (c, [ReplyCompleted (get_completed_pieces c)])"
| "handle_msg cfg now (ReadPiece i b l) c = read_block cfg i b l c"
| "handle_msg cfg now RequestMetadataWork c = (c, [ReplyMetadataWork (request_metadata_work c)])"
| "handle_msg cfg now (MetadataPieceDownloaded i data) c = metadata_piece_downloaded cfg i data c"
| "handle_msg cfg now (MetadataPieceFailed i) c = (c, [])"
| "handle_msg cfg now Pause c = set_paused True c"
| "handle_msg cfg now Resume c = set_paused False c"
| "handle_msg cfg now (SetSelection sel flags refetch) c = apply_set_selection cfg sel flags refetch c"

definition shutdown :: "coord_cfg \<Rightarrow> coordinator \<Rightarrow> coordinator" where
  "shutdown cfg c = (case co_state c of
     DownloadingData m d paused hc \<Rightarrow>
       (let (d', fs') = flush_and_persist cfg m d (co_fs c)
        in c\<lparr>co_state := DownloadingData m d' paused hc, co_fs := fs'\<rparr>)
   | _ \<Rightarrow> c)"

text \<open>One turn of the loop.\<close>

datatype coord_input = Msg instant coordinator_msg | CheckTick | Shutdown

fun coord_turn :: "coord_cfg \<Rightarrow> coord_input \<Rightarrow> coordinator \<Rightarrow> coordinator \<times> coord_effect list" where
  "coord_turn cfg (Msg now msg) c = handle_msg cfg now msg c"
| "coord_turn cfg CheckTick c = check_tick cfg c"
| "coord_turn cfg Shutdown c = (shutdown cfg c, [])"

end
