(* ===== verification/CoordinatorSpec.thy ===== *)
theory CoordinatorSpec
  imports PieceStore Coordinator
begin

text \<open>
  The invariant of the coordinator's storage and that every operation on it keeps it. \<open>torrent_facts\<close> collects
  what is fixed for a torrent: its hash function, piece hashes, files, piece length and resume path; \<open>flags\<close>
  are the files selected now. The lemmas about writes, flushes and reselections are proved in the locale
  \<open>piece_store\<close>, so for both disk backends at once.
\<close>

section \<open>The invariant\<close>

definition piece_end :: "nat \<Rightarrow> nat \<Rightarrow> nat \<Rightarrow> nat" where
  "piece_end pl tot p = min (p * pl + pl) tot"

text \<open>The disk is laid out like the files of the torrent, and exactly the files flagged are stored.\<close>

definition disk_matches :: "torrent_file list \<Rightarrow> bool list \<Rightarrow> disk \<Rightarrow> bool" where
  "disk_matches files flags d \<longleftrightarrow> length (dk_files d) = length files \<and> length flags = length files
     \<and> (\<forall>i < length files. fm_start (dk_files d ! i) = file_start files i
          \<and> fm_end (dk_files d ! i) = file_start files i + tf_length (files ! i)
          \<and> fm_open (dk_files d ! i) = flags ! i)"

text \<open>Every piece the coordinator would serve hashes to its expected hash.\<close>

definition pieces_verified :: "(bytes \<Rightarrow> bytes) \<Rightarrow> bytes list \<Rightarrow> torrent_manager \<Rightarrow> disk \<Rightarrow> filesystem \<Rightarrow> bool" where
  "pieces_verified sha1 hashes m d fs \<longleftrightarrow> (\<forall>p. is_servable m p \<longrightarrow>
     sha1 (slice (p * dk_piece_length d) (piece_end (dk_piece_length d) (length (disk_image d fs)) p) (disk_image d fs))
       = hashes ! p)"

text \<open>No stored byte of a completed piece is lost by a crash unless its file is still marked dirty.\<close>

definition crash_safe :: "torrent_manager \<Rightarrow> disk \<Rightarrow> filesystem \<Rightarrow> bool" where
  "crash_safe m d fs \<longleftrightarrow> (\<forall>k. k div dk_piece_length d \<in> mgr_completed m \<longrightarrow> stored (dk_files d) k \<longrightarrow>
     dirty_at (dk_files d) k \<or> durable (dk_files d) fs k)"

record torrent_facts =
  tf_sha1 :: "bytes \<Rightarrow> bytes"
  tf_hashes :: "bytes list"
  tf_files :: "torrent_file list"
  tf_piece_length :: nat
  tf_resume :: path

definition store_inv :: "torrent_facts \<Rightarrow> bool list \<Rightarrow> torrent_manager \<Rightarrow> disk \<Rightarrow> filesystem \<Rightarrow> bool" where
  "store_inv T flags m d fs \<longleftrightarrow>
     store_ok d fs \<and> disk_matches (tf_files T) flags d \<and> dk_piece_length d = tf_piece_length T
     \<and> 0 < tf_piece_length T \<and> sum_list (map tf_length (tf_files T)) < 2 ^ 64
     \<and> tf_resume T \<notin> fm_path ` set (dk_files d) \<and> tmp_sibling (tf_resume T) \<notin> fm_path ` set (dk_files d)
     \<and> mgr_inv m \<and> mgr_total_pieces m = length (tf_hashes T)
     \<and> length (tf_hashes T) = div_ceil (sum_list (map tf_length (tf_files T))) (tf_piece_length T)
     \<and> (\<forall>p < length (tf_hashes T). bf_has (sel_unservable (mgr_selection m)) p
          \<longleftrightarrow> holds_byte_of (tf_piece_length T) (tf_files T) (map Not flags) p)
     \<and> pieces_verified (tf_sha1 T) (tf_hashes T) m d fs \<and> crash_safe m d fs"

lemma store_invD:
  assumes "store_inv T flags m d fs"
  shows "store_ok d fs" "disk_matches (tf_files T) flags d" "dk_piece_length d = tf_piece_length T"
    "0 < tf_piece_length T" "sum_list (map tf_length (tf_files T)) < 2 ^ 64"
    "tf_resume T \<notin> fm_path ` set (dk_files d)" "tmp_sibling (tf_resume T) \<notin> fm_path ` set (dk_files d)"
    "mgr_inv m" "mgr_total_pieces m = length (tf_hashes T)"
    "length (tf_hashes T) = div_ceil (sum_list (map tf_length (tf_files T))) (tf_piece_length T)"
    "\<And>p. p < length (tf_hashes T) \<Longrightarrow> bf_has (sel_unservable (mgr_selection m)) p
          \<longleftrightarrow> holds_byte_of (tf_piece_length T) (tf_files T) (map Not flags) p"
    "pieces_verified (tf_sha1 T) (tf_hashes T) m d fs" "crash_safe m d fs"
    "layout_ok (dk_files d) fs" "chained 0 (dk_files d)"
  using assms unfolding store_inv_def store_ok_def disk_wf_def layout_ok_def by simp_all

lemma file_start_last: "files \<noteq> [] \<Longrightarrow>
    file_start files (length files - 1) + tf_length (files ! (length files - 1)) = sum_list (map tf_length files)"
proof -
  assume "files \<noteq> []"
  then obtain xs x where f: "files = xs @ [x]" by (metis rev_exhaust)
  then show ?thesis by (simp add: file_start_def)
qed

lemma disk_matches_end:
  assumes "disk_matches files flags d"
  shows "disk_end 0 (dk_files d) = sum_list (map tf_length files)"
proof (cases "dk_files d = []")
  case True
  then show ?thesis using assms by (simp add: disk_matches_def disk_end_def)
next
  case False
  then have "files \<noteq> []" "length (dk_files d) = length files" using assms by (auto simp: disk_matches_def)
  then show ?thesis using False assms file_start_last [of files]
    by (simp add: disk_end_def last_conv_nth disk_matches_def)
qed

lemma disk_matches_stored:
  assumes "disk_matches files flags d" "chained 0 (dk_files d)"
  shows "stored (dk_files d) k \<longleftrightarrow>
    (\<exists>i < length files. flags ! i \<and> file_start files i \<le> k \<and> k < file_start files i + tf_length (files ! i))"
proof -
  have "stored (dk_files d) k \<longleftrightarrow> (\<exists>i. locate (dk_files d) k = Some i \<and> fm_open (dk_files d ! i))"
    by (auto simp: stored_def split: option.splits)
  then show ?thesis using assms(1) unfolding locate_eq_Some_iff [OF assms(2)] disk_matches_def by auto
qed

text \<open>Between them the flags and their negations cover every byte exactly once.\<close>

lemma unstored_byte:
  assumes "disk_matches files flags d" "chained 0 (dk_files d)" "k < sum_list (map tf_length files)" "\<not> stored (dk_files d) k"
  shows "holds_byte_of pl files (map Not flags) (k div pl)"
proof -
  have "k < disk_end 0 (dk_files d)" using assms(1,3) by (simp add: disk_matches_end)
  then obtain i where i: "locate (dk_files d) k = Some i" using locate_None_iff [OF assms(2), of k] by (cases "locate (dk_files d) k") auto
  then have "\<not> fm_open (dk_files d ! i)" using assms(4) by (simp add: stored_def)
  with i assms(1) show ?thesis
    unfolding locate_eq_Some_iff [OF assms(2)] disk_matches_def holds_byte_of_def
    by (intro exI [of _ i]) auto
qed

lemma servable_stored:
  assumes inv: "store_inv T flags m d fs" and s: "is_servable m p" and k: "k div tf_piece_length T = p"
    "k < sum_list (map tf_length (tf_files T))"
  shows "stored (dk_files d) k"
proof (rule ccontr)
  assume "\<not> stored (dk_files d) k"
  then have "holds_byte_of (tf_piece_length T) (tf_files T) (map Not flags) p"
    using unstored_byte [OF store_invD(2,15) [OF inv] k(2)] k(1) by blast
  moreover have "p < length (tf_hashes T)"
    using s store_invD(9) [OF inv] mgr_invD(7) [OF store_invD(8) [OF inv]] by (auto simp: is_servable_def)
  ultimately show False using s store_invD(11) [OF inv] by (simp add: is_servable_def)
qed

lemma slice_image_cong:
  assumes "disk_end 0 (dk_files d') = disk_end 0 (dk_files d)"
    "\<And>k. a \<le> k \<Longrightarrow> k < b \<Longrightarrow> k < disk_end 0 (dk_files d) \<Longrightarrow> byte_at (dk_files d') fs' k = byte_at (dk_files d) fs k"
  shows "slice a b (disk_image d' fs') = slice a b (disk_image d fs)"
  using assms by (intro nth_equalityI) (auto simp: nth_slice disk_image_def)

text \<open>The invariant mentions the manager only through its completed pieces and its selection.\<close>

lemma store_inv_manager:
  assumes "store_inv T flags m d fs" "mgr_inv m'" "mgr_total_pieces m' = mgr_total_pieces m"
    "mgr_completed m' = mgr_completed m" "mgr_selection m' = mgr_selection m"
  shows "store_inv T flags m' d fs"
  using assms(1,2) unfolding store_inv_def pieces_verified_def crash_safe_def is_servable_def assms(3-5) by blast

lemma durable_cong:
  assumes "same_files (dk_files d') (dk_files d)"
    "\<And>p. p \<in> fm_path ` set (dk_files d) \<Longrightarrow> contents fs' p = contents fs p"
    "\<And>p. p \<in> fm_path ` set (dk_files d) \<Longrightarrow> contents (after_crash fs') p = contents (after_crash fs) p"
  shows "durable (dk_files d') fs' k = durable (dk_files d) fs k"
  using assms(2,3) same_filesD [OF assms(1)] locate_SomeD(1) [of "dk_files d" k]
  by (auto simp: durable_def same_files_layout [OF assms(1)] cell_def split: option.splits)


lemma cell_cong:
  "fs_cache fs' p = fs_cache fs p \<Longrightarrow> cell fs' p off = cell fs p off"
  "fs_stable fs' p = fs_stable fs p \<Longrightarrow> cell (after_crash fs') p off = cell (after_crash fs) p off"
  "fs_stable fs' p = fs_cache fs p \<Longrightarrow> cell (after_crash fs') p off = cell fs p off"
  by (simp_all add: cell_def after_crash_def contents_def)

text \<open>A disk whose files and open handles are the same keeps the static part.\<close>

lemma store_inv_update:
  assumes inv: "store_inv T flags m d fs" and st: "map strip (dk_files d') = map strip (dk_files d)"
    and pl: "dk_piece_length d' = dk_piece_length d" and lay: "layout_ok (dk_files d') fs'"
    and v: "pieces_verified (tf_sha1 T) (tf_hashes T) m d' fs'" and c: "crash_safe m d' fs'"
  shows "store_inv T flags m d' fs'"
proof -
  note I = store_invD [OF inv]
  note sf = same_filesD [OF strip_same_files [OF st]]
  have o: "i < length (dk_files d) \<Longrightarrow> fm_open (dk_files d' ! i) = fm_open (dk_files d ! i)" for i
    by (rule strip_eq(7) [OF st])
  have paths: "fm_path ` set (dk_files d') = fm_path ` set (dk_files d)" using sf(5) by (metis list.set_map)
  have "store_ok d' fs'" using I(1) lay sf(5) by (simp add: store_ok_def disk_wf_def)
  moreover have "disk_matches (tf_files T) flags d'" using I(2) sf(1,3,4) o by (simp add: disk_matches_def)
  ultimately show ?thesis
    using I v c unfolding store_inv_def paths by (simp add: pl)
qed

lemma piece_of_range: "0 < pl \<Longrightarrow> p * pl \<le> k \<Longrightarrow> k < p * pl + pl \<Longrightarrow> k div pl = (p :: nat)"
  by (metis add.commute div_nat_eqI mult.commute mult_Suc)

lemma range_of_piece: "0 < (pl :: nat) \<Longrightarrow> p * pl \<le> k \<and> k < p * pl + pl \<longleftrightarrow> k div pl = p"
  by (metis add.commute div_nat_eqI dividend_less_div_times div_times_less_eq_dividend mult.commute mult_Suc)

lemma piece_start_less: "p < div_ceil tot pl \<Longrightarrow> 0 < pl \<Longrightarrow> p * pl < tot"
  by (simp add: less_div_ceil_iff)

definition piece_size :: "torrent_facts \<Rightarrow> nat \<Rightarrow> nat" where
  "piece_size T p = piece_end (tf_piece_length T) (sum_list (map tf_length (tf_files T))) p - p * tf_piece_length T"

lemma piece_size_le: "piece_size T p \<le> tf_piece_length T"
  by (simp add: piece_size_def piece_end_def)

text \<open>Completing a piece whose bytes are right and safe.\<close>

lemma mark_keeps:
  assumes inv: "store_inv T flags m d fs" and p: "p < length (tf_hashes T)"
    and hash: "is_servable (mark_completed p m) p \<Longrightarrow>
      tf_sha1 T (slice (p * tf_piece_length T) (piece_end (tf_piece_length T) (length (disk_image d fs)) p) (disk_image d fs))
        = tf_hashes T ! p"
    and safe: "\<And>k. k div tf_piece_length T = p \<Longrightarrow> stored (dk_files d) k \<Longrightarrow> dirty_at (dk_files d) k \<or> durable (dk_files d) fs k"
  shows "store_inv T flags (mark_completed p m) d fs"
proof -
  note I = store_invD [OF inv]
  have c: "mgr_completed (mark_completed p m) = insert p (mgr_completed m)"
    using p I(9) by (simp add: mark_completed_completed)
  have s: "mgr_selection (mark_completed p m) = mgr_selection m" "mgr_total_pieces (mark_completed p m) = mgr_total_pieces m"
    by (simp_all add: mark_completed_def Let_def)
  have "pieces_verified (tf_sha1 T) (tf_hashes T) (mark_completed p m) d fs"
    unfolding pieces_verified_def
  proof (intro allI impI)
    fix q assume q: "is_servable (mark_completed p m) q"
    show "tf_sha1 T (slice (q * dk_piece_length d) (piece_end (dk_piece_length d) (length (disk_image d fs)) q) (disk_image d fs))
        = tf_hashes T ! q"
    proof (cases "q = p")
      case True
      then show ?thesis using hash q I(3) by simp
    next
      case False
      then have "is_servable m q" using q by (simp add: is_servable_def c s)
      then show ?thesis using I(12) by (simp add: pieces_verified_def)
    qed
  qed
  moreover have "crash_safe (mark_completed p m) d fs"
    using I(3,13) safe by (auto simp: crash_safe_def c)
  ultimately show ?thesis
    using I mark_completed_inv [OF I(8), of p] unfolding store_inv_def s by blast
qed

text \<open>The filesystem may change where the torrent has no file.\<close>

lemma store_inv_fs:
  assumes inv: "store_inv T flags m d fs"
    and c: "\<And>q. q \<in> fm_path ` set (dk_files d) \<Longrightarrow> contents fs' q = contents fs q"
    and ac: "\<And>q. q \<in> fm_path ` set (dk_files d) \<Longrightarrow> contents (after_crash fs') q = contents (after_crash fs) q"
  shows "store_inv T flags m d fs'"
proof -
  note I = store_invD [OF inv]
  have b: "byte_at (dk_files d) fs' k = byte_at (dk_files d) fs k" for k
    using c by (auto simp: byte_at_def dest: locate_SomeD(1) split: option.splits)
  then have im: "disk_image d fs' = disk_image d fs" by (simp add: disk_image_def)
  have du: "durable (dk_files d) fs' k = durable (dk_files d) fs k" for k
    using durable_cong [OF same_files_refl c ac] .
  have lay: "layout_ok (dk_files d) fs'"
    using I(14) c by (simp add: layout_ok_def sized_def)
  show ?thesis
    using I(12,13) by (intro store_inv_update [OF inv refl refl lay]) (simp_all add: pieces_verified_def crash_safe_def im du)
qed

text \<open>Two adjacent selections: a piece that is kept and servable afterwards only touches files stored before and after.\<close>

lemma kept_piece_files:
  assumes len: "length before = length files" "length after = length files"
    and nr: "\<not> holds_byte_of pl files (map (\<lambda>(was, now). \<not> was \<and> now) (zip before after)) p"
    and k: "i < length files" "file_start files i \<le> k" "k < file_start files i + tf_length (files ! i)" "k div pl = p"
    and a: "after ! i"
  shows "before ! i"
proof (rule ccontr)
  assume "\<not> before ! i"
  then have "holds_byte_of pl files (map (\<lambda>(was, now). \<not> was \<and> now) (zip before after)) p"
    unfolding holds_byte_of_def using len k a by (intro exI [of _ i]) auto
  then show False using nr by blast
qed

definition all_durable :: "disk \<Rightarrow> filesystem \<Rightarrow> bool" where
  "all_durable d fs \<longleftrightarrow> (\<forall>k. durable (dk_files d) fs k)"

definition selection_msg_ok :: "torrent_facts \<Rightarrow> bool list \<Rightarrow> selection \<Rightarrow> bool list \<Rightarrow> bitfield \<Rightarrow> bool" where
  "selection_msg_ok T before sel after refetch \<longleftrightarrow> length after = length (tf_files T)
     \<and> sel = sel_from_files (tf_files T) after (tf_piece_length T) (length (tf_hashes T))
     \<and> refetch = pieces_to_refetch (tf_files T) before after (tf_piece_length T) (length (tf_hashes T))"

lemma reselected_files:
  assumes R: "reselected after d fs d' fs'" and ok: "store_ok d fs" and len: "length (dk_files d) = length after"
  shows "same_files (dk_files d') (dk_files d)" "store_ok d' fs'"
    "i < length after \<Longrightarrow> reselected1 (after ! i) (dk_files d ! i) fs (dk_files d' ! i) fs'"
    "i < length after \<Longrightarrow> fm_open (dk_files d' ! i) = after ! i"
    "all_durable d fs \<Longrightarrow> all_durable d' fs'"
proof -
  have l: "length (dk_files d') = length (dk_files d)" using R by (simp add: reselected_def)
  show r1: "i < length after \<Longrightarrow> reselected1 (after ! i) (dk_files d ! i) fs (dk_files d' ! i) fs'" for i
    using R len by (auto simp: reselected_def is_selected_def)
  show op: "i < length after \<Longrightarrow> fm_open (dk_files d' ! i) = after ! i" for i using r1 by (simp add: reselected1_def)
  show sf: "same_files (dk_files d') (dk_files d)"
    unfolding same_files_def using r1 l len by (intro nth_equalityI) (auto simp: reselected1_def)
  note S = same_filesD [OF sf]
  have dist: "distinct (map fm_path (dk_files d'))" using ok S(5) by (simp add: store_ok_def)
  then have "paths_distinct (dk_files d')"
    unfolding paths_distinct_def by (metis distinct_conv_nth length_map nth_map)
  moreover have "sized (dk_files d') fs'"
    unfolding sized_def
  proof (intro ballI impI)
    fix m' assume "m' \<in> set (dk_files d')" "fm_open m'"
    then obtain i where i: "i < length after" "m' = dk_files d' ! i" using l len by (metis in_set_conv_nth)
    with r1 [OF i(1)] \<open>fm_open m'\<close> op show "length (contents fs' (fm_path m')) = fm_end m' - fm_start m'"
      by (auto simp: reselected1_def)
  qed
  ultimately show "store_ok d' fs'"
    using ok dist same_files_layout(2) [OF sf] by (simp add: store_ok_def disk_wf_def layout_ok_def)
  show "all_durable d' fs'" if ad: "all_durable d fs"
    unfolding all_durable_def
  proof
    fix k show "durable (dk_files d') fs' k"
    proof (cases "locate (dk_files d) k")
      case None
      then show ?thesis by (simp add: durable_def same_files_layout(1) [OF sf])
    next
      case (Some i)
      let ?m = "dk_files d ! i" and ?o = "k - fm_start (dk_files d ! i)"
      have i: "i < length after" "?o < fm_end ?m - fm_start ?m" using locate_SomeD [OF Some] len by auto
      note r = r1 [OF i(1), unfolded reselected1_def]
      have c: "cell fs' (fm_path ?m) ?o = cell fs (fm_path ?m) ?o"
        using r cell_set_len [OF _ i(2)] by (cases "after ! i") (auto simp: cell_def)
      have "cell (after_crash fs) (fm_path ?m) ?o = cell fs (fm_path ?m) ?o"
        using ad Some by (auto simp: all_durable_def durable_def dest: spec [of _ k])
      then have "cell (after_crash fs') (fm_path ?m) ?o = cell fs' (fm_path ?m) ?o"
        using r c by (auto simp: cell_def)
      then show ?thesis using Some i len by (simp add: durable_def same_files_layout(1) [OF sf] S(2,3))
    qed
  qed
qed

lemma reselect_keeps:
  assumes inv: "store_inv T before m d fs" and R: "reselected after d fs d' fs'"
    and msg: "selection_msg_ok T before sel after refetch"
  shows "store_inv T after (apply_selection sel refetch m) d' fs'"
proof -
  note I = store_invD [OF inv]
  let ?pl = "tf_piece_length T" and ?files = "tf_files T" and ?n = "length (tf_hashes T)"
  let ?m' = "apply_selection sel refetch m"
  have lens: "length (dk_files d) = length ?files" "length before = length ?files" "length after = length ?files"
    using I(2) msg by (simp_all add: disk_matches_def selection_msg_ok_def)
  note F = reselected_files [OF R I(1), unfolded lens, OF refl]
  note S = same_filesD [OF F(1)]
  have I2: "\<And>i. i < length ?files \<Longrightarrow> fm_start (dk_files d ! i) = file_start ?files i
          \<and> fm_end (dk_files d ! i) = file_start ?files i + tf_length (?files ! i) \<and> fm_open (dk_files d ! i) = before ! i"
    using I(2) by (simp add: disk_matches_def)
  have dm: "disk_matches ?files after d'" using I2 lens F(4) S by (simp add: disk_matches_def)
  have pl: "dk_piece_length d' = ?pl" using R I(3) by (simp add: reselected_def)
  have mx: "max ?pl (Suc 0) = ?pl" using I(4) by simp
  have uns: "bf_has (sel_unservable sel) p \<longleftrightarrow> p < ?n \<and> holds_byte_of ?pl ?files (map Not after) p" for p
    using msg I(5) by (simp add: selection_msg_ok_def sel_from_files_eq pieces_of_files_props mx)
  have ref: "p \<in> set (bf_iter_ones refetch) \<longleftrightarrow> p < ?n \<and>
      holds_byte_of ?pl ?files (map (\<lambda>(was, now). \<not> was \<and> now) (zip before after)) p" for p
    using msg I(5) by (simp add: selection_msg_ok_def pieces_to_refetch_def pieces_of_files_props mx bf_iter_ones_def)
  have m': "mgr_completed ?m' = mgr_completed m - set (bf_iter_ones refetch)" "mgr_selection ?m' = sel"
    "mgr_total_pieces ?m' = mgr_total_pieces m" by (simp_all add: apply_selection_def Let_def)
  text \<open>A file that holds a byte of a kept piece and is selected now was selected before and is unchanged.\<close>
  have kept: "stored (dk_files d) k \<and> byte_at (dk_files d') fs' k = byte_at (dk_files d) fs k
      \<and> (dirty_at (dk_files d) k \<or> durable (dk_files d) fs k \<longrightarrow> dirty_at (dk_files d') k \<or> durable (dk_files d') fs' k)"
    if p: "k div ?pl \<in> mgr_completed ?m'" and st: "stored (dk_files d') k" for k
  proof -
    obtain i where i: "locate (dk_files d') k = Some i" "fm_open (dk_files d' ! i)"
      using st by (auto simp: stored_def split: option.splits)
    have i0: "locate (dk_files d) k = Some i" using i(1) by (simp add: same_files_layout(1) [OF F(1)])
    have il: "i < length ?files" using locate_SomeD(1) [OF i0] lens by simp
    have a: "after ! i" using i(2) F(4) [OF il] by simp
    have "k div ?pl < ?n" using p m'(1) mgr_invD(7) [OF I(8)] I(9) by auto
    then have "\<not> holds_byte_of ?pl ?files (map (\<lambda>(was, now). \<not> was \<and> now) (zip before after)) (k div ?pl)"
      using p ref by (simp add: m'(1))
    then have b: "before ! i"
      using kept_piece_files [OF lens(2,3) _ il _ _ refl a, of ?pl k] locate_SomeD(2,3) [OF i0] I2 [OF il] by simp
    then have o: "fm_open (dk_files d ! i)" using I2 [OF il] by simp
    then have s: "stored (dk_files d) k" using i0 by (simp add: stored_def)
    note r = F(3) [OF il, unfolded reselected1_def]
    have "length (contents fs (fm_path (dk_files d ! i))) = fm_end (dk_files d ! i) - fm_start (dk_files d ! i)"
      using I(14) o il lens by (simp add: layout_ok_def sized_def)
    then have c: "contents fs' (fm_path (dk_files d ! i)) = contents fs (fm_path (dk_files d ! i))"
      using r a set_len_same [of "contents fs (fm_path (dk_files d ! i))"] by simp
    have same: "dk_files d' ! i = dk_files d ! i" using r a o by simp
    have "byte_at (dk_files d') fs' k = byte_at (dk_files d) fs k" using i i0 same c by (simp add: byte_at_def)
    moreover have "durable (dk_files d) fs k \<Longrightarrow> durable (dk_files d') fs' k"
      using i i0 same c r by (auto simp: durable_def cell_def)
    ultimately show ?thesis using s i i0 same by (auto simp: dirty_at_def)
  qed
  have "pieces_verified (tf_sha1 T) (tf_hashes T) ?m' d' fs'"
    unfolding pieces_verified_def
  proof (intro allI impI)
    fix p assume p: "is_servable ?m' p"
    then have pc: "p \<in> mgr_completed ?m'" and pn: "p < ?n" and nu: "\<not> holds_byte_of ?pl ?files (map Not after) p"
      using m' uns mgr_invD(7) [OF I(8)] I(9) by (auto simp: is_servable_def)
    have st': "stored (dk_files d') k" if "k div ?pl = p" "k < sum_list (map tf_length ?files)" for k
      using unstored_byte [OF dm _ that(2), of ?pl] nu that(1) same_files_layout(2) [OF F(1)] I(15) by auto
    have "is_servable m p"
    proof -
      have "\<not> holds_byte_of ?pl ?files (map Not before) p"
      proof
        assume "holds_byte_of ?pl ?files (map Not before) p"
        then obtain i k where k: "i < length ?files" "\<not> before ! i" "file_start ?files i \<le> k"
          "k < file_start ?files i + tf_length (?files ! i)" "k div ?pl = p"
          using lens by (auto simp: holds_byte_of_def)
        have loc: "locate (dk_files d) k = Some i"
          using locate_eq_Some_iff [OF I(15)] k I2 [OF k(1)] lens by simp
        have "after ! i"
        proof (rule ccontr)
          assume "\<not> after ! i"
          then have "holds_byte_of ?pl ?files (map Not after) p"
            unfolding holds_byte_of_def using k lens by (intro exI [of _ i]) auto
          then show False using nu by blast
        qed
        then have "stored (dk_files d') k" using loc F(4) [OF k(1)] by (simp add: stored_def same_files_layout(1) [OF F(1)])
        from kept [OF _ this] pc k(5) have "stored (dk_files d) k" by simp
        then show False using loc k(2) I2 [OF k(1)] by (simp add: stored_def)
      qed
      then show ?thesis using p pn I(11) by (simp add: is_servable_def m'(1))
    qed
    then have old: "tf_sha1 T (slice (p * ?pl) (piece_end ?pl (length (disk_image d fs)) p) (disk_image d fs)) = tf_hashes T ! p"
      using I(3,12) by (simp add: pieces_verified_def)
    have "slice (p * ?pl) (piece_end ?pl (length (disk_image d fs)) p) (disk_image d' fs')
        = slice (p * ?pl) (piece_end ?pl (length (disk_image d fs)) p) (disk_image d fs)"
    proof (rule slice_image_cong [OF same_files_layout(3) [OF F(1)]])
      fix k assume k: "p * ?pl \<le> k" "k < piece_end ?pl (length (disk_image d fs)) p" "k < disk_end 0 (dk_files d)"
      then have kp: "k div ?pl = p" using range_of_piece [OF I(4), of p k] by (simp add: piece_end_def)
      show "byte_at (dk_files d') fs' k = byte_at (dk_files d) fs k"
        using kept [OF _ st'] kp pc k(3) by (simp add: disk_matches_end [OF I(2)])
    qed
    then show "tf_sha1 T (slice (p * dk_piece_length d') (piece_end (dk_piece_length d') (length (disk_image d' fs')) p)
        (disk_image d' fs')) = tf_hashes T ! p"
      using old by (simp add: pl same_files_layout(3) [OF F(1)])
  qed
  moreover have "crash_safe ?m' d' fs'"
    using kept I(3,13) m'(1) by (auto simp: crash_safe_def pl)
  moreover have paths: "fm_path ` set (dk_files d') = fm_path ` set (dk_files d)" using S(5) by (metis list.set_map)
  ultimately show ?thesis
    using I F(2) dm pl uns apply_selection_inv [OF I(8)] unfolding store_inv_def m' paths by simp
qed

context piece_store
begin

lemma write_keeps:
  assumes inv: "store_inv T flags m d fs" and w: "do_write ops p data (d, fs) = (r, d', fs')"
    and p: "p \<notin> mgr_completed m" and len: "length data = piece_size T p"
  shows "store_inv T flags m d' fs'"
proof -
  note I = store_invD [OF inv]
  let ?pl = "tf_piece_length T"
  have wf: "disk_wf d fs" using I(1) by (simp add: store_ok_def)
  from write_law [OF wf w] have pl: "dk_piece_length d' = dk_piece_length d"
    and wr: "wrote False (p * ?pl) data 0 (dk_files d) fs r (dk_files d') fs'" by (simp_all add: I(3))
  note W = wroteD [OF wr] and st = wroteD(2) [OF wr]
  note sf = strip_same_files [OF st]
  have other: "byte_at (dk_files d') fs' k = byte_at (dk_files d) fs k" if "k div ?pl \<noteq> p" for k
  proof (rule W(5))
    show "k < p * ?pl + 0 \<or> p * ?pl + length data \<le> k"
      using that piece_size_le [of T p] range_of_piece [OF I(4), of p k] by (auto simp: len)
  qed
  have "pieces_verified (tf_sha1 T) (tf_hashes T) m d' fs'"
    unfolding pieces_verified_def
  proof (intro allI impI)
    fix q assume q: "is_servable m q"
    then have "q \<noteq> p" using p by (auto simp: is_servable_def)
    then have "slice (q * ?pl) (piece_end ?pl (disk_end 0 (dk_files d)) q) (disk_image d' fs')
        = slice (q * ?pl) (piece_end ?pl (disk_end 0 (dk_files d)) q) (disk_image d fs)"
    proof (intro slice_image_cong [OF same_files_layout(3) [OF sf]] other)
      fix k assume "q * ?pl \<le> k" "k < piece_end ?pl (disk_end 0 (dk_files d)) q"
      then show "k div ?pl \<noteq> p" using \<open>q \<noteq> p\<close> range_of_piece [OF I(4), of q k] by (simp add: piece_end_def)
    qed
    then show "tf_sha1 T (slice (q * dk_piece_length d')
          (piece_end (dk_piece_length d') (length (disk_image d' fs')) q) (disk_image d' fs')) = tf_hashes T ! q"
      using I(12) q by (simp add: pieces_verified_def pl I(3) same_files_layout(3) [OF sf])
  qed
  moreover have "crash_safe m d' fs'"
    unfolding crash_safe_def
  proof (intro allI impI)
    fix k assume k: "k div dk_piece_length d' \<in> mgr_completed m" "stored (dk_files d') k"
    have s: "stored (dk_files d) k" using k(2) by (simp add: strip_eq(3) [OF st])
    then obtain i where i: "locate (dk_files d) k = Some i" by (auto simp: stored_def split: option.splits)
    have i': "locate (dk_files d') k = Some i" using i by (simp add: same_files_layout(1) [OF sf])
    have il: "i < length (dk_files d)" by (rule locate_SomeD(1) [OF i])
    have kp: "k div ?pl \<noteq> p" using k(1) p by (auto simp: pl I(3))
    have c: "cell fs' (fm_path (dk_files d ! i)) (k - fm_start (dk_files d ! i))
        = cell fs (fm_path (dk_files d ! i)) (k - fm_start (dk_files d ! i))"
      using stored_cell [OF I(14) s i] stored_cell [OF W(1) k(2) i'] other [OF kp]
      by (simp add: same_filesD(2,3) [OF sf il])
    have ac: "cell (after_crash fs') q off = cell (after_crash fs) q off" for q off
      using W(3) by (simp add: cell_def after_crash_def contents_def)
    from I(13) k(1) s have "dirty_at (dk_files d) k \<or> durable (dk_files d) fs k"
      by (simp add: crash_safe_def pl)
    then show "dirty_at (dk_files d') k \<or> durable (dk_files d') fs' k"
      using W(4) [OF il] i i' c ac by (auto simp: dirty_at_def durable_def same_filesD(2,3) [OF sf il])
  qed
  ultimately show ?thesis by (rule store_inv_update [OF inv st pl W(1)])
qed

lemma write_completes:
  assumes inv: "store_inv T flags m d fs" and w: "do_write ops p data (d, fs) = (Inr u, d', fs')"
    and p: "p \<notin> mgr_completed m" "p < length (tf_hashes T)" and len: "length data = piece_size T p"
    and hash: "tf_sha1 T data = tf_hashes T ! p"
  shows "store_inv T flags (mark_completed p m) d' fs'"
proof -
  note I = store_invD [OF inv]
  let ?pl = "tf_piece_length T" and ?tot = "sum_list (map tf_length (tf_files T))"
  have inv': "store_inv T flags m d' fs'" by (rule write_keeps [OF inv w p(1) len])
  note I' = store_invD [OF inv']
  have wf: "disk_wf d fs" using I(1) by (simp add: store_ok_def)
  from write_law [OF wf w] have pl: "dk_piece_length d' = dk_piece_length d"
    and wr: "wrote False (p * ?pl) data 0 (dk_files d) fs (Inr u) (dk_files d') fs'" by (simp_all add: I(3))
  note W = wroteD [OF wr] and st = wroteD(2) [OF wr]
  have start: "p * ?pl < ?tot" using p(2) I(4,10) by (simp add: piece_start_less)
  have im: "length (disk_image d' fs') = ?tot" by (simp add: disk_matches_end [OF I'(2)])
  have pe: "piece_end ?pl ?tot p = p * ?pl + length data" using start by (simp add: len piece_size_def piece_end_def)
  have ple: "piece_end ?pl ?tot p \<le> ?tot" "piece_end ?pl ?tot p \<le> p * ?pl + ?pl" by (simp_all add: piece_end_def)
  show ?thesis
  proof (rule mark_keeps [OF inv' p(2)])
    assume serv: "is_servable (mark_completed p m) p"
    have all: "stored (dk_files d) k" if k: "p * ?pl \<le> k" "k < p * ?pl + length data" for k
    proof (rule ccontr)
      assume "\<not> stored (dk_files d) k"
      moreover have "k < ?tot" "k div ?pl = p" using k ple pe piece_of_range [OF I(4), of p k] by simp_all
      ultimately have "holds_byte_of ?pl (tf_files T) (map Not flags) p"
        using unstored_byte [OF I(2,15)] by blast
      then show False using serv I(11) [OF p(2)] by (simp add: is_servable_def mark_completed_def Let_def split: if_splits)
    qed
    have "slice (p * ?pl) (piece_end ?pl (length (disk_image d' fs')) p) (disk_image d' fs') = data"
    proof (rule nth_equalityI)
      show "length (slice (p * ?pl) (piece_end ?pl (length (disk_image d' fs')) p) (disk_image d' fs')) = length data"
        using pe ple im by simp
      fix j assume "j < length (slice (p * ?pl) (piece_end ?pl (length (disk_image d' fs')) p) (disk_image d' fs'))"
      then have j: "j < length data" using pe ple im by simp
      have "slice (p * ?pl) (piece_end ?pl (length (disk_image d' fs')) p) (disk_image d' fs') ! j
          = byte_at (dk_files d') fs' (p * ?pl + j)"
        using j pe ple im by (simp add: nth_slice disk_image_def)
      also have "\<dots> = data ! j" using W(6) [of "p * ?pl + j"] all [of "p * ?pl + j"] j by simp
      finally show "slice (p * ?pl) (piece_end ?pl (length (disk_image d' fs')) p) (disk_image d' fs') ! j = data ! j" .
    qed
    then show "tf_sha1 T (slice (p * ?pl) (piece_end ?pl (length (disk_image d' fs')) p) (disk_image d' fs')) = tf_hashes T ! p"
      using hash by simp
  next
    fix k assume k: "k div ?pl = p" "stored (dk_files d') k"
    then obtain i where i: "locate (dk_files d) k = Some i" "fm_open (dk_files d ! i)"
      using strip_eq(3) [OF st] by (auto simp: stored_def split: option.splits)
    have "k < ?tot" using i(1) locate_None_iff [OF I(15), of k] disk_matches_end [OF I(2)] by (metis not_le option.distinct(1))
    then have "p * ?pl + 0 \<le> k" "k < p * ?pl + length data"
      using k(1) range_of_piece [OF I(4), of p k] pe by (auto simp: piece_end_def)
    from W(7) [OF _ this i] show "dirty_at (dk_files d') k \<or> durable (dk_files d') fs' k"
      by (simp add: dirty_at_def strip_eq(1) [OF st] i(1))
  qed
qed

lemma flush_keeps:
  assumes inv: "store_inv T flags m d fs" and f: "do_flush ops (d, fs) = (r, d', fs')"
  shows "store_inv T flags m d' fs'"
    and "r = Inr () \<Longrightarrow> k div tf_piece_length T \<in> mgr_completed m \<Longrightarrow> stored (dk_files d') k \<Longrightarrow> durable (dk_files d') fs' k"
    and "q \<notin> fm_path ` set (dk_files d) \<Longrightarrow> fs_stable fs' q = fs_stable fs q" "fs_cache fs' = fs_cache fs"
proof -
  note I = store_invD [OF inv]
  from flush_law [OF f] have pl: "dk_piece_length d' = dk_piece_length d" and st: "map strip (dk_files d') = map strip (dk_files d)"
    and c: "fs_cache fs' = fs_cache fs"
    and stab: "\<And>p. fs_stable fs' p = fs_stable fs p \<or> (p \<in> fm_path ` set (dk_files d) \<and> fs_stable fs' p = fs_cache fs p)"
    and dirty: "\<And>i. i < length (dk_files d) \<Longrightarrow> fm_dirty (dk_files d ! i) \<Longrightarrow> fm_open (dk_files d ! i) \<Longrightarrow> \<not> fm_dirty (dk_files d' ! i) \<Longrightarrow>
          fs_stable fs' (fm_path (dk_files d ! i)) = fs_cache fs (fm_path (dk_files d ! i))"
    and clean: "r = Inr () \<Longrightarrow> m' \<in> set (dk_files d') \<Longrightarrow> \<not> fm_dirty m'" for m'
    unfolding flushed_def by blast+
  note sf = strip_same_files [OF st]
  have cc: "contents fs' q = contents fs q" for q using c by (simp add: contents_def)
  have b: "byte_at (dk_files d') fs' k = byte_at (dk_files d) fs k" for k
    unfolding strip_eq(2) [OF st] using cc by (simp add: byte_at_def split: option.split)
  have im: "disk_image d' fs' = disk_image d fs"
    by (simp add: disk_image_def b same_files_layout(3) [OF sf])
  have keep: "dirty_at (dk_files d') k \<or> durable (dk_files d') fs' k"
    if old: "dirty_at (dk_files d) k \<or> durable (dk_files d) fs k" and sk: "stored (dk_files d) k" for k
  proof -
    obtain i where i: "locate (dk_files d) k = Some i" "fm_open (dk_files d ! i)"
      using sk by (auto simp: stored_def split: option.splits)
    have il: "i < length (dk_files d)" by (rule locate_SomeD(1) [OF i(1)])
    have i': "locate (dk_files d') k = Some i" using i by (simp add: same_files_layout(1) [OF sf])
    have synced: "durable (dk_files d') fs' k" if "fs_stable fs' (fm_path (dk_files d ! i)) = fs_cache fs (fm_path (dk_files d ! i))"
      using i' by (simp add: durable_def same_filesD(2,3) [OF sf il] cell_cong(1) [OF fun_cong [OF c]] cell_cong(3) [OF that])
    show ?thesis
    proof (cases "dirty_at (dk_files d) k")
      case True
      then show ?thesis using dirty [OF il _ i(2)] i(1) i' synced by (auto simp: dirty_at_def)
    next
      case False
      then have du: "durable (dk_files d) fs k" using old by blast
      show ?thesis
      proof (cases "fs_stable fs' (fm_path (dk_files d ! i)) = fs_stable fs (fm_path (dk_files d ! i))")
        case True
        then have "durable (dk_files d') fs' k" using du i(1) i'
          by (simp add: durable_def same_filesD(2,3) [OF sf il] cell_cong(1) [OF fun_cong [OF c]] cell_cong(2) [OF True])
        then show ?thesis ..
      next
        case False
        then show ?thesis using synced stab [of "fm_path (dk_files d ! i)"] by blast
      qed
    qed
  qed
  have safe: "crash_safe m d' fs'"
    using I(13) keep by (simp add: crash_safe_def pl strip_eq(3) [OF st])
  have lay: "layout_ok (dk_files d') fs'"
    unfolding strip_eq(4) [OF st] using I(14) cc by (simp add: layout_ok_def sized_def)
  show "store_inv T flags m d' fs'"
    using I(12) safe by (intro store_inv_update [OF inv st pl lay]) (simp_all add: pieces_verified_def im pl)
  show "q \<notin> fm_path ` set (dk_files d) \<Longrightarrow> fs_stable fs' q = fs_stable fs q" using stab by blast
  show "fs_cache fs' = fs_cache fs" by (rule c)
  show "durable (dk_files d') fs' k" if r: "r = Inr ()" and k: "k div tf_piece_length T \<in> mgr_completed m" "stored (dk_files d') k"
  proof -
    have "dirty_at (dk_files d') k \<or> durable (dk_files d') fs' k" using safe k by (simp add: crash_safe_def pl I(3))
    moreover have "\<not> dirty_at (dk_files d') k"
      using clean [OF r] locate_SomeD(1) [of "dk_files d'" k] by (auto simp: dirty_at_def split: option.splits)
    ultimately show ?thesis by blast
  qed
qed

end

end
