(* ===== verification/CoordinatorRun.thy ===== *)
theory CoordinatorRun
  imports CoordinatorSpec
begin

text \<open>
  Whole turns of the coordinator: every input keeps the invariant of its storage, and the resume file changes
  only to one that is true after a crash. The properties at the end are stated for \<open>coord_run\<close>, the states a
  run can reach from a consistent start by turns in which the disk's change of the selection does not fail. \<open>lost_write_believed\<close> shows why the standard
  backend must report the failure of its writes.
\<close>

section \<open>Runs of the coordinator\<close>

definition cfg_matches :: "coord_cfg \<Rightarrow> torrent_facts \<Rightarrow> bool" where
  "cfg_matches cfg T \<longleftrightarrow> cc_resume_path cfg = tf_resume T \<and> cc_sha1 cfg = tf_sha1 T"

definition coord_ok :: "torrent_facts \<Rightarrow> bool list \<Rightarrow> coordinator \<Rightarrow> bool" where
  "coord_ok T flags c = (case co_state c of
     DownloadingMetadata _ _ _ \<Rightarrow> False
   | CheckingFiles m d hs pl tlen n \<Rightarrow> store_inv T flags m d (co_fs c) \<and> all_durable d (co_fs c)
       \<and> hs = tf_hashes T \<and> pl = tf_piece_length T \<and> tlen = sum_list (map tf_length (tf_files T))
       \<and> tf_piece_length T < 2 ^ 32
   | DownloadingData m d paused hc \<Rightarrow> store_inv T flags m d (co_fs c))"

text \<open>What the rest of the program sends: pieces a session has verified, and selections computed from the
  current one. The other inputs are arbitrary.\<close>

fun input_ok :: "torrent_facts \<Rightarrow> bool list \<Rightarrow> coord_input \<Rightarrow> bool list \<Rightarrow> bool" where
  "input_ok T flags (Msg now (PieceDownloaded i data)) flags' \<longleftrightarrow> flags' = flags
     \<and> i < length (tf_hashes T) \<and> length data = piece_size T i \<and> tf_sha1 T data = tf_hashes T ! i"
| "input_ok T flags (Msg now (SetSelection sel after refetch)) flags' \<longleftrightarrow> flags' = after
     \<and> selection_msg_ok T flags sel after refetch"
| "input_ok T flags inp flags' \<longleftrightarrow> flags' = flags"

lemma atomic_write_other:
  assumes "atomic_write env p data fs = (r, trace)" "q \<noteq> p" "q \<noteq> tmp_sibling p"
  shows "fs_cache (last trace) q = fs_cache fs q" "fs_stable (last trace) q = fs_stable fs q"
proof -
  let ?fs0 = "if length p > 1 then call fs else fs"
  obtain r1 t1 where w: "write_tmp env (tmp_sibling p) p data ?fs0 = (r1, t1)" by fastforce
  note W = write_tmp_spec [OF w tmp_sibling_neq(1)]
  then have "last t1 \<in> set t1" "t1 \<noteq> []" by auto
  then have l: "fs_cache (last t1) q = fs_cache fs q" "fs_stable (last t1) q = fs_stable fs q"
    using W assms(2,3) by auto
  show "fs_cache (last trace) q = fs_cache fs q" "fs_stable (last trace) q = fs_stable fs q"
    using assms(1,3) w l \<open>t1 \<noteq> []\<close>
    by (auto simp: atomic_write_def Let_def fs_remove_def split: if_splits sum.splits)
qed

lemma div_ceil_last:
  assumes "0 < pl" "p < div_ceil tot pl"
  shows "p = div_ceil tot pl - 1 \<longleftrightarrow> tot \<le> p * pl + pl"
proof -
  have "p = div_ceil tot pl - 1 \<longleftrightarrow> div_ceil tot pl \<le> Suc p" using assms(2) by auto
  also have "\<dots> \<longleftrightarrow> tot \<le> Suc p * pl" by (rule div_ceil_le_iff [OF assms(1)])
  finally show ?thesis by (simp add: add.commute)
qed

lemma check_length_eq:
  assumes "0 < tf_piece_length T" "tf_piece_length T < 2 ^ 32" "n = div_ceil (sum_list (map tf_length (tf_files T))) (tf_piece_length T)"
    "p < n"
  shows "check_length p n (tf_piece_length T) (sum_list (map tf_length (tf_files T))) = piece_size T p"
proof -
  let ?pl = "tf_piece_length T" and ?tot = "sum_list (map tf_length (tf_files T))"
  have start: "p * ?pl < ?tot" using piece_start_less assms(1,3,4) by simp
  show ?thesis
  proof (cases "p = n - 1")
    case True
    then have e: "?tot \<le> p * ?pl + ?pl" using div_ceil_last [OF assms(1), of p ?tot] assms(3,4) by simp
    define x where "x = ?tot - p * ?pl"
    have x: "?tot = p * ?pl + x" "0 < x" "x \<le> ?pl" using start e by (simp_all add: x_def)
    have "?tot mod ?pl = x mod ?pl" by (simp add: x(1))
    then have "as_u32 (?tot mod ?pl) = (if x = ?pl then 0 else x)" using x assms(2) by auto
    then show ?thesis using True x
      by (auto simp: check_length_def Let_def piece_size_def piece_end_def)
  next
    case False
    then have "p * ?pl + ?pl < ?tot" using div_ceil_last [OF assms(1), of p ?tot] assms(3,4) by simp
    then show ?thesis using False by (simp add: check_length_def piece_size_def piece_end_def)
  qed
qed

text \<open>The resume file tells the truth, and will after a crash.\<close>

definition resume_true :: "torrent_facts \<Rightarrow> coordinator \<Rightarrow> bool" where
  "resume_true T c = (case co_state c of
     DownloadingData m d paused hc \<Rightarrow>
       fs_stable (co_fs c) (tf_resume T) = Some (fr_encode (fr_from_manager m))
       \<and> (\<forall>k. k div tf_piece_length T \<in> mgr_completed m \<longrightarrow> stored (dk_files d) k \<longrightarrow> durable (dk_files d) (co_fs c) k)
   | _ \<Rightarrow> False)"

lemma manager_mut_ok:
  assumes ok: "coord_ok T flags c" and keep: "\<And>m. mgr_inv m \<Longrightarrow> mgr_inv (f m) \<and> mgr_total_pieces (f m) = mgr_total_pieces m
      \<and> mgr_completed (f m) = mgr_completed m \<and> mgr_selection (f m) = mgr_selection m"
  shows "coord_ok T flags (c\<lparr>co_state := manager_mut f (co_state c)\<rparr>)"
proof -
  have "store_inv T flags (f m) d fs" if "store_inv T flags m d fs" for m d fs
    using store_inv_manager [OF that] keep [OF store_invD(8) [OF that]] by blast
  then show ?thesis using ok by (auto simp: coord_ok_def manager_mut_def split: coordinator_state.splits)
qed

lemma peer_pieces_keep:
  assumes "mgr_inv m"
  shows "mgr_inv (add_peer_pieces ps m) \<and> mgr_total_pieces (add_peer_pieces ps m) = mgr_total_pieces m
      \<and> mgr_completed (add_peer_pieces ps m) = mgr_completed m \<and> mgr_selection (add_peer_pieces ps m) = mgr_selection m"
    "mgr_inv (remove_peer_pieces ps m) \<and> mgr_total_pieces (remove_peer_pieces ps m) = mgr_total_pieces m
      \<and> mgr_completed (remove_peer_pieces ps m) = mgr_completed m \<and> mgr_selection (remove_peer_pieces ps m) = mgr_selection m"
    "mgr_inv (add_peer_piece i m) \<and> mgr_total_pieces (add_peer_piece i m) = mgr_total_pieces m
      \<and> mgr_completed (add_peer_piece i m) = mgr_completed m \<and> mgr_selection (add_peer_piece i m) = mgr_selection m"
    "mgr_inv (return_work i m) \<and> mgr_total_pieces (return_work i m) = mgr_total_pieces m
      \<and> mgr_completed (return_work i m) = mgr_completed m \<and> mgr_selection (return_work i m) = mgr_selection m"
    "mgr_inv (snd (next_work_for draw ps m)) \<and> mgr_total_pieces (snd (next_work_for draw ps m)) = mgr_total_pieces m
      \<and> mgr_completed (snd (next_work_for draw ps m)) = mgr_completed m \<and> mgr_selection (snd (next_work_for draw ps m)) = mgr_selection m"
  using peer_pieces_inv [OF assms] return_work_inv [OF assms] next_work_for_inv [OF assms]
  by (auto simp: add_peer_pieces_def remove_peer_pieces_def add_peer_piece_def return_work_def next_work_for_def Let_def
      split: option.split prod.split)

lemma request_work_mut:
  assumes "request_work cfg have c = (c', eff)"
  shows "c' = c \<or> (\<exists>m d p h. co_state c = DownloadingData m d p h
     \<and> c' = c\<lparr>co_state := manager_mut (\<lambda>m. snd (next_work_for (cc_draw cfg) have m)) (co_state c)\<rparr>)"
  using assms by (auto simp: request_work_def manager_mut_def split: coordinator_state.splits if_splits prod.splits)

context piece_store
begin

lemma flush_and_persist_keeps:
  assumes cfg: "cc_ops cfg = ops" "cfg_matches cfg T" and inv: "store_inv T flags m d fs"
    and fp: "flush_and_persist cfg m d fs = (d', fs')"
  shows "store_inv T flags m d' fs'"
    and "fs_stable fs' (tf_resume T) \<noteq> fs_stable fs (tf_resume T) \<Longrightarrow>
      fs_stable fs' (tf_resume T) = Some (fr_encode (fr_from_manager m))
      \<and> (\<forall>k. k div tf_piece_length T \<in> mgr_completed m \<longrightarrow> stored (dk_files d') k \<longrightarrow> durable (dk_files d') fs' k)"
proof -
  let ?rp = "tf_resume T"
  obtain r d1 fs1 where f: "do_flush ops (d, fs) = (r, d1, fs1)" by (metis prod_cases3)
  note F = flush_keeps [OF inv f]
  note I1 = store_invD [OF F(1)]
  have rp: "fs_stable fs1 ?rp = fs_stable fs ?rp" by (rule F(3) [OF store_invD(6) [OF inv]])
  have both: "store_inv T flags m d' fs' \<and> (fs_stable fs' ?rp \<noteq> fs_stable fs ?rp \<longrightarrow>
      fs_stable fs' ?rp = Some (fr_encode (fr_from_manager m))
      \<and> (\<forall>k. k div tf_piece_length T \<in> mgr_completed m \<longrightarrow> stored (dk_files d') k \<longrightarrow> durable (dk_files d') fs' k))"
  proof (cases r)
    case (Inl e)
    then have "d' = d1" "fs' = fs1" using fp f cfg(1) by (simp_all add: flush_and_persist_def)
    then show ?thesis using F(1) rp by simp
  next
    case (Inr u)
    obtain r2 trace where a: "atomic_write (cc_env cfg) ?rp (fr_encode (fr_from_manager m)) fs1 = (r2, trace)" by fastforce
    have e: "d' = d1" "fs' = last trace"
      using fp f cfg Inr a by (simp_all add: flush_and_persist_def persist_resume_def save_fastresume_def cfg_matches_def)
    have keep: "fs_cache fs' q = fs_cache fs1 q" "fs_stable fs' q = fs_stable fs1 q" if "q \<in> fm_path ` set (dk_files d1)" for q
      unfolding e(2) by (rule atomic_write_other [OF a]; use that I1(6,7) in metis)+
    then have c: "contents fs' q = contents fs1 q" "contents (after_crash fs') q = contents (after_crash fs1) q"
      if "q \<in> fm_path ` set (dk_files d1)" for q
      using that by (simp_all add: contents_def after_crash_def)
    have "store_inv T flags m d' fs'" unfolding e(1) by (rule store_inv_fs [OF F(1) c])
    moreover have "durable (dk_files d') fs' k" if "k div tf_piece_length T \<in> mgr_completed m" "stored (dk_files d') k" for k
    proof -
      have "durable (dk_files d1) fs' k = durable (dk_files d1) fs1 k" by (rule durable_cong [OF same_files_refl c])
      then show ?thesis using F(2) [OF _ that(1)] that(2) Inr by (simp add: e(1))
    qed
    moreover have "fs_stable fs' ?rp \<in> {fs_stable fs1 ?rp, Some (fr_encode (fr_from_manager m))}"
      using atomic_write_spec [OF a] by (cases r2) (auto simp: e)
    ultimately show ?thesis using rp by auto
  qed
  then show "store_inv T flags m d' fs'" by blast
  show "fs_stable fs' (tf_resume T) \<noteq> fs_stable fs (tf_resume T) \<Longrightarrow>
      fs_stable fs' (tf_resume T) = Some (fr_encode (fr_from_manager m))
      \<and> (\<forall>k. k div tf_piece_length T \<in> mgr_completed m \<longrightarrow> stored (dk_files d') k \<longrightarrow> durable (dk_files d') fs' k)"
    using both by blast
qed

lemma read_keeps:
  assumes inv: "store_inv T flags m d fs" and r: "do_read ops i off len (d, fs) = (r, d', fs')" and len: "0 < len"
  shows "d' = d" "store_inv T flags m d fs'" "all_durable d fs \<Longrightarrow> all_durable d fs'" "disk_image d fs' = disk_image d fs"
    "r = Inr b \<Longrightarrow> b = slice (i * tf_piece_length T + off) (i * tf_piece_length T + off + len) (disk_image d fs)"
    "fs_stable fs' = fs_stable fs"
proof -
  have wf: "disk_wf d fs" using store_invD(1) [OF inv] by (simp add: store_ok_def)
  from read_law [OF wf len r] have R: "d' = d" "fs_cache fs' = fs_cache fs" "fs_stable fs' = fs_stable fs"
    and b: "r = Inr b \<Longrightarrow> b = slice (i * dk_piece_length d + off) (i * dk_piece_length d + off + len) (disk_image d fs)" for b
    by auto
  have c: "contents fs' q = contents fs q" "contents (after_crash fs') q = contents (after_crash fs) q" for q
    using R by (simp_all add: contents_def after_crash_def)
  show "d' = d" "fs_stable fs' = fs_stable fs" by (rule R)+
  show "store_inv T flags m d fs'" by (rule store_inv_fs [OF inv c])
  show "all_durable d fs \<Longrightarrow> all_durable d fs'"
    unfolding all_durable_def by (metis durable_cong same_files_refl c)
  show "disk_image d fs' = disk_image d fs"
    using c(1) by (simp add: disk_image_def byte_at_def split: option.split)
  show "r = Inr b \<Longrightarrow> b = slice (i * tf_piece_length T + off) (i * tf_piece_length T + off + len) (disk_image d fs)"
    using b store_invD(3) [OF inv] by simp
qed

lemma piece_downloaded_keeps:
  assumes cfg: "cc_ops cfg = ops" "cfg_matches cfg T" and st: "co_state c = DownloadingData m d paused hc"
    and inv: "store_inv T flags m d (co_fs c)"
    and p: "p < length (tf_hashes T)" "length data = piece_size T p" "tf_sha1 T data = tf_hashes T ! p"
    and turn: "piece_downloaded cfg now p data c = (c', eff)"
  obtains m' d' hc' where "co_state c' = DownloadingData m' d' paused hc'" "store_inv T flags m' d' (co_fs c')"
    "fs_stable (co_fs c') (tf_resume T) \<noteq> fs_stable (co_fs c) (tf_resume T) \<Longrightarrow>
      fs_stable (co_fs c') (tf_resume T) = Some (fr_encode (fr_from_manager m'))
      \<and> (\<forall>k. k div tf_piece_length T \<in> mgr_completed m' \<longrightarrow> stored (dk_files d') k \<longrightarrow> durable (dk_files d') (co_fs c') k)"
proof (cases "is_completed m p")
  case True
  then have "c' = c" using turn st by (simp add: piece_downloaded_def)
  then show ?thesis using that st inv by simp
next
  case False
  then have np: "p \<notin> mgr_completed m" by (simp add: is_completed_def)
  obtain r d1 fs1 where w: "do_write ops p data (d, co_fs c) = (r, d1, fs1)" by (metis prod_cases3)
  have wf: "disk_wf d (co_fs c)" using store_invD(1) [OF inv] by (simp add: store_ok_def)
  have s1: "fs_stable fs1 = fs_stable (co_fs c)" using write_law [OF wf w] by (auto dest: wroteD(3))
  show ?thesis
  proof (cases r)
    case (Inl e)
    have "c' = c\<lparr>co_state := DownloadingData (return_work p m) d1 paused hc, co_fs := fs1\<rparr>"
      using turn st False w Inl cfg(1) by (simp add: piece_downloaded_def)
    moreover have "store_inv T flags (return_work p m) d1 fs1"
      by (rule store_inv_manager [OF write_keeps [OF inv w np p(2)] return_work_inv [OF store_invD(8) [OF inv]]])
        (simp_all add: return_work_def Let_def split: option.split)
    ultimately show ?thesis using that s1 by simp
  next
    case (Inr u)
    let ?m = "mark_completed p m"
    let ?persist = "is_done ?m \<or> now - co_last_persist c \<ge> RESUME_PERSIST_INTERVAL"
    have inv1: "store_inv T flags ?m d1 fs1" by (rule write_completes [OF inv w [unfolded Inr] np p])
    obtain d2 fs2 where fp: "(if ?persist then flush_and_persist cfg ?m d1 fs1 else (d1, fs1)) = (d2, fs2)" by fastforce
    have c': "co_state c' = DownloadingData ?m d2 paused (hc \<or> is_done ?m \<and> \<not> hc)" "co_fs c' = fs2"
      using turn st False w Inr cfg(1) fp by (auto simp: piece_downloaded_def Let_def split: prod.splits)
    show ?thesis
    proof (cases ?persist)
      case True
      then have f: "flush_and_persist cfg ?m d1 fs1 = (d2, fs2)" using fp by simp
      show ?thesis using that [OF c'(1)] flush_and_persist_keeps [OF cfg inv1 f] s1 by (simp add: c'(2))
    next
      case False
      then show ?thesis using that [OF c'(1)] fp inv1 s1 by (simp add: c'(2))
    qed
  qed
qed

lemma check_tick_keeps:
  assumes cfg: "cc_ops cfg = ops" "cfg_matches cfg T" and ok: "coord_ok T flags c"
    and turn: "check_tick cfg c = (c', eff)"
  shows "coord_ok T flags c'" "fs_stable (co_fs c') = fs_stable (co_fs c)"
proof -
  have "coord_ok T flags c' \<and> fs_stable (co_fs c') = fs_stable (co_fs c)"
  proof (cases "co_state c")
    case (DownloadingData m d paused hc)
    then show ?thesis using turn ok by (simp add: check_tick_def)
  next
    case (DownloadingMetadata a h dir)
    then show ?thesis using ok by (simp add: coord_ok_def)
  next
    case (CheckingFiles m d hs pl tlen p)
    then have inv: "store_inv T flags m d (co_fs c)" and ad: "all_durable d (co_fs c)"
      and e: "hs = tf_hashes T" "pl = tf_piece_length T" "tlen = sum_list (map tf_length (tf_files T))" "tf_piece_length T < 2 ^ 32"
      using ok by (simp_all add: coord_ok_def)
    note I = store_invD [OF inv]
    show ?thesis
    proof (cases "p \<ge> mgr_total_pieces m")
      case True
      then have "c' = c\<lparr>co_state := DownloadingData m d False (is_done m)\<rparr>"
        using turn CheckingFiles by (simp add: check_tick_def finish_check_def)
      then show ?thesis using inv by (simp add: coord_ok_def)
    next
      case False
      let ?n = "mgr_total_pieces m"
      have pn: "p < length (tf_hashes T)" using False I(9) by simp
      have cl: "check_length p ?n pl tlen = piece_size T p"
        using check_length_eq [OF I(4) e(4) I(10) pn] I(9) e by simp
      have start: "p * tf_piece_length T < sum_list (map tf_length (tf_files T))"
        using pn I(4,10) by (simp add: piece_start_less)
      have len: "0 < piece_size T p" using start I(4) by (simp add: piece_size_def piece_end_def)
      obtain r d1 fs1 where rd: "(if is_wanted m p then do_read ops p 0 (piece_size T p) (d, co_fs c)
          else (Inl IoFailed, d, co_fs c)) = (r, d1, fs1)" by (metis prod_cases3)
      have R: "d1 = d \<and> store_inv T flags m d fs1 \<and> all_durable d fs1 \<and> fs_stable fs1 = fs_stable (co_fs c)
          \<and> (\<forall>b. r = Inr b \<longrightarrow> b = slice (p * tf_piece_length T) (p * tf_piece_length T + piece_size T p) (disk_image d fs1))"
      proof (cases "is_wanted m p")
        case True
        with rd have "do_read ops p 0 (piece_size T p) (d, co_fs c) = (r, d1, fs1)" by simp
        note R = read_keeps [OF inv this len]
        show ?thesis using R(1-3,6) R(5) ad by (auto simp: R(4))
      next
        case False
        then show ?thesis using rd inv ad by auto
      qed
      define verified where "verified = (case r of Inl _ \<Rightarrow> False | Inr data \<Rightarrow> tf_sha1 T data = tf_hashes T ! p)"
      define m' where "m' = (if verified then mark_completed p m else m)"
      have inv': "store_inv T flags m' d fs1"
      proof (cases verified)
        case True
        then obtain b where b: "r = Inr b" "tf_sha1 T b = tf_hashes T ! p" by (auto simp: verified_def split: sum.splits)
        have pe: "piece_end (tf_piece_length T) (length (disk_image d fs1)) p = p * tf_piece_length T + piece_size T p"
          using start by (simp add: disk_matches_end [OF I(2)] piece_size_def piece_end_def)
        have "store_inv T flags (mark_completed p m) d fs1"
        proof (rule mark_keeps [OF _ pn])
          show "store_inv T flags m d fs1" using R by blast
          show "tf_sha1 T (slice (p * tf_piece_length T) (piece_end (tf_piece_length T) (length (disk_image d fs1)) p)
              (disk_image d fs1)) = tf_hashes T ! p"
            using R b pe by simp
          show "dirty_at (dk_files d) k \<or> durable (dk_files d) fs1 k" for k using R by (simp add: all_durable_def)
        qed
        then show ?thesis using True by (simp add: m'_def)
      next
        case False
        then show ?thesis using R by (simp add: m'_def)
      qed
      have tot: "mgr_total_pieces m' = mgr_total_pieces m" by (simp add: m'_def mark_completed_def Let_def)
      have c': "co_fs c' = fs1" "co_state c' = (if Suc p \<ge> ?n then DownloadingData m' d False (is_done m')
          else CheckingFiles m' d hs pl tlen (Suc p))"
      proof -
        have v: "(case r of Inl _ \<Rightarrow> False | Inr data \<Rightarrow> cc_sha1 cfg data = hs ! p) = verified"
          using cfg(2) by (simp add: verified_def cfg_matches_def e(1) split: sum.split)
        have rd': "(if is_wanted m p then do_read (cc_ops cfg) p 0 (check_length p ?n pl tlen) (d, co_fs c)
            else (Inl IoFailed, d, co_fs c)) = (r, d, fs1)" using rd R cl cfg(1) by (auto split: if_splits)
        have "co_fs c' = fs1 \<and> co_state c' = (if Suc p \<ge> ?n then DownloadingData m' d False (is_done m')
            else CheckingFiles m' d hs pl tlen (Suc p))"
          using turn False unfolding check_tick_def CheckingFiles coordinator_state.case Let_def rd' prod.case v m'_def [symmetric]
            finish_check_def by (auto split: if_splits)
        then show "co_fs c' = fs1" "co_state c' = (if Suc p \<ge> ?n then DownloadingData m' d False (is_done m')
            else CheckingFiles m' d hs pl tlen (Suc p))" by auto
      qed
      then show ?thesis using inv' R e by (auto simp: coord_ok_def)
    qed
  qed
  then show "coord_ok T flags c'" "fs_stable (co_fs c') = fs_stable (co_fs c)" by auto
qed

lemma read_block_keeps:
  assumes cfg: "cc_ops cfg = ops" and ok: "coord_ok T flags c" and turn: "read_block cfg i b l c = (c', eff)"
  shows "coord_ok T flags c'" "fs_stable (co_fs c') = fs_stable (co_fs c)"
    "ReplyBlock (Some block) \<in> set eff \<Longrightarrow> \<exists>m d p h. co_state c = DownloadingData m d p h \<and> is_servable m i
       \<and> block = slice (i * tf_piece_length T + b) (i * tf_piece_length T + b + l) (disk_image d (co_fs c))"
proof -
  have "coord_ok T flags c' \<and> fs_stable (co_fs c') = fs_stable (co_fs c) \<and> (ReplyBlock (Some block) \<in> set eff \<longrightarrow>
      (\<exists>m d p h. co_state c = DownloadingData m d p h \<and> is_servable m i
       \<and> block = slice (i * tf_piece_length T + b) (i * tf_piece_length T + b + l) (disk_image d (co_fs c))))"
  proof (cases "\<exists>m d p h. co_state c = DownloadingData m d p h \<and> 0 < l \<and> l \<le> MAX_BLOCK_REQUEST \<and> is_servable m i")
    case False
    then show ?thesis using turn ok
      by (auto simp: read_block_def split: coordinator_state.splits if_splits)
  next
    case True
    then obtain m d p h where c: "co_state c = DownloadingData m d p h" "0 < l" "l \<le> MAX_BLOCK_REQUEST" "is_servable m i" by blast
    have inv: "store_inv T flags m d (co_fs c)" using ok c(1) by (simp add: coord_ok_def)
    obtain r d1 fs1 where rd: "do_read ops i b l (d, co_fs c) = (r, d1, fs1)" by (metis prod_cases3)
    note R = read_keeps [OF inv rd c(2)]
    have "c' = c\<lparr>co_state := DownloadingData m d p h, co_fs := fs1\<rparr>"
      "eff = [ReplyBlock (case r of Inl _ \<Rightarrow> None | Inr block \<Rightarrow> Some block)]"
      using turn c rd cfg R(1) by (auto simp: read_block_def split: sum.splits)
    then show ?thesis using R c by (auto simp: coord_ok_def split: sum.splits)
  qed
  then show "coord_ok T flags c'" "fs_stable (co_fs c') = fs_stable (co_fs c)"
    "ReplyBlock (Some block) \<in> set eff \<Longrightarrow> \<exists>m d p h. co_state c = DownloadingData m d p h \<and> is_servable m i
       \<and> block = slice (i * tf_piece_length T + b) (i * tf_piece_length T + b + l) (disk_image d (co_fs c))" by auto
qed

lemma set_selection_keeps:
  assumes cfg: "cc_ops cfg = ops" "cfg_matches cfg T" and ok: "coord_ok T before c"
    and msg: "selection_msg_ok T before sel after refetch"
    and turn: "apply_set_selection cfg sel after refetch c = (c', eff)" and suc: "\<forall>e. Ui (SelectionError e) \<notin> set eff"
  shows "coord_ok T after c'" "fs_stable (co_fs c') (tf_resume T) \<noteq> fs_stable (co_fs c) (tf_resume T) \<Longrightarrow> resume_true T c'"
proof -
  have "coord_ok T after c' \<and> (fs_stable (co_fs c') (tf_resume T) \<noteq> fs_stable (co_fs c) (tf_resume T) \<longrightarrow> resume_true T c')"
  proof (cases "co_state c")
    case (DownloadingMetadata a h dir)
    then show ?thesis using ok by (simp add: coord_ok_def)
  next
    case (CheckingFiles m d hs pl tlen n)
    then have inv: "store_inv T before m d (co_fs c)" and ad: "all_durable d (co_fs c)" using ok by (simp_all add: coord_ok_def)
    obtain r d1 fs1 where s: "do_set_selection ops after (d, co_fs c) = (r, d1, fs1)" by (metis prod_cases3)
    have r: "r = Inr ()" using turn suc s cfg(1) by (cases r) (auto simp: apply_set_selection_def CheckingFiles)
    note R = select_law [OF store_invD(1) [OF inv] s [unfolded r]]
    have len: "length (dk_files d) = length after"
      using store_invD(2) [OF inv] msg by (simp add: disk_matches_def selection_msg_ok_def)
    have c': "c' = c\<lparr>co_state := CheckingFiles (apply_selection sel refetch m) d1 hs pl tlen n, co_fs := fs1\<rparr>"
      using turn s r cfg(1) by (simp add: apply_set_selection_def CheckingFiles)
    have "fs_stable fs1 (tf_resume T) = fs_stable (co_fs c) (tf_resume T)"
      using R store_invD(6) [OF inv] by (simp add: reselected_def)
    then show ?thesis
      using reselect_keeps [OF inv R msg] reselected_files(5) [OF R store_invD(1) [OF inv] len ad] ok
      by (simp add: c' coord_ok_def CheckingFiles)
  next
    case (DownloadingData m d paused hc)
    then have inv: "store_inv T before m d (co_fs c)" using ok by (simp add: coord_ok_def)
    obtain r d1 fs1 where s: "do_set_selection ops after (d, co_fs c) = (r, d1, fs1)" by (metis prod_cases3)
    have r: "r = Inr ()" using turn suc s cfg(1) by (cases r) (auto simp: apply_set_selection_def DownloadingData)
    note R = select_law [OF store_invD(1) [OF inv] s [unfolded r]]
    let ?m = "apply_selection sel refetch m"
    note inv1 = reselect_keeps [OF inv R msg]
    obtain d2 fs2 where fp: "flush_and_persist cfg ?m d1 fs1 = (d2, fs2)" by fastforce
    have c': "c' = c\<lparr>co_state := DownloadingData ?m d2 paused (is_done ?m), co_fs := fs2\<rparr>"
      using turn s r cfg(1) fp by (simp add: apply_set_selection_def DownloadingData Let_def)
    have "fs_stable fs1 (tf_resume T) = fs_stable (co_fs c) (tf_resume T)"
      using R store_invD(6) [OF inv] by (simp add: reselected_def)
    then show ?thesis
      using flush_and_persist_keeps [OF cfg inv1 fp] by (simp add: c' coord_ok_def resume_true_def)
  qed
  then show "coord_ok T after c'" "fs_stable (co_fs c') (tf_resume T) \<noteq> fs_stable (co_fs c) (tf_resume T) \<Longrightarrow> resume_true T c'"
    by auto
qed

lemma shutdown_keeps:
  assumes cfg: "cc_ops cfg = ops" "cfg_matches cfg T" and ok: "coord_ok T flags c"
  shows "coord_ok T flags (shutdown cfg c)"
    "fs_stable (co_fs (shutdown cfg c)) (tf_resume T) \<noteq> fs_stable (co_fs c) (tf_resume T) \<Longrightarrow> resume_true T (shutdown cfg c)"
proof -
  have "coord_ok T flags (shutdown cfg c) \<and>
    (fs_stable (co_fs (shutdown cfg c)) (tf_resume T) \<noteq> fs_stable (co_fs c) (tf_resume T) \<longrightarrow> resume_true T (shutdown cfg c))"
  proof (cases "co_state c")
    case (DownloadingData m d paused hc)
    then have inv: "store_inv T flags m d (co_fs c)" using ok by (simp add: coord_ok_def)
    obtain d2 fs2 where fp: "flush_and_persist cfg m d (co_fs c) = (d2, fs2)" by fastforce
    show ?thesis using flush_and_persist_keeps [OF cfg inv fp] DownloadingData fp
      by (simp add: shutdown_def coord_ok_def resume_true_def)
  qed (use ok in \<open>auto simp: shutdown_def coord_ok_def\<close>)
  then show "coord_ok T flags (shutdown cfg c)"
    "fs_stable (co_fs (shutdown cfg c)) (tf_resume T) \<noteq> fs_stable (co_fs c) (tf_resume T) \<Longrightarrow> resume_true T (shutdown cfg c)"
    by auto
qed

lemma turn_keeps:
  assumes cfg: "cc_ops cfg = ops" "cfg_matches cfg T" and ok: "coord_ok T flags c" and inp: "input_ok T flags inp flags'"
    and turn: "coord_turn cfg inp c = (c', eff)" and suc: "\<forall>e. Ui (SelectionError e) \<notin> set eff"
  shows "coord_ok T flags' c' \<and> (fs_stable (co_fs c') (tf_resume T) \<noteq> fs_stable (co_fs c) (tf_resume T) \<longrightarrow> resume_true T c')"
proof (cases inp)
  case CheckTick
  then show ?thesis using check_tick_keeps [OF cfg ok] inp turn by simp
next
  case Shutdown
  then show ?thesis using shutdown_keeps [OF cfg ok] inp turn by auto
next
  case (Msg now msg)
  note t = turn [unfolded Msg coord_turn.simps] and i = inp [unfolded Msg]
  note mut = manager_mut_ok [OF ok]
  show ?thesis
  proof (cases msg)
    case (RequestWork have')
    then show ?thesis using request_work_mut [of cfg have' c c' eff] mut peer_pieces_keep(5) ok t i by auto
  next
    case (PeerBitfield ps)
    then show ?thesis using mut peer_pieces_keep(1) t i by auto
  next
    case (PeerHave x)
    then show ?thesis using mut peer_pieces_keep(3) t i by auto
  next
    case (PeerGone ps)
    then show ?thesis using mut peer_pieces_keep(2) t i by auto
  next
    case (PieceFailed x)
    have "c' = c \<or> c' = c\<lparr>co_state := manager_mut (return_work x) (co_state c)\<rparr>"
      using t PieceFailed by (auto simp: piece_failed_def manager_mut_def split: coordinator_state.splits)
    then show ?thesis using mut [OF peer_pieces_keep(4)] ok i PieceFailed by auto
  next
    case (PieceDownloaded p data)
    then have p: "p < length (tf_hashes T)" "length data = piece_size T p" "tf_sha1 T data = tf_hashes T ! p" "flags' = flags"
      and t': "piece_downloaded cfg now p data c = (c', eff)" using t i by simp_all
    show ?thesis
    proof (cases "co_state c")
      case (DownloadingData m d paused hc)
      then have inv: "store_inv T flags m d (co_fs c)" using ok by (simp add: coord_ok_def)
      show ?thesis
        by (rule piece_downloaded_keeps [OF cfg DownloadingData inv p(1-3) t']) (simp add: coord_ok_def resume_true_def p(4))
    qed (use t' ok p(4) in \<open>auto simp: piece_downloaded_def\<close>)
  next
    case (ReadPiece x b l)
    then show ?thesis using read_block_keeps(1,2) [OF cfg(1) ok] t i by simp
  next
    case (SetSelection sel after refetch)
    then show ?thesis using set_selection_keeps [OF cfg ok _ _ suc] t i by auto
  next
    case (MetadataPieceDownloaded x data)
    then have "c' = c" using t ok by (auto simp: metadata_piece_downloaded_def coord_ok_def split: coordinator_state.splits)
    then show ?thesis using ok i MetadataPieceDownloaded by simp
  next
    case Pause
    then show ?thesis using t ok i by (auto simp: set_paused_def coord_ok_def split: coordinator_state.splits)
  next
    case Resume
    then show ?thesis using t ok i by (auto simp: set_paused_def coord_ok_def split: coordinator_state.splits)
  qed (use t ok i in auto)
qed

end

section \<open>Reachable states\<close>

inductive coord_run :: "coord_cfg \<Rightarrow> torrent_facts \<Rightarrow> bool list \<Rightarrow> coordinator \<Rightarrow> bool" for cfg T where
  start: "coord_ok T flags c \<Longrightarrow> coord_run cfg T flags c"
| turn: "coord_run cfg T flags c \<Longrightarrow> input_ok T flags inp flags' \<Longrightarrow> coord_turn cfg inp c = (c', eff) \<Longrightarrow>
    \<forall>e. Ui (SelectionError e) \<notin> set eff \<Longrightarrow> coord_run cfg T flags' c'"

text \<open>One of the two disk backends, under any faults but one: no unflushed write of the standard backend is
  lost without an error. What such a loss does is \<open>lost_write_believed\<close> below.\<close>

definition reporting_backend :: "coord_cfg \<Rightarrow> bool" where
  "reporting_backend cfg \<longleftrightarrow> (\<exists>env. reports_writes env \<and> cc_ops cfg = std_ops env \<or> cc_ops cfg = uring_ops env)"

lemma backend_store: "reporting_backend cfg \<Longrightarrow> piece_store (cc_ops cfg)"
  unfolding reporting_backend_def using std_store.piece_store_axioms uring_store.piece_store_axioms reporting_eq by metis

lemma coord_run_ok:
  assumes "reporting_backend cfg" "cfg_matches cfg T" "coord_run cfg T flags c"
  shows "coord_ok T flags c"
  using assms(3)
proof induction
  case (turn flags c inp flags' c' eff)
  then show ?case using piece_store.turn_keeps [OF backend_store [OF assms(1)] refl assms(2)] by blast
qed

definition crash_image :: "disk \<Rightarrow> filesystem \<Rightarrow> bytes" where
  "crash_image d fs = map (\<lambda>k. case locate (dk_files d) k of
      None \<Rightarrow> 0
    | Some i \<Rightarrow> if fm_open (dk_files d ! i) then cell (after_crash fs) (fm_path (dk_files d ! i)) (k - fm_start (dk_files d ! i)) else 0)
    [0..<disk_end 0 (dk_files d)]"

lemma crash_image_durable:
  assumes "store_inv T flags m d fs" "is_servable m p"
    "\<And>k. k div tf_piece_length T = p \<Longrightarrow> stored (dk_files d) k \<Longrightarrow> durable (dk_files d) fs k"
  shows "slice (p * tf_piece_length T) (piece_end (tf_piece_length T) (length (disk_image d fs)) p) (crash_image d fs)
    = slice (p * tf_piece_length T) (piece_end (tf_piece_length T) (length (disk_image d fs)) p) (disk_image d fs)"
proof (rule nth_equalityI)
  note I = store_invD [OF assms(1)]
  show "length (slice (p * tf_piece_length T) (piece_end (tf_piece_length T) (length (disk_image d fs)) p) (crash_image d fs))
    = length (slice (p * tf_piece_length T) (piece_end (tf_piece_length T) (length (disk_image d fs)) p) (disk_image d fs))"
    by (simp add: crash_image_def)
  fix j assume "j < length (slice (p * tf_piece_length T) (piece_end (tf_piece_length T) (length (disk_image d fs)) p) (crash_image d fs))"
  then have j: "p * tf_piece_length T + j < piece_end (tf_piece_length T) (disk_end 0 (dk_files d)) p"
    "p * tf_piece_length T + j < disk_end 0 (dk_files d)" by (auto simp: crash_image_def)
  let ?k = "p * tf_piece_length T + j"
  have kp: "?k div tf_piece_length T = p" using j(1) range_of_piece [OF I(4), of p ?k] by (simp add: piece_end_def)
  have s: "stored (dk_files d) ?k" using servable_stored [OF assms(1,2) kp] j(2) by (simp add: disk_matches_end [OF I(2)])
  then obtain i where i: "locate (dk_files d) ?k = Some i" "fm_open (dk_files d ! i)" by (auto simp: stored_def split: option.splits)
  have "durable (dk_files d) fs ?k" using kp s by (rule assms(3))
  then have "crash_image d fs ! ?k = disk_image d fs ! ?k"
    using j(2) i stored_cell [OF I(14) s i(1)] by (simp add: crash_image_def disk_image_def durable_def)
  then show "slice (p * tf_piece_length T) (piece_end (tf_piece_length T) (length (disk_image d fs)) p) (crash_image d fs) ! j
    = slice (p * tf_piece_length T) (piece_end (tf_piece_length T) (length (disk_image d fs)) p) (disk_image d fs) ! j"
    using j by (simp add: nth_slice crash_image_def)
qed

text \<open>A torrent that starts from nothing.\<close>

lemma fresh_store_inv:
  assumes "store_ok d fs" "disk_matches (tf_files T) flags d" "dk_piece_length d = tf_piece_length T"
    "0 < tf_piece_length T" "sum_list (map tf_length (tf_files T)) < 2 ^ 64"
    "tf_resume T \<notin> fm_path ` set (dk_files d)" "tmp_sibling (tf_resume T) \<notin> fm_path ` set (dk_files d)"
    "length (tf_hashes T) = div_ceil (sum_list (map tf_length (tf_files T))) (tf_piece_length T)"
    "\<forall>p < length (tf_hashes T). bf_has (sel_unservable sel) p
          \<longleftrightarrow> holds_byte_of (tf_piece_length T) (tf_files T) (map Not flags) p"
  shows "store_inv T flags (with_selection (length (tf_hashes T)) [] sel) d fs"
  using assms with_selection_inv [of "length (tf_hashes T)" "[]" sel]
  unfolding store_inv_def pieces_verified_def crash_safe_def is_servable_def
  by (simp add: with_selection_def Let_def)

definition disk_of :: "coordinator_state \<Rightarrow> disk option" where
  "disk_of st = (case st of
     DownloadingMetadata _ _ _ \<Rightarrow> None
   | CheckingFiles _ d _ _ _ _ \<Rightarrow> Some d
   | DownloadingData _ d _ _ \<Rightarrow> Some d)"

text \<open>The bytes of piece \<open>p\<close> in an image of the torrent.\<close>

definition piece_bytes :: "torrent_facts \<Rightarrow> nat \<Rightarrow> bytes \<Rightarrow> bytes" where
  "piece_bytes T p im = slice (p * tf_piece_length T) (piece_end (tf_piece_length T) (length im) p) im"

lemma coord_ok_pieces:
  assumes "coord_ok T flags c" "manager_of (co_state c) = Some m" "is_servable m p"
  obtains d where "disk_of (co_state c) = Some d" "store_inv T flags m d (co_fs c)"
    "tf_sha1 T (piece_bytes T p (disk_image d (co_fs c))) = tf_hashes T ! p"
    "length (piece_bytes T p (disk_image d (co_fs c))) = piece_size T p" "p < length (tf_hashes T)"
proof -
  obtain d where d: "store_inv T flags m d (co_fs c)" "disk_of (co_state c) = Some d"
    using assms(1,2) by (auto simp: coord_ok_def manager_of_def disk_of_def split: coordinator_state.splits)
  note I = store_invD [OF d(1)]
  have p: "p < length (tf_hashes T)" using assms(3) I(9) mgr_invD(7) [OF I(8)] by (auto simp: is_servable_def)
  then have "p * tf_piece_length T < sum_list (map tf_length (tf_files T))" using I(4,10) by (simp add: piece_start_less)
  then show ?thesis using that [OF d(2,1)] p I(12,3) assms(3)
    by (simp add: piece_bytes_def pieces_verified_def disk_matches_end [OF I(2)] piece_size_def piece_end_def)
qed

text \<open>A one-piece torrent.\<close>

definition demo_facts :: torrent_facts where
  "demo_facts = \<lparr>tf_sha1 = (\<lambda>b. b), tf_hashes = [[7, 8]], tf_files = [\<lparr>tf_length = 2, tf_path = [[5]]\<rparr>],
     tf_piece_length = 2, tf_resume = [[9]]\<rparr>"

definition demo_cfg :: coord_cfg where
  "demo_cfg = \<lparr>cc_ops = std_ops no_faults, cc_init = (\<lambda>_ _ _ _ _ fs. (Inl IoFailed, fs)), cc_env = no_faults,
     cc_resume_path = [[9]], cc_win = False, cc_sha1 = (\<lambda>b. b), cc_de_info = (\<lambda>_. Inl []), cc_draw = (\<lambda>_ _. 0),
     cc_exists = (\<lambda>_ _. False)\<rparr>"

definition demo_files :: "bool \<Rightarrow> disk" where
  "demo_files b = \<lparr>dk_files = [\<lparr>fm_path = [[5]], fm_open = True, fm_start = 0, fm_end = 2, fm_dirty = b\<rparr>], dk_piece_length = 2\<rparr>"

definition demo_fs0 :: filesystem where
  "demo_fs0 = \<lparr>fs_cache = [[[5]] \<mapsto> [0, 0]], fs_stable = (\<lambda>_. None), fs_calls = 6\<rparr>"

definition demo_start :: coordinator where
  "demo_start = \<lparr>co_state = DownloadingData (with_selection 1 [] (sel_all 1)) (demo_files False) False False,
     co_fs = demo_fs0, co_last_persist = 0\<rparr>"

definition demo_done :: coordinator where
  "demo_done = fst (coord_turn demo_cfg (Msg 0 (PieceDownloaded 0 [7, 8])) demo_start)"

lemma demo_cfg_ok: "reporting_backend demo_cfg" "cfg_matches demo_cfg demo_facts"
  by (auto simp: reporting_backend_def demo_cfg_def cfg_matches_def demo_facts_def intro: exI [of _ no_faults])

lemma demo_start_ok: "coord_ok demo_facts [True] demo_start"
proof -
  have n: "length (tf_hashes demo_facts) = 1" by (simp add: demo_facts_def)
  have "store_inv demo_facts [True] (with_selection (length (tf_hashes demo_facts)) [] (sel_all 1)) (demo_files False) demo_fs0"
  proof (rule fresh_store_inv)
    show "store_ok (demo_files False) demo_fs0"
      by (simp add: store_ok_def disk_wf_def layout_ok_def paths_distinct_def sized_def contents_def demo_files_def demo_fs0_def)
    show "\<forall>p < length (tf_hashes demo_facts). bf_has (sel_unservable (sel_all 1)) p
        \<longleftrightarrow> holds_byte_of (tf_piece_length demo_facts) (tf_files demo_facts) (map Not [True]) p"
      by (simp add: demo_facts_def sel_all_def holds_byte_of_def)
  qed (simp_all add: demo_facts_def demo_files_def disk_matches_def tmp_sibling_def lit_def div_ceil_def)
  then show ?thesis by (simp add: coord_ok_def demo_start_def n)
qed

lemma demo_turn: "\<exists>eff. coord_turn demo_cfg (Msg 0 (PieceDownloaded 0 [7, 8])) demo_start = (demo_done, eff)
    \<and> (\<forall>e. Ui (SelectionError e) \<notin> set eff)"
proof -
  have "\<forall>e. Ui (SelectionError e) \<notin> set (snd (coord_turn demo_cfg (Msg 0 (PieceDownloaded 0 [7, 8])) demo_start))"
    by (auto simp: piece_downloaded_def Let_def split: coordinator_state.splits sum.splits prod.splits)
  then show ?thesis by (metis demo_done_def prod.collapse)
qed

lemma demo_write:
  "write_piece (std_write no_faults) 0 [7, 8] (demo_files False) demo_fs0
    = (Inr (), demo_files True, demo_fs0\<lparr>fs_cache := [[[5]] \<mapsto> [7, 8]], fs_calls := 8\<rparr>)"
  by (simp add: write_piece_def demo_files_def demo_fs0_def write_loop.simps locate_def std_write_def call_fails_def no_faults_def
      call_def put_def contents_def write_at_def slice_def)

lemma demo_flush:
  "flush no_faults (demo_files True) (demo_fs0\<lparr>fs_cache := [[[5]] \<mapsto> [7, 8]], fs_calls := 8\<rparr>)
    = (Inr (), demo_files False, \<lparr>fs_cache = [[[5]] \<mapsto> [7, 8]], fs_stable = [[[5]] \<mapsto> [7, 8]], fs_calls = 9\<rparr>)"
  by (simp add: flush_def demo_files_def demo_fs0_def call_fails_def no_faults_def call_def sync_def)

lemma demo_completed:
  "is_done (mark_completed 0 (with_selection 1 [] (sel_all 1)))" "\<not> is_completed (with_selection 1 [] (sel_all 1)) 0"
  "is_servable (mark_completed 0 (with_selection 1 [] (sel_all 1))) 0"
  by (simp_all add: is_done_def mark_completed_def with_selection_def is_completed_def is_servable_def sel_all_def
      is_wanted_def bf_full_has)

lemma demo_done_eq:
  "co_state demo_done = DownloadingData (mark_completed 0 (with_selection 1 [] (sel_all 1))) (demo_files False) False True"
  "fs_stable (co_fs demo_done) [[9]] \<noteq> None" "fs_cache (co_fs demo_done) [[5]] = Some [7, 8]"
proof -
  let ?m = "mark_completed 0 (with_selection 1 [] (sel_all 1))"
  let ?fs1 = "\<lparr>fs_cache = [[[5]] \<mapsto> [7, 8]], fs_stable = [[[5]] \<mapsto> [7, 8]], fs_calls = 9\<rparr>"
  obtain r trace where a: "atomic_write no_faults [[9]] (fr_encode (fr_from_manager ?m)) ?fs1 = (r, trace)" by fastforce
  have r: "r = Inr ()" using a by (auto simp: atomic_write_def write_tmp_def call_fails_def no_faults_def Let_def)
  have other: "[[5]] \<noteq> tmp_sibling [[9]]" by (simp add: tmp_sibling_def lit_def)
  have f: "flush_and_persist demo_cfg ?m (demo_files True) (demo_fs0\<lparr>fs_cache := [[[5]] \<mapsto> [7, 8]], fs_calls := 8\<rparr>)
      = (demo_files False, last trace)"
    using a by (simp add: flush_and_persist_def demo_cfg_def demo_flush persist_resume_def save_fastresume_def del: One_nat_def)
  have ops: "cc_ops demo_cfg = std_ops no_faults" by (simp add: demo_cfg_def)
  have e: "demo_done = \<lparr>co_state = DownloadingData ?m (demo_files False) False True, co_fs = last trace, co_last_persist = 0\<rparr>"
    using demo_completed f
    by (simp add: demo_done_def demo_start_def piece_downloaded_def Let_def demo_write ops del: One_nat_def)
  show "co_state demo_done = DownloadingData ?m (demo_files False) False True" by (simp only: e coordinator.simps)
  show "fs_stable (co_fs demo_done) [[9]] \<noteq> None" "fs_cache (co_fs demo_done) [[5]] = Some [7, 8]"
    unfolding e coordinator.simps using atomic_write_spec [OF a] r atomic_write_renamed [OF a [unfolded r]] atomic_write_other(1) [OF a _ other]
    by (simp_all add: no_faults_def)
qed

lemma demo_read:
  assumes "fs_cache fs [[5]] = Some [7, 8]"
  shows "fst (read_piece (std_read no_faults) 0 0 2 (demo_files False) fs) = Inr [7, 8]"
  using assms by (simp add: read_piece_def demo_files_def read_loop.simps locate_def
        std_read_def call_fails_def no_faults_def call_def contents_def slice_def splice_def numeral_2_eq_2)

lemma demo_manager:
  "manager_of (co_state demo_done) = Some (mark_completed 0 (with_selection 1 [] (sel_all 1)))"
  "is_servable (mark_completed 0 (with_selection 1 [] (sel_all 1))) 0"
  by (simp add: manager_of_def demo_done_eq(1)) (rule demo_completed)

lemma demo_resume:
  "fs_stable (co_fs demo_done) [[9]] \<noteq> fs_stable (co_fs demo_start) [[9]]"
  using demo_done_eq(2) by (simp add: demo_start_def demo_fs0_def)

lemma check_tick_step:
  assumes "co_state c = CheckingFiles m d hs pl tlen i"
  obtains m' d' where "mgr_total_pieces m' = mgr_total_pieces m" "is_wanted m' = is_wanted m" "mgr_completed m \<subseteq> mgr_completed m'"
    "mgr_completed m' \<subseteq> mgr_completed m \<union> {p. is_wanted m p \<and> p = i}"
    "co_state (fst (check_tick cfg c)) = (if Suc i \<ge> mgr_total_pieces m then DownloadingData m' d' False (is_done m')
       else CheckingFiles m' d' hs pl tlen (Suc i))"
proof (cases "i \<ge> mgr_total_pieces m")
  case True
  then show ?thesis using that [of m d] assms by (simp add: check_tick_def finish_check_def Let_def)
next
  case False
  obtain r d1 fs1 where rd: "(if is_wanted m i then do_read (cc_ops cfg) i 0 (check_length i (mgr_total_pieces m) pl tlen) (d, co_fs c)
          else (Inl IoFailed, d, co_fs c)) = (r, d1, fs1)" by (metis prod_cases3)
  define v where "v = (case r of Inl _ \<Rightarrow> False | Inr data \<Rightarrow> cc_sha1 cfg data = hs ! i)"
  have w: "v \<Longrightarrow> is_wanted m i" using rd by (auto simp: v_def split: if_splits)
  have m': "mgr_total_pieces (mark_completed i m) = mgr_total_pieces m" "mgr_selection (mark_completed i m) = mgr_selection m"
    "mgr_completed m \<subseteq> mgr_completed (mark_completed i m)" "mgr_completed (mark_completed i m) \<subseteq> insert i (mgr_completed m)"
    by (auto simp: mark_completed_def Let_def)
  let ?m = "if v then mark_completed i m else m"
  have "co_state (fst (check_tick cfg c)) = (if Suc i \<ge> mgr_total_pieces m then DownloadingData ?m d1 False (is_done ?m)
       else CheckingFiles ?m d1 hs pl tlen (Suc i))"
    using rd False by (simp add: check_tick_def assms finish_check_def Let_def v_def [symmetric])
  then show ?thesis using w m' by (intro that [of ?m d1]) (auto simp: is_wanted_def)
qed

section \<open>Properties\<close>

text \<open>Every block the coordinator hands to a session for upload, for a request inside the piece, is cut
  from a piece that hashes to the expected value.\<close>

lemma read_reply_verified:
  assumes "reporting_backend cfg" "cfg_matches cfg T" "coord_run cfg T flags c"
    "handle_msg cfg now (ReadPiece i b l) c = (c', eff)" "ReplyBlock (Some block) \<in> set eff" "b + l \<le> piece_size T i"
  shows "\<exists>data. length data = piece_size T i \<and> tf_sha1 T data = tf_hashes T ! i \<and> block = slice b (b + l) data"
proof -
  note ok = coord_run_ok [OF assms(1-3)]
  obtain m d p h where c: "co_state c = DownloadingData m d p h" "is_servable m i"
    "block = slice (i * tf_piece_length T + b) (i * tf_piece_length T + b + l) (disk_image d (co_fs c))"
    using piece_store.read_block_keeps(3) [OF backend_store [OF assms(1)] refl ok assms(4) [unfolded handle_msg.simps] assms(5)]
    by blast
  obtain d' where d': "disk_of (co_state c) = Some d'"
    "tf_sha1 T (piece_bytes T i (disk_image d' (co_fs c))) = tf_hashes T ! i"
    "length (piece_bytes T i (disk_image d' (co_fs c))) = piece_size T i"
    using coord_ok_pieces [OF ok _ c(2)] c(1) by (auto simp: manager_of_def)
  have d: "d' = d" using d'(1) c(1) by (simp add: disk_of_def)
  have "block = slice b (b + l) (piece_bytes T i (disk_image d (co_fs c)))"
    using assms(6) d'(3) by (simp add: c(3) d piece_bytes_def slice_def drop_take add.commute add.left_commute)
  then show ?thesis using d' d by blast
qed

text \<open>A write that is lost without an error is believed: when the standard backend loses the end of the only
  write of a downloaded piece, the turn marks the piece as completed, announces it to the peers and serves it, although
  the file holds only the part of it that was stored.\<close>

lemma one_file_write:
  assumes "\<not> call_fails env fs" "\<not> env_fails env (Suc (fs_calls fs))" "env_lost env (Suc (fs_calls fs)) = Some k"
    "dk_files d = [f]" "fm_open f" "fm_start f = 0" "i * dk_piece_length d + length data \<le> fm_end f" "data \<noteq> []"
  shows "write_piece (std_write env) i data d fs = (Inr (), d\<lparr>dk_files := [f\<lparr>fm_dirty := True\<rparr>]\<rparr>,
    put (fm_path f) (i * dk_piece_length d) (take k data) (call (call fs)))"
proof -
  have l: "locate [f] (i * dk_piece_length d) = Some 0" using assms(6-8) by (cases data) (simp_all add: locate_def)
  have m: "min (length data) (fm_end f - i * dk_piece_length d) = length data" using assms(7) by simp
  have w: "std_write env (fm_path f) (i * dk_piece_length d) data fs
      = (Inr (), put (fm_path f) (i * dk_piece_length d) (take k data) (call (call fs)))"
    using assms(1-3) by (simp add: std_write_def call_fails_def call_def Let_def)
  show ?thesis
    using l m w assms(4-6,8) by (simp add: write_piece_def write_loop.simps slice_def Let_def)
qed

theorem lost_write_believed:
  assumes "cc_ops cfg = std_ops env" "co_state c = DownloadingData m d p h" "\<not> is_completed m i"
    "\<not> call_fails env (co_fs c)" "\<not> env_fails env (Suc (fs_calls (co_fs c)))" "env_lost env (Suc (fs_calls (co_fs c))) = Some k"
    "dk_files d = [f]" "fm_open f" "fm_start f = 0" "i * dk_piece_length d + length data \<le> fm_end f" "data \<noteq> []"
    "fm_path f \<notin> {cc_resume_path cfg, tmp_sibling (cc_resume_path cfg)}" "\<not> bf_has (sel_unservable (mgr_selection m)) i"
    "i < mgr_total_pieces m" "coord_turn cfg (Msg now (PieceDownloaded i data)) c = (c', eff)"
  shows "Announce (PieceCompleted i) \<in> set eff \<and> (\<exists>m'. manager_of (co_state c') = Some m' \<and> is_servable m' i)
    \<and> contents (co_fs c') (fm_path f) = write_at (i * dk_piece_length d) (take k data) (contents (co_fs c) (fm_path f))"
proof -
  let ?fs1 = "put (fm_path f) (i * dk_piece_length d) (take k data) (call (call (co_fs c)))"
  let ?d1 = "d\<lparr>dk_files := [f\<lparr>fm_dirty := True\<rparr>]\<rparr>"
  note w = one_file_write [OF assms(4-11)]
  obtain d2 fs2 where fp: "flush_and_persist cfg (mark_completed i m) ?d1 ?fs1 = (d2, fs2)" by fastforce
  have "contents fs2 (fm_path f) = contents ?fs1 (fm_path f)"
  proof -
    obtain q d3 fs3 where fl: "flush env ?d1 ?fs1 = (q, d3, fs3)" by (metis prod_cases3)
    have c3: "fs_cache fs3 = fs_cache ?fs1" using flush_flushed [OF fl] by (simp add: flushed_def)
    obtain q' trace where a: "atomic_write (cc_env cfg) (cc_resume_path cfg) (fr_encode (fr_from_manager (mark_completed i m))) fs3 = (q', trace)"
      by fastforce
    have "fs_cache (last trace) (fm_path f) = fs_cache fs3 (fm_path f)" by (rule atomic_write_other [OF a]) (use assms(12) in auto)
    then have "fs_cache fs2 (fm_path f) = fs_cache ?fs1 (fm_path f)"
      using fp fl a c3 by (auto simp: flush_and_persist_def assms(1) persist_resume_def save_fastresume_def split: sum.splits)
    then show ?thesis by (simp add: contents_def)
  qed
  moreover have "is_servable (mark_completed i m) i"
    using assms(3,13,14) by (auto simp: is_servable_def is_completed_def mark_completed_def Let_def)
  ultimately show ?thesis
    using assms(2,3,15) w fp by (auto simp: piece_downloaded_def assms(1) Let_def manager_of_def split: if_splits)
qed

theorem lost_write_believed_witness:
  "\<exists>c' eff m'. coord_turn (demo_cfg\<lparr>cc_ops := std_ops (no_faults\<lparr>env_lost := (\<lambda>_. Some 1)\<rparr>)\<rparr>)
      (Msg 0 (PieceDownloaded 0 [7, 8])) demo_start = (c', eff)
    \<and> Announce (PieceCompleted 0) \<in> set eff \<and> manager_of (co_state c') = Some m' \<and> is_servable m' 0 \<and> contents (co_fs c') [[5]] = [7, 0]"
proof -
  let ?env = "no_faults\<lparr>env_lost := (\<lambda>_. Some 1)\<rparr>"
  let ?cfg = "demo_cfg\<lparr>cc_ops := std_ops ?env\<rparr>"
  obtain c' eff where t: "coord_turn ?cfg (Msg 0 (PieceDownloaded 0 [7, 8])) demo_start = (c', eff)" by fastforce
  have "Announce (PieceCompleted 0) \<in> set eff \<and> (\<exists>m'. manager_of (co_state c') = Some m' \<and> is_servable m' 0)
    \<and> contents (co_fs c') (fm_path (hd (dk_files (demo_files False))))
      = write_at (0 * dk_piece_length (demo_files False)) (take 1 [7, 8]) (contents (co_fs demo_start) (fm_path (hd (dk_files (demo_files False)))))"
    by (rule lost_write_believed [OF _ _ _ _ _ _ _ _ _ _ _ _ _ _ t, of ?env "with_selection 1 [] (sel_all 1)" "demo_files False" False False 1])
      (use demo_completed(2) in \<open>auto simp: demo_cfg_def demo_start_def demo_files_def demo_fs0_def call_fails_def no_faults_def
        tmp_sibling_def lit_def with_selection_def sel_all_def Let_def\<close>)
  then have "Announce (PieceCompleted 0) \<in> set eff" "\<exists>m'. manager_of (co_state c') = Some m' \<and> is_servable m' 0"
    "contents (co_fs c') [[5]] = [7, 0]"
    by (simp_all add: demo_files_def demo_start_def demo_fs0_def contents_def write_at_def)
  with t show ?thesis by blast
qed

lemma persisted_turn:
  assumes "reporting_backend cfg" "cfg_matches cfg T" "coord_run cfg T flags c" "input_ok T flags inp flags'"
    "coord_turn cfg inp c = (c', eff)" "\<forall>e. Ui (SelectionError e) \<notin> set eff"
    "fs_stable (co_fs c') (tf_resume T) \<noteq> fs_stable (co_fs c) (tf_resume T)"
  shows "coord_ok T flags' c' \<and> (\<exists>m d. manager_of (co_state c') = Some m \<and> disk_of (co_state c') = Some d
    \<and> fs_stable (co_fs c') (tf_resume T) = Some (fr_encode (fr_from_manager m))
    \<and> (\<forall>p. is_servable m p \<longrightarrow> tf_sha1 T (piece_bytes T p (crash_image d (co_fs c'))) = tf_hashes T ! p))"
proof -
  have ok: "coord_ok T flags' c'" and rt: "resume_true T c'"
    using piece_store.turn_keeps [OF backend_store [OF assms(1)] refl assms(2) coord_run_ok [OF assms(1-3)] assms(4-6)] assms(7) by auto
  obtain m d p h where c: "co_state c' = DownloadingData m d p h"
    and r: "fs_stable (co_fs c') (tf_resume T) = Some (fr_encode (fr_from_manager m))"
    and du: "\<And>k. k div tf_piece_length T \<in> mgr_completed m \<Longrightarrow> stored (dk_files d) k \<Longrightarrow> durable (dk_files d) (co_fs c') k"
    using rt by (auto simp: resume_true_def split: coordinator_state.splits)
  have md: "manager_of (co_state c') = Some m" "disk_of (co_state c') = Some d"
    by (simp_all add: c manager_of_def disk_of_def)
  have "tf_sha1 T (piece_bytes T p (crash_image d (co_fs c'))) = tf_hashes T ! p" if sp: "is_servable m p" for p
  proof -
    obtain d' where d': "disk_of (co_state c') = Some d'" "store_inv T flags' m d' (co_fs c')"
      "tf_sha1 T (piece_bytes T p (disk_image d' (co_fs c'))) = tf_hashes T ! p"
      using coord_ok_pieces [OF ok md(1) sp] by metis
    then have "d' = d" using md(2) by simp
    have "durable (dk_files d) (co_fs c') k" if "k div tf_piece_length T = p" "stored (dk_files d) k" for k
      using du [of k] sp that by (simp add: is_servable_def)
    with d' \<open>d' = d\<close> crash_image_durable [OF _ sp] show ?thesis by (simp add: piece_bytes_def crash_image_def)
  qed
  with md r ok show ?thesis by blast
qed

text \<open>C3. Progress is recorded only when it is true and durable: with a disk backend that loses no write without an error (\<open>lost_write_believed\<close> shows what
  such a loss does), and in a run in which the disk's changes of the selection do not fail, whenever a turn of the coordinator changes the
  resume file on stable storage, the file lists exactly the completed pieces, and every servable one of them
  would be read back correctly after a crash at that moment.\<close>

theorem resume_never_ahead_of_disk:
  assumes "reporting_backend cfg" "cfg_matches cfg T" "coord_run cfg T flags c" "input_ok T flags inp flags'"
    "coord_turn cfg inp c = (c', eff)" "\<forall>e. Ui (SelectionError e) \<notin> set eff"
    "fs_stable (co_fs c') (tf_resume T) \<noteq> fs_stable (co_fs c) (tf_resume T)"
  shows "\<exists>m d. manager_of (co_state c') = Some m \<and> disk_of (co_state c') = Some d
    \<and> fs_stable (co_fs c') (tf_resume T) = Some (fr_encode (fr_from_manager m))
    \<and> (\<forall>p. is_servable m p \<longrightarrow> tf_sha1 T (piece_bytes T p (crash_image d (co_fs c'))) = tf_hashes T ! p)"
  using persisted_turn [OF assms] by blast

theorem resume_never_ahead_of_disk_witness:
  "\<exists>m d. manager_of (co_state demo_done) = Some m \<and> disk_of (co_state demo_done) = Some d
    \<and> fs_stable (co_fs demo_done) (tf_resume demo_facts) = Some (fr_encode (fr_from_manager m))"
proof -
  obtain eff where e: "coord_turn demo_cfg (Msg 0 (PieceDownloaded 0 [7, 8])) demo_start = (demo_done, eff)"
    "\<forall>e. Ui (SelectionError e) \<notin> set eff" using demo_turn by blast
  have "input_ok demo_facts [True] (Msg 0 (PieceDownloaded 0 [7, 8])) [True]"
    by (simp add: demo_facts_def piece_size_def piece_end_def)
  moreover have "fs_stable (co_fs demo_done) (tf_resume demo_facts) \<noteq> fs_stable (co_fs demo_start) (tf_resume demo_facts)"
    using demo_resume by (auto simp: demo_facts_def)
  ultimately show ?thesis
    using resume_never_ahead_of_disk [OF demo_cfg_ok coord_run.start [OF demo_start_ok] _ e] by blast
qed

text \<open>C21. The check of the files ends: whatever the disk answers, after as many ticks as there are pieces left to check (one
  if there are none) the coordinator downloads, with every piece it had and no piece added that is not
  a wanted one among those left.\<close>

theorem file_check_ends:
  assumes "co_state c = CheckingFiles m d hs pl tlen i"
  shows "\<exists>m' d'. co_state (((\<lambda>c. fst (check_tick cfg c)) ^^ max 1 (mgr_total_pieces m - i)) c) = DownloadingData m' d' False (is_done m')
    \<and> mgr_total_pieces m' = mgr_total_pieces m \<and> mgr_completed m \<subseteq> mgr_completed m'
    \<and> mgr_completed m' \<subseteq> mgr_completed m \<union> {p. is_wanted m p \<and> i \<le> p}"
  using assms
proof (induction "mgr_total_pieces m - i" arbitrary: c m d i rule: less_induct)
  case less
  let ?n = "mgr_total_pieces m"
  obtain m1 d1 where m1: "mgr_total_pieces m1 = ?n" "is_wanted m1 = is_wanted m" "mgr_completed m \<subseteq> mgr_completed m1"
    "mgr_completed m1 \<subseteq> mgr_completed m \<union> {p. is_wanted m p \<and> p = i}"
    "co_state (fst (check_tick cfg c)) = (if Suc i \<ge> ?n then DownloadingData m1 d1 False (is_done m1)
       else CheckingFiles m1 d1 hs pl tlen (Suc i))"
    using check_tick_step [OF less.prems] by metis
  show ?case
  proof (cases "Suc i \<ge> ?n")
    case True
    then have "max 1 (?n - i) = 1" by simp
    then show ?thesis using m1 True by auto
  next
    case False
    then have k: "max 1 (?n - i) = Suc (max 1 (?n - Suc i))" by simp
    have "mgr_total_pieces m1 - Suc i < ?n - i" using False m1(1) by simp
    moreover have "co_state (fst (check_tick cfg c)) = CheckingFiles m1 d1 hs pl tlen (Suc i)" using m1(5) False by simp
    ultimately obtain m' d' where m': 
      "co_state (((\<lambda>c. fst (check_tick cfg c)) ^^ max 1 (?n - Suc i)) (fst (check_tick cfg c))) = DownloadingData m' d' False (is_done m')"
      "mgr_total_pieces m' = ?n" "mgr_completed m1 \<subseteq> mgr_completed m'" "mgr_completed m' \<subseteq> mgr_completed m1 \<union> {p. is_wanted m p \<and> Suc i \<le> p}"
      using less.hyps [of m1 "Suc i" "fst (check_tick cfg c)" d1] unfolding m1(1,2) by blast
    have "mgr_completed m \<subseteq> mgr_completed m'" using m1(3) m'(3) by blast
    moreover have "mgr_completed m' \<subseteq> mgr_completed m \<union> {p. is_wanted m p \<and> i \<le> p}" using m1(4) m'(4) by fastforce
    ultimately show ?thesis using m'(1,2) unfolding k funpow_Suc_right comp_apply by blast
  qed
qed

theorem file_check_ends_witness:
  "\<exists>m' d'. co_state (((\<lambda>c. fst (check_tick demo_cfg c)) ^^ max 1 (mgr_total_pieces (with_selection 1 [] (sel_all 1)) - 0))
      (demo_start\<lparr>co_state := CheckingFiles (with_selection 1 [] (sel_all 1)) (demo_files False) [[7, 8]] 2 2 0\<rparr>))
    = DownloadingData m' d' False (is_done m')"
  using file_check_ends [of "demo_start\<lparr>co_state := CheckingFiles (with_selection 1 [] (sel_all 1)) (demo_files False) [[7, 8]] 2 2 0\<rparr>"
      "with_selection 1 [] (sel_all 1)" "demo_files False" "[[7, 8]]" 2 2 0 demo_cfg] by auto

end
