(* ===== verification/Session.thy ===== *)
theory Session
  imports Coordinator Assembler
begin

text \<open>
  One peer connection, \<open>net/session.rs\<close>. The state of \<open>PeerSession\<close> is the record \<open>peer_session\<close>; what it shares
  with the other sessions of the torrent is the counter of upload slots. A \<open>session_world\<close> is both, with the
  trace of what the session sent and received. Every handler takes the outside world of one call
  as a \<open>session_io\<close>: the clock, which writes to the peer succeed, whether the coordinator still listens, and its
  replies. Bencode dictionaries are decoded by \<open>serde_bencode\<close>, SHA-1 is a function and the iteration order of
  a hash set is arbitrary: they are fields of \<open>peer_ctx\<close>.
\<close>

section \<open>Constants\<close>

definition TICK :: duration where "TICK = secs 1"
definition REQUEST_RETRY_TIMEOUT :: duration where "REQUEST_RETRY_TIMEOUT = secs 5"
definition PIPELINE_DEPTH :: nat where "PIPELINE_DEPTH = 16"
definition WORK_POLL_INTERVAL :: duration where "WORK_POLL_INTERVAL = secs 2"
definition KEEPALIVE_INTERVAL :: duration where "KEEPALIVE_INTERVAL = secs 90"
definition PEER_SILENCE_TIMEOUT :: duration where "PEER_SILENCE_TIMEOUT = secs 150"
definition USELESS_TIMEOUT :: duration where "USELESS_TIMEOUT = secs 120"
definition BLOCK_STALL_TIMEOUT :: duration where "BLOCK_STALL_TIMEOUT = secs 60"
definition CHOKED_JOB_TIMEOUT :: duration where "CHOKED_JOB_TIMEOUT = secs 30"
definition MAX_UPLOAD_SLOTS :: nat where "MAX_UPLOAD_SLOTS = 8"

section \<open>Upload slots\<close>

record upload_slots =
  us_max :: nat
  us_used :: nat

definition slots_new :: "nat \<Rightarrow> upload_slots" where
  "slots_new mx = \<lparr>us_max = mx, us_used = 0\<rparr>"

definition try_acquire :: "upload_slots \<Rightarrow> bool \<times> upload_slots" where
  "try_acquire s = (if us_used s < us_max s then (True, s\<lparr>us_used := us_used s + 1\<rparr>) else (False, s))"

definition release :: "upload_slots \<Rightarrow> upload_slots" where
  "release s = s\<lparr>us_used := us_used s - 1\<rparr>"

section \<open>State\<close>

record job =
  jb_index :: nat
  jb_expected_hash :: bytes
  jb_assembler :: piece_assembler
  jb_last_block :: instant

record session_telemetry =
  tl_in_flight_requests :: nat
  tl_retries :: nat
  tl_duplicate_blocks :: nat
  tl_unexpected_blocks :: nat
  tl_downloaded_bytes :: nat
  tl_time_to_first_piece :: "duration option"

definition telemetry_default :: session_telemetry where
  "telemetry_default = \<lparr>tl_in_flight_requests = 0, tl_retries = 0, tl_duplicate_blocks = 0, tl_unexpected_blocks = 0,
     tl_downloaded_bytes = 0, tl_time_to_first_piece = None\<rparr>"

record peer_ctx =
  pc_expected_hashes :: "bytes list"
  pc_piece_length :: nat
  pc_total_length :: "nat option"
  pc_swarm :: bool
  pc_sha1 :: "bytes \<Rightarrow> bytes"
  pc_ext_handshake :: "bytes option"
  pc_ser_pex :: "pex_message \<Rightarrow> bytes option"
  pc_de_pex :: "bytes \<Rightarrow> pex_message option"
  pc_de_ext :: "bytes \<Rightarrow> (rstring \<Rightarrow> byte option) option"
  pc_iter :: "socket_addr list \<Rightarrow> socket_addr list"

record peer_session =
  ps_peer_addr :: socket_addr
  ps_decoder :: message_decoder
  ps_am_choking :: bool
  ps_am_interested :: bool
  ps_peer_choking :: bool
  ps_peer_interested :: bool
  ps_holds_upload_slot :: bool
  ps_remote_pex_id :: "byte option"
  ps_last_sent_peers :: "socket_addr list"
  ps_have :: bitfield
  ps_job :: "job option"
  ps_telemetry :: session_telemetry
  ps_session_start :: instant
  ps_next_work_poll :: instant
  ps_last_recv :: instant
  ps_last_useful :: instant
  ps_last_keepalive :: instant

definition session_new :: "peer_ctx \<Rightarrow> socket_addr \<Rightarrow> instant \<Rightarrow> peer_session" where
  "session_new ctx addr now = \<lparr>ps_peer_addr = addr, ps_decoder = decoder_new, ps_am_choking = True, ps_am_interested = False,
     ps_peer_choking = True, ps_peer_interested = False, ps_holds_upload_slot = False, ps_remote_pex_id = None,
     ps_last_sent_peers = [], ps_have = bf_new (length (pc_expected_hashes ctx)), ps_job = None,
     ps_telemetry = telemetry_default, ps_session_start = now, ps_next_work_poll = now, ps_last_recv = now,
     ps_last_useful = now, ps_last_keepalive = now\<rparr>"

datatype swarm_event =
    PeerProgress socket_addr nat
  | PeerExited socket_addr
  | TrackerPeersReceived "socket_addr list"
  | TrackerAnnounceFailed rstring
  | PexPeersReceived "socket_addr list"
  | DhtPeersReceived "socket_addr list"

datatype session_out =
    SendMsg peer_message
  | ToCoord coordinator_msg
  | GotWork nat
  | Cancelled nat
  | ToSwarm swarm_event
  | UiTelemetry session_telemetry
  | UiBytes nat nat
  | Downloaded nat
  | Uploaded nat

datatype session_error =
    SendFailed
  | CoordinatorGone
  | InvalidAssignment nat
  | HaveOutOfRange nat
  | MalformedBitfield nat
  | InvalidRequestFrom nat nat nat
  | AssemblerFailed assembler_error
  | HashMismatch nat
  | PeerSilent
  | PeerStalled
  | Wire wire_error

record session_world =
  sw_session :: peer_session
  sw_slots :: upload_slots
  sw_trace :: "session_out list"

record session_io =
  io_now :: instant
  io_sent :: "peer_message \<Rightarrow> bool"
  io_coord :: bool
  io_work :: "nat option"
  io_block :: "bytes option"
  io_completed :: "nat list option"

type_synonym 'a session_result = "(session_error + 'a) \<times> session_world"

abbreviation ok :: "session_world \<Rightarrow> unit session_result" where
  "ok w \<equiv> (Inr (), w)"

definition then_do :: "'a session_result \<Rightarrow> ('a \<Rightarrow> session_world \<Rightarrow> 'b session_result) \<Rightarrow> 'b session_result" where
  "then_do r f = (case r of (Inl e, w) \<Rightarrow> (Inl e, w) | (Inr x, w) \<Rightarrow> f x w)"

definition emit :: "session_out \<Rightarrow> session_world \<Rightarrow> session_world" where
  "emit x w = w\<lparr>sw_trace := sw_trace w @ [x]\<rparr>"

definition upd :: "(peer_session \<Rightarrow> peer_session) \<Rightarrow> session_world \<Rightarrow> session_world" where
  "upd f w = w\<lparr>sw_session := f (sw_session w)\<rparr>"

text \<open>A write whose failure ends the session, and one whose failure is ignored.\<close>

definition send_or_fail :: "session_io \<Rightarrow> peer_message \<Rightarrow> session_world \<Rightarrow> unit session_result" where
  "send_or_fail io m w = (if io_sent io m then ok (emit (SendMsg m) w) else (Inl SendFailed, w))"

definition try_send :: "session_io \<Rightarrow> peer_message \<Rightarrow> session_world \<Rightarrow> session_world" where
  "try_send io m w = (if io_sent io m then emit (SendMsg m) w else w)"

definition tell_coord :: "session_io \<Rightarrow> coordinator_msg \<Rightarrow> session_world \<Rightarrow> session_world" where
  "tell_coord io m w = (if io_coord io then emit (ToCoord m) w else w)"

definition tell_or_fail :: "session_io \<Rightarrow> coordinator_msg \<Rightarrow> session_world \<Rightarrow> unit session_result" where
  "tell_or_fail io m w = (if io_coord io then ok (emit (ToCoord m) w) else (Inl CoordinatorGone, w))"

definition tell_swarm :: "peer_ctx \<Rightarrow> swarm_event \<Rightarrow> session_world \<Rightarrow> session_world" where
  "tell_swarm ctx ev w = (if pc_swarm ctx then emit (ToSwarm ev) w else w)"

section \<open>Opening\<close>

definition send_opening_messages :: "peer_ctx \<Rightarrow> session_io \<Rightarrow> bool \<Rightarrow> session_world \<Rightarrow> unit session_result" where
  "send_opening_messages ctx io remote_supports_extensions w =
     (let w1 = (if remote_supports_extensions then
                  (case pc_ext_handshake ctx of None \<Rightarrow> w | Some payload \<Rightarrow> try_send io (Extended 0 payload) w)
                else w)
      in then_do (tell_or_fail io GetCompletedPieces w1) (\<lambda>_ w2.
         then_do (case io_completed io of
             None \<Rightarrow> ok w2
           | Some completed \<Rightarrow>
               if completed \<noteq> []
               then send_or_fail io (BitfieldMsg (bf_bytes (bf_from_indices (length (pc_expected_hashes ctx)) completed))) w2
               else ok w2) (\<lambda>_ w3.
         then_do (send_or_fail io Interested w3) (\<lambda>_ w4.
         ok (upd (\<lambda>s. s\<lparr>ps_am_interested := True\<rparr>) w4)))))"

definition push_telemetry :: "session_io \<Rightarrow> session_world \<Rightarrow> session_world" where
  "push_telemetry io w =
     (let s = sw_session w;
          t = (case ps_job s of
                 None \<Rightarrow> ps_telemetry s
               | Some j \<Rightarrow> (ps_telemetry s)\<lparr>tl_in_flight_requests :=
                     in_flight_count (io_now io) REQUEST_RETRY_TIMEOUT (jb_assembler j),
                     tl_downloaded_bytes := pa_received_bytes (jb_assembler j)\<rparr>)
      in emit (UiTelemetry t) (upd (\<lambda>s. s\<lparr>ps_telemetry := t\<rparr>) w))"

section \<open>Downloading\<close>

definition session_piece_len_at :: "nat \<Rightarrow> nat \<Rightarrow> nat option \<Rightarrow> nat option" where
  "session_piece_len_at index piece_length total_length =
     (case total_length of
        Some tot \<Rightarrow>
          (case checked_mul_u64 index piece_length of
             None \<Rightarrow> None
           | Some start \<Rightarrow> if start \<ge> tot then None else Some (as_u32 (min piece_length (tot - start))))
      | None \<Rightarrow> Some piece_length)"

definition maybe_request_work :: "peer_ctx \<Rightarrow> session_io \<Rightarrow> session_world \<Rightarrow> unit session_result" where
  "maybe_request_work ctx io w =
     (let s = sw_session w in
      if ps_job s \<noteq> None \<or> ps_peer_choking s \<or> bf_count (ps_have s) = 0 \<or> io_now io < ps_next_work_poll s then ok w
      else then_do (tell_or_fail io (RequestWork (ps_have s)) w) (\<lambda>_ w1.
        case io_work io of
          None \<Rightarrow> ok (upd (\<lambda>s. s\<lparr>ps_next_work_poll := io_now io + WORK_POLL_INTERVAL\<rparr>) w1)
        | Some index \<Rightarrow>
            (let w2 = emit (GotWork index) w1 in
             case (if index < length (pc_expected_hashes ctx) then Some (pc_expected_hashes ctx ! index) else None,
                   session_piece_len_at index (pc_piece_length ctx) (pc_total_length ctx)) of
               (Some expected_hash, Some len) \<Rightarrow>
                 ok (upd (\<lambda>s. s\<lparr>ps_job := Some \<lparr>jb_index = index, jb_expected_hash = expected_hash,
                           jb_assembler = pa_new index len, jb_last_block = io_now io\<rparr>,
                         ps_telemetry := (ps_telemetry s)\<lparr>tl_downloaded_bytes := 0\<rparr>\<rparr>) w2)
             | _ \<Rightarrow> (Inl (InvalidAssignment index), tell_coord io (PieceFailed index) w2))))"

text \<open>The loop of \<open>fill_pipeline\<close>, with the clock read once: the requests written, how many are retries, and
  whether a write failed.\<close>

function fill_loop ::
  "session_io \<Rightarrow> nat \<Rightarrow> piece_assembler \<Rightarrow> (session_error + unit) \<times> piece_assembler \<times> peer_message list \<times> nat" where
  "fill_loop io index a =
     (if in_flight_count (io_now io) REQUEST_RETRY_TIMEOUT a < PIPELINE_DEPTH then
        (case next_request (io_now io) REQUEST_RETRY_TIMEOUT a of
           (None, a') \<Rightarrow> (Inr (), a', [], 0)
         | (Some (begn, len, is_retry), a') \<Rightarrow>
             if io_sent io (Request index begn len) then
               (let (r, a'', msgs, retries) = fill_loop io index a'
                in (r, a'', Request index begn len # msgs, (if is_retry then 1 else 0) + retries))
             else (Inl SendFailed, a', [], 0))
      else (Inr (), a, [], 0))"
  by pat_completeness auto
termination fill_loop
proof (relation "measure (\<lambda>(io, index, a). PIPELINE_DEPTH - in_flight_count (io_now io) REQUEST_RETRY_TIMEOUT a)", goal_cases)
  case (2 io index a r a' x begn y len is_retry)
  then have n: "next_request (io_now io) REQUEST_RETRY_TIMEOUT a = (Some (begn, len, is_retry), a')" by simp
  from next_request_spec [OF n] 2(1) show ?case by (auto split: list.splits)
qed simp

declare fill_loop.simps [simp del]

definition fill_pipeline :: "session_io \<Rightarrow> session_world \<Rightarrow> unit session_result" where
  "fill_pipeline io w =
     (let s = sw_session w in
      if ps_peer_choking s then ok w
      else case ps_job s of
        None \<Rightarrow> ok w
      | Some j \<Rightarrow>
          (let (r, a, msgs, retries) = fill_loop io (jb_index j) (jb_assembler j);
               w' = upd (\<lambda>s. s\<lparr>ps_job := Some (j\<lparr>jb_assembler := a\<rparr>),
                             ps_telemetry := (ps_telemetry s)\<lparr>tl_retries := tl_retries (ps_telemetry s) + retries\<rparr>\<rparr>) w
           in (r, w'\<lparr>sw_trace := sw_trace w' @ map SendMsg msgs\<rparr>)))"

section \<open>Upload slots of the session\<close>

definition release_upload_slot :: "session_world \<Rightarrow> session_world" where
  "release_upload_slot w =
     (if ps_holds_upload_slot (sw_session w)
      then upd (\<lambda>s. s\<lparr>ps_holds_upload_slot := False\<rparr>) (w\<lparr>sw_slots := release (sw_slots w)\<rparr>)
      else w)"

definition try_unchoke :: "session_io \<Rightarrow> session_world \<Rightarrow> unit session_result" where
  "try_unchoke io w =
     (let s = sw_session w in
      if ps_am_choking s \<and> ps_peer_interested s then
        (let (got, slots) = try_acquire (sw_slots w) in
         if got then
           then_do (send_or_fail io Unchoke (upd (\<lambda>s. s\<lparr>ps_holds_upload_slot := True\<rparr>) (w\<lparr>sw_slots := slots\<rparr>)))
             (\<lambda>_ w'. ok (upd (\<lambda>s. s\<lparr>ps_am_choking := False\<rparr>) w'))
         else ok (w\<lparr>sw_slots := slots\<rparr>))
      else ok w)"

definition choke :: "session_io \<Rightarrow> session_world \<Rightarrow> unit session_result" where
  "choke io w =
     then_do (if \<not> ps_am_choking (sw_session w)
              then then_do (send_or_fail io Choke w) (\<lambda>_ w'. ok (upd (\<lambda>s. s\<lparr>ps_am_choking := True\<rparr>) w'))
              else ok w)
       (\<lambda>_ w'. ok (release_upload_slot w'))"

section \<open>Events of the torrent\<close>

fun handle_event :: "peer_ctx \<Rightarrow> session_io \<Rightarrow> session_event \<Rightarrow> session_world \<Rightarrow> unit session_result" where
  "handle_event ctx io (PieceCompleted index) w =
     (let w1 = try_send io (Have index) w in
      case ps_job (sw_session w1) of
        Some j \<Rightarrow> if jb_index j = index then ok (emit (Cancelled index) (upd (\<lambda>s. s\<lparr>ps_job := None\<rparr>) w1)) else ok w1
      | None \<Rightarrow> ok w1)"
| "handle_event ctx io EvSelectionChanged w =
     then_do (if \<not> ps_am_interested (sw_session w)
              then then_do (send_or_fail io Interested w) (\<lambda>_ w'. ok (upd (\<lambda>s. s\<lparr>ps_am_interested := True\<rparr>) w'))
              else ok w)
       (\<lambda>_ w'. ok (upd (\<lambda>s. s\<lparr>ps_next_work_poll := io_now io\<rparr>) w'))"
| "handle_event ctx io EvDownloadComplete w =
     (if ps_am_interested (sw_session w)
      then ok (upd (\<lambda>s. s\<lparr>ps_am_interested := False\<rparr>) (try_send io NotInterested w))
      else ok w)"
| "handle_event ctx io (ActivePeersSnapshot current_peers) w =
     (let s = sw_session w in
      case ps_remote_pex_id s of
        None \<Rightarrow> ok w
      | Some remote_id \<Rightarrow>
          (let current_set = pc_iter ctx (remdups current_peers);
               dropped = take 50 (filter (\<lambda>a. a \<notin> set current_set) (ps_last_sent_peers s));
               added = take 50 (filter (\<lambda>a. a \<noteq> ps_peer_addr s)
                         (filter (\<lambda>a. a \<notin> set (ps_last_sent_peers s)) current_set))
           in if added \<noteq> [] \<or> dropped \<noteq> [] then
                (let w1 = upd (\<lambda>s. s\<lparr>ps_last_sent_peers := current_set\<rparr>) w in
                 case pc_ser_pex ctx (from_peers added dropped) of
                   None \<Rightarrow> ok w1
                 | Some payload \<Rightarrow> ok (try_send io (Extended remote_id payload) w1))
              else ok w))"

section \<open>Messages of the peer\<close>

definition handle_extended :: "peer_ctx \<Rightarrow> byte \<Rightarrow> bytes \<Rightarrow> session_world \<Rightarrow> session_world" where
  "handle_extended ctx ext_id payload w =
     (if \<not> is_ok (check_bencode_depth payload) then w
      else if ext_id = 0 then
        (case pc_de_ext ctx payload of
           None \<Rightarrow> w
         | Some m \<Rightarrow> (case m (lit ''ut_pex'') of
             None \<Rightarrow> w
           | Some remote_pex \<Rightarrow> upd (\<lambda>s. s\<lparr>ps_remote_pex_id := Some remote_pex\<rparr>) w))
      else if Some ext_id = ps_remote_pex_id (sw_session w) then
        (case pc_de_pex ctx payload of
           None \<Rightarrow> w
         | Some msg \<Rightarrow>
             let addrs = decode_added msg in
             if addrs \<noteq> [] then tell_swarm ctx (PexPeersReceived addrs) w else w)
      else w)"

definition request_valid :: "peer_ctx \<Rightarrow> nat \<Rightarrow> nat \<Rightarrow> nat \<Rightarrow> bool" where
  "request_valid ctx index begn len \<longleftrightarrow> len > 0 \<and> len \<le> MAX_BLOCK_REQUEST
     \<and> (case session_piece_len_at index (pc_piece_length ctx) (pc_total_length ctx) of
          None \<Rightarrow> False
        | Some piece_len \<Rightarrow> begn + len \<le> piece_len)"

definition handle_request :: "peer_ctx \<Rightarrow> session_io \<Rightarrow> nat \<Rightarrow> nat \<Rightarrow> nat \<Rightarrow> session_world \<Rightarrow> unit session_result" where
  "handle_request ctx io index begn len w =
     (if ps_am_choking (sw_session w) then ok w
      else if \<not> request_valid ctx index begn len then (Inl (InvalidRequestFrom index begn len), w)
      else then_do (tell_or_fail io (ReadPiece index begn len) w) (\<lambda>_ w1.
        case io_block io of
          None \<Rightarrow> ok w1
        | Some block \<Rightarrow>
            then_do (send_or_fail io (Piece index begn block) w1) (\<lambda>_ w2.
              ok (emit (UiBytes 0 (length block)) (emit (Uploaded (length block))
                (upd (\<lambda>s. s\<lparr>ps_last_useful := io_now io\<rparr>) w2))))))"

definition classify :: "peer_session \<Rightarrow> nat \<Rightarrow> nat \<Rightarrow> bytes \<Rightarrow> block_class" where
  "classify s index begn block =
     (case ps_job s of
        Some j \<Rightarrow> if jb_index j = index then classify_block (jb_assembler j) begn (as_u32 (length block)) else Unexpected
      | None \<Rightarrow> Unexpected)"

text \<open>The last block is in: hash the piece and report it.\<close>

definition piece_complete :: "peer_ctx \<Rightarrow> session_io \<Rightarrow> job \<Rightarrow> bytes \<Rightarrow> session_world \<Rightarrow> unit session_result" where
  "piece_complete ctx io j buffer w =
     (let w1 = upd (\<lambda>s. s\<lparr>ps_telemetry := (ps_telemetry s)\<lparr>tl_time_to_first_piece :=
                  (case tl_time_to_first_piece (ps_telemetry s) of
                     None \<Rightarrow> Some (io_now io - ps_session_start s) | Some t \<Rightarrow> Some t)\<rparr>\<rparr>) w;
          w2 = upd (\<lambda>s. s\<lparr>ps_job := None\<rparr>) (push_telemetry io w1)
      in if pc_sha1 ctx buffer \<noteq> jb_expected_hash j
         then (Inl (HashMismatch (jb_index j)), tell_coord io (PieceFailed (jb_index j)) w2)
         else tell_or_fail io (PieceDownloaded (jb_index j) buffer) w2)"

definition handle_piece :: "peer_ctx \<Rightarrow> session_io \<Rightarrow> nat \<Rightarrow> nat \<Rightarrow> bytes \<Rightarrow> session_world \<Rightarrow> unit session_result" where
  "handle_piece ctx io index begn block w0 =
     (let w = emit (UiBytes (length block) 0) (emit (Downloaded (length block)) w0);
          s = sw_session w
      in case classify s index begn block of
        Duplicate \<Rightarrow> ok (push_telemetry io (upd (\<lambda>s. s\<lparr>ps_telemetry := (ps_telemetry s)
            \<lparr>tl_duplicate_blocks := tl_duplicate_blocks (ps_telemetry s) + 1\<rparr>\<rparr>) w))
      | Unexpected \<Rightarrow> ok (push_telemetry io (upd (\<lambda>s. s\<lparr>ps_telemetry := (ps_telemetry s)
            \<lparr>tl_unexpected_blocks := tl_unexpected_blocks (ps_telemetry s) + 1\<rparr>\<rparr>) w))
      | ExpectedNew \<Rightarrow>
          (case ps_job s of
             None \<Rightarrow> ok w
           | Some j \<Rightarrow>
               (let (st, a) = add_block (jb_assembler j) begn block;
                    j' = j\<lparr>jb_last_block := io_now io, jb_assembler := a\<rparr>;
                    w1 = upd (\<lambda>s. s\<lparr>ps_job := Some j', ps_last_useful := io_now io\<rparr>) w
                in case st of
                     Error e \<Rightarrow> (Inl (AssemblerFailed e), w1)
                   | InProgress \<Rightarrow>
                       ok (push_telemetry io (tell_swarm ctx (PeerProgress (ps_peer_addr s) (as_u32 (length block))) w1))
                   | Complete buffer \<Rightarrow>
                       piece_complete ctx io j' buffer
                         (tell_swarm ctx (PeerProgress (ps_peer_addr s) (as_u32 (length block))) w1))))"

fun handle_message :: "peer_ctx \<Rightarrow> session_io \<Rightarrow> peer_message \<Rightarrow> session_world \<Rightarrow> unit session_result" where
  "handle_message ctx io KeepAlive w = ok w"
| "handle_message ctx io Choke w =
     ok (upd (\<lambda>s. s\<lparr>ps_peer_choking := True,
           ps_job := map_option (\<lambda>j. j\<lparr>jb_assembler := reset_requests (jb_assembler j)\<rparr>) (ps_job s)\<rparr>) w)"
| "handle_message ctx io Unchoke w =
     ok (upd (\<lambda>s. s\<lparr>ps_peer_choking := False, ps_next_work_poll := io_now io\<rparr>) w)"
| "handle_message ctx io Interested w = try_unchoke io (upd (\<lambda>s. s\<lparr>ps_peer_interested := True\<rparr>) w)"
| "handle_message ctx io NotInterested w = choke io (upd (\<lambda>s. s\<lparr>ps_peer_interested := False\<rparr>) w)"
| "handle_message ctx io (Have index) w =
     (if index \<ge> bf_len (ps_have (sw_session w)) then (Inl (HaveOutOfRange index), w)
      else let (changed, have') = bf_set index (ps_have (sw_session w));
               w1 = upd (\<lambda>s. s\<lparr>ps_have := have'\<rparr>) w
           in if changed then ok (upd (\<lambda>s. s\<lparr>ps_next_work_poll := io_now io\<rparr>) (tell_coord io (PeerHave index) w1))
              else ok w1)"
| "handle_message ctx io (BitfieldMsg payload) w =
     (let old = ps_have (sw_session w) in
      case bf_from_wire (bf_len old) payload of
        None \<Rightarrow> (Inl (MalformedBitfield (length payload)), w)
      | Some new_have \<Rightarrow>
          (let w1 = upd (\<lambda>s. s\<lparr>ps_have := new_have\<rparr>) w;
               w2 = (if bf_count old > 0 then tell_coord io (PeerGone old) w1 else w1);
               w3 = tell_coord io (PeerBitfield new_have) w2
           in ok (upd (\<lambda>s. s\<lparr>ps_next_work_poll := io_now io\<rparr>) w3)))"
| "handle_message ctx io (Extended ext_id payload) w = ok (handle_extended ctx ext_id payload w)"
| "handle_message ctx io (Request index begn len) w = handle_request ctx io index begn len w"
| "handle_message ctx io (Piece index begn block) w = handle_piece ctx io index begn block w"

section \<open>Time\<close>

definition housekeeping :: "peer_ctx \<Rightarrow> session_io \<Rightarrow> session_world \<Rightarrow> bool session_result" where
  "housekeeping ctx io w =
     (let now = io_now io; s = sw_session w in
      if now - ps_last_recv s > PEER_SILENCE_TIMEOUT then (Inl PeerSilent, w)
      else
        let w1 = tell_swarm ctx (PeerProgress (ps_peer_addr s) 0) w in
        then_do (case ps_job s of
            None \<Rightarrow> ok w1
          | Some j \<Rightarrow>
              (let silent = now - jb_last_block j in
               if ps_peer_choking s \<and> silent > CHOKED_JOB_TIMEOUT
               then ok (tell_coord io (PieceFailed (jb_index j)) (upd (\<lambda>s. s\<lparr>ps_job := None\<rparr>) w1))
               else if \<not> ps_peer_choking s \<and> silent > BLOCK_STALL_TIMEOUT then (Inl PeerStalled, w1)
               else ok w1)) (\<lambda>_ w2.
        then_do (if ps_peer_interested (sw_session w2) \<and> ps_am_choking (sw_session w2) then try_unchoke io w2 else ok w2) (\<lambda>_ w3.
        then_do (if now - ps_last_keepalive (sw_session w3) \<ge> KEEPALIVE_INTERVAL
                 then then_do (send_or_fail io KeepAlive w3) (\<lambda>_ w'. ok (upd (\<lambda>s. s\<lparr>ps_last_keepalive := now\<rparr>) w'))
                 else ok w3) (\<lambda>_ w4.
        let s4 = sw_session w4 in
        if ps_job s4 = None \<and> now - ps_last_useful s4 > USELESS_TIMEOUT \<and> (\<not> ps_peer_interested s4 \<or> ps_am_choking s4)
        then (Inr False, w4)
        else (Inr True, if ps_job s4 \<noteq> None then push_telemetry io w4 else w4)))))"

definition session_finish :: "session_io \<Rightarrow> session_world \<Rightarrow> session_world" where
  "session_finish io w =
     (let w1 = (case ps_job (sw_session w) of
                  None \<Rightarrow> w
                | Some j \<Rightarrow> tell_coord io (PieceFailed (jb_index j)) (upd (\<lambda>s. s\<lparr>ps_job := None\<rparr>) w));
          have' = ps_have (sw_session w1);
          w2 = (if bf_count have' > 0
                then tell_coord io (PeerGone have') (upd (\<lambda>s. s\<lparr>ps_have := bf_new (bf_len have')\<rparr>) w1)
                else w1)
      in release_upload_slot w2)"

section \<open>The loop\<close>

datatype session_input =
    ShutdownSignal
  | Event session_event
  | EventsLagged
  | EventsClosed
  | Incoming "bytes option list"
  | TickElapsed

text \<open>One turn: \<open>Inr True\<close> to go on, \<open>Inr False\<close> to end the session.\<close>

fun select_input :: "peer_ctx \<Rightarrow> session_io \<Rightarrow> session_input \<Rightarrow> session_world \<Rightarrow> bool session_result" where
  "select_input ctx io ShutdownSignal w = (Inr False, w)"
| "select_input ctx io (Event ev) w = then_do (handle_event ctx io ev w) (\<lambda>_ w'. (Inr True, w'))"
| "select_input ctx io EventsLagged w = (Inr True, w)"
| "select_input ctx io EventsClosed w = (Inr True, w)"
| "select_input ctx io (Incoming reads) w =
     (let (r, d, _) = next_message (ps_decoder (sw_session w)) reads;
          w1 = upd (\<lambda>s. s\<lparr>ps_decoder := d\<rparr>) w
      in case r of
           Inl e \<Rightarrow> (Inl (Wire e), w1)
         | Inr msg \<Rightarrow> then_do (handle_message ctx io msg (upd (\<lambda>s. s\<lparr>ps_last_recv := io_now io\<rparr>) w1)) (\<lambda>_ w'. (Inr True, w')))"
| "select_input ctx io TickElapsed w = housekeeping ctx io w"

definition session_turn :: "peer_ctx \<Rightarrow> session_io \<Rightarrow> session_input \<Rightarrow> session_world \<Rightarrow> bool session_result" where
  "session_turn ctx io inp w =
     then_do (maybe_request_work ctx io w) (\<lambda>_ w1.
     then_do (fill_pipeline io w1) (\<lambda>_ w2.
     select_input ctx io inp w2))"

text \<open>The whole session: the opening, the turns, and \<open>finish\<close> however it ended.\<close>

fun session_loop :: "peer_ctx \<Rightarrow> (session_io \<times> session_input) list \<Rightarrow> session_world \<Rightarrow> session_world" where
  "session_loop ctx [] w = w"
| "session_loop ctx ((io, inp) # rest) w =
     (case session_turn ctx io inp w of
        (Inr True, w') \<Rightarrow> session_loop ctx rest w'
      | (_, w') \<Rightarrow> w')"

definition run_peer_session ::
  "peer_ctx \<Rightarrow> socket_addr \<Rightarrow> session_io \<Rightarrow> bool \<Rightarrow> (session_io \<times> session_input) list \<Rightarrow> session_io \<Rightarrow> upload_slots \<Rightarrow> session_world" where
  "run_peer_session ctx addr io0 ext inputs io1 slots =
     (let w0 = \<lparr>sw_session = session_new ctx addr (io_now io0), sw_slots = slots, sw_trace = []\<rparr>
      in session_finish io1 (case send_opening_messages ctx io0 ext w0 of
           (Inl _, w) \<Rightarrow> w
         | (Inr _, w) \<Rightarrow> session_loop ctx inputs w))"

end
