(* ===== verification/SessionSpec.thy ===== *)
theory SessionSpec
  imports Session
begin

text \<open>
  The protocol of a peer session: an abstract step relation on the job the session works on, the upload slot it holds
  and the trace of what it did, and the proof that every handler of \<open>Session\<close>, and so a whole session, makes
  only steps of it.
\<close>

section \<open>The protocol of a session\<close>

record protocol_state =
  pt_job :: "(nat \<times> bytes \<times> piece_assembler) option"
  pt_unchoked :: bool
  pt_holds :: bool
  pt_slots :: upload_slots
  pt_log :: "session_out list"

fun visible :: "session_out \<Rightarrow> bool" where
  "visible (ToCoord (PieceDownloaded i d)) = True"
| "visible (ToCoord (PieceFailed i)) = True"
| "visible (ToCoord (SetSelection sel after refetch)) = True"
| "visible (ToCoord (ReadPiece i b len)) = True"
| "visible (GotWork i) = True"
| "visible (Cancelled i) = True"
| "visible (SendMsg Choke) = True"
| "visible (SendMsg Unchoke) = True"
| "visible (SendMsg (Piece i b d)) = True"
| "visible x = False"

definition same_blocks :: "piece_assembler \<Rightarrow> piece_assembler \<Rightarrow> bool" where
  "same_blocks a a' \<longleftrightarrow> (\<exists>bs. a' = a\<lparr>pa_blocks := bs\<rparr> \<and>
     map (\<lambda>b. (br_begin b, br_length b, br_completed b)) bs = map (\<lambda>b. (br_begin b, br_length b, br_completed b)) (pa_blocks a))"

text \<open>A report to the coordinator is made unless it no longer listens.\<close>

definition reported :: "bool \<Rightarrow> coordinator_msg \<Rightarrow> session_out list \<Rightarrow> bool" where
  "reported live m xs \<longleftrightarrow> xs = [ToCoord m] \<or> \<not> live \<and> xs = []"

inductive session_step :: "peer_ctx \<Rightarrow> bool \<Rightarrow> protocol_state \<Rightarrow> protocol_state \<Rightarrow> bool" for ctx live where
  quiet: "list_all (\<lambda>x. \<not> visible x) xs \<Longrightarrow> session_step ctx live p (p\<lparr>pt_log := pt_log p @ xs\<rparr>)"
| assign: "pt_job p = None \<Longrightarrow> i < length (pc_expected_hashes ctx) \<Longrightarrow>
    session_piece_len_at i (pc_piece_length ctx) (pc_total_length ctx) = Some len \<Longrightarrow>
    session_step ctx live p (p\<lparr>pt_job := Some (i, pc_expected_hashes ctx ! i, pa_new i len), pt_log := pt_log p @ [GotWork i]\<rparr>)"
| refuse: "reported live (PieceFailed i) xs \<Longrightarrow> session_step ctx live p (p\<lparr>pt_log := pt_log p @ GotWork i # xs\<rparr>)"
| schedule: "pt_job p = Some (i, h, a) \<Longrightarrow> same_blocks a a' \<Longrightarrow> session_step ctx live p (p\<lparr>pt_job := Some (i, h, a')\<rparr>)"
| store: "pt_job p = Some (i, h, a) \<Longrightarrow> session_step ctx live p (p\<lparr>pt_job := Some (i, h, snd (add_block a begn block))\<rparr>)"
| downloaded: "pt_job p = Some (i, h, a) \<Longrightarrow> fst (add_block a begn block) = Complete data \<Longrightarrow> pc_sha1 ctx data = h \<Longrightarrow>
    reported live (PieceDownloaded i data) xs \<Longrightarrow> session_step ctx live p (p\<lparr>pt_job := None, pt_log := pt_log p @ xs\<rparr>)"
| given_back: "pt_job p = Some (i, h, a) \<Longrightarrow> reported live (PieceFailed i) xs \<Longrightarrow>
    session_step ctx live p (p\<lparr>pt_job := None, pt_log := pt_log p @ xs\<rparr>)"
| cancelled: "pt_job p = Some (i, h, a) \<Longrightarrow> session_step ctx live p (p\<lparr>pt_job := None, pt_log := pt_log p @ [Cancelled i]\<rparr>)"
| acquire: "try_acquire (pt_slots p) = (True, s) \<Longrightarrow> \<not> pt_unchoked p \<Longrightarrow> \<not> pt_holds p \<Longrightarrow>
    session_step ctx live p (p\<lparr>pt_holds := True, pt_slots := s\<rparr>)"
| unchoke: "pt_holds p \<Longrightarrow> session_step ctx live p (p\<lparr>pt_unchoked := True, pt_log := pt_log p @ [SendMsg Unchoke]\<rparr>)"
| choke: "session_step ctx live p (p\<lparr>pt_unchoked := False, pt_log := pt_log p @ [SendMsg Choke]\<rparr>)"
| give_slot: "pt_holds p \<Longrightarrow> \<not> pt_unchoked p \<Longrightarrow>
    session_step ctx live p (p\<lparr>pt_holds := False, pt_slots := release (pt_slots p)\<rparr>)"
| ask: "pt_unchoked p \<Longrightarrow> request_valid ctx i b len \<Longrightarrow>
    session_step ctx live p (p\<lparr>pt_log := pt_log p @ [ToCoord (ReadPiece i b len)]\<rparr>)"
| serve: "pt_unchoked p \<Longrightarrow> request_valid ctx i b len \<Longrightarrow>
    session_step ctx live p (p\<lparr>pt_log := pt_log p @ [ToCoord (ReadPiece i b len), SendMsg (Piece i b block)]\<rparr>)"

definition view :: "session_world \<Rightarrow> protocol_state" where
  "view w = (let s = sw_session w in
     \<lparr>pt_job = map_option (\<lambda>j. (jb_index j, jb_expected_hash j, jb_assembler j)) (ps_job s), pt_unchoked = (\<not> ps_am_choking s),
      pt_holds = ps_holds_upload_slot s, pt_slots = sw_slots w, pt_log = sw_trace w\<rparr>)"

definition settled :: "session_world \<Rightarrow> bool" where
  "settled w \<longleftrightarrow> ps_holds_upload_slot (sw_session w) = (\<not> ps_am_choking (sw_session w))"

text \<open>A handler refines the protocol: it makes only steps of it, and leaves the upload slot settled when it succeeds.\<close>

definition refines :: "peer_ctx \<Rightarrow> bool \<Rightarrow> session_world \<Rightarrow> 'a session_result \<Rightarrow> bool" where
  "refines ctx live w r \<longleftrightarrow> (settled w \<longrightarrow> (session_step ctx live)\<^sup>*\<^sup>* (view w) (view (snd r)) \<and> (\<not> isl (fst r) \<longrightarrow> settled (snd r)))"

lemma view_simps [simp]:
  "pt_job (view w) = map_option (\<lambda>j. (jb_index j, jb_expected_hash j, jb_assembler j)) (ps_job (sw_session w))"
  "pt_unchoked (view w) = (\<not> ps_am_choking (sw_session w))"
  "pt_holds (view w) = ps_holds_upload_slot (sw_session w)" "pt_slots (view w) = sw_slots w" "pt_log (view w) = sw_trace w"
  by (simp_all add: view_def Let_def)

lemma view_eq_iff:
  "view w = p \<longleftrightarrow> map_option (\<lambda>j. (jb_index j, jb_expected_hash j, jb_assembler j)) (ps_job (sw_session w)) = pt_job p
     \<and> (\<not> ps_am_choking (sw_session w)) = pt_unchoked p \<and> ps_holds_upload_slot (sw_session w) = pt_holds p
     \<and> sw_slots w = pt_slots p \<and> sw_trace w = pt_log p"
  by (cases p) (auto simp: view_def Let_def)

lemma world_simps [simp]:
  "sw_session (emit x w) = sw_session w" "sw_slots (emit x w) = sw_slots w" "sw_trace (emit x w) = sw_trace w @ [x]"
  "sw_session (upd f w) = f (sw_session w)" "sw_slots (upd f w) = sw_slots w" "sw_trace (upd f w) = sw_trace w"
  by (simp_all add: emit_def upd_def)

lemma refines_refl: "refines ctx live w (Inr x, w)"
  by (simp add: refines_def)

lemma refines_then:
  assumes "refines ctx live w (Inr x, w1)" "refines ctx live w1 r"
  shows "refines ctx live w r"
  using assms by (auto simp: refines_def intro: rtranclp_trans)

lemma refines_then_do:
  assumes "refines ctx live w r" "\<And>x w'. r = (Inr x, w') \<Longrightarrow> refines ctx live w' (f x w')"
  shows "refines ctx live w (then_do r f)"
  using assms by (cases r; cases "fst r") (auto simp: refines_def then_do_def intro: rtranclp_trans)

lemma settled_view: "settled w \<longleftrightarrow> pt_holds (view w) = pt_unchoked (view w)"
  by (simp add: settled_def)

lemma refines_quiet:
  assumes "view (snd r) = (view w)\<lparr>pt_log := sw_trace w @ xs\<rparr>" "list_all (\<lambda>x. \<not> visible x) xs"
  shows "refines ctx live w r"
proof -
  have "session_step ctx live (view w) (view (snd r))"
    using session_step.quiet [OF assms(2), of ctx live "view w"] assms(1) by simp
  moreover have "settled (snd r) = settled w" unfolding settled_view assms(1) by simp
  ultimately show ?thesis by (auto simp: refines_def)
qed

lemma refines_step:
  assumes "session_step ctx live (view w) q" "view (snd r) = q"
    "pt_holds (view w) = pt_unchoked (view w) \<Longrightarrow> \<not> isl (fst r) \<Longrightarrow> pt_holds q = pt_unchoked q"
  shows "refines ctx live w r"
  using assms by (auto simp: refines_def settled_view)

text \<open>Reports are made when the coordinator listens.\<close>

definition io_live :: "bool \<Rightarrow> session_io \<Rightarrow> bool" where
  "io_live live io \<longleftrightarrow> (live \<longrightarrow> io_coord io)"

lemma refines_same: "view (snd r) = view w \<Longrightarrow> refines ctx live w r"
  by (simp add: refines_def settled_view)

lemma quiet_emit: "\<not> visible x \<Longrightarrow> refines ctx live w (Inr (), emit x w)"
  by (rule refines_quiet [where xs = "[x]"]) (simp_all add: view_eq_iff)

lemma quiet_primitives:
  "\<not> visible (SendMsg m) \<Longrightarrow> refines ctx live w (send_or_fail io m w)"
  "\<not> visible (ToCoord c) \<Longrightarrow> refines ctx live w (tell_or_fail io c w)"
  "\<not> visible (SendMsg m) \<Longrightarrow> refines ctx live w (Inr (), try_send io m w)"
  "\<not> visible (ToCoord c) \<Longrightarrow> refines ctx live w (Inr (), tell_coord io c w)"
  "refines ctx live w (Inr (), tell_swarm ctx ev w)"
  by (auto simp: send_or_fail_def tell_or_fail_def try_send_def tell_coord_def tell_swarm_def intro!: quiet_emit intro: refines_same)

lemma quiet_telemetry: "refines ctx live w (Inr (), push_telemetry io w)"
  unfolding push_telemetry_def Let_def
  by (rule refines_then [OF _ quiet_emit], rule refines_same) (simp_all add: view_eq_iff)

lemma quiet_upd:
  assumes "\<And>s. ps_job (f s) = ps_job s \<and> ps_am_choking (f s) = ps_am_choking s \<and> ps_holds_upload_slot (f s) = ps_holds_upload_slot s"
  shows "refines ctx live w (Inr (), upd f w)"
  by (rule refines_same) (simp add: view_eq_iff assms)

lemmas quiet_intros = quiet_primitives quiet_emit quiet_telemetry

section \<open>The handlers refine the protocol\<close>

lemma send_opening_messages_refines: "refines ctx live w (send_opening_messages ctx io ext w)"
  unfolding send_opening_messages_def Let_def
  by (rule refines_then [where x = "()"], rule_tac [2] refines_then_do, rule_tac [2] quiet_primitives)
    (auto intro!: refines_then_do quiet_intros quiet_upd refines_refl split: option.split)

lemma assign_refines:
  assumes "ps_job (sw_session w) = None" "i < length (pc_expected_hashes ctx)"
    "session_piece_len_at i (pc_piece_length ctx) (pc_total_length ctx) = Some len"
  shows "refines ctx live w (Inr (), upd (\<lambda>s. s\<lparr>ps_job := Some \<lparr>jb_index = i, jb_expected_hash = pc_expected_hashes ctx ! i,
      jb_assembler = pa_new i len, jb_last_block = t\<rparr>, ps_telemetry := f s\<rparr>) (emit (GotWork i) w))"
  by (rule refines_step [OF session_step.assign [OF _ assms(2,3)]]) (simp_all add: assms(1) view_eq_iff)

lemma reported_tell: "io_live live io \<Longrightarrow> reported live m (if io_coord io then [ToCoord m] else [])"
  by (auto simp: reported_def io_live_def)

lemma tell_coord_eq: "tell_coord io m w = w\<lparr>sw_trace := sw_trace w @ (if io_coord io then [ToCoord m] else [])\<rparr>"
  by (simp add: tell_coord_def emit_def)

lemma refuse_refines:
  assumes "io_live live io"
  shows "refines ctx live w (Inl e, tell_coord io (PieceFailed i) (emit (GotWork i) w))"
  by (rule refines_step [OF session_step.refuse [OF reported_tell [OF assms]]]) (simp_all add: view_eq_iff tell_coord_eq)

lemma tell_or_fail_session: "tell_or_fail io m w = (Inr x, w') \<Longrightarrow> sw_session w' = sw_session w"
  by (auto simp: tell_or_fail_def split: if_splits)

lemma tell_or_fail_job:
  "tell_or_fail io m w = (Inr x, w') \<Longrightarrow> ps_job (sw_session w) = None \<Longrightarrow> ps_job (sw_session w') = None"
  by (auto simp: tell_or_fail_def split: if_splits)

lemma maybe_request_work_refines:
  assumes "io_live live io"
  shows "refines ctx live w (maybe_request_work ctx io w)"
  unfolding maybe_request_work_def Let_def
  by (auto intro!: refines_refl refines_then_do quiet_primitives assign_refines refuse_refines quiet_upd assms
      split: option.split intro: tell_or_fail_job)

text \<open>Scheduling requests leaves the data of the assembler alone.\<close>

lemma same_blocks_refl [simp]: "same_blocks a a"
  unfolding same_blocks_def by (rule exI [of _ "pa_blocks a"]) simp

lemma same_blocks_trans: "same_blocks a b \<Longrightarrow> same_blocks b c \<Longrightarrow> same_blocks a c"
  unfolding same_blocks_def by auto

lemma next_request_blocks_same:
  "map (\<lambda>b. (br_begin b, br_length b, br_completed b)) (snd (next_request_blocks now t bs))
     = map (\<lambda>b. (br_begin b, br_length b, br_completed b)) bs"
  by (induction bs) (auto split: option.split prod.splits)

lemma next_request_same: "next_request now t a = (r, a') \<Longrightarrow> same_blocks a a'"
  unfolding next_request_def same_blocks_def using next_request_blocks_same [of now t "pa_blocks a"]
  by (auto split: prod.splits)

lemma reset_requests_same: "same_blocks a (reset_requests a)"
  unfolding reset_requests_def same_blocks_def by (rule exI, rule conjI [OF refl]) simp

lemma fill_loop_spec:
  "fill_loop io i a = (r, a', msgs, n) \<Longrightarrow> same_blocks a a' \<and> (\<forall>m \<in> set msgs. \<exists>b len. m = Request i b len)
     \<and> (in_flight_count (io_now io) REQUEST_RETRY_TIMEOUT a \<le> PIPELINE_DEPTH \<longrightarrow>
        in_flight_count (io_now io) REQUEST_RETRY_TIMEOUT a' \<le> PIPELINE_DEPTH)"
proof (induction io i a arbitrary: r a' msgs n rule: fill_loop.induct)
  case (1 io i a)
  show ?case
  proof (cases "in_flight_count (io_now io) REQUEST_RETRY_TIMEOUT a < PIPELINE_DEPTH")
    case True
    obtain q a1 where q: "next_request (io_now io) REQUEST_RETRY_TIMEOUT a = (q, a1)" by fastforce
    note same = next_request_same [OF q] and spec = next_request_spec [OF q]
    show ?thesis
    proof (cases q)
      case None
      then show ?thesis using 1(2) True q same spec by (subst (asm) fill_loop.simps) (auto split: list.splits)
    next
      case (Some p)
      obtain begn len rt where p: "p = (begn, len, rt)" by (cases p)
      have fl: "in_flight_count (io_now io) REQUEST_RETRY_TIMEOUT a1 = Suc (in_flight_count (io_now io) REQUEST_RETRY_TIMEOUT a)"
        using spec Some by (auto split: list.splits)
      obtain r2 a2 m2 n2 where f: "fill_loop io i a1 = (r2, a2, m2, n2)" by (metis prod_cases4)
      show ?thesis
      proof (cases "io_sent io (Request i begn len)")
        case sent: True
        note IH = 1(1) [OF True q [symmetric] _ _ _ sent f]
        show ?thesis using 1(2) True q Some p sent f IH same fl
          by (subst (asm) fill_loop.simps) (auto intro: same_blocks_trans)
      next
        case False
        then show ?thesis using 1(2) True q Some p same fl by (subst (asm) fill_loop.simps) auto
      qed
    qed
  qed (use 1(2) in \<open>subst (asm) fill_loop.simps, auto\<close>)
qed


lemma trace_append: "refines ctx live w (Inr (), w\<lparr>sw_trace := sw_trace w @ xs\<rparr>)" if "list_all (\<lambda>x. \<not> visible x) xs"
  by (rule refines_quiet [OF _ that]) (simp add: view_eq_iff)

lemma fill_pipeline_refines: "refines ctx live w (fill_pipeline io w)"
proof (cases "ps_peer_choking (sw_session w) \<or> ps_job (sw_session w) = None")
  case True
  then show ?thesis by (auto simp: fill_pipeline_def Let_def intro: refines_refl)
next
  case False
  then obtain j where j: "ps_job (sw_session w) = Some j" by auto
  obtain r a msgs n where f: "fill_loop io (jb_index j) (jb_assembler j) = (r, a, msgs, n)" by (metis prod_cases4)
  note spec = fill_loop_spec [OF f]
  let ?w = "upd (\<lambda>s. s\<lparr>ps_job := Some (j\<lparr>jb_assembler := a\<rparr>),
                             ps_telemetry := (ps_telemetry s)\<lparr>tl_retries := tl_retries (ps_telemetry s) + n\<rparr>\<rparr>) w"
  have "refines ctx live w (Inr (), ?w)"
    by (rule refines_step [OF session_step.schedule]) (use j spec in \<open>auto simp: view_eq_iff\<close>)
  moreover have "refines ctx live ?w (r, ?w\<lparr>sw_trace := sw_trace ?w @ map SendMsg msgs\<rparr>)"
    by (rule refines_quiet [where xs = "map SendMsg msgs"])
      (use spec in \<open>auto simp: view_eq_iff list_all_iff simp del: world_simps\<close>)
  ultimately show ?thesis using False j f by (auto simp: fill_pipeline_def Let_def intro: refines_then)
qed

lemma try_unchoke_refines: "refines ctx live w (try_unchoke io w)"
proof -
  have "refines ctx live w (then_do (send_or_fail io Unchoke (upd (\<lambda>s. s\<lparr>ps_holds_upload_slot := True\<rparr>) (w\<lparr>sw_slots := slots\<rparr>)))
             (\<lambda>_ w'. ok (upd (\<lambda>s. s\<lparr>ps_am_choking := False\<rparr>) w')))" (is "refines ctx live w ?r")
    if acq: "try_acquire (sw_slots w) = (True, slots)" and ch: "ps_am_choking (sw_session w)" for slots
  proof (cases "settled w")
    case True
    let ?p = "(view w)\<lparr>pt_holds := True, pt_slots := slots\<rparr>"
    have 1: "session_step ctx live (view w) ?p" using True acq ch by (intro session_step.acquire) (auto simp: settled_def)
    have 2: "session_step ctx live ?p (?p\<lparr>pt_unchoked := True, pt_log := pt_log ?p @ [SendMsg Unchoke]\<rparr>)"
      by (rule session_step.unchoke) simp
    show ?thesis
    proof (cases "io_sent io Unchoke")
      case True
      then have "view (snd ?r) = ?p\<lparr>pt_unchoked := True, pt_log := pt_log ?p @ [SendMsg Unchoke]\<rparr>" "settled (snd ?r)"
        by (simp_all add: send_or_fail_def then_do_def view_eq_iff settled_def)
      then show ?thesis using 1 2 by (auto simp: refines_def)
    next
      case False
      then have "view (snd ?r) = ?p" "isl (fst ?r)" by (simp_all add: send_or_fail_def then_do_def view_eq_iff)
      then show ?thesis using 1 by (auto simp: refines_def)
    qed
  qed (simp add: refines_def)
  then show ?thesis
    by (auto simp: try_unchoke_def Let_def try_acquire_def intro: refines_refl refines_same split: if_splits)
qed

lemma choke_refines: "refines ctx live w (choke io w)"
proof (cases "settled w")
  case True
  show ?thesis
  proof (cases "ps_am_choking (sw_session w)")
    case ch: True
    then show ?thesis using True
      by (auto simp: choke_def then_do_def release_upload_slot_def settled_def intro: refines_refl)
  next
    case False
    let ?p = "(view w)\<lparr>pt_unchoked := False, pt_log := pt_log (view w) @ [SendMsg Choke]\<rparr>"
    let ?q = "?p\<lparr>pt_holds := False, pt_slots := release (pt_slots ?p)\<rparr>"
    have 1: "session_step ctx live (view w) ?p" by (rule session_step.choke)
    have 2: "session_step ctx live ?p ?q" using True False by (intro session_step.give_slot) (auto simp: settled_def)
    show ?thesis
    proof (cases "io_sent io Choke")
      case True
      then have "view (snd (choke io w)) = ?q" "settled (snd (choke io w))" using \<open>settled w\<close> False
        by (simp_all add: choke_def send_or_fail_def then_do_def view_eq_iff settled_def release_upload_slot_def)
      then show ?thesis using 1 2 by (auto simp: refines_def)
    next
      case f: False
      then have "choke io w = (Inl SendFailed, w)" using False by (simp add: choke_def send_or_fail_def then_do_def)
      then show ?thesis by (simp add: refines_same)
    qed
  qed
qed (simp add: refines_def)

lemma drop_job_refines:
  assumes "ps_job (sw_session w) = Some j"
  shows "refines ctx live w (Inr (), emit (Cancelled (jb_index j)) (upd (\<lambda>s. s\<lparr>ps_job := None\<rparr>) w))"
    and "io_live live io \<Longrightarrow> refines ctx live w (Inr (), tell_coord io (PieceFailed (jb_index j)) (upd (\<lambda>s. s\<lparr>ps_job := None\<rparr>) w))"
proof -
  have p: "pt_job (view w) = Some (jb_index j, jb_expected_hash j, jb_assembler j)" using assms by simp
  show "refines ctx live w (Inr (), emit (Cancelled (jb_index j)) (upd (\<lambda>s. s\<lparr>ps_job := None\<rparr>) w))"
    by (rule refines_step [OF session_step.cancelled [OF p]]) (simp_all add: view_eq_iff)
  show "refines ctx live w (Inr (), tell_coord io (PieceFailed (jb_index j)) (upd (\<lambda>s. s\<lparr>ps_job := None\<rparr>) w))"
    if "io_live live io"
    by (rule refines_step [OF session_step.given_back [OF p reported_tell [OF that]]]) (simp_all add: view_eq_iff tell_coord_eq)
qed

lemma try_send_job: "ps_job (sw_session (try_send io m w)) = ps_job (sw_session w)"
  by (simp add: try_send_def)

lemma handle_event_refines: "refines ctx live w (handle_event ctx io ev w)"
proof (cases ev)
  case (PieceCompleted index)
  have "refines ctx live w (Inr (), try_send io (Have index) w)" by (rule quiet_primitives) simp
  then show ?thesis unfolding PieceCompleted handle_event.simps Let_def
    by (rule refines_then) (auto intro!: refines_refl drop_job_refines split: option.split)
next
  case EvSelectionChanged
  then show ?thesis by (auto intro!: refines_then_do quiet_intros quiet_upd refines_refl)
next
  case EvDownloadComplete
  have "refines ctx live w (Inr (), try_send io NotInterested w)" by (rule quiet_primitives) simp
  then show ?thesis unfolding EvDownloadComplete handle_event.simps
    by (auto intro: refines_refl refines_then intro!: quiet_upd)
next
  case (ActivePeersSnapshot ps)
  have "refines ctx live w (Inr (), upd (\<lambda>s. s\<lparr>ps_last_sent_peers := x\<rparr>) w)" for x by (rule quiet_upd) simp
  moreover have "refines ctx live w (Inr (), try_send io (Extended i x) w)" for i x w by (rule quiet_primitives) simp
  ultimately have "refines ctx live w (Inr (), try_send io (Extended i x) (upd (\<lambda>s. s\<lparr>ps_last_sent_peers := y\<rparr>) w))"
      "refines ctx live w (Inr (), upd (\<lambda>s. s\<lparr>ps_last_sent_peers := y\<rparr>) w)" for i x y
    by (blast intro: refines_then)+
  then show ?thesis unfolding ActivePeersSnapshot handle_event.simps Let_def
    by (auto intro: refines_refl split: option.split)
qed

lemma handle_extended_refines: "refines ctx live w (Inr (), handle_extended ctx i payload w)"
  unfolding handle_extended_def Let_def
  by (auto intro!: refines_refl quiet_primitives quiet_upd split: option.split)

lemma handle_request_refines: "refines ctx live w (handle_request ctx io i b len w)"
proof (cases "\<not> ps_am_choking (sw_session w) \<and> request_valid ctx i b len \<and> io_coord io")
  case True
  let ?w1 = "emit (ToCoord (ReadPiece i b len)) w"
  have q: "refines ctx live w (Inr (), ?w1)" "refines ctx live w (Inl SendFailed, ?w1)"
    by (rule refines_step [OF session_step.ask [of "view w" ctx i b len]]; use True in \<open>simp add: view_eq_iff\<close>)+
  have u: "refines ctx live w' (Inr (), upd (\<lambda>s. s\<lparr>ps_last_useful := t\<rparr>) w')" for w' t by (rule quiet_upd) simp
  have e: "refines ctx live w' (Inr (), emit (Uploaded n) w')" "refines ctx live w' (Inr (), emit (UiBytes 0 n) w')" for w' n
    by (simp_all add: quiet_emit)
  have s: "refines ctx live w (Inr (), emit (SendMsg (Piece i b block)) ?w1)" for block
    by (rule refines_step [OF session_step.serve [of "view w" ctx i b len]]) (use True in \<open>auto simp: view_eq_iff\<close>)
  have all: "refines ctx live w (Inr (), emit (UiBytes 0 n) (emit (Uploaded n) (upd (\<lambda>s. s\<lparr>ps_last_useful := t\<rparr>)
      (emit (SendMsg (Piece i b block)) ?w1))))" for block n t
    by (rule refines_then [OF s], rule refines_then [OF u], rule refines_then [OF e(1)], rule e(2))
  show ?thesis using True all q
    by (auto simp: handle_request_def tell_or_fail_def then_do_def send_or_fail_def split: option.split)
next
  case False
  then show ?thesis
    by (auto simp: handle_request_def tell_or_fail_def then_do_def intro: refines_refl refines_same)
qed

lemma store_refines:
  assumes "ps_job (sw_session w) = Some j"
  shows "refines ctx live w (r, upd (\<lambda>s. s\<lparr>ps_job := Some (j\<lparr>jb_last_block := t, jb_assembler := snd (add_block (jb_assembler j) begn block)\<rparr>),
      ps_last_useful := t\<rparr>) w)"
  by (rule refines_step [OF session_step.store [of _ "jb_index j" "jb_expected_hash j" "jb_assembler j" ctx live begn block]])
    (use assms in \<open>auto simp: view_eq_iff\<close>)

text \<open>The last block: whatever telemetry is sent in between, the job ends with a report.\<close>

lemma piece_complete_refines:
  assumes live: "io_live live io" and j: "ps_job (sw_session w) = Some j" and f: "fst (add_block (jb_assembler j) begn block) = Complete data"
    and w1: "w1 = upd (\<lambda>s. s\<lparr>ps_job := Some j', ps_last_useful := t\<rparr>) w" "jb_index j' = jb_index j" "jb_expected_hash j' = jb_expected_hash j"
  shows "refines ctx live w (piece_complete ctx io j' data (tell_swarm ctx ev w1))"
proof -
  define swarm where "swarm = (if pc_swarm ctx then [ToSwarm ev] else [])"
  define g :: "peer_session \<Rightarrow> peer_session" where "g = (\<lambda>s. s\<lparr>ps_telemetry := (ps_telemetry s)\<lparr>tl_time_to_first_piece :=
                  (case tl_time_to_first_piece (ps_telemetry s) of
                     None \<Rightarrow> Some (io_now io - ps_session_start s) | Some t \<Rightarrow> Some t)\<rparr>\<rparr>)"
  let ?w2 = "upd (\<lambda>s. s\<lparr>ps_job := None\<rparr>) (push_telemetry io (upd g (tell_swarm ctx ev w1)))"
  obtain x where t2: "sw_trace ?w2 = sw_trace w @ swarm @ [UiTelemetry x]"
    by (simp add: push_telemetry_def Let_def tell_swarm_def w1 swarm_def)
  let ?w0 = "w\<lparr>sw_trace := sw_trace w @ swarm @ [UiTelemetry x]\<rparr>"
  have q: "refines ctx live w (Inr (), ?w0)" by (rule trace_append) (simp add: swarm_def)
  have p: "pt_job (view ?w0) = Some (jb_index j, jb_expected_hash j, jb_assembler j)" using j by simp
  note rep = reported_tell [OF live]
  have s2: "ps_job (sw_session ?w2) = None" "ps_am_choking (sw_session ?w2) = ps_am_choking (sw_session w)"
    "ps_holds_upload_slot (sw_session ?w2) = ps_holds_upload_slot (sw_session w)" "sw_slots ?w2 = sw_slots w"
    by (simp_all add: push_telemetry_def Let_def tell_swarm_def w1 g_def)
  have "refines ctx live ?w0 (Inl e, tell_coord io (PieceFailed (jb_index j)) ?w2)" for e :: session_error
    by (rule refines_step [OF session_step.given_back [OF p rep]]) (simp_all add: view_eq_iff tell_coord_eq s2 t2 del: world_simps)
  moreover have "refines ctx live ?w0 (tell_or_fail io (PieceDownloaded (jb_index j) data) ?w2)"
    if "pc_sha1 ctx data = jb_expected_hash j"
    by (rule refines_step [OF session_step.downloaded [OF p f that rep]])
      (simp_all add: view_eq_iff tell_or_fail_def s2 t2 emit_def del: world_simps)
  ultimately show ?thesis
    unfolding piece_complete_def Let_def using w1(2,3) q by (auto simp: g_def intro: refines_then)
qed

lemma handle_piece_refines:
  assumes live: "io_live live io"
  shows "refines ctx live w0 (handle_piece ctx io i begn block w0)"
proof -
  define w where "w = emit (UiBytes (length block) 0) (emit (Downloaded (length block)) w0)"
  have q: "refines ctx live w0 (Inr (), w)"
    unfolding w_def by (rule refines_then [OF quiet_emit quiet_emit]) simp_all
  have u: "refines ctx live w (Inr (), push_telemetry io (upd (\<lambda>s. s\<lparr>ps_telemetry := f s\<rparr>) w))" for f
    by (rule refines_then [OF quiet_upd quiet_telemetry]) simp
  have j: "refines ctx live w
      (let (st, a) = add_block (jb_assembler j) begn block;
                    j' = j\<lparr>jb_last_block := io_now io, jb_assembler := a\<rparr>;
                    w1 = upd (\<lambda>s. s\<lparr>ps_job := Some j', ps_last_useful := io_now io\<rparr>) w
                in case st of
                     Error e \<Rightarrow> (Inl (AssemblerFailed e), w1)
                   | InProgress \<Rightarrow>
                       ok (push_telemetry io (tell_swarm ctx (PeerProgress (ps_peer_addr (sw_session w)) (as_u32 (length block))) w1))
                   | Complete buffer \<Rightarrow>
                       piece_complete ctx io j' buffer
                         (tell_swarm ctx (PeerProgress (ps_peer_addr (sw_session w)) (as_u32 (length block))) w1))"
    if j: "ps_job (sw_session w) = Some j" for j
  proof -
    obtain st a where ab: "add_block (jb_assembler j) begn block = (st, a)" by fastforce
    note st = store_refines [OF j, of ctx live _ "io_now io" begn block, unfolded ab snd_conv]
    show ?thesis
    proof (cases st)
      case InProgress
      then show ?thesis using ab
        by (auto intro!: refines_then [OF st [of "Inr ()"]] refines_then [OF quiet_primitives(5) quiet_telemetry])
    next
      case (Complete data)
      then show ?thesis using ab piece_complete_refines [OF live j _ refl, where begn = begn and block = block and data = data and t = "io_now io"] by (simp add: Let_def)
    next
      case (Error e)
      then show ?thesis using ab st by simp
    qed
  qed
  show ?thesis unfolding handle_piece_def w_def [symmetric] Let_def
    by (rule refines_then [OF q], auto intro!: u refines_refl j [unfolded Let_def] split: block_class.split option.split)
qed

lemma handle_message_refines:
  assumes "io_live live io"
  shows "refines ctx live w (handle_message ctx io m w)"
proof (cases m)
  case Choke
  have "same_blocks a (reset_requests a)" for a by (rule reset_requests_same)
  then show ?thesis unfolding Choke handle_message.simps
    by (cases "ps_job (sw_session w)")
      (rule refines_same, simp add: view_eq_iff, rule refines_step [OF session_step.schedule], simp_all add: view_eq_iff)
next
  case Unchoke
  then show ?thesis by (auto intro!: quiet_upd)
next
  case Interested
  have "refines ctx live w (Inr (), upd (\<lambda>s. s\<lparr>ps_peer_interested := True\<rparr>) w)" by (rule quiet_upd) simp
  then show ?thesis using Interested by (auto intro: refines_then [OF _ try_unchoke_refines])
next
  case NotInterested
  have "refines ctx live w (Inr (), upd (\<lambda>s. s\<lparr>ps_peer_interested := False\<rparr>) w)" by (rule quiet_upd) simp
  then show ?thesis using NotInterested by (auto intro: refines_then [OF _ choke_refines])
next
  case (Have i)
  have u: "refines ctx live w' (Inr (), upd (\<lambda>s. s\<lparr>ps_have := h\<rparr>) w')"
    "refines ctx live w' (Inr (), upd (\<lambda>s. s\<lparr>ps_next_work_poll := t\<rparr>) w')"
    "refines ctx live w' (Inr (), tell_coord io (PeerHave i) w')" for w' h t
    by (rule quiet_upd quiet_primitives; simp)+
  have "refines ctx live w (Inr (), upd (\<lambda>s. s\<lparr>ps_next_work_poll := t\<rparr>) (tell_coord io (PeerHave i) (upd (\<lambda>s. s\<lparr>ps_have := h\<rparr>) w)))" for h t
    by (rule refines_then [OF u(1)], rule refines_then [OF u(3) u(2)])
  then show ?thesis using u unfolding Have by (auto simp: Let_def split: prod.split intro: refines_same)
next
  case (BitfieldMsg payload)
  have u: "refines ctx live w' (Inr (), upd (\<lambda>s. s\<lparr>ps_have := h\<rparr>) w')"
    "refines ctx live w' (Inr (), upd (\<lambda>s. s\<lparr>ps_next_work_poll := t\<rparr>) w')"
    "refines ctx live w' (Inr (), tell_coord io (PeerGone h) w')" "refines ctx live w' (Inr (), tell_coord io (PeerBitfield h) w')" for w' h t
    by (rule quiet_upd quiet_primitives; simp)+
  have c: "refines ctx live w' (Inr (), if c then tell_coord io (PeerGone h) w' else w')" for c h w' by (simp add: u refines_refl)
  have "refines ctx live w (Inr (), upd (\<lambda>s. s\<lparr>ps_next_work_poll := t\<rparr>) (tell_coord io (PeerBitfield h)
      (if c then tell_coord io (PeerGone g) (upd (\<lambda>s. s\<lparr>ps_have := h\<rparr>) w) else upd (\<lambda>s. s\<lparr>ps_have := h\<rparr>) w)))" for h g t c
    by (rule refines_then [OF u(1)], rule refines_then [OF c], rule refines_then [OF u(4) u(2)])
  then show ?thesis unfolding BitfieldMsg by (auto simp: Let_def split: option.split intro: refines_same)
qed (use assms in \<open>auto intro: refines_refl handle_extended_refines handle_request_refines handle_piece_refines\<close>)

lemma housekeeping_refines:
  assumes live: "io_live live io"
  shows "refines ctx live w (housekeeping ctx io w)"
proof (cases "io_now io - ps_last_recv (sw_session w) > PEER_SILENCE_TIMEOUT")
  case True
  then show ?thesis by (simp add: housekeeping_def Let_def refines_same)
next
  case False
  let ?w1 = "tell_swarm ctx (PeerProgress (ps_peer_addr (sw_session w)) 0) w"
  have j1: "ps_job (sw_session ?w1) = ps_job (sw_session w)" by (simp add: tell_swarm_def)
  have t: "refines ctx live w' (Inr True, push_telemetry io w')" for w'
    using quiet_telemetry [of ctx live w' io] by (simp add: refines_def)
  have k: "refines ctx live w' (if c then then_do (send_or_fail io KeepAlive w') (\<lambda>_ w'. ok (upd (\<lambda>s. s\<lparr>ps_last_keepalive := n\<rparr>) w')) else ok w')"
    for c w' n by (auto intro!: refines_then_do quiet_primitives quiet_upd refines_refl)
  have u: "refines ctx live w' (if c then try_unchoke io w' else ok w')" for c w' by (simp add: try_unchoke_refines refines_refl)
  have j: "refines ctx live ?w1 (Inr (), tell_coord io (PieceFailed (jb_index j)) (upd (\<lambda>s. s\<lparr>ps_job := None\<rparr>) ?w1))"
    if "ps_job (sw_session w) = Some j" for j
    by (rule drop_job_refines(2) [OF _ live]) (simp add: j1 that)
  show ?thesis unfolding housekeeping_def Let_def if_not_P [OF False]
    apply (rule refines_then [OF quiet_primitives(5) [of ctx live w "PeerProgress (ps_peer_addr (sw_session w)) 0"]],
        intro refines_then_do k u)
    subgoal using j by (auto intro: refines_refl refines_same split: option.split)
    subgoal using t by (auto intro: refines_refl)
    done
qed

lemma session_turn_refines:
  assumes "io_live live io"
  shows "refines ctx live w (session_turn ctx io inp w)"
proof -
  have "refines ctx live w (select_input ctx io inp w)" for w
  proof (cases inp)
    case (Event ev)
    then show ?thesis by (auto intro!: refines_then_do handle_event_refines refines_refl)
  next
    case (Incoming reads)
    obtain r d rest where n: "next_message (ps_decoder (sw_session w)) reads = (r, d, rest)" by (metis prod_cases3)
    have u: "refines ctx live w' (q, upd (\<lambda>s. s\<lparr>ps_decoder := d\<rparr>) w')" "refines ctx live w' (q, upd (\<lambda>s. s\<lparr>ps_last_recv := t\<rparr>) w')"
      for w' t and q :: "session_error + bool" by (rule refines_same; simp add: view_eq_iff)+
    have "refines ctx live w (then_do (handle_message ctx io msg (upd (\<lambda>s. s\<lparr>ps_last_recv := io_now io\<rparr>) (upd (\<lambda>s. s\<lparr>ps_decoder := d\<rparr>) w)))
        (\<lambda>_ w'. (Inr True, w')))" for msg
      by (rule refines_then [OF u(1) [of _ "Inr True"]], rule refines_then [OF u(2) [of _ "Inr True" "io_now io"]])
        (intro refines_then_do handle_message_refines refines_refl assms)
    then show ?thesis using Incoming n u(1) by (auto simp: Let_def split: sum.split)
  qed (use assms in \<open>auto intro: refines_refl housekeeping_refines\<close>)
  then show ?thesis unfolding session_turn_def
    by (intro refines_then_do maybe_request_work_refines fill_pipeline_refines assms)
qed

lemma session_loop_refines:
  "settled w \<Longrightarrow> list_all (\<lambda>(io, inp). io_live live io) inputs \<Longrightarrow>
   (session_step ctx live)\<^sup>*\<^sup>* (view w) (view (session_loop ctx inputs w))"
proof (induction ctx inputs w rule: session_loop.induct)
  case (2 ctx io inp rest w)
  obtain r w' where t: "session_turn ctx io inp w = (r, w')" by fastforce
  have l: "io_live live io" "list_all (\<lambda>(io, inp). io_live live io) rest" using "2.prems" by simp_all
  have s: "(session_step ctx live)\<^sup>*\<^sup>* (view w) (view w')" "r = Inr True \<Longrightarrow> settled w'"
    using session_turn_refines [OF l(1), of ctx w inp] "2.prems"(1) t by (auto simp: refines_def)
  show ?case
  proof (cases "r = Inr True")
    case True
    then show ?thesis using "2.IH" [OF t [symmetric] True refl] s l(2) t by (auto intro: rtranclp_trans)
  next
    case False
    then show ?thesis using s(1) t by (auto split: sum.splits bool.splits)
  qed
qed simp

text \<open>A whole session is a run of the protocol, which \<open>session_finish\<close> closes.\<close>

definition session_ran :: "peer_ctx \<Rightarrow> bool \<Rightarrow> upload_slots \<Rightarrow> session_world \<Rightarrow> bool" where
  "session_ran ctx live slots w \<longleftrightarrow> (session_step ctx live)\<^sup>*\<^sup>*
     \<lparr>pt_job = None, pt_unchoked = False, pt_holds = False, pt_slots = slots, pt_log = []\<rparr> (view w)"

lemma run_peer_session_ran:
  assumes "io_live live io0" "list_all (\<lambda>(io, inp). io_live live io) inputs"
  obtains w where "session_ran ctx live slots w" "run_peer_session ctx addr io0 ext inputs io1 slots = session_finish io1 w"
proof -
  let ?w0 = "\<lparr>sw_session = session_new ctx addr (io_now io0), sw_slots = slots, sw_trace = []\<rparr>"
  have v: "view ?w0 = \<lparr>pt_job = None, pt_unchoked = False, pt_holds = False, pt_slots = slots, pt_log = []\<rparr>" "settled ?w0"
    by (simp_all add: view_eq_iff settled_def session_new_def)
  obtain r w where o: "send_opening_messages ctx io0 ext ?w0 = (r, w)" by fastforce
  have s: "(session_step ctx live)\<^sup>*\<^sup>* (view ?w0) (view w)" "\<not> isl r \<Longrightarrow> settled w"
    using send_opening_messages_refines [of ctx live ?w0 io0 ext] v(2) o by (auto simp: refines_def)
  show ?thesis
  proof (cases r)
    case (Inl e)
    then show ?thesis using that [of w] s o by (simp add: run_peer_session_def session_ran_def v)
  next
    case (Inr x)
    have "(session_step ctx live)\<^sup>*\<^sup>* (view ?w0) (view (session_loop ctx inputs w))"
      using s Inr session_loop_refines [OF _ assms(2), of w ctx] by (auto intro: rtranclp_trans)
    then show ?thesis using that [of "session_loop ctx inputs w"] o Inr by (simp add: run_peer_session_def session_ran_def v)
  qed
qed

end
