(* ===== verification/SessionSafety.thy ===== *)
theory SessionSafety
  imports SessionSpec
begin

text \<open>
  What the protocol of a session guarantees: reports to the coordinator are true, uploads happen only to unchoked
  peers, work is returned by a session that ends by itself, the upload slots are respected and the request pipeline is filled. \<open>sharing\<close> are the states of the
  tasks that run the sessions of a torrent, which the swarm may abort.
\<close>

section \<open>Jobs and reports\<close>

definition job_ok :: "peer_ctx \<Rightarrow> protocol_state \<Rightarrow> bool" where
  "job_ok ctx p \<longleftrightarrow> (case pt_job p of
     None \<Rightarrow> True
   | Some (i, h, a) \<Rightarrow> i < length (pc_expected_hashes ctx) \<and> h = pc_expected_hashes ctx ! i \<and> pa_wf a
       \<and> session_piece_len_at i (pc_piece_length ctx) (pc_total_length ctx) = Some (pa_expected_length a))"

fun report_ok :: "peer_ctx \<Rightarrow> session_out \<Rightarrow> bool" where
  "report_ok ctx (ToCoord (PieceDownloaded i d)) \<longleftrightarrow> i < length (pc_expected_hashes ctx)
     \<and> session_piece_len_at i (pc_piece_length ctx) (pc_total_length ctx) = Some (length d)
     \<and> pc_sha1 ctx d = pc_expected_hashes ctx ! i"
| "report_ok ctx (ToCoord (ReadPiece i b len)) \<longleftrightarrow> request_valid ctx i b len"
| "report_ok ctx (ToCoord (SetSelection sel after refetch)) \<longleftrightarrow> False"
| "report_ok ctx x \<longleftrightarrow> True"

lemma invisible_ok: "\<not> visible x \<Longrightarrow> report_ok ctx x"
  by (cases x rule: visible.cases) simp_all

lemma same_blocks_wf:
  assumes "same_blocks a a'" "pa_wf a"
  shows "pa_wf a'" "pa_expected_length a' = pa_expected_length a"
proof -
  obtain bs where a': "a' = a\<lparr>pa_blocks := bs\<rparr>" and
    m: "map (\<lambda>b. (br_begin b, br_length b, br_completed b)) bs = map (\<lambda>b. (br_begin b, br_length b, br_completed b)) (pa_blocks a)"
    using assms(1) unfolding same_blocks_def by blast
  have l: "length bs = length (pa_blocks a)" using arg_cong [OF m, of length] by (simp only: length_map)
  have e: "br_begin (bs ! i) = br_begin (pa_blocks a ! i) \<and> br_length (bs ! i) = br_length (pa_blocks a ! i)
      \<and> br_completed (bs ! i) = br_completed (pa_blocks a ! i)" if "i < length bs" for i
  proof -
    have "map (\<lambda>b. (br_begin b, br_length b, br_completed b)) bs ! i = map (\<lambda>b. (br_begin b, br_length b, br_completed b)) (pa_blocks a) ! i"
      by (simp only: m)
    with that l show ?thesis by (simp only: nth_map prod.inject)
  qed
  have g: "pa_got a' = pa_got a" using e l by (auto simp: pa_got_def a')
  have "pa_wf a \<longleftrightarrow> pa_wf a'" unfolding pa_wf_def g using e l by (simp add: a' cong: conj_cong)
  then show "pa_wf a'" using assms(2) by simp
  show "pa_expected_length a' = pa_expected_length a" by (simp add: a')
qed

lemma piece_len_u32:
  assumes "session_piece_len_at i pl tot = Some len" "pl < 2 ^ 32"
  shows "len < 2 ^ 32"
  using assms by (auto simp: session_piece_len_at_def as_u32_def split: option.splits if_splits)

lemma add_block_length:
  assumes "pa_wf a"
  shows "pa_expected_length (snd (add_block a b d)) = pa_expected_length a"
    and "fst (add_block a b d) = Complete data \<Longrightarrow> length data = pa_expected_length a"
  using assms add_block_wf [OF assms, of b d]
  by (cases rule: add_block_cases [OF assms, of b d]; auto simp: pa_wf_def split: if_splits)+

lemma step_keeps_jobs:
  assumes "session_step ctx live p q" "pc_piece_length ctx < 2 ^ 32" "job_ok ctx p" "list_all (report_ok ctx) (pt_log p)"
  shows "job_ok ctx q \<and> list_all (report_ok ctx) (pt_log q)"
  using assms
proof (cases rule: session_step.cases)
  case (quiet xs)
  then show ?thesis using assms(3,4) by (auto simp: job_ok_def list_all_iff intro: invisible_ok)
next
  case (assign i len)
  then show ?thesis using assms(2-4) piece_len_u32 [OF assign(4) assms(2)] by (simp add: job_ok_def pa_new_wf)
next
  case (schedule i h a a')
  then show ?thesis using assms(3,4) same_blocks_wf [OF schedule(3)] by (auto simp: job_ok_def)
next
  case (store i h a b d)
  then show ?thesis using assms(3,4) by (auto simp: job_ok_def add_block_wf add_block_length)
next
  case (downloaded i h a b d data xs)
  then show ?thesis using assms(3,4) add_block_length(2) [of a b d data] by (auto simp: job_ok_def reported_def)
qed (auto simp: job_ok_def reported_def)

text \<open>What \<open>session_finish\<close> adds to the trace.\<close>

lemma finish_trace:
  "\<exists>xs ys. sw_trace (session_finish io w) = sw_trace w @ xs @ ys
     \<and> (case ps_job (sw_session w) of None \<Rightarrow> xs = [] | Some j \<Rightarrow> xs = (if io_coord io then [ToCoord (PieceFailed (jb_index j))] else []))
     \<and> (ys = [] \<or> (\<exists>h. ys = [ToCoord (PeerGone h)]))"
  by (auto simp: session_finish_def Let_def release_upload_slot_def tell_coord_eq split: option.split)

lemma run_reports_ok:
  assumes "pc_piece_length ctx < 2 ^ 32"
  shows "list_all (report_ok ctx) (sw_trace (run_peer_session ctx addr io0 ext inputs io1 slots))"
proof -
  obtain w where r: "session_ran ctx False slots w" and e: "run_peer_session ctx addr io0 ext inputs io1 slots = session_finish io1 w"
    by (rule run_peer_session_ran [of False io0 inputs ctx slots addr ext io1]) (auto simp: io_live_def list_all_iff)
  have "job_ok ctx (view w) \<and> list_all (report_ok ctx) (pt_log (view w))"
    using r unfolding session_ran_def
    by (induction rule: rtranclp_induct) (auto dest: step_keeps_jobs [OF _ assms] simp: job_ok_def)
  moreover obtain xs ys where "sw_trace (session_finish io1 w) = sw_trace w @ xs @ ys"
    "case ps_job (sw_session w) of None \<Rightarrow> xs = [] | Some j \<Rightarrow> xs = (if io_coord io1 then [ToCoord (PieceFailed (jb_index j))] else [])"
    "ys = [] \<or> (\<exists>h. ys = [ToCoord (PeerGone h)])"
    using finish_trace by blast
  ultimately show ?thesis by (auto simp: e split: option.splits if_splits)
qed

section \<open>Uploads\<close>

definition unchoked_after :: "session_out list \<Rightarrow> bool" where
  "unchoked_after xs = fold (\<lambda>x u. if x = SendMsg Unchoke then True else if x = SendMsg Choke then False else u) xs False"

definition uploads_ok :: "peer_ctx \<Rightarrow> session_out list \<Rightarrow> bool" where
  "uploads_ok ctx log \<longleftrightarrow> (\<forall>xs i b d ys. log = xs @ SendMsg (Piece i b d) # ys \<longrightarrow> unchoked_after xs
     \<and> (\<exists>zs len. xs = zs @ [ToCoord (ReadPiece i b len)] \<and> request_valid ctx i b len))"

lemma unchoked_after_append [simp]:
  "unchoked_after (xs @ ys) = fold (\<lambda>x u. if x = SendMsg Unchoke then True else if x = SendMsg Choke then False else u) ys (unchoked_after xs)"
  by (simp add: unchoked_after_def)

lemma unchoked_after_same:
  "SendMsg Unchoke \<notin> set ys \<Longrightarrow> SendMsg Choke \<notin> set ys \<Longrightarrow> unchoked_after (xs @ ys) = unchoked_after xs"
  by (induction ys arbitrary: xs rule: rev_induct) auto

lemma uploads_ok_append:
  assumes "uploads_ok ctx log" "\<forall>i b d. SendMsg (Piece i b d) \<notin> set ys"
  shows "uploads_ok ctx (log @ ys)"
  unfolding uploads_ok_def
proof (intro allI impI, goal_cases)
  case (1 xs i b d zs)
  then obtain zs' where "log = xs @ SendMsg (Piece i b d) # zs'"
  proof -
    have "SendMsg (Piece i b d) \<notin> set ys" using assms(2) by simp
    with 1 show ?thesis using that by (auto simp: append_eq_append_conv2 append_eq_Cons_conv)
  qed
  then show ?case using assms(1) unfolding uploads_ok_def by blast
qed

lemma uploads_ok_serve:
  assumes "uploads_ok ctx log" "unchoked_after log" "request_valid ctx i b len"
  shows "uploads_ok ctx (log @ [ToCoord (ReadPiece i b len), SendMsg (Piece i b d)])"
  unfolding uploads_ok_def
proof (intro allI impI, goal_cases)
  case (1 xs i' b' d' ys)
  show ?case
  proof (cases ys rule: rev_cases)
    case Nil
    then show ?thesis using 1 assms(2,3) by (auto simp: append_eq_append_conv2 append_eq_Cons_conv Cons_eq_append_conv)
  next
    case (snoc ys' y)
    then have "log @ [ToCoord (ReadPiece i b len)] = xs @ SendMsg (Piece i' b' d') # ys'" using 1
      by (metis append.assoc append_Cons append_Nil butlast_snoc)
    then show ?thesis using uploads_ok_append [OF assms(1), of "[ToCoord (ReadPiece i b len)]"]
      unfolding uploads_ok_def by simp
  qed
qed

lemma step_keeps_uploads:
  assumes "session_step ctx live p q" "pt_unchoked p = unchoked_after (pt_log p)" "uploads_ok ctx (pt_log p)"
  shows "pt_unchoked q = unchoked_after (pt_log q) \<and> uploads_ok ctx (pt_log q)"
  using assms
proof (cases rule: session_step.cases)
  case (quiet xs)
  then have "SendMsg Unchoke \<notin> set xs" "SendMsg Choke \<notin> set xs" "\<forall>i b d. SendMsg (Piece i b d) \<notin> set xs"
    by (auto simp: list_all_iff)
  then show ?thesis using assms(2,3) quiet by (simp add: uploads_ok_append unchoked_after_same del: unchoked_after_append)
next
  case (serve i b len block)
  then show ?thesis using assms(2,3) uploads_ok_serve by auto
qed (auto simp: reported_def intro!: uploads_ok_append)

section \<open>Work\<close>

definition taken :: "nat \<Rightarrow> session_out list \<Rightarrow> nat" where
  "taken i xs = length (filter (\<lambda>x. x = GotWork i) xs)"

fun settles :: "nat \<Rightarrow> session_out \<Rightarrow> bool" where
  "settles i (Cancelled k) = (k = i)"
| "settles i (ToCoord (PieceFailed k)) = (k = i)"
| "settles i (ToCoord (PieceDownloaded k d)) = (k = i)"
| "settles i x = False"

definition given_up :: "nat \<Rightarrow> session_out list \<Rightarrow> nat" where
  "given_up i xs = length (filter (settles i) xs)"

definition job_count :: "nat \<Rightarrow> protocol_state \<Rightarrow> nat" where
  "job_count i p = (case pt_job p of None \<Rightarrow> 0 | Some (k, h, a) \<Rightarrow> if k = i then 1 else 0)"

lemma invisible_work: "\<not> visible x \<Longrightarrow> x \<noteq> GotWork i \<and> \<not> settles i x"
  by (cases x rule: visible.cases) simp_all

lemma quiet_work: "list_all (\<lambda>x. \<not> visible x) xs \<Longrightarrow> taken i xs = 0 \<and> given_up i xs = 0"
  by (auto simp: taken_def given_up_def list_all_iff filter_empty_conv dest: invisible_work)

lemma work_append [simp]:
  "taken i (xs @ ys) = taken i xs + taken i ys" "given_up i (xs @ ys) = given_up i xs + given_up i ys"
  "taken i (x # xs) = (if x = GotWork i then 1 else 0) + taken i xs" "taken i [] = 0"
  "given_up i (x # xs) = (if settles i x then 1 else 0) + given_up i xs" "given_up i [] = 0"
  by (simp_all add: taken_def given_up_def)

lemma step_keeps_balance:
  assumes "session_step ctx True p q" "taken i (pt_log p) = given_up i (pt_log p) + job_count i p"
  shows "taken i (pt_log q) = given_up i (pt_log q) + job_count i q"
  using assms
  by (cases rule: session_step.cases) (auto simp: job_count_def reported_def dest: quiet_work [of _ i])

section \<open>Upload slots\<close>

definition slot_rel :: "protocol_state \<Rightarrow> protocol_state \<Rightarrow> bool" where
  "slot_rel p q \<longleftrightarrow> us_max (pt_slots q) = us_max (pt_slots p) \<and> us_used (pt_slots q) \<le> us_max (pt_slots q)
     \<and> us_used (pt_slots q) + of_bool (pt_holds p) = us_used (pt_slots p) + of_bool (pt_holds q)
     \<and> of_bool (pt_holds q) \<le> us_used (pt_slots q) \<and> (pt_unchoked q \<longrightarrow> pt_holds q)"

lemma step_keeps_slots:
  assumes "session_step ctx live q r" "slot_rel p q"
  shows "slot_rel p r"
  using assms by (cases rule: session_step.cases) (auto simp: slot_rel_def try_acquire_def release_def split: if_splits)

text \<open>The tasks that run the sessions of a torrent, which share its slots: one that is in its loop, and one whose loop has ended or waits in
  a call of its last turn that will fail. A task belongs to a peer the swarm has dialled (\<open>Some\<close> its address) or to an inbound connection. The
  number is a count of slots for the proofs.\<close>

datatype session_task = Running (task_session: peer_session) | Ending (task_session: peer_session)

type_synonym torrent_tasks = "nat \<times> upload_slots \<times> (socket_addr option \<times> session_task) list"

text \<open>A connection is opened, a turn is made, the loop ends, and the session is finished.\<close>

inductive session_opens :: "peer_ctx \<Rightarrow> socket_addr option \<Rightarrow> torrent_tasks \<Rightarrow> torrent_tasks \<Rightarrow> bool" for ctx a where
  opened: "send_opening_messages ctx io ext \<lparr>sw_session = session_new ctx addr (io_now io), sw_slots = slots, sw_trace = []\<rparr> = (Inr x, w) \<Longrightarrow>
    a \<in> {None, Some addr} \<Longrightarrow> session_opens ctx a (lost, slots, ts) (lost, sw_slots w, (a, Running (sw_session w)) # ts)"

inductive session_moves :: "peer_ctx \<Rightarrow> torrent_tasks \<Rightarrow> torrent_tasks \<Rightarrow> bool" for ctx where
  turn: "session_turn ctx io inp \<lparr>sw_session = s, sw_slots = slots, sw_trace = []\<rparr> = (Inr True, w) \<Longrightarrow>
    session_moves ctx (lost, slots, xs @ (a, Running s) # ys) (lost, sw_slots w, xs @ (a, Running (sw_session w)) # ys)"
| stop: "session_turn ctx io inp \<lparr>sw_session = s, sw_slots = slots, sw_trace = []\<rparr> = (r, w) \<Longrightarrow> r \<noteq> Inr True \<Longrightarrow>
    session_moves ctx (lost, slots, xs @ (a, Running s) # ys) (lost, sw_slots w, xs @ (a, Ending (sw_session w)) # ys)"
| finish: "session_finish io \<lparr>sw_session = s, sw_slots = slots, sw_trace = []\<rparr> = w \<Longrightarrow>
    session_moves ctx (lost, slots, xs @ (a, Ending s) # ys) (lost, sw_slots w, xs @ ys)"

text \<open>What dropping a session leaves of its world. \<open>finish\<close> is an ordinary call after the loop, neither \<open>PeerSession\<close> nor \<open>UploadSlots\<close>
  implements \<open>Drop\<close>, and the session holds the counter only by reference: the connection is closed and nothing else happens.\<close>

definition drop_session :: "session_world \<Rightarrow> upload_slots \<times> session_out list" where
  "drop_session w = (sw_slots w, sw_trace w)"

text \<open>\<open>JoinHandle::abort\<close>, which the swarm calls: the task of the peer is dropped where it waits. An inbound session is never aborted. The slot
  of a dropped session is counted as lost if the session held one.\<close>

fun abort_tasks :: "socket_addr \<Rightarrow> torrent_tasks \<Rightarrow> torrent_tasks" where
  "abort_tasks addr (lost, slots, []) = (lost, slots, [])"
| "abort_tasks addr (lost, slots, (a, t) # ts) =
     (if a = Some addr
      then let slots' = fst (drop_session \<lparr>sw_session = task_session t, sw_slots = slots, sw_trace = []\<rparr>)
           in abort_tasks addr (lost + (us_used slots' + of_bool (ps_holds_upload_slot (task_session t)) - us_used slots), slots', ts)
      else let (lost', slots', ts') = abort_tasks addr (lost, slots, ts) in (lost', slots', (a, t) # ts'))"

inductive sharing :: "peer_ctx \<Rightarrow> nat \<Rightarrow> torrent_tasks \<Rightarrow> bool" for ctx mx where
  start: "sharing ctx mx (0, slots_new mx, [])"
| opens: "sharing ctx mx st \<Longrightarrow> session_opens ctx a st st' \<Longrightarrow> sharing ctx mx st'"
| moves: "sharing ctx mx st \<Longrightarrow> session_moves ctx st st' \<Longrightarrow> sharing ctx mx st'"
| aborts: "sharing ctx mx st \<Longrightarrow> sharing ctx mx (abort_tasks addr st)"

definition holders :: "(socket_addr option \<times> session_task) list \<Rightarrow> nat" where
  "holders ts = length (filter (\<lambda>(a, t). ps_holds_upload_slot (task_session t)) ts)"

definition unchoked :: "(socket_addr option \<times> session_task) list \<Rightarrow> nat" where
  "unchoked ts = length (filter (\<lambda>(a, t). \<not> ps_am_choking (task_session t)) ts)"

lemma refines_slots:
  assumes "refines ctx False w r" "settled w" "us_used (sw_slots w) \<le> us_max (sw_slots w)"
    "of_bool (ps_holds_upload_slot (sw_session w)) \<le> us_used (sw_slots w)"
  shows "slot_rel (view w) (view (snd r))"
proof -
  have "(session_step ctx False)\<^sup>*\<^sup>* (view w) (view (snd r))" using assms(1,2) by (simp add: refines_def)
  then show ?thesis
  proof (induction rule: rtranclp_induct)
    case base
    then show ?case using assms(2-4) by (simp add: slot_rel_def settled_def)
  qed (rule step_keeps_slots)
qed

lemma turn_slots:
  assumes "session_turn ctx io inp \<lparr>sw_session = s, sw_slots = slots, sw_trace = tr\<rparr> = (r, w)"
    and "ps_holds_upload_slot s = (\<not> ps_am_choking s)" "us_used slots \<le> us_max slots" "of_bool (ps_holds_upload_slot s) \<le> us_used slots"
  shows "us_max (sw_slots w) = us_max slots" "us_used (sw_slots w) \<le> us_max (sw_slots w)"
    "us_used (sw_slots w) + of_bool (ps_holds_upload_slot s) = us_used slots + of_bool (ps_holds_upload_slot (sw_session w))"
    "r = Inr True \<Longrightarrow> ps_holds_upload_slot (sw_session w) = (\<not> ps_am_choking (sw_session w))"
    "\<not> ps_am_choking (sw_session w) \<Longrightarrow> ps_holds_upload_slot (sw_session w)"
proof -
  let ?w = "\<lparr>sw_session = s, sw_slots = slots, sw_trace = tr\<rparr>"
  have f: "refines ctx False ?w (r, w)"
    using session_turn_refines [of False io ctx ?w inp] assms(1) by (simp add: io_live_def)
  have sr: "slot_rel (view ?w) (view w)" using refines_slots [OF f] assms(2-4) by (simp add: settled_def)
  then show "\<not> ps_am_choking (sw_session w) \<Longrightarrow> ps_holds_upload_slot (sw_session w)" by (simp add: slot_rel_def)
  from sr show "us_max (sw_slots w) = us_max slots" "us_used (sw_slots w) \<le> us_max (sw_slots w)"
    "us_used (sw_slots w) + of_bool (ps_holds_upload_slot s) = us_used slots + of_bool (ps_holds_upload_slot (sw_session w))"
    by (simp_all add: slot_rel_def)
  show "r = Inr True \<Longrightarrow> ps_holds_upload_slot (sw_session w) = (\<not> ps_am_choking (sw_session w))"
    using f assms(2) by (auto simp: refines_def settled_def)
qed

lemma opening_state:
  assumes "send_opening_messages ctx io ext \<lparr>sw_session = session_new ctx addr t, sw_slots = slots, sw_trace = tr\<rparr> = (r, w)"
  shows "sw_slots w = slots" "\<not> ps_holds_upload_slot (sw_session w)" "ps_am_choking (sw_session w)"
  using assms
  by (auto simp: send_opening_messages_def Let_def then_do_def tell_or_fail_def send_or_fail_def try_send_def session_new_def
      split: if_splits option.splits)

lemma finish_slots:
  "us_used (sw_slots (session_finish io w)) = us_used (sw_slots w) - of_bool (ps_holds_upload_slot (sw_session w))"
  "us_max (sw_slots (session_finish io w)) = us_max (sw_slots w)"
  by (simp_all add: session_finish_def Let_def release_upload_slot_def tell_coord_eq release_def split: option.split)

lemma holders_simps [simp]:
  "holders [] = 0" "holders ((a, t) # ts) = of_bool (ps_holds_upload_slot (task_session t)) + holders ts" "holders (ts @ ts') = holders ts + holders ts'"
  "unchoked [] = 0" "unchoked ((a, t) # ts) = of_bool (\<not> ps_am_choking (task_session t)) + unchoked ts"
  by (simp_all add: holders_def unchoked_def)

fun task_ok :: "session_task \<Rightarrow> bool" where
  "task_ok (Running s) \<longleftrightarrow> ps_holds_upload_slot s = (\<not> ps_am_choking s)"
| "task_ok (Ending s) \<longleftrightarrow> (ps_am_choking s \<or> ps_holds_upload_slot s)"

definition tasks_ok :: "nat \<Rightarrow> torrent_tasks \<Rightarrow> bool" where
  "tasks_ok mx = (\<lambda>(lost, slots, ts). us_max slots = mx \<and> us_used slots = holders ts + lost \<and> us_used slots \<le> mx
     \<and> list_all (\<lambda>(a, t). task_ok t) ts)"

lemma abort_tasks_spec:
  "abort_tasks addr (lost, slots, ts) = (lost + holders (filter (\<lambda>(a, t). a = Some addr) ts), slots, filter (\<lambda>(a, t). a \<noteq> Some addr) ts)"
  by (induction addr "(lost, slots, ts)" arbitrary: lost slots ts rule: abort_tasks.induct) (auto simp: drop_session_def Let_def)

lemma holders_split: "holders ts = holders (filter (\<lambda>(a, t). a = Some addr) ts) + holders (filter (\<lambda>(a, t). a \<noteq> Some addr) ts)"
  by (induction ts) auto

lemma session_moves_ok:
  assumes "session_moves ctx st st'" "tasks_ok mx st"
  shows "tasks_ok mx st'"
  using assms
proof (cases rule: session_moves.cases)
  case (turn io inp s slots w lost xs a ys)
  then show ?thesis using turn_slots [OF turn(3)] assms(2) by (auto simp: tasks_ok_def)
next
  case (stop io inp s slots r w lost xs a ys)
  then show ?thesis using turn_slots [OF stop(3)] assms(2) by (cases "ps_am_choking (sw_session w)") (auto simp: tasks_ok_def)
next
  case (finish io s slots w lost xs a ys)
  then show ?thesis using assms(2) finish_slots [of io "\<lparr>sw_session = s, sw_slots = slots, sw_trace = []\<rparr>"] by (auto simp: tasks_ok_def)
qed

lemma session_opens_ok: "session_opens ctx a st st' \<Longrightarrow> tasks_ok mx st \<Longrightarrow> tasks_ok mx st'"
  by (induction rule: session_opens.induct) (auto simp: tasks_ok_def dest: opening_state)

lemma sharing_ok: "sharing ctx mx st \<Longrightarrow> tasks_ok mx st"
proof (induction rule: sharing.induct)
  case start
  then show ?case by (simp add: tasks_ok_def slots_new_def)
next
  case (opens st a st')
  then show ?case using session_opens_ok by blast
next
  case (moves st st')
  then show ?case using session_moves_ok by blast
next
  case (aborts st addr)
  obtain lost slots ts where st: "st = (lost, slots, ts)" by (rule prod_cases3)
  show ?case using aborts.IH holders_split [of ts addr] unfolding st abort_tasks_spec
    by (auto simp: tasks_ok_def list_all_iff)
qed

lemma unchoked_le_holders: "list_all (\<lambda>(a, t). task_ok t) ts \<Longrightarrow> unchoked ts \<le> holders ts"
proof (induction ts)
  case (Cons x ts)
  obtain a t where "x = (a, t)" by fastforce
  then show ?case using Cons by (cases t) auto
qed simp

lemma running_holders: "list_all (\<lambda>(a, t). task_ok t) ts \<Longrightarrow> list_all (\<lambda>(a, t). is_Running t) ts \<Longrightarrow> unchoked ts = holders ts"
proof (induction ts)
  case (Cons x ts)
  obtain a t where "x = (a, t)" by fastforce
  then show ?case using Cons by (cases t) auto
qed simp

section \<open>The request pipeline\<close>

lemma fill_loop_all:
  assumes "\<And>m. io_sent io m"
  shows "in_flight_count (io_now io) REQUEST_RETRY_TIMEOUT a + k = PIPELINE_DEPTH \<Longrightarrow>
    fill_loop io i a = (case drain_requests k (io_now io) REQUEST_RETRY_TIMEOUT a of
      (rs, a') \<Rightarrow> (Inr (), a', map (\<lambda>(b, len, retry). Request i b len) rs, length (filter (\<lambda>(b, len, retry). retry) rs)))"
proof (induction k arbitrary: a)
  case 0
  then show ?case by (simp add: fill_loop.simps [of io i a])
next
  case (Suc k)
  obtain q a1 where q: "next_request (io_now io) REQUEST_RETRY_TIMEOUT a = (q, a1)" by fastforce
  note spec = next_request_spec [OF q]
  show ?case
  proof (cases q)
    case None
    then show ?thesis using Suc.prems q by (simp add: fill_loop.simps [of io i a])
  next
    case (Some p)
    then have "in_flight_count (io_now io) REQUEST_RETRY_TIMEOUT a1 + k = PIPELINE_DEPTH"
      using spec Suc.prems by (auto split: list.splits)
    from Suc.IH [OF this] show ?thesis using Suc.prems q Some assms
      by (cases p) (auto simp: fill_loop.simps [of io i a] split: prod.split)
  qed
qed

section \<open>A small session\<close>

text \<open>A torrent of one piece, and a peer whose messages arrive one by one.\<close>

definition demo_ctx :: peer_ctx where
  "demo_ctx = \<lparr>pc_expected_hashes = [[7, 8]], pc_piece_length = 2, pc_total_length = Some 2, pc_swarm = True, pc_sha1 = (\<lambda>b. b),
     pc_ext_handshake = None, pc_ser_pex = (\<lambda>_. None), pc_de_pex = (\<lambda>_. None), pc_de_ext = (\<lambda>_. None), pc_iter = (\<lambda>xs. xs)\<rparr>"

definition demo_io :: session_io where
  "demo_io = \<lparr>io_now = 0, io_sent = (\<lambda>_. True), io_coord = True, io_work = Some 0, io_block = Some [7], io_completed = Some [0]\<rparr>"

definition idle :: "message_decoder \<Rightarrow> bool" where
  "idle d \<longleftrightarrow> decoder_ok d \<and> parse_stream (pending d) = ([], None, [])"

lemma next_message_sent:
  assumes "idle d" "msg_valid m"
  obtains d' where "next_message d [Some (send_message m)] = (Inr m, d', [])" "idle d'"
proof -
  have sm: "parse_stream (send_message m) = ([m], None, [])" using parse_stream_sends [of "[m]"] assms(2) by simp
  then have ne: "send_message m \<noteq> []" by (auto simp: parse_stream.simps [of "[]"] incomplete_def)
  obtain r1 d1 where d1: "decode d = (r1, d1)" by fastforce
  have ok1: "decoder_ok d1" using decode_ok(1) [OF d1] assms(1) by (simp add: idle_def)
  have w1: "r1 = Inr None \<and> pending d1 = []"
    using d1 by (cases rule: decode_cases) (use assms(1) in \<open>simp_all add: idle_def\<close>)
  obtain r2 d2 where d2: "decode (feed (send_message m) d1) = (r2, d2)" by fastforce
  have p: "pending (feed (send_message m) d1) = send_message m" using ok1 w1 by (simp add: pending_feed)
  have "r2 = Inr (Some m) \<and> parse_stream (pending d2) = ([], None, [])"
    using d2 by (cases rule: decode_cases) (simp_all add: p sm)
  then have "next_message d [Some (send_message m)] = (Inr m, d2, [])" "idle d2"
    using decode_ok(1) [OF d2] ok1 w1 d1 d2 ne
    by (simp_all add: next_message.simps [of d] next_message.simps [of "feed (send_message m) d1"] idle_def)
  then show ?thesis by (rule that)
qed

lemma idle_new: "idle decoder_new"
  by (simp add: idle_def parse_stream.simps [of "[]"] incomplete_def)

lemma quiet_turn: "ps_peer_choking (sw_session w) \<Longrightarrow> session_turn ctx io inp w = select_input ctx io inp w"
  by (simp add: session_turn_def maybe_request_work_def fill_pipeline_def then_do_def)

lemma demo_opening:
  "\<exists>w. send_opening_messages demo_ctx demo_io False \<lparr>sw_session = session_new demo_ctx (V4 [10, 0, 0, 2] 6881) (io_now demo_io), sw_slots = slots, sw_trace = []\<rparr> = (Inr (), w)
     \<and> sw_slots w = slots \<and> ps_am_choking (sw_session w) \<and> ps_peer_choking (sw_session w) \<and> ps_decoder (sw_session w) = decoder_new
     \<and> ps_have (sw_session w) = bf_new 1 \<and> ps_job (sw_session w) = None \<and> ps_next_work_poll (sw_session w) = 0 \<and> taken i (sw_trace w) = 0"
  by (auto simp: send_opening_messages_def then_do_def tell_or_fail_def send_or_fail_def demo_io_def demo_ctx_def session_new_def emit_def upd_def Let_def
      taken_def)

lemma unchoke_takes_slot:
  assumes "ps_am_choking s" "ps_peer_choking s" "idle (ps_decoder s)" "us_used slots < us_max slots"
  shows "\<exists>w. session_turn demo_ctx demo_io (Incoming [Some (send_message Interested)]) \<lparr>sw_session = s, sw_slots = slots, sw_trace = []\<rparr> = (Inr True, w)
     \<and> sw_slots w = slots\<lparr>us_used := us_used slots + 1\<rparr> \<and> \<not> ps_am_choking (sw_session w) \<and> ps_holds_upload_slot (sw_session w)
     \<and> ps_peer_choking (sw_session w) \<and> idle (ps_decoder (sw_session w))"
proof -
  obtain d where "next_message (ps_decoder s) [Some (send_message Interested)] = (Inr Interested, d, [])" "idle d"
    by (rule next_message_sent [OF assms(3), of Interested]) (simp_all add: msg_valid_def)
  then show ?thesis using assms
    by (simp add: quiet_turn then_do_def try_unchoke_def try_acquire_def send_or_fail_def demo_io_def upd_def emit_def Let_def)
qed

text \<open>A session that waits in the write of a block to a peer that does not read.\<close>

lemma stuck_upload:
  assumes "\<not> ps_am_choking s" "ps_peer_choking s" "idle (ps_decoder s)" "ps_holds_upload_slot s"
  shows "\<exists>w. session_turn demo_ctx (demo_io\<lparr>io_sent := (\<lambda>_. False)\<rparr>) (Incoming [Some (send_message (Request 0 0 2))])
       \<lparr>sw_session = s, sw_slots = slots, sw_trace = []\<rparr> = (Inl SendFailed, w)
     \<and> sw_slots w = slots \<and> ps_holds_upload_slot (sw_session w)"
proof -
  obtain d where "next_message (ps_decoder s) [Some (send_message (Request 0 0 2))] = (Inr (Request 0 0 2), d, [])" "idle d"
    by (rule next_message_sent [OF assms(3), of "Request 0 0 2"]) (simp_all add: msg_valid_def)
  then show ?thesis using assms
    by (simp add: quiet_turn then_do_def handle_request_def request_valid_def MAX_BLOCK_REQUEST_def session_piece_len_at_def
        checked_mul_u64_def demo_ctx_def demo_io_def tell_or_fail_def send_or_fail_def upd_def emit_def Let_def)
qed

lemma taken_sends [simp]: "taken i (map SendMsg ms) = 0"
  by (induction ms) simp_all

text \<open>A session that is given a piece and is then shut down.\<close>

lemma demo_takes:
  "taken 0 (sw_trace (run_peer_session demo_ctx (V4 [10, 0, 0, 2] 6881) demo_io False
     [(demo_io, Incoming [Some (send_message (BitfieldMsg [128]))]), (demo_io, Incoming [Some (send_message Unchoke)]), (demo_io, ShutdownSignal)]
     demo_io (slots_new 8))) = 1"
proof -
  let ?w0 = "\<lparr>sw_session = session_new demo_ctx (V4 [10, 0, 0, 2] 6881) (io_now demo_io), sw_slots = slots_new 8, sw_trace = []\<rparr>"
  obtain w where o: "send_opening_messages demo_ctx demo_io False ?w0 = (Inr (), w)" and w: "ps_peer_choking (sw_session w)"
    "ps_decoder (sw_session w) = decoder_new" "ps_have (sw_session w) = bf_new 1" "ps_job (sw_session w) = None"
    "ps_next_work_poll (sw_session w) = 0" "taken 0 (sw_trace w) = 0"
    using demo_opening [of "slots_new 8" 0] by blast
  have v: "msg_valid (BitfieldMsg [128])" "msg_valid Unchoke" by (simp_all add: msg_valid_def MAX_MESSAGE_LEN_def)
  obtain d1 where d1: "next_message decoder_new [Some (send_message (BitfieldMsg [128]))] = (Inr (BitfieldMsg [128]), d1, [])" "idle d1"
    by (rule next_message_sent [OF idle_new v(1)])
  obtain d2 where d2: "next_message d1 [Some (send_message Unchoke)] = (Inr Unchoke, d2, [])"
    by (rule next_message_sent [OF d1(2) v(2)])
  have "bit (128 :: byte) 7" by (simp add: bit_iff_odd)
  then have "(7 :: nat) \<in> set (filter (bit (128 :: byte)) [0..<8])" by simp
  then have "filter (bit (128 :: byte)) [0..<8] \<noteq> []" by (metis empty_iff list.set(1))
  then obtain h where h: "bf_from_wire (bf_len (bf_new 1)) [128] = Some h" "bf_count h \<noteq> 0" "bf_count (bf_new 1) = 0"
    by (intro that [of "\<lparr>bf_bytes = [128], bf_len = 1\<rparr>"])
      (simp_all add: bf_from_wire_def div_ceil_def bf_new_def bf_count_def count_ones_def)
  obtain w1 where t1: "session_turn demo_ctx demo_io (Incoming [Some (send_message (BitfieldMsg [128]))]) w = (Inr True, w1)"
    and w1: "ps_peer_choking (sw_session w1)" "ps_decoder (sw_session w1) = d1" "ps_have (sw_session w1) = h"
      "ps_job (sw_session w1) = None" "taken 0 (sw_trace w1) = 0"
    using w d1(1) h by (simp add: quiet_turn then_do_def tell_coord_def demo_io_def upd_def emit_def Let_def)
  obtain w2 where t2: "session_turn demo_ctx demo_io (Incoming [Some (send_message Unchoke)]) w1 = (Inr True, w2)"
    and w2: "\<not> ps_peer_choking (sw_session w2)" "ps_have (sw_session w2) = h" "ps_job (sw_session w2) = None"
      "ps_next_work_poll (sw_session w2) = 0" "taken 0 (sw_trace w2) = 0"
    using w1 d2 by (simp add: quiet_turn then_do_def demo_io_def upd_def emit_def Let_def)
  obtain w3 where m: "maybe_request_work demo_ctx demo_io w2 = (Inr (), w3)" and w3: "taken 0 (sw_trace w3) = 1"
    using w2 h(2) by (simp add: maybe_request_work_def then_do_def tell_or_fail_def demo_io_def demo_ctx_def upd_def emit_def Let_def
        session_piece_len_at_def checked_mul_u64_def)
  obtain r w4 where f: "fill_pipeline demo_io w3 = (r, w4)" and w4: "taken 0 (sw_trace w4) = 1"
    using w3 by (cases "fill_pipeline demo_io w3") (auto simp: fill_pipeline_def upd_def Let_def split: if_splits option.splits prod.splits)
  have t3: "\<exists>r. session_turn demo_ctx demo_io ShutdownSignal w2 = (r, w4) \<and> r \<noteq> Inr True"
    using m f by (cases r) (auto simp: session_turn_def then_do_def)
  obtain xs ys where e: "sw_trace (session_finish demo_io w4) = sw_trace w4 @ xs @ ys"
    "case ps_job (sw_session w4) of None \<Rightarrow> xs = [] | Some j \<Rightarrow> xs = (if io_coord demo_io then [ToCoord (PieceFailed (jb_index j))] else [])"
    "ys = [] \<or> (\<exists>h. ys = [ToCoord (PeerGone h)])" using finish_trace by blast
  have "taken 0 (sw_trace (session_finish demo_io w4)) = 1"
    unfolding e(1) using w4 e(2,3) by (auto split: option.splits if_splits)
  moreover have "session_loop demo_ctx [(demo_io, Incoming [Some (send_message (BitfieldMsg [128]))]),
      (demo_io, Incoming [Some (send_message Unchoke)]), (demo_io, ShutdownSignal)] w = w4"
    using t3 by (auto simp: t1 t2 simp del: send_message.simps split: sum.splits bool.splits)
  ultimately show ?thesis by (simp add: run_peer_session_def o del: send_message.simps session_loop.simps)
qed

section \<open>Properties\<close>

text \<open>C8. A session uploads only what it may: every PIECE message it sends, in a run of any length against any peer,
  follows at once its own request to the coordinator for that block, a request within the piece and the length
  limit, and at that moment the last choke message the session sent was UNCHOKE.\<close>

theorem session_uploads_only_unchoked:
  "uploads_ok ctx (sw_trace (run_peer_session ctx addr io0 ext inputs io1 slots))"
proof -
  obtain w where r: "session_ran ctx False slots w" and e: "run_peer_session ctx addr io0 ext inputs io1 slots = session_finish io1 w"
    by (rule run_peer_session_ran [of False io0 inputs ctx slots addr ext io1]) (auto simp: io_live_def list_all_iff)
  have "pt_unchoked (view w) = unchoked_after (pt_log (view w)) \<and> uploads_ok ctx (pt_log (view w))"
    using r unfolding session_ran_def
  proof (induction rule: rtranclp_induct)
    case base
    then show ?case by (simp add: unchoked_after_def uploads_ok_def)
  next
    case (step p q)
    then show ?case using step_keeps_uploads by blast
  qed
  then have "uploads_ok ctx (sw_trace w)" by simp
  moreover obtain xs ys where f: "sw_trace (session_finish io1 w) = sw_trace w @ xs @ ys"
    "case ps_job (sw_session w) of None \<Rightarrow> xs = [] | Some j \<Rightarrow> xs = (if io_coord io1 then [ToCoord (PieceFailed (jb_index j))] else [])"
    "ys = [] \<or> (\<exists>h. ys = [ToCoord (PeerGone h)])" using finish_trace by blast
  moreover have "\<forall>i b d. SendMsg (Piece i b d) \<notin> set (xs @ ys)" using f(2,3) by (auto split: option.splits if_splits)
  ultimately show ?thesis unfolding e f(1) by (intro uploads_ok_append)
qed

text \<open>C6. No work is lost or returned twice by a session that ends by itself: while the coordinator listens, every piece the session was given has,
  when it is over, been settled exactly as often as it was given out, by a PieceDownloaded, a PieceFailed or the news
  that another peer completed it; this holds whatever error ended the session. (A session the swarm aborts gives nothing back.)\<close>

theorem session_returns_work:
  assumes "io_coord io0" "io_coord io1" "list_all (\<lambda>(io, inp). io_coord io) inputs"
  shows "taken i (sw_trace (run_peer_session ctx addr io0 ext inputs io1 slots))
    = given_up i (sw_trace (run_peer_session ctx addr io0 ext inputs io1 slots))"
proof -
  obtain w where r: "session_ran ctx True slots w" and e: "run_peer_session ctx addr io0 ext inputs io1 slots = session_finish io1 w"
    by (rule run_peer_session_ran [of True io0 inputs ctx slots addr ext io1]) (use assms in \<open>auto simp: io_live_def\<close>)
  have "taken i (pt_log (view w)) = given_up i (pt_log (view w)) + job_count i (view w)"
    using r unfolding session_ran_def
    by (induction rule: rtranclp_induct) (auto simp: job_count_def dest: step_keeps_balance [of _ _ _ i])
  moreover obtain xs ys where "sw_trace (session_finish io1 w) = sw_trace w @ xs @ ys"
    "case ps_job (sw_session w) of None \<Rightarrow> xs = [] | Some j \<Rightarrow> xs = (if io_coord io1 then [ToCoord (PieceFailed (jb_index j))] else [])"
    "ys = [] \<or> (\<exists>h. ys = [ToCoord (PeerGone h)])" using finish_trace by blast
  ultimately show ?thesis using assms(2) by (auto simp: e job_count_def split: option.splits)
qed

theorem session_returns_work_witness:
  "\<exists>xs. xs = sw_trace (run_peer_session demo_ctx (V4 [10, 0, 0, 2] 6881) demo_io False
       [(demo_io, Incoming [Some (send_message (BitfieldMsg [128]))]), (demo_io, Incoming [Some (send_message Unchoke)]), (demo_io, ShutdownSignal)]
       demo_io (slots_new 8)) \<and> taken 0 xs = 1 \<and> given_up 0 xs = 1"
proof -
  have "io_coord demo_io" "list_all (\<lambda>(io, inp). io_coord io) [(demo_io, Incoming [Some (send_message (BitfieldMsg [128]))]),
      (demo_io, Incoming [Some (send_message Unchoke)]), (demo_io, ShutdownSignal)]" by (simp_all add: demo_io_def)
  from session_returns_work [OF this(1) this(1) this(2), of 0 demo_ctx "V4 [10, 0, 0, 2] 6881" False "slots_new 8"] demo_takes
  show ?thesis by simp
qed

text \<open>C7. The sessions of a torrent never upload to more peers than there are slots: in every state that openings,
  turns, endings and aborts of any number of sessions reach, the peers that are not choked and the slots lost with aborted sessions
  together are at most the slots in use, and these at most \<open>mx\<close>; while no session is about to end, the slots in use are exactly these.\<close>

theorem upload_slots_bounded:
  assumes "sharing ctx mx (lost, slots, ts)"
  shows "unchoked ts + lost \<le> us_used slots \<and> us_used slots \<le> mx
    \<and> (list_all (\<lambda>(a, t). is_Running t) ts \<longrightarrow> us_used slots = unchoked ts + lost)"
  using sharing_ok [OF assms] unchoked_le_holders [of ts] running_holders [of ts] by (auto simp: tasks_ok_def)

theorem upload_slots_bounded_witness:
  "\<exists>slots s. sharing demo_ctx 8 (0, slots, [(None, Running s)]) \<and> \<not> ps_am_choking s \<and> us_used slots = 1 \<and> 1 \<le> (8 :: nat)"
proof -
  obtain w where w: "send_opening_messages demo_ctx demo_io False \<lparr>sw_session = session_new demo_ctx (V4 [10, 0, 0, 2] 6881) (io_now demo_io), sw_slots = slots_new 8, sw_trace = []\<rparr> = (Inr (), w)"
    "sw_slots w = slots_new 8" "ps_am_choking (sw_session w)" "ps_peer_choking (sw_session w)" "ps_decoder (sw_session w) = decoder_new"
    using demo_opening by blast
  obtain v where v: "session_turn demo_ctx demo_io (Incoming [Some (send_message Interested)]) \<lparr>sw_session = sw_session w, sw_slots = slots_new 8, sw_trace = []\<rparr> = (Inr True, v)"
    "sw_slots v = (slots_new 8)\<lparr>us_used := us_used (slots_new 8) + 1\<rparr>" "\<not> ps_am_choking (sw_session v)"
    using unchoke_takes_slot [OF w(3,4), of "slots_new 8"] w(5) idle_new by (auto simp: slots_new_def)
  have "sharing demo_ctx 8 (0, slots_new 8, [(None, Running (sw_session w))])"
    using sharing.opens [OF sharing.start session_opens.opened [OF w(1), of None]] w(2) by simp
  from sharing.moves [OF this session_moves.turn [OF v(1), of 0 "[]" None "[]", simplified]]
  have sh: "sharing demo_ctx 8 (0, sw_slots v, [(None, Running (sw_session v))])" .
  from upload_slots_bounded [OF this] have "us_used (sw_slots v) = 1 \<and> us_used (sw_slots v) \<le> 8" using v(3) by simp
  with sh v(3) show ?thesis by auto
qed

text \<open>\<open>fill_pipeline\<close> keeps the pipeline full and never overfull: when the writes succeed it sends exactly the next
  requests, as many as there are free places, counts the retries among them, and leaves
  at most \<open>PIPELINE_DEPTH\<close> requests in flight, fewer only if there is nothing left to ask for.\<close>

theorem fill_loop_fills_pipeline:
  assumes "\<forall>m. io_sent io m" "in_flight_count (io_now io) REQUEST_RETRY_TIMEOUT a \<le> PIPELINE_DEPTH"
    "fill_loop io i a = (r, a', msgs, retries)"
  shows "r = Inr ()
    \<and> msgs = map (\<lambda>(b, len, retry). Request i b len)
        (take (PIPELINE_DEPTH - in_flight_count (io_now io) REQUEST_RETRY_TIMEOUT a) (to_request (io_now io) REQUEST_RETRY_TIMEOUT a))
    \<and> retries = length (filter (\<lambda>(b, len, retry). retry)
        (take (PIPELINE_DEPTH - in_flight_count (io_now io) REQUEST_RETRY_TIMEOUT a) (to_request (io_now io) REQUEST_RETRY_TIMEOUT a)))
    \<and> in_flight_count (io_now io) REQUEST_RETRY_TIMEOUT a'
        = min PIPELINE_DEPTH (in_flight_count (io_now io) REQUEST_RETRY_TIMEOUT a + length (to_request (io_now io) REQUEST_RETRY_TIMEOUT a))"
proof -
  let ?n = "in_flight_count (io_now io) REQUEST_RETRY_TIMEOUT a"
  obtain rs a1 where d: "drain_requests (PIPELINE_DEPTH - ?n) (io_now io) REQUEST_RETRY_TIMEOUT a = (rs, a1)" by fastforce
  have "fill_loop io i a = (Inr (), a1, map (\<lambda>(b, len, retry). Request i b len) rs, length (filter (\<lambda>(b, len, retry). retry) rs))"
    using fill_loop_all [of io a "PIPELINE_DEPTH - ?n" i] assms(1,2) d by simp
  then show ?thesis using drain_requests_spec [OF d] assms(2,3) by auto
qed

theorem fill_loop_fills_pipeline_witness:
  "fst (snd (snd (fill_loop demo_io 0 (pa_new 0 5)))) = [Request 0 0 5]"
proof -
  obtain r a' msgs retries where f: "fill_loop demo_io 0 (pa_new 0 5) = (r, a', msgs, retries)" by (metis prod_cases4)
  have b: "pa_blocks (pa_new 0 5) = [\<lparr>br_begin = 0, br_length = 5, br_requested_at = None, br_completed = False\<rparr>]"
    by (simp add: pa_new_def div_ceil_def BLOCK_SIZE_def)
  have t: "to_request t d (pa_new 0 5) = [(0, 5, False)]" "in_flight_count t d (pa_new 0 5) = 0" for t d
    by (simp_all add: to_request_def in_flight_count_def b)
  have "io_sent demo_io m" for m by (simp add: demo_io_def)
  with fill_loop_fills_pipeline [OF _ _ f] show ?thesis by (simp add: f t PIPELINE_DEPTH_def)
qed

text \<open>\<open>Bitfield::set\<close> answers whether the index is in range, not whether the bit changed, so each repetition of a HAVE
  is counted by the manager; the end of the session takes back only one.\<close>

theorem repeated_have_inflates_availability:
  assumes "i < bf_len (ps_have (sw_session w)) \<and> bf_wf (ps_have (sw_session w))" "io_coord io" "i < length (mgr_availability m)" "mgr_availability m ! i + 2 \<le> U16_MAX"
    "handle_message ctx io (Have i) w = (r1, w1)" "handle_message ctx io (Have i) w1 = (r2, w2)"
  shows "sw_trace w2 = sw_trace w @ [ToCoord (PeerHave i), ToCoord (PeerHave i)]
    \<and> bf_has (ps_have (sw_session w2)) i
    \<and> availability_of (remove_peer_pieces (ps_have (sw_session w2)) (add_peer_piece i (add_peer_piece i m))) i = availability_of m i + 1"
proof -
  let ?b = "ps_have (sw_session w)"
  have 1: "sw_trace w1 = sw_trace w @ [ToCoord (PeerHave i)]" "ps_have (sw_session w1) = snd (bf_set i ?b)"
    using assms(1,2,5) fst_bf_set [of i ?b] by (auto simp: tell_coord_def Let_def case_prod_beta)
  have 2: "sw_trace w2 = sw_trace w1 @ [ToCoord (PeerHave i)]" "ps_have (sw_session w2) = snd (bf_set i (snd (bf_set i ?b)))"
    using assms(1,2,6) 1(2) fst_bf_set [of i "snd (bf_set i ?b)"] by (auto simp: tell_coord_def Let_def case_prod_beta)
  have h: "bf_has (ps_have (sw_session w2)) i" using assms(1) 2(2) by (simp add: bf_has_set bf_set_wf)
  then have "i \<in> set (bf_iter_ones (ps_have (sw_session w2)))" by (simp add: pieces_def)
  then show ?thesis using 1 2(1) h assms(3,4) bf_iter_ones_distinct(1)
    by (simp add: availability_of_def remove_peer_pieces_def add_peer_piece_def bump_slot_def fold_drop_nth fold_slots saturating_add_def)
qed

theorem repeated_have_inflates_availability_witness:
  "\<exists>w2 :: session_world. sw_trace w2 = [ToCoord (PeerHave 0), ToCoord (PeerHave 0)]
     \<and> availability_of (remove_peer_pieces (ps_have (sw_session w2)) (add_peer_piece 0 (add_peer_piece 0 (with_selection 1 [] (sel_all 1))))) 0
       = availability_of (with_selection 1 [] (sel_all 1)) 0 + 1"
proof -
  let ?w = "\<lparr>sw_session = session_new demo_ctx (V4 [10, 0, 0, 2] 6881) 0, sw_slots = slots_new 8, sw_trace = []\<rparr>"
  obtain r1 w1 where 1: "handle_message demo_ctx demo_io (Have 0) ?w = (r1, w1)" by fastforce
  obtain r2 w2 where 2: "handle_message demo_ctx demo_io (Have 0) w1 = (r2, w2)" by fastforce
  have h: "0 < bf_len (ps_have (sw_session ?w)) \<and> bf_wf (ps_have (sw_session ?w))"
    by (simp add: session_new_def demo_ctx_def bf_new_wf)
  have c: "io_coord demo_io" by (simp add: demo_io_def)
  have m: "0 < length (mgr_availability (with_selection 1 [] (sel_all 1)))"
    "mgr_availability (with_selection 1 [] (sel_all 1)) ! 0 + 2 \<le> U16_MAX"
    by (simp_all add: with_selection_def Let_def U16_MAX_def)
  from repeated_have_inflates_availability [OF h c m 1 2] show ?thesis by (intro exI [of _ w2]) simp
qed

end
