(* ===== verification/Routing.thy ===== *)
theory Routing
  imports Pex "HOL-Library.List_Lexorder" "HOL-Library.Multiset"
begin

text \<open>
  The routing table of the DHT, \<open>net/dht/routing.rs\<close>: node identifiers with the XOR metric, buckets of eight contacts,
  the table that splits its last bucket, and the compact lists of nodes. Identifiers are compared as arrays of
  bytes, which is the lexicographic order of lists.
\<close>

unbundle bit_operations_syntax

section \<open>Node identifiers\<close>

type_synonym node_id = bytes

definition id_xor :: "node_id \<Rightarrow> node_id \<Rightarrow> node_id" where
  "id_xor a b = map2 (XOR) a b"

text \<open>\<open>u8::leading_zeros\<close>\<close>

definition byte_leading_zeros :: "byte \<Rightarrow> nat" where
  "byte_leading_zeros b = length (takeWhile (\<lambda>i. \<not> bit b i) [7, 6, 5, 4, 3, 2, 1, 0])"

fun leading_zeros :: "node_id \<Rightarrow> nat" where
  "leading_zeros [] = 0"
| "leading_zeros (b # bs) = (if b = 0 then 8 + leading_zeros bs else byte_leading_zeros b)"

definition bit_at :: "node_id \<Rightarrow> nat \<Rightarrow> byte" where
  "bit_at a index = (if index \<ge> 160 then 0
     else let byte_index = index div 8; bit_in_byte = 7 - index mod 8
          in drop_bit bit_in_byte (a ! byte_index) AND 1)"

record contact =
  ct_id :: node_id
  ct_addr :: socket_addr

definition read_node :: "bytes \<Rightarrow> contact" where
  "read_node chunk = \<lparr>ct_id = take 20 chunk, ct_addr = read_ipv4 (slice 20 26 chunk)\<rparr>"

definition read_node6 :: "bytes \<Rightarrow> contact" where
  "read_node6 chunk = \<lparr>ct_id = take 20 chunk, ct_addr = read_ipv6 (slice 20 38 chunk)\<rparr>"

definition decode_compact_nodes :: "bytes \<Rightarrow> contact list" where
  "decode_compact_nodes bs = map read_node (chunks_exact 26 bs)"

definition decode_compact_nodes6 :: "bytes \<Rightarrow> contact list" where
  "decode_compact_nodes6 bs = map read_node6 (chunks_exact 38 bs)"

section \<open>Buckets\<close>

record kbucket =
  kb_nodes :: "contact list"
  kb_prefix_len :: nat

definition kbucket_new :: "nat \<Rightarrow> kbucket" where
  "kbucket_new prefix_len = \<lparr>kb_nodes = [], kb_prefix_len = prefix_len\<rparr>"

definition is_full :: "kbucket \<Rightarrow> bool" where
  "is_full b \<longleftrightarrow> length (kb_nodes b) \<ge> 8"

definition kb_insert :: "contact \<Rightarrow> kbucket \<Rightarrow> bool \<times> kbucket" where
  "kb_insert c b =
     (case position (\<lambda>x. ct_id x = ct_id c) (kb_nodes b) of
        Some pos \<Rightarrow>
          (let existing = kb_nodes b ! pos
           in (True, b\<lparr>kb_nodes := remove_nth pos (kb_nodes b) @ [existing\<lparr>ct_addr := ct_addr c\<rparr>]\<rparr>))
      | None \<Rightarrow>
          if \<not> is_full b then (True, b\<lparr>kb_nodes := kb_nodes b @ [c]\<rparr>) else (False, b))"

section \<open>The table\<close>

record routing_table =
  rt_local_id :: node_id
  rt_buckets :: "kbucket list"

definition rt_new :: "node_id \<Rightarrow> routing_table" where
  "rt_new local_id = \<lparr>rt_local_id = local_id, rt_buckets = [kbucket_new 0]\<rparr>"

text \<open>The index of the last bucket whose prefix length the target reaches, 0 if there is none.\<close>

definition bucket_index :: "routing_table \<Rightarrow> node_id \<Rightarrow> nat" where
  "bucket_index t target =
     (let zeros = leading_zeros (id_xor (rt_local_id t) target)
      in fold (\<lambda>(i, b) target_idx. if zeros \<ge> kb_prefix_len b then i else target_idx)
           (enumerate 0 (rt_buckets t)) 0)"

definition bucket_covers_local :: "routing_table \<Rightarrow> nat \<Rightarrow> bool" where
  "bucket_covers_local t idx \<longleftrightarrow> idx = length (rt_buckets t) - 1"

definition split_bucket :: "nat \<Rightarrow> routing_table \<Rightarrow> routing_table" where
  "split_bucket idx t =
     (let bucket = rt_buckets t ! idx;
          split_bit_idx = kb_prefix_len bucket;
          local_bit = bit_at (rt_local_id t) split_bit_idx;
          towards = filter (\<lambda>n. bit_at (ct_id n) split_bit_idx = local_bit) (kb_nodes bucket);
          away = filter (\<lambda>n. bit_at (ct_id n) split_bit_idx \<noteq> local_bit) (kb_nodes bucket)
      in t\<lparr>rt_buckets := (rt_buckets t)[idx := \<lparr>kb_nodes = away, kb_prefix_len = split_bit_idx + 1\<rparr>]
            @ [\<lparr>kb_nodes = towards, kb_prefix_len = split_bit_idx + 1\<rparr>]\<rparr>)"

text \<open>The loop of \<open>insert\<close>; a table always has a bucket.\<close>

function insert_loop :: "contact \<Rightarrow> nat \<Rightarrow> routing_table \<Rightarrow> routing_table" where
  "insert_loop c idx t =
     (if rt_buckets t = [] then t
      else
        let covers_local = bucket_covers_local t idx;
            prefix_len = kb_prefix_len (rt_buckets t ! idx);
            (inserted, b) = kb_insert c (rt_buckets t ! idx)
        in if inserted then t\<lparr>rt_buckets := (rt_buckets t)[idx := b]\<rparr>
           else if covers_local \<and> prefix_len < 160 then
             let t' = split_bucket idx t in insert_loop c (bucket_index t' (ct_id c)) t'
           else t)"
  by pat_completeness auto
termination insert_loop
proof (relation "measure (\<lambda>(c, idx, t). 160 - kb_prefix_len (last (rt_buckets t)))", goal_cases)
  case 1
  then show ?case by simp
next
  case (2 c idx t)
  then show ?case by (auto simp: bucket_covers_local_def split_bucket_def Let_def last_conv_nth)
qed

declare insert_loop.simps [simp del]

definition rt_insert :: "contact \<Rightarrow> routing_table \<Rightarrow> routing_table" where
  "rt_insert c t = (if ct_id c = rt_local_id t then t else insert_loop c (bucket_index t (ct_id c)) t)"

definition closest_where :: "routing_table \<Rightarrow> node_id \<Rightarrow> nat \<Rightarrow> (contact \<Rightarrow> bool) \<Rightarrow> contact list" where
  "closest_where t target cnt keep =
     take cnt (sort_key (\<lambda>c. id_xor (ct_id c) target) (filter keep (concat (map kb_nodes (rt_buckets t)))))"

definition closest :: "routing_table \<Rightarrow> node_id \<Rightarrow> nat \<Rightarrow> contact list" where
  "closest t target cnt = closest_where t target cnt (\<lambda>_. True)"

section \<open>The shape of the table\<close>

definition bucket_ok :: "node_id \<Rightarrow> kbucket \<Rightarrow> bool" where
  "bucket_ok local_id b \<longleftrightarrow> length (kb_nodes b) \<le> 8 \<and> distinct (map ct_id (kb_nodes b)) \<and> local_id \<notin> ct_id ` set (kb_nodes b)"

text \<open>After \<open>k\<close> splits the prefix lengths are \<open>1, \<dots>, k, k\<close>.\<close>

definition table_ok :: "routing_table \<Rightarrow> bool" where
  "table_ok t \<longleftrightarrow> list_all (bucket_ok (rt_local_id t)) (rt_buckets t)
     \<and> (\<exists>k \<le> 160. map kb_prefix_len (rt_buckets t) = map Suc [0..<k] @ [k])"

definition known_ids :: "routing_table \<Rightarrow> node_id set" where
  "known_ids t = (\<Union>b \<in> set (rt_buckets t). ct_id ` set (kb_nodes b))"

lemma table_ok_nonempty: "table_ok t \<Longrightarrow> rt_buckets t \<noteq> []"
  by (auto simp: table_ok_def)

lemma rt_new_ok: "table_ok (rt_new local_id)"
  by (auto simp: table_ok_def rt_new_def kbucket_new_def bucket_ok_def)

lemma fold_last_index_less:
  "i < n \<Longrightarrow> (\<forall>(j, b) \<in> set xs. j < n) \<Longrightarrow> fold (\<lambda>(i, b) acc. if P b then i else acc) xs i < (n :: nat)"
  by (induction xs arbitrary: i) (auto split: prod.splits)

lemma bucket_index_less:
  assumes "rt_buckets t \<noteq> []"
  shows "bucket_index t target < length (rt_buckets t)"
  unfolding bucket_index_def Let_def
  by (rule fold_last_index_less) (use assms in \<open>auto simp: in_set_enumerate_eq\<close>)

lemma kb_insert_ok:
  assumes "bucket_ok local_id b" "ct_id c \<noteq> local_id" "kb_insert c b = (True, b')"
  shows "bucket_ok local_id b'" "kb_prefix_len b' = kb_prefix_len b" "ct_id ` set (kb_nodes b') = insert (ct_id c) (ct_id ` set (kb_nodes b))"
proof -
  have "bucket_ok local_id b' \<and> kb_prefix_len b' = kb_prefix_len b \<and> ct_id ` set (kb_nodes b') = insert (ct_id c) (ct_id ` set (kb_nodes b))"
  proof (cases "position (\<lambda>x. ct_id x = ct_id c) (kb_nodes b)")
    case None
    then have b': "b' = b\<lparr>kb_nodes := kb_nodes b @ [c]\<rparr>" "\<not> is_full b"
      using assms(3) by (auto simp: kb_insert_def split: if_splits)
    have "ct_id c \<notin> ct_id ` set (kb_nodes b)" using None by (auto simp: position_None_iff)
    then show ?thesis using assms(1,2) b'(2) by (auto simp: bucket_ok_def is_full_def b'(1))
  next
    case (Some pos)
    let ?ns = "kb_nodes b"
    have p: "pos < length ?ns" "ct_id (?ns ! pos) = ct_id c" using position_SomeD [OF Some] by auto
    have ns: "?ns = take pos ?ns @ ?ns ! pos # drop (Suc pos) ?ns" using p by (simp add: id_take_nth_drop)
    have b': "kb_nodes b' = take pos ?ns @ drop (Suc pos) ?ns @ [(?ns ! pos)\<lparr>ct_addr := ct_addr c\<rparr>]" "kb_prefix_len b' = kb_prefix_len b"
      using assms(3) Some by (auto simp: kb_insert_def Let_def remove_nth_def)
    have m: "map ct_id ?ns = map ct_id (take pos ?ns) @ ct_id c # map ct_id (drop (Suc pos) ?ns)"
      using arg_cong [OF ns, of "map ct_id"] p(2) by simp
    have m': "map ct_id (kb_nodes b') = map ct_id (take pos ?ns) @ map ct_id (drop (Suc pos) ?ns) @ [ct_id c]"
      using b'(1) p(2) by simp
    have d: "distinct (map ct_id (kb_nodes b'))" using assms(1) unfolding m' bucket_ok_def m by auto
    have l: "length (kb_nodes b') = length ?ns" using p(1) by (simp add: b'(1))
    have i: "ct_id ` set (kb_nodes b') = ct_id ` set ?ns"
      using arg_cong [OF m, of set] arg_cong [OF m', of set] by auto
    have "ct_id c \<in> ct_id ` set ?ns" using p by (metis image_eqI nth_mem)
    then show ?thesis using assms(1) d l i b'(2) by (auto simp: bucket_ok_def)
  qed
  then show "bucket_ok local_id b'" "kb_prefix_len b' = kb_prefix_len b" "ct_id ` set (kb_nodes b') = insert (ct_id c) (ct_id ` set (kb_nodes b))"
    by blast+
qed

lemma last_prefix:
  assumes "map kb_prefix_len bs = map Suc [0..<k] @ [k]"
  shows "length bs = Suc k" "kb_prefix_len (bs ! k) = k"
proof -
  show l: "length bs = Suc k" using arg_cong [OF assms, of length] by simp
  then show "kb_prefix_len (bs ! k) = k" using arg_cong [OF assms, of "\<lambda>xs. xs ! k"] by (simp add: nth_append)
qed

lemma split_bucket_ok:
  assumes "table_ok t" "bucket_covers_local t idx" "kb_prefix_len (rt_buckets t ! idx) < 160"
  shows "table_ok (split_bucket idx t)" "known_ids (split_bucket idx t) = known_ids t" "rt_local_id (split_bucket idx t) = rt_local_id t"
proof -
  obtain k where k: "map kb_prefix_len (rt_buckets t) = map Suc [0..<k] @ [k]" using assms(1) by (auto simp: table_ok_def)
  note L = last_prefix [OF k]
  have idx: "idx = k" using assms(2) L(1) by (simp add: bucket_covers_local_def)
  let ?b = "rt_buckets t ! k" and ?bs = "rt_buckets t"
  have k160: "k < 160" using assms(3) L(2) idx by simp
  have bs: "?bs = take k ?bs @ [?b]" using L(1) by (metis lessI take_Suc_conv_app_nth take_all order_refl)
  define P where "P = (\<lambda>n :: contact. bit_at (ct_id n) k = bit_at (rt_local_id t) k)"
  have sp: "rt_buckets (split_bucket idx t) = take k ?bs @ [\<lparr>kb_nodes = filter (\<lambda>n. \<not> P n) (kb_nodes ?b), kb_prefix_len = Suc k\<rparr>,
      \<lparr>kb_nodes = filter P (kb_nodes ?b), kb_prefix_len = Suc k\<rparr>]"
    using L by (simp add: split_bucket_def Let_def idx P_def upd_conv_take_nth_drop)
  have ok: "list_all (bucket_ok (rt_local_id t)) ?bs" using assms(1) by (simp add: table_ok_def)
  then have okb: "bucket_ok (rt_local_id t) ?b" "list_all (bucket_ok (rt_local_id t)) (take k ?bs)"
    using L(1) by (auto simp: list_all_iff dest: in_set_takeD)
  have okf: "bucket_ok (rt_local_id t) \<lparr>kb_nodes = filter Q (kb_nodes ?b), kb_prefix_len = n\<rparr>" for Q n
    using okb(1) le_trans [OF length_filter_le [of Q "kb_nodes ?b"]] by (auto simp: bucket_ok_def distinct_map_filter)
  have "map kb_prefix_len (take k ?bs) = map Suc [0..<k]" using arg_cong [OF k, of "take k"] by (simp add: take_map)
  then have "map kb_prefix_len (rt_buckets (split_bucket idx t)) = map Suc [0..<Suc k] @ [Suc k]" by (simp add: sp)
  then show "table_ok (split_bucket idx t)" using okb okf k160 by (auto simp: table_ok_def sp) (auto simp: split_bucket_def Let_def)
  have "known_ids t = (\<Union>b \<in> set (take k ?bs @ [?b]). ct_id ` set (kb_nodes b))" using bs by (simp add: known_ids_def)
  then show "known_ids (split_bucket idx t) = known_ids t" by (auto simp: known_ids_def sp)
  show "rt_local_id (split_bucket idx t) = rt_local_id t" by (simp add: split_bucket_def Let_def)
qed

lemma insert_loop_ok:
  "table_ok t \<Longrightarrow> ct_id c \<noteq> rt_local_id t \<Longrightarrow> idx < length (rt_buckets t) \<Longrightarrow>
   table_ok (insert_loop c idx t) \<and> rt_local_id (insert_loop c idx t) = rt_local_id t
   \<and> known_ids (insert_loop c idx t) \<in> {known_ids t, insert (ct_id c) (known_ids t)}"
proof (induction c idx t rule: insert_loop.induct)
  case (1 c idx t)
  let ?b = "rt_buckets t ! idx"
  obtain ins b' where kb: "kb_insert c ?b = (ins, b')" by fastforce
  have ok: "bucket_ok (rt_local_id t) ?b" using "1.prems" by (simp add: table_ok_def list_all_length)
  show ?case
  proof (cases ins)
    case True
    have kb': "kb_insert c ?b = (True, b')" using kb True by simp
    note K = kb_insert_ok [OF ok "1.prems"(2) kb']
    have r: "insert_loop c idx t = t\<lparr>rt_buckets := (rt_buckets t)[idx := b']\<rparr>"
      using "1.prems" kb True by (auto simp: insert_loop.simps [of c idx t])
    have "map kb_prefix_len ((rt_buckets t)[idx := b']) = map kb_prefix_len (rt_buckets t)"
      using K(2) by (metis list_update_id map_update nth_map "1.prems"(3))
    then have "table_ok (insert_loop c idx t)" using "1.prems" K(1) by (auto simp: table_ok_def r list_all_length nth_list_update)
    moreover have "known_ids (insert_loop c idx t) = insert (ct_id c) (known_ids t)"
    proof -
      have s: "rt_buckets t = take idx (rt_buckets t) @ ?b # drop (Suc idx) (rt_buckets t)"
        using "1.prems"(3) by (simp add: id_take_nth_drop)
      have "known_ids t = (\<Union>b \<in> set (take idx (rt_buckets t) @ ?b # drop (Suc idx) (rt_buckets t)). ct_id ` set (kb_nodes b))"
        using s by (simp add: known_ids_def)
      then show ?thesis using "1.prems"(3) K(3) by (auto simp: known_ids_def r upd_conv_take_nth_drop)
    qed
    ultimately show ?thesis by (simp add: r)
  next
    case False
    show ?thesis
    proof (cases "bucket_covers_local t idx \<and> kb_prefix_len ?b < 160")
      case True
      let ?t = "split_bucket idx t"
      note S = split_bucket_ok [OF "1.prems"(1)] True
      have "insert_loop c idx t = insert_loop c (bucket_index ?t (ct_id c)) ?t"
        using True False kb "1.prems" by (auto simp: insert_loop.simps [of c idx t] Let_def)
      moreover have "table_ok (insert_loop c (bucket_index ?t (ct_id c)) ?t) \<and> rt_local_id (insert_loop c (bucket_index ?t (ct_id c)) ?t) = rt_local_id ?t
          \<and> known_ids (insert_loop c (bucket_index ?t (ct_id c)) ?t) \<in> {known_ids ?t, insert (ct_id c) (known_ids ?t)}"
        using "1.IH" [OF _ refl refl kb [symmetric] refl] False True S "1.prems" table_ok_nonempty bucket_index_less by auto
      ultimately show ?thesis using S True by auto
    next
      case noSplit: False
      then show ?thesis using False kb "1.prems" by (auto simp: insert_loop.simps [of c idx t] Let_def)
    qed
  qed
qed

lemma rt_insert_ok:
  assumes "table_ok t"
  shows "table_ok (rt_insert c t)" "rt_local_id (rt_insert c t) = rt_local_id t"
    "known_ids (rt_insert c t) \<in> {known_ids t, insert (ct_id c) (known_ids t)}"
  using insert_loop_ok [OF assms _ bucket_index_less] table_ok_nonempty [OF assms] assms by (auto simp: rt_insert_def)

section \<open>Properties\<close>

text \<open>C22. The routing table stays bounded: whatever contacts other nodes make it insert, in whatever order, it has at most
  161 buckets, each with at most eight contacts of different identifiers, and never the node itself.\<close>

theorem routing_table_bounded:
  "length (rt_buckets (fold rt_insert cs (rt_new local_id))) \<le> 161
   \<and> list_all (\<lambda>b. length (kb_nodes b) \<le> 8 \<and> distinct (map ct_id (kb_nodes b)) \<and> local_id \<notin> ct_id ` set (kb_nodes b))
       (rt_buckets (fold rt_insert cs (rt_new local_id)))
   \<and> known_ids (fold rt_insert cs (rt_new local_id)) \<subseteq> ct_id ` set cs"
proof -
  have "table_ok (fold rt_insert cs t) \<and> rt_local_id (fold rt_insert cs t) = rt_local_id t \<and> known_ids (fold rt_insert cs t) \<subseteq> known_ids t \<union> ct_id ` set cs"
    if "table_ok t" for t
    using that
  proof (induction cs arbitrary: t)
    case (Cons c cs)
    note I = rt_insert_ok [OF Cons.prems, of c]
    from Cons.IH [OF I(1)] I(2,3) show ?case by auto
  qed simp
  from this [OF rt_new_ok, of local_id] have ok: "table_ok (fold rt_insert cs (rt_new local_id))"
    "rt_local_id (fold rt_insert cs (rt_new local_id)) = local_id" "known_ids (fold rt_insert cs (rt_new local_id)) \<subseteq> ct_id ` set cs"
    by (auto simp: rt_new_def known_ids_def kbucket_new_def)
  then show ?thesis by (auto simp: table_ok_def bucket_ok_def [abs_def] dest: last_prefix(1))
qed

text \<open>\<open>closest_where\<close> returns the nearest contacts: those it returns and the rest it leaves out are all the accepted contacts
  of the table, in one list sorted by XOR distance to the target, and it leaves some out only after
  \<open>cnt\<close>.\<close>

theorem closest_where_nearest:
  "\<exists>rest. mset (closest_where t target cnt keep @ rest) = mset (filter keep (concat (map kb_nodes (rt_buckets t))))
     \<and> sorted (map (\<lambda>c. id_xor (ct_id c) target) (closest_where t target cnt keep @ rest))
     \<and> length (closest_where t target cnt keep) = min cnt (length (filter keep (concat (map kb_nodes (rt_buckets t)))))"
  by (rule exI [of _ "drop cnt (sort_key (\<lambda>c. id_xor (ct_id c) target) (filter keep (concat (map kb_nodes (rt_buckets t)))))"])
    (simp add: closest_where_def mset_append [symmetric] map_append [symmetric] del: mset_append map_append)

definition nid :: "byte \<Rightarrow> node_id" where
  "nid b = b # replicate 19 0"

definition nct :: "byte \<Rightarrow> contact" where
  "nct b = \<lparr>ct_id = nid b, ct_addr = V4 [10, 0, 0, b] 6881\<rparr>"

lemma replicate_20: "replicate 20 (0 :: byte) = 0 # replicate 19 0"
  by (simp add: numeral_eq_Suc)

lemma leading_zeros_replicate [simp]: "leading_zeros (replicate n 0) = 8 * n"
  by (induction n) simp_all

lemma id_xor_zeros [simp]: "id_xor (replicate n 0) (replicate n 0) = replicate n 0"
  by (induction n) (simp_all add: id_xor_def)

lemma nid_simps [simp]:
  "nid a = nid b \<longleftrightarrow> a = b" "nid a = replicate 20 0 \<longleftrightarrow> a = 0" "ct_id (nct a) = nid a"
  by (simp_all add: nid_def nct_def replicate_20)

lemma nid_distance [simp]: "leading_zeros (id_xor (replicate 20 0) (nid a)) = (if a = 0 then 160 else byte_leading_zeros a)"
proof -
  have "id_xor (replicate 20 0) (nid a) = a # id_xor (replicate 19 0) (replicate 19 0)"
    by (simp only: replicate_20 nid_def id_xor_def) simp
  then show ?thesis by simp
qed

lemma nid_bits [simp]:
  "bit_at (nid a) 0 = drop_bit 7 a AND 1" "bit_at (nid a) (Suc 0) = drop_bit 6 a AND 1"
  "bit_at (replicate 20 0) 0 = 0" "bit_at (replicate 20 0) (Suc 0) = 0"
  by (simp_all add: nid_def bit_at_def)

lemma nid_zeros [simp]: "byte_leading_zeros 64 = 1" "byte_leading_zeros 8 = 4"
  by (simp_all add: byte_leading_zeros_def)

lemma insert_split:
  assumes "rt_buckets t \<noteq> []" "bucket_covers_local t i" "kb_insert c (rt_buckets t ! i) = (False, b)" "kb_prefix_len (rt_buckets t ! i) < 160"
    "split_bucket i t = t'" "bucket_index t' (ct_id c) = k"
  shows "insert_loop c i t = insert_loop c k t'"
  using assms by (simp add: insert_loop.simps [of c i t])

lemma insert_new:
  assumes "b \<noteq> 0" "b \<notin> set bs" "length bs < 8" "bucket_index t (nid b) = i" "i < length (rt_buckets t)"
    "rt_buckets t ! i = \<lparr>kb_nodes = map nct bs, kb_prefix_len = n\<rparr>" "rt_local_id t = replicate 20 0"
  shows "rt_insert (nct b) t = t\<lparr>rt_buckets := (rt_buckets t)[i := \<lparr>kb_nodes = map nct (bs @ [b]), kb_prefix_len = n\<rparr>]\<rparr>"
proof -
  have p: "position (\<lambda>x. ct_id x = nid b) (map nct bs) = None" using assms(2) by (auto simp: position_None_iff)
  have "kb_insert (nct b) (rt_buckets t ! i) = (True, \<lparr>kb_nodes = map nct (bs @ [b]), kb_prefix_len = n\<rparr>)"
    using assms(3) by (simp add: kb_insert_def assms(6) p is_full_def)
  moreover have "rt_buckets t \<noteq> []" using assms(5) by auto
  ultimately show ?thesis using assms(1,4,7) by (simp add: rt_insert_def insert_loop.simps [of "nct b" i t])
qed

definition tab :: "kbucket list \<Rightarrow> routing_table" where
  "tab bs = \<lparr>rt_local_id = replicate 20 0, rt_buckets = bs\<rparr>"

definition bkt :: "byte list \<Rightarrow> nat \<Rightarrow> kbucket" where
  "bkt bs n = \<lparr>kb_nodes = map nct bs, kb_prefix_len = n\<rparr>"

lemma insert_single:
  assumes "b \<noteq> 0" "b \<notin> set bs" "length bs < 8"
  shows "rt_insert (nct b) (tab [bkt bs 0]) = tab [bkt (bs @ [b]) 0]"
  using insert_new [OF assms, of "tab [bkt bs 0]" 0 0] by (simp add: tab_def bkt_def bucket_index_def)

lemma first_eight: "fold rt_insert (map nct [64, 1, 2, 3, 4, 5, 6, 7]) (rt_new (replicate 20 0)) = tab [bkt [64, 1, 2, 3, 4, 5, 6, 7] 0]"
proof -
  have "rt_new (replicate 20 0) = tab [bkt [] 0]" by (simp add: rt_new_def kbucket_new_def tab_def bkt_def)
  then show ?thesis by (simp add: insert_single)
qed

lemma two_splits: "rt_insert (nct 8) (tab [bkt [64, 1, 2, 3, 4, 5, 6, 7] 0]) = tab [bkt [] 1, bkt [64] 2, bkt [1, 2, 3, 4, 5, 6, 7, 8] 2]"
proof -
  have p: "position (\<lambda>x. ct_id x = nid 8) (map nct [64, 1, 2, 3, 4, 5, 6, 7]) = None" by simp
  have full: "kb_insert (nct 8) (bkt [64, 1, 2, 3, 4, 5, 6, 7] n) = (False, bkt [64, 1, 2, 3, 4, 5, 6, 7] n)" for n
    by (simp add: kb_insert_def bkt_def p is_full_def del: list.map)
  have s0: "split_bucket 0 (tab [bkt [64, 1, 2, 3, 4, 5, 6, 7] 0]) = tab [bkt [] 1, bkt [64, 1, 2, 3, 4, 5, 6, 7] 1]"
    by (simp add: split_bucket_def tab_def bkt_def)
  have s1: "split_bucket 1 (tab [bkt [] 1, bkt [64, 1, 2, 3, 4, 5, 6, 7] 1]) = tab [bkt [] 1, bkt [64] 2, bkt [1, 2, 3, 4, 5, 6, 7] 2]"
    by (simp add: split_bucket_def tab_def bkt_def)
  have i0: "bucket_index (tab [bkt [64, 1, 2, 3, 4, 5, 6, 7] 0]) (nid 8) = 0" "bucket_index (tab [bkt [] 1, bkt [64, 1, 2, 3, 4, 5, 6, 7] 1]) (nid 8) = 1"
    "bucket_index (tab [bkt [] 1, bkt [64] 2, bkt [1, 2, 3, 4, 5, 6, 7] 2]) (nid 8) = 2"
    by (simp_all add: bucket_index_def tab_def bkt_def)
  let ?t1 = "tab [bkt [] 1, bkt [64, 1, 2, 3, 4, 5, 6, 7] 1]" and ?t2 = "tab [bkt [] 1, bkt [64] 2, bkt [1, 2, 3, 4, 5, 6, 7] 2]"
  have n8: "rt_insert (nct 8) ?t2 = insert_loop (nct 8) 2 ?t2" by (simp add: rt_insert_def i0(3) del: One_nat_def) (simp add: tab_def)
  have "rt_insert (nct 8) (tab [bkt [64, 1, 2, 3, 4, 5, 6, 7] 0]) = insert_loop (nct 8) 0 (tab [bkt [64, 1, 2, 3, 4, 5, 6, 7] 0])"
    by (simp add: rt_insert_def i0(1)) (simp add: tab_def)
  also have "\<dots> = insert_loop (nct 8) 1 ?t1"
    by (rule insert_split [OF _ _ _ _ s0]) (use full i0(2) in \<open>simp_all add: tab_def bkt_def bucket_covers_local_def\<close>)
  also have "\<dots> = insert_loop (nct 8) 2 ?t2"
    by (rule insert_split [OF _ _ _ _ s1]) (use full i0(3) in \<open>simp_all add: tab_def bkt_def bucket_covers_local_def\<close>)
  also have "\<dots> = tab [bkt [] 1, bkt [64] 2, bkt [1, 2, 3, 4, 5, 6, 7, 8] 2]"
    unfolding n8 [symmetric]
    using insert_new [of 8 "[1, 2, 3, 4, 5, 6, 7]" ?t2 2 2] i0(3) by (simp add: tab_def bkt_def)
  finally show ?thesis .
qed

text \<open>The table can hold a node twice. A split leaves a node that shares \<open>z\<close> leading bits with the local identifier in bucket
  \<open>z\<close>, but after two splits \<open>bucket_index\<close> looks for it in bucket \<open>z - 1\<close>: nine insertions and
  a second sighting of the first node give a table that lists this node in two buckets, and \<open>closest\<close>
  returns it twice.\<close>

theorem routing_table_duplicates:
  "\<exists>local_id cs. list_all (\<lambda>c. length (ct_id c) = 20) cs \<and> length local_id = 20
     \<and> \<not> distinct (map ct_id (closest (fold rt_insert cs (rt_new local_id)) local_id 10))"
proof -
  let ?cs = "map nct [64, 1, 2, 3, 4, 5, 6, 7] @ [nct 8, nct 64]" and ?t = "tab [bkt [] 1, bkt [64] 2, bkt [1, 2, 3, 4, 5, 6, 7, 8] 2]"
  have i: "bucket_index ?t (nid 64) = 0" by (simp add: bucket_index_def tab_def bkt_def)
  have r: "rt_insert (nct 64) ?t = tab [bkt [64] 1, bkt [64] 2, bkt [1, 2, 3, 4, 5, 6, 7, 8] 2]"
    using insert_new [of 64 "[]" ?t 0 1] i by (simp add: tab_def bkt_def)
  have f: "fold rt_insert ?cs (rt_new (replicate 20 0)) = tab [bkt [64] 1, bkt [64] 2, bkt [1, 2, 3, 4, 5, 6, 7, 8] 2]"
    by (simp only: fold_append comp_apply first_eight fold.simps two_splits r id_apply)
  have "mset (closest (tab [bkt [64] 1, bkt [64] 2, bkt [1, 2, 3, 4, 5, 6, 7, 8] 2]) (replicate 20 0) 10)
      = mset (map nct [64, 64, 1, 2, 3, 4, 5, 6, 7, 8])"
    by (simp add: closest_def closest_where_def tab_def bkt_def)
  then have "mset (map ct_id (closest (tab [bkt [64] 1, bkt [64] 2, bkt [1, 2, 3, 4, 5, 6, 7, 8] 2]) (replicate 20 0) 10))
      = mset (map nid [64, 64, 1, 2, 3, 4, 5, 6, 7, 8])" unfolding mset_map by simp
  moreover have "\<not> distinct (map nid [64, 64, 1, 2, 3, 4, 5, 6, 7, 8])" by simp
  ultimately have "\<not> distinct (map ct_id (closest (fold rt_insert ?cs (rt_new (replicate 20 0))) (replicate 20 0) 10))"
    unfolding f by (metis mset_eq_imp_distinct_iff)
  moreover have "list_all (\<lambda>c. length (ct_id c) = 20) ?cs" by (simp add: nid_def)
  ultimately show ?thesis by (intro exI [of _ "replicate 20 0"] exI [of _ ?cs] conjI) simp_all
qed

end
