(* ===== verification/DhtServer.thy ===== *)
theory DhtServer
  imports Routing Bencode "HOL-Library.AList"
begin

text \<open>
  Messages of the DHT and the task that owns the UDP socket, \<open>net/dht/krpc.rs\<close> and \<open>net/dht/server.rs\<close>. The server turns
  queries into datagrams with fresh transaction identifiers and hands answers to those who asked. The reply half of a
  \<open>oneshot\<close> channel is a number; what the server does with the socket and the channels is a list of effects.
  Bencoding of messages is done by \<open>serde_bencode\<close>, and whether a datagram can be sent is decided by the operating
  system: both are arguments.
\<close>

section \<open>Messages\<close>

datatype bvalue = VInt int | VBytes bytes | VList "bvalue list" | VDict "(bytes \<times> bvalue) list"

record query_args =
  qa_id :: bytes
  qa_implied_port :: "nat option"
  qa_info_hash :: bytes
  qa_port :: "nat option"
  qa_target :: bytes
  qa_token :: bytes

record response_args =
  ra_id :: bytes
  ra_nodes :: bytes
  ra_nodes6 :: bytes
  ra_token :: bytes
  ra_values :: "bytes list"

record krpc_message =
  km_a :: "query_args option"
  km_e :: "bvalue list option"
  km_q :: "rstring option"
  km_r :: "response_args option"
  km_t :: bytes
  km_y :: rstring

definition query_args_new :: "bytes \<Rightarrow> query_args" where
  "query_args_new i = \<lparr>qa_id = i, qa_implied_port = None, qa_info_hash = [], qa_port = None, qa_target = [], qa_token = []\<rparr>"

definition krpc_query :: "bytes \<Rightarrow> rstring \<Rightarrow> query_args \<Rightarrow> krpc_message" where
  "krpc_query tid name args = \<lparr>km_a = Some args, km_e = None, km_q = Some name, km_r = None, km_t = tid, km_y = lit ''q''\<rparr>"

definition new_ping_query :: "bytes \<Rightarrow> bytes \<Rightarrow> krpc_message" where
  "new_ping_query tid node_id = krpc_query tid (lit ''ping'') (query_args_new node_id)"

definition krpc_response :: "bytes \<Rightarrow> response_args \<Rightarrow> krpc_message" where
  "krpc_response tid args = \<lparr>km_a = None, km_e = None, km_q = None, km_r = Some args, km_t = tid, km_y = lit ''r''\<rparr>"

text \<open>The texts of errors are ASCII, so their UTF-8 form is one byte per character.\<close>

definition krpc_error :: "bytes \<Rightarrow> int \<Rightarrow> string \<Rightarrow> krpc_message" where
  "krpc_error tid code message = \<lparr>km_a = None, km_e = Some [VInt code, VBytes (map of_char message)], km_q = None, km_r = None,
     km_t = tid, km_y = lit ''e''\<rparr>"

section \<open>Addresses\<close>

fun ip_of :: "socket_addr \<Rightarrow> bytes" where
  "ip_of (V4 ip port) = ip"
| "ip_of (V6 ip port) = ip"

text \<open>\<open>is_unspecified\<close> and \<open>is_multicast\<close>: all octets zero; \<open>224.0.0.0/4\<close> or \<open>ff00::/8\<close>.\<close>

definition is_unspecified :: "socket_addr \<Rightarrow> bool" where
  "is_unspecified a \<longleftrightarrow> list_all (\<lambda>b. b = 0) (ip_of a)"

fun is_multicast :: "socket_addr \<Rightarrow> bool" where
  "is_multicast (V4 ip port) = (case ip of [] \<Rightarrow> False | b # _ \<Rightarrow> 224 \<le> b \<and> b \<le> 239)"
| "is_multicast (V6 ip port) = (case ip of [] \<Rightarrow> False | b # _ \<Rightarrow> b = 255)"

definition is_valid_node_addr :: "socket_addr \<Rightarrow> bool" where
  "is_valid_node_addr a \<longleftrightarrow> port_of a \<noteq> 0 \<and> \<not> is_unspecified a \<and> \<not> is_multicast a"

definition wire_addr :: "bool \<Rightarrow> socket_addr \<Rightarrow> socket_addr" where
  "wire_addr dual_stack a = (case a of
     V4 ip port \<Rightarrow> if dual_stack then V6 (MAPPED_PREFIX @ ip) port else a
   | _ \<Rightarrow> a)"

section \<open>The server\<close>

definition TRANSACTION_TTL :: duration where "TRANSACTION_TTL = secs 20"
definition MAX_PENDING :: nat where "MAX_PENDING = 4096"

datatype dht_command =
    SendQuery socket_addr krpc_message nat
  | SendReply socket_addr krpc_message

record pending =
  pd_target :: socket_addr
  pd_reply :: nat
  pd_sent :: instant

record dht_server =
  ds_dual_stack :: bool
  ds_transactions :: "(bytes \<times> pending) list"
  ds_next_tid :: "32 word"

definition server_new :: "bool \<Rightarrow> 32 word \<Rightarrow> dht_server" where
  "server_new dual_stack r = \<lparr>ds_dual_stack = dual_stack, ds_transactions = [], ds_next_tid = r\<rparr>"

datatype query_error = InvalidAddress | TooManyPending | SocketError

datatype server_out =
    Datagram bytes socket_addr
  | Failed nat query_error
  | Answered nat krpc_message socket_addr
  | Dropped nat
  | ToManager socket_addr krpc_message

text \<open>What the outside world does in one turn.\<close>

record server_io =
  so_now :: instant
  so_ser :: "krpc_message \<Rightarrow> bytes option"
  so_de :: "bytes \<Rightarrow> krpc_message option"
  so_sent :: bool
  so_queued :: bool

definition tid_bytes :: "32 word \<Rightarrow> bytes" where
  "tid_bytes w = be_bytes 4 (unat w)"

fun handle_command :: "server_io \<Rightarrow> dht_command \<Rightarrow> dht_server \<Rightarrow> dht_server \<times> server_out list" where
  "handle_command io (SendQuery target0 msg0 reply) s =
     (let target = canonical target0 in
      if \<not> is_valid_node_addr target then (s, [Failed reply InvalidAddress])
      else if length (ds_transactions s) \<ge> MAX_PENDING then (s, [Failed reply TooManyPending])
      else
        let s1 = s\<lparr>ds_next_tid := ds_next_tid s + 1\<rparr>;
            tid = tid_bytes (ds_next_tid s1);
            msg = msg0\<lparr>km_t := tid\<rparr>
        in case so_ser io msg of
             None \<Rightarrow> (s1, [Dropped reply])
           | Some payload \<Rightarrow>
               if so_sent io then
                 (s1\<lparr>ds_transactions := AList.update tid \<lparr>pd_target = target, pd_reply = reply, pd_sent = so_now io\<rparr> (ds_transactions s1)\<rparr>,
                  Datagram payload (wire_addr (ds_dual_stack s) target)
                  # (case map_of (ds_transactions s1) tid of None \<Rightarrow> [] | Some old \<Rightarrow> [Dropped (pd_reply old)]))
               else (s1, [Failed reply SocketError]))"
| "handle_command io (SendReply target msg) s =
     (case so_ser io msg of
        None \<Rightarrow> (s, [])
      | Some payload \<Rightarrow>
          (s, if so_sent io then [Datagram payload (wire_addr (ds_dual_stack s) (canonical target))] else []))"

definition handle_datagram :: "server_io \<Rightarrow> bytes \<Rightarrow> socket_addr \<Rightarrow> dht_server \<Rightarrow> dht_server \<times> server_out list" where
  "handle_datagram io dgram src s =
     (if \<not> is_ok (check_bencode_depth dgram) then (s, [])
      else case so_de io dgram of
        None \<Rightarrow> (s, [])
      | Some msg \<Rightarrow>
          if km_y msg = lit ''r'' \<or> km_y msg = lit ''e'' then
            (case map_of (ds_transactions s) (km_t msg) of
               Some p \<Rightarrow>
                 if pd_target p = src
                 then (s\<lparr>ds_transactions := AList.delete (km_t msg) (ds_transactions s)\<rparr>, [Answered (pd_reply p) msg src])
                 else (s, [])
             | None \<Rightarrow> (s, []))
          else if km_y msg = lit ''q'' then (s, if so_queued io then [ToManager src msg] else [])
          else (s, []))"

definition cleanup :: "instant \<Rightarrow> dht_server \<Rightarrow> dht_server \<times> server_out list" where
  "cleanup now s =
     (s\<lparr>ds_transactions := filter (\<lambda>x. now - pd_sent (snd x) < TRANSACTION_TTL) (ds_transactions s)\<rparr>,
      map (\<lambda>x. Dropped (pd_reply (snd x))) (filter (\<lambda>x. \<not> now - pd_sent (snd x) < TRANSACTION_TTL) (ds_transactions s)))"

datatype server_input =
    Command dht_command
  | Received bytes socket_addr
  | RecvError
  | CleanupTick

fun server_turn :: "server_io \<Rightarrow> server_input \<Rightarrow> dht_server \<Rightarrow> dht_server \<times> server_out list" where
  "server_turn io (Command cmd) s = handle_command io cmd s"
| "server_turn io (Received dgram src) s = handle_datagram io dgram (canonical src) s"
| "server_turn io RecvError s = (s, [])"
| "server_turn io CleanupTick s = cleanup (so_now io) s"

fun server_run :: "(server_io \<times> server_input) list \<Rightarrow> dht_server \<Rightarrow> dht_server \<times> server_out list" where
  "server_run [] s = (s, [])"
| "server_run ((io, inp) # rest) s =
     (let (s1, out1) = server_turn io inp s; (s2, out2) = server_run rest s1 in (s2, out1 @ out2))"

section \<open>Queries and their answers\<close>

fun settled_reply :: "server_out \<Rightarrow> nat option" where
  "settled_reply (Failed r e) = Some r"
| "settled_reply (Answered r m src) = Some r"
| "settled_reply (Dropped r) = Some r"
| "settled_reply x = None"

fun asked_reply :: "server_input \<Rightarrow> (socket_addr \<times> nat) option" where
  "asked_reply (Command (SendQuery target m r)) = Some (canonical target, r)"
| "asked_reply x = None"

definition settled_queries :: "server_out list \<Rightarrow> nat list" where
  "settled_queries = List.map_filter settled_reply"

definition asked_queries :: "(server_io \<times> server_input) list \<Rightarrow> (socket_addr \<times> nat) list" where
  "asked_queries = List.map_filter (asked_reply \<circ> snd)"

definition pending_queries :: "dht_server \<Rightarrow> (socket_addr \<times> nat) list" where
  "pending_queries s = map (\<lambda>x. (pd_target (snd x), pd_reply (snd x))) (ds_transactions s)"

definition server_ok :: "dht_server \<Rightarrow> bool" where
  "server_ok s \<longleftrightarrow> distinct (map fst (ds_transactions s)) \<and> length (ds_transactions s) \<le> MAX_PENDING"

text \<open>An answer is authentic when the query it settles was sent to the address the datagram came from.\<close>

fun authentic :: "(socket_addr \<times> nat) set \<Rightarrow> server_out \<Rightarrow> bool" where
  "authentic Q (Answered r m src) \<longleftrightarrow> (src, r) \<in> Q"
| "authentic Q x \<longleftrightarrow> True"

lemma map_filter_simps' [simp]:
  "settled_queries [] = []" "settled_queries (x # xs) = (case settled_reply x of None \<Rightarrow> settled_queries xs | Some r \<Rightarrow> r # settled_queries xs)"
  "settled_queries (xs @ ys) = settled_queries xs @ settled_queries ys"
  "asked_queries [] = []" "asked_queries (y # ys') = (case asked_reply (snd y) of None \<Rightarrow> asked_queries ys' | Some q \<Rightarrow> q # asked_queries ys')"
  by (simp_all add: settled_queries_def asked_queries_def List.map_filter_def split: option.split)

lemma mset_AList_update:
  "distinct (map fst xs) \<Longrightarrow> mset (map f (AList.update k v xs)) =
    (case map_of xs k of None \<Rightarrow> mset (map f xs) | Some w \<Rightarrow> mset (map f xs) - {#f (k, w)#}) + {#f (k, v)#}"
  by (induction xs) (auto split: option.splits dest: map_of_SomeD simp: dom_map_of_conv_image_fst)

lemma mset_AList_delete:
  "distinct (map fst xs) \<Longrightarrow> map_of xs k = Some w \<Longrightarrow> mset (map f xs) = add_mset (f (k, w)) (mset (map f (AList.delete k xs)))"
proof (induction xs)
  case (Cons x xs)
  show ?case
  proof (cases "fst x = k")
    case True
    then have "k \<notin> fst ` set xs" using Cons.prems(1) by auto
    then have "AList.delete k xs = xs" by (rule AList.delete_id)
    then show ?thesis using True Cons.prems by (cases x) auto
  next
    case False
    then show ?thesis using Cons by (cases x) auto
  qed
qed simp

lemma length_AList_update: "length (AList.update k v xs) \<le> Suc (length xs)"
  by (induction xs) auto

definition turn_ok :: "dht_server \<Rightarrow> (socket_addr \<times> nat) option \<Rightarrow> dht_server \<Rightarrow> server_out list \<Rightarrow> bool" where
  "turn_ok s q s' out \<longleftrightarrow> server_ok s'
     \<and> mset (settled_queries out) + mset (map snd (pending_queries s'))
        = mset (map snd (pending_queries s)) + (case q of None \<Rightarrow> {#} | Some q \<Rightarrow> {#snd q#})
     \<and> set (pending_queries s') \<subseteq> set (pending_queries s) \<union> set_option q
     \<and> list_all (authentic (set (pending_queries s))) out"

lemma turn_ok_idle [intro]: "server_ok s \<Longrightarrow> turn_ok s None s []"
  by (simp add: turn_ok_def)

lemma set_AList_update: "set (AList.update k v xs) \<subseteq> insert (k, v) (set xs)"
  by (induction xs) auto

lemma send_query_ok:
  assumes ok: "server_ok s" and h: "handle_command io (SendQuery target0 msg0 reply) s = (s', out)"
  shows "turn_ok s (Some (canonical target0, reply)) s' out"
proof -
  let ?t = "canonical target0" and ?w = "ds_next_tid s + 1"
  let ?p = "\<lparr>pd_target = ?t, pd_reply = reply, pd_sent = so_now io\<rparr>"
  let ?up = "AList.update (tid_bytes ?w) ?p (ds_transactions s)"
  let ?msg = "msg0\<lparr>km_t := tid_bytes ?w\<rparr>"
  show ?thesis
  proof (cases "is_valid_node_addr ?t \<and> length (ds_transactions s) < MAX_PENDING")
    case False
    then obtain e where "s' = s" "out = [Failed reply e]" using h by (auto simp: Let_def split: if_splits)
    then show ?thesis using ok by (auto simp: turn_ok_def)
  next
    case go: True
    show ?thesis
    proof (cases "so_ser io ?msg = None \<or> \<not> so_sent io")
      case True
      then obtain e where "s' = s\<lparr>ds_next_tid := ?w\<rparr>" "out = [e]" "settled_reply e = Some reply" "authentic (set (pending_queries s)) e"
        using h go by (auto simp: Let_def split: option.splits)
      then show ?thesis using ok by (auto simp: turn_ok_def server_ok_def pending_queries_def)
    next
      case False
      then obtain payload addr where sent: "length (ds_transactions s) < MAX_PENDING" "s' = s\<lparr>ds_next_tid := ?w, ds_transactions := ?up\<rparr>"
        "out = Datagram payload addr # (case map_of (ds_transactions s) (tid_bytes ?w) of None \<Rightarrow> [] | Some old \<Rightarrow> [Dropped (pd_reply old)])"
        using h go by (auto simp: Let_def)
    have d: "distinct (map fst (ds_transactions s))" using ok by (simp add: server_ok_def)
    have "server_ok s'" using ok sent(1) length_AList_update [of "tid_bytes ?w" ?p "ds_transactions s"]
      by (simp add: server_ok_def sent(2) AList.distinct_update)
    moreover have "mset (settled_queries out) + mset (map snd (pending_queries s')) = mset (map snd (pending_queries s)) + {#reply#}"
    proof (cases "map_of (ds_transactions s) (tid_bytes ?w)")
      case None
      then show ?thesis using mset_AList_update [OF d, of "\<lambda>x. pd_reply (snd x)" "tid_bytes ?w" ?p]
        by (simp add: sent(2,3) pending_queries_def comp_def)
    next
      case (Some old)
      then have "(tid_bytes ?w, old) \<in> set (ds_transactions s)" by (rule map_of_SomeD)
      then have "pd_reply old \<in># mset (map (\<lambda>x. pd_reply (snd x)) (ds_transactions s))" by force
      then show ?thesis using Some mset_AList_update [OF d, of "\<lambda>x. pd_reply (snd x)" "tid_bytes ?w" ?p]
        by (simp add: sent(2,3) pending_queries_def comp_def)
    qed
    moreover have "set (pending_queries s') \<subseteq> set (pending_queries s) \<union> {(?t, reply)}"
      using set_AList_update [of "tid_bytes ?w" ?p "ds_transactions s"] by (force simp: pending_queries_def sent(2))
    moreover have "list_all (authentic Q) out" for Q by (simp add: sent(3) split: option.split)
    ultimately show ?thesis by (simp add: turn_ok_def)
    qed
  qed
qed

lemma datagram_ok:
  assumes ok: "server_ok s" and h: "handle_datagram io dgram src s = (s', out)"
  shows "turn_ok s None s' out"
proof -
  consider (idle) "s' = s" "out = [] \<or> (\<exists>m. out = [ToManager src m])"
    | (answer) m p where "map_of (ds_transactions s) (km_t m) = Some p" "pd_target p = src"
        "s' = s\<lparr>ds_transactions := AList.delete (km_t m) (ds_transactions s)\<rparr>" "out = [Answered (pd_reply p) m src]"
  proof (cases "so_de io dgram")
    case None
    then show ?thesis using that(1) h by (auto simp: handle_datagram_def split: if_splits)
  next
    case (Some m)
    show ?thesis
    proof (cases "is_ok (check_bencode_depth dgram) \<and> (km_y m = lit ''r'' \<or> km_y m = lit ''e'')")
      case True
      then have h': "(case map_of (ds_transactions s) (km_t m) of
               Some p \<Rightarrow>
                 if pd_target p = src
                 then (s\<lparr>ds_transactions := AList.delete (km_t m) (ds_transactions s)\<rparr>, [Answered (pd_reply p) m src])
                 else (s, [])
             | None \<Rightarrow> (s, [])) = (s', out)" using h by (simp add: handle_datagram_def Some)
      show ?thesis
      proof (cases "\<exists>p. map_of (ds_transactions s) (km_t m) = Some p \<and> pd_target p = src")
        case True
        then show ?thesis using that(2) h' by auto
      next
        case False
        then show ?thesis using that(1) h' by (auto split: option.splits)
      qed
    next
      case False
      then show ?thesis using that(1) h Some by (cases "km_y m = lit ''q''") (auto simp: handle_datagram_def split: if_splits)
    qed
  qed
  then show ?thesis
  proof cases
    case idle
    then show ?thesis using ok by (auto simp: turn_ok_def)
  next
    case answer
    have d: "distinct (map fst (ds_transactions s))" using ok by (simp add: server_ok_def)
    have "(km_t m, p) \<in> set (ds_transactions s)" using answer(1) by (rule map_of_SomeD)
    then have a: "(src, pd_reply p) \<in> set (pending_queries s)" using answer(2) by (force simp: pending_queries_def)
    have "server_ok s'" using ok le_trans [OF AList.length_delete_le]
      by (auto simp: server_ok_def answer(3) AList.distinct_delete)
    moreover have "set (pending_queries s') \<subseteq> set (pending_queries s)" by (auto simp: pending_queries_def answer(3) AList.delete_eq)
    ultimately show ?thesis using a mset_AList_delete [OF d answer(1), of "\<lambda>x. pd_reply (snd x)"]
      by (simp add: turn_ok_def answer(3,4) pending_queries_def comp_def)
  qed
qed

lemma settled_dropped: "settled_queries (map (\<lambda>x. Dropped (f x)) xs) = map f xs" "list_all (authentic Q) (map (\<lambda>x. Dropped (f x)) xs)"
  by (induction xs) simp_all

lemma mset_map_partition: "mset (map f (filter (\<lambda>x. \<not> Q x) xs)) + mset (map f (filter Q xs)) = mset (map f xs)"
  by (induction xs) auto

lemma cleanup_ok:
  assumes "server_ok s" "cleanup now s = (s', out)"
  shows "turn_ok s None s' out"
proof -
  let ?P = "\<lambda>x. now - pd_sent (snd x) < TRANSACTION_TTL"
  have e: "s' = s\<lparr>ds_transactions := filter ?P (ds_transactions s)\<rparr>"
    "out = map (\<lambda>x. Dropped (pd_reply (snd x))) (filter (\<lambda>x. \<not> ?P x) (ds_transactions s))"
    using assms(2) by (simp_all add: cleanup_def)
  have "server_ok s'" using assms(1) le_trans [OF length_filter_le] by (auto simp: server_ok_def e(1) distinct_map_filter)
  moreover have "set (pending_queries s') \<subseteq> set (pending_queries s)" by (auto simp: e(1) pending_queries_def)
  ultimately show ?thesis unfolding turn_ok_def e(2) settled_dropped
    using mset_map_partition [of "\<lambda>x. pd_reply (snd x)" ?P "ds_transactions s"] settled_dropped(2)
    by (simp add: e(1) pending_queries_def comp_def)
qed

lemma server_turn_ok:
  assumes "server_ok s" "server_turn io inp s = (s', out)"
  shows "turn_ok s (asked_reply inp) s' out"
proof (cases inp)
  case (Command cmd)
  then show ?thesis using assms send_query_ok by (cases cmd) (auto simp: turn_ok_def split: option.splits)
qed (use assms datagram_ok cleanup_ok in \<open>auto simp: turn_ok_idle\<close>)

lemma authentic_mono1: "authentic Q x \<Longrightarrow> Q \<subseteq> Q' \<Longrightarrow> authentic Q' x"
  by (cases x) auto

lemma authentic_mono: "list_all (authentic Q) xs \<Longrightarrow> Q \<subseteq> Q' \<Longrightarrow> list_all (authentic Q') xs"
  by (auto simp: list_all_iff intro: authentic_mono1)

lemma server_run_ok:
  "server_ok s \<Longrightarrow> server_run inputs s = (s', out) \<Longrightarrow> server_ok s'
     \<and> mset (settled_queries out) + mset (map snd (pending_queries s')) = mset (map snd (pending_queries s)) + mset (map snd (asked_queries inputs))
     \<and> list_all (authentic (set (pending_queries s) \<union> set (asked_queries inputs))) out"
proof (induction inputs s arbitrary: s' out rule: server_run.induct)
  case (2 io inp rest s)
  obtain s1 out1 where t: "server_turn io inp s = (s1, out1)" by fastforce
  obtain out2 where r: "server_run rest s1 = (s', out2)" "out = out1 @ out2"
    using "2.prems"(2) t by (auto split: prod.splits)
  note T = server_turn_ok [OF "2.prems"(1) t, unfolded turn_ok_def]
  note R = "2.IH" [OF t [symmetric] refl _ r(1)]
  show ?case using T R r(2)
    by (auto split: option.splits elim!: authentic_mono simp: add.assoc add.left_commute)
qed simp

section \<open>Properties\<close>

text \<open>C23. Every query of the DHT is settled exactly once and only by the node it was sent to: in a run of the server on any commands,
  datagrams and clean-ups, with any socket errors, each query that was asked is either still pending or was settled by exactly one
  answer, error or drop of its channel; an answer is delivered only if it came from the address that query was sent to;
  and at most \<open>MAX_PENDING\<close> queries are pending.\<close>

theorem dht_queries_settled:
  "case server_run inputs (server_new dual r) of (s, out) \<Rightarrow>
     mset (settled_queries out) + mset (map snd (pending_queries s)) = mset (map snd (asked_queries inputs))
     \<and> list_all (authentic (set (asked_queries inputs))) out
     \<and> length (ds_transactions s) \<le> MAX_PENDING"
proof -
  obtain s out where r: "server_run inputs (server_new dual r) = (s, out)" by fastforce
  have "server_ok (server_new dual r)" "pending_queries (server_new dual r) = []"
    by (simp_all add: server_ok_def server_new_def pending_queries_def)
  with server_run_ok [OF this(1) r] show ?thesis by (simp add: r server_ok_def)
qed

end
