(* ===== verification/DhtManager.thy ===== *)
theory DhtManager
  imports DhtServer
begin

text \<open>
  The node's side of the DHT, \<open>net/dht/actor.rs\<close>: the store of announced peers, the tokens that authorise
  announcements, and the answers to the four queries. SHA-1 and the random secrets are arguments.
\<close>

definition K_NODES :: nat where "K_NODES = 8"
definition MAX_STORED_TORRENTS :: nat where "MAX_STORED_TORRENTS = 500"
definition MAX_PEERS_PER_TORRENT :: nat where "MAX_PEERS_PER_TORRENT = 100"
definition PEER_TTL :: duration where "PEER_TTL = secs (30 * 60)"
definition TOKEN_ROTATION :: duration where "TOKEN_ROTATION = secs (5 * 60)"
definition MAX_VALUES_PER_REPLY :: nat where "MAX_VALUES_PER_REPLY = 50"

section \<open>The store of peers\<close>

type_synonym peer_store = "(bytes \<times> (socket_addr \<times> instant) list) list"

definition add_entry :: "instant \<Rightarrow> socket_addr \<Rightarrow> (socket_addr \<times> instant) list \<Rightarrow> (socket_addr \<times> instant) list" where
  "add_entry now addr entry =
     (case position (\<lambda>e. fst e = addr) entry of
        Some i \<Rightarrow> entry[i := (fst (entry ! i), now)]
      | None \<Rightarrow>
          (if length entry \<ge> MAX_PEERS_PER_TORRENT then tl entry else entry) @ [(addr, now)])"

definition store_add :: "instant \<Rightarrow> bytes \<Rightarrow> socket_addr \<Rightarrow> peer_store \<Rightarrow> peer_store" where
  "store_add now info_hash addr ps =
     (if map_of ps info_hash = None \<and> length ps \<ge> MAX_STORED_TORRENTS then ps
      else AList.update info_hash
             (add_entry now addr (case map_of ps info_hash of None \<Rightarrow> [] | Some entry \<Rightarrow> entry)) ps)"

definition store_get :: "instant \<Rightarrow> bytes \<Rightarrow> peer_store \<Rightarrow> socket_addr list" where
  "store_get now info_hash ps =
     (case map_of ps info_hash of
        None \<Rightarrow> []
      | Some entries \<Rightarrow> take MAX_VALUES_PER_REPLY (map fst (filter (\<lambda>e. now - snd e < PEER_TTL) entries)))"

definition store_purge :: "instant \<Rightarrow> peer_store \<Rightarrow> peer_store" where
  "store_purge now ps =
     filter (\<lambda>e. snd e \<noteq> []) (map (\<lambda>e. (fst e, filter (\<lambda>x. now - snd x < PEER_TTL) (snd e))) ps)"

section \<open>Tokens\<close>

record tokens =
  tk_current :: bytes
  tk_previous :: bytes
  tk_rotated :: instant

definition tokens_new :: "bytes \<Rightarrow> bytes \<Rightarrow> instant \<Rightarrow> tokens" where
  "tokens_new r1 r2 now = \<lparr>tk_current = r1, tk_previous = r2, tk_rotated = now\<rparr>"

definition rotate_if_due :: "bytes \<Rightarrow> instant \<Rightarrow> tokens \<Rightarrow> tokens" where
  "rotate_if_due r now t =
     (if now - tk_rotated t \<ge> TOKEN_ROTATION
      then \<lparr>tk_current = r, tk_previous = tk_current t, tk_rotated = now\<rparr> else t)"

definition token_make :: "(bytes \<Rightarrow> bytes) \<Rightarrow> bytes \<Rightarrow> bytes \<Rightarrow> bytes" where
  "token_make sha1 secret ip = take 8 (sha1 (secret @ ip))"

definition token_issue :: "(bytes \<Rightarrow> bytes) \<Rightarrow> tokens \<Rightarrow> bytes \<Rightarrow> bytes" where
  "token_issue sha1 t ip = token_make sha1 (tk_current t) ip"

definition token_is_valid :: "(bytes \<Rightarrow> bytes) \<Rightarrow> tokens \<Rightarrow> bytes \<Rightarrow> bytes \<Rightarrow> bool" where
  "token_is_valid sha1 t token ip \<longleftrightarrow> token = token_make sha1 (tk_current t) ip \<or> token = token_make sha1 (tk_previous t) ip"

section \<open>Encodings\<close>

fun encode_nodes :: "contact list \<Rightarrow> bytes \<times> bytes" where
  "encode_nodes [] = ([], [])"
| "encode_nodes (c # cs) =
     (let (v4, v6) = encode_nodes cs in
      case canonical (ct_addr c) of
        V4 ip port \<Rightarrow> (ct_id c @ ip @ be_bytes 2 port @ v4, v6)
      | V6 ip port \<Rightarrow> (v4, ct_id c @ ip @ be_bytes 2 port @ v6))"

definition encode_value :: "socket_addr \<Rightarrow> bytes option" where
  "encode_value addr =
     (let (v4, v6) = split_compact [addr]; raw = (if v4 = [] then v6 else v4)
      in if raw \<noteq> [] then Some raw else None)"

section \<open>The manager\<close>

record dht_manager =
  dm_local_id :: node_id
  dm_routing_table :: routing_table
  dm_peer_store :: peer_store
  dm_tokens :: tokens
  dm_port :: nat

definition pseudo_id :: "(bytes \<Rightarrow> bytes) \<Rightarrow> (socket_addr \<Rightarrow> bytes) \<Rightarrow> socket_addr \<Rightarrow> node_id" where
  "pseudo_id sha1 to_string addr = sha1 (to_string addr)"

definition manager_new ::
  "(bytes \<Rightarrow> bytes) \<Rightarrow> (socket_addr \<Rightarrow> bytes) \<Rightarrow> node_id \<Rightarrow> socket_addr list list \<Rightarrow> bytes \<Rightarrow> bytes \<Rightarrow> instant \<Rightarrow> nat \<Rightarrow> dht_manager" where
  "manager_new sha1 to_string local_id lookups r1 r2 now bound_port =
     \<lparr>dm_local_id = local_id,
      dm_routing_table = fold (\<lambda>addr t. rt_insert \<lparr>ct_id = pseudo_id sha1 to_string addr, ct_addr = addr\<rparr> t) (concat lookups) (rt_new local_id),
      dm_peer_store = [], dm_tokens = tokens_new r1 r2 now, dm_port = bound_port\<rparr>"

definition nodes_for :: "dht_manager \<Rightarrow> node_id \<Rightarrow> socket_addr \<Rightarrow> bytes \<times> bytes" where
  "nodes_for m target requester =
     encode_nodes (closest_where (dm_routing_table m) target K_NODES
       (\<lambda>c. (\<not> is_v4 (canonical (ct_addr c))) = (\<not> is_v4 requester)))"

text \<open>\<open><[u8; 20]>::try_from\<close>\<close>

definition as_id :: "bytes \<Rightarrow> node_id option" where
  "as_id bs = (if length bs = 20 then Some bs else None)"

definition with_port :: "socket_addr \<Rightarrow> nat \<Rightarrow> socket_addr" where
  "with_port a port = (case a of V4 ip _ \<Rightarrow> V4 ip port | V6 ip _ \<Rightarrow> V6 ip port)"

definition handle_announce ::
  "(bytes \<Rightarrow> bytes) \<Rightarrow> instant \<Rightarrow> socket_addr \<Rightarrow> query_args \<Rightarrow> bytes \<Rightarrow> response_args \<Rightarrow> dht_manager \<Rightarrow> krpc_message \<times> dht_manager" where
  "handle_announce sha1 now src args tid base m =
     (case as_id (qa_info_hash args) of
        None \<Rightarrow> (krpc_error tid 203 ''Invalid info_hash'', m)
      | Some info_hash \<Rightarrow>
          if \<not> token_is_valid sha1 (dm_tokens m) (qa_token args) (ip_of src) then (krpc_error tid 203 ''Bad token'', m)
          else
            let port = (if qa_implied_port args = Some 1 then Some (port_of src) else qa_port args) in
            case port of
              None \<Rightarrow> (krpc_error tid 203 ''Invalid port'', m)
            | Some p \<Rightarrow>
                if p = 0 then (krpc_error tid 203 ''Invalid port'', m)
                else (krpc_response tid base,
                      m\<lparr>dm_peer_store := store_add now info_hash (with_port src p) (dm_peer_store m)\<rparr>))"

text \<open>The four queries, once the sender is known.\<close>

definition answer_query ::
  "(bytes \<Rightarrow> bytes) \<Rightarrow> instant \<Rightarrow> socket_addr \<Rightarrow> bytes \<Rightarrow> rstring \<Rightarrow> query_args \<Rightarrow> dht_manager \<Rightarrow> krpc_message option \<times> dht_manager" where
  "answer_query sha1 now src tid name args m =
     (let base = \<lparr>ra_id = dm_local_id m, ra_nodes = [], ra_nodes6 = [], ra_token = [], ra_values = []\<rparr>
      in if name = lit ''ping'' then (Some (krpc_response tid base), m)
         else if name = lit ''find_node'' then
           (case as_id (qa_target args) of
              None \<Rightarrow> (None, m)
            | Some target \<Rightarrow>
                let (nodes, nodes6) = nodes_for m target src
                in (Some (krpc_response tid (base\<lparr>ra_nodes := nodes, ra_nodes6 := nodes6\<rparr>)), m))
         else if name = lit ''get_peers'' then
           (case as_id (qa_info_hash args) of
              None \<Rightarrow> (Some (krpc_error tid 203 ''Invalid info_hash''), m)
            | Some info_hash \<Rightarrow>
                let values = List.map_filter encode_value (store_get now info_hash (dm_peer_store m));
                    (nodes, nodes6) = (if values = [] then nodes_for m info_hash src else ([], []))
                in (Some (krpc_response tid (base\<lparr>ra_nodes := nodes, ra_nodes6 := nodes6,
                      ra_token := token_issue sha1 (dm_tokens m) (ip_of src), ra_values := values\<rparr>)), m))
         else if name = lit ''announce_peer'' then
           (let (r, m') = handle_announce sha1 now src args tid base m in (Some r, m'))
         else (Some (krpc_error tid 204 ''Method Unknown''), m))"

definition note_sender :: "socket_addr \<Rightarrow> node_id \<Rightarrow> dht_manager \<Rightarrow> dht_manager" where
  "note_sender src sender_id m =
     (if is_valid_node_addr src
      then m\<lparr>dm_routing_table := rt_insert \<lparr>ct_id = sender_id, ct_addr = src\<rparr> (dm_routing_table m)\<rparr> else m)"

definition handle_query ::
  "(bytes \<Rightarrow> bytes) \<Rightarrow> instant \<Rightarrow> socket_addr \<Rightarrow> krpc_message \<Rightarrow> dht_manager \<Rightarrow> krpc_message option \<times> dht_manager" where
  "handle_query sha1 now src0 msg m =
     (let src = canonical src0; tid = km_t msg in
      case (km_q msg, km_a msg) of
        (Some name, Some args) \<Rightarrow>
          (case as_id (qa_id args) of
             None \<Rightarrow> (Some (krpc_error tid 203 ''Invalid node id''), m)
           | Some sender_id \<Rightarrow> answer_query sha1 now src tid name args (note_sender src sender_id m))
      | _ \<Rightarrow> (Some (krpc_error tid 203 ''Protocol Error''), m))"

datatype manager_input =
    StartSearch node_id "nat option"
  | InsertNode contact
  | Query socket_addr krpc_message
  | Maintenance bytes

datatype manager_out =
    SpawnSearch node_id node_id "contact list" "nat option"
  | ReplyTo socket_addr krpc_message

fun manager_turn :: "(bytes \<Rightarrow> bytes) \<Rightarrow> instant \<Rightarrow> manager_input \<Rightarrow> dht_manager \<Rightarrow> dht_manager \<times> manager_out list" where
  "manager_turn sha1 now (StartSearch info_hash announce_port) m =
     (m, [SpawnSearch info_hash (dm_local_id m) (closest (dm_routing_table m) info_hash K_NODES) announce_port])"
| "manager_turn sha1 now (InsertNode c) m = (m\<lparr>dm_routing_table := rt_insert c (dm_routing_table m)\<rparr>, [])"
| "manager_turn sha1 now (Query src msg) m =
     (let (r, m') = handle_query sha1 now src msg m
      in (m', case r of None \<Rightarrow> [] | Some reply \<Rightarrow> [ReplyTo src reply]))"
| "manager_turn sha1 now (Maintenance r) m =
     (m\<lparr>dm_tokens := rotate_if_due r now (dm_tokens m), dm_peer_store := store_purge now (dm_peer_store m)\<rparr>, [])"

fun manager_run :: "(bytes \<Rightarrow> bytes) \<Rightarrow> (instant \<times> manager_input) list \<Rightarrow> dht_manager \<Rightarrow> dht_manager" where
  "manager_run sha1 [] m = m"
| "manager_run sha1 ((now, inp) # rest) m = manager_run sha1 rest (fst (manager_turn sha1 now inp m))"

section \<open>Bounds\<close>

definition entry_ok :: "(socket_addr \<times> instant) list \<Rightarrow> bool" where
  "entry_ok e \<longleftrightarrow> length e \<le> MAX_PEERS_PER_TORRENT \<and> distinct (map fst e)"

definition peer_store_ok :: "peer_store \<Rightarrow> bool" where
  "peer_store_ok ps \<longleftrightarrow> length ps \<le> MAX_STORED_TORRENTS \<and> distinct (map fst ps) \<and> list_all (\<lambda>x. entry_ok (snd x)) ps"

lemma add_entry_ok:
  assumes "entry_ok e"
  shows "entry_ok (add_entry now addr e)" "set (add_entry now addr e) \<subseteq> insert (addr, now) (set e)" "(addr, now) \<in> set (add_entry now addr e)"
proof -
  have "entry_ok (add_entry now addr e) \<and> set (add_entry now addr e) \<subseteq> insert (addr, now) (set e) \<and> (addr, now) \<in> set (add_entry now addr e)"
  proof (cases "position (\<lambda>e. fst e = addr) e")
    case None
    then have n: "addr \<notin> fst ` set e" by (auto simp: position_None_iff)
    have t: "set (tl e) \<subseteq> set e" "distinct (map fst (tl e))" using assms by (cases e; auto simp: entry_ok_def)+
    then have "addr \<notin> fst ` set (tl e)" using n by auto
    moreover have "MAX_PEERS_PER_TORRENT > 0" by (simp add: MAX_PEERS_PER_TORRENT_def)
    ultimately show ?thesis using assms n t None by (auto simp: add_entry_def entry_ok_def)
  next
    case (Some i)
    have i: "i < length e" "fst (e ! i) = addr" using position_SomeD [OF Some] by auto
    have "map fst (e[i := (addr, now)]) = map fst e" using i by (simp add: map_update list_update_same_conv)
    then show ?thesis using assms i Some
      by (auto simp: add_entry_def entry_ok_def set_update_memI dest: subsetD [OF set_update_subset_insert])
  qed
  then show "entry_ok (add_entry now addr e)" "set (add_entry now addr e) \<subseteq> insert (addr, now) (set e)" "(addr, now) \<in> set (add_entry now addr e)"
    by blast+
qed

lemma in_set_AList_update: "x \<in> set (AList.update k v xs) \<Longrightarrow> x = (k, v) \<or> x \<in> set xs"
  using set_AList_update [of k v xs] by auto

lemma length_update_known: "map_of xs k \<noteq> None \<Longrightarrow> length (AList.update k v xs) = length xs"
  by (induction xs) auto

lemma store_entry_ok:
  assumes "peer_store_ok ps"
  shows "entry_ok (case map_of ps ih of None \<Rightarrow> [] | Some e \<Rightarrow> e)"
  using assms by (auto simp: peer_store_ok_def list_all_iff entry_ok_def split: option.split dest!: map_of_SomeD)

lemma store_add_ok:
  assumes "peer_store_ok ps"
  shows "peer_store_ok (store_add now ih addr ps)"
proof (cases "map_of ps ih = None \<and> length ps \<ge> MAX_STORED_TORRENTS")
  case False
  let ?e = "add_entry now addr (case map_of ps ih of None \<Rightarrow> [] | Some entry \<Rightarrow> entry)"
  have "length (AList.update ih ?e ps) \<le> MAX_STORED_TORRENTS"
    using assms False length_AList_update [of ih ?e ps] length_update_known [of ps ih ?e]
    by (cases "map_of ps ih") (auto simp: peer_store_ok_def)
  moreover have "list_all (\<lambda>x. entry_ok (snd x)) (AList.update ih ?e ps)"
    using assms add_entry_ok(1) [OF store_entry_ok [OF assms]]
    by (auto simp: list_all_iff peer_store_ok_def dest!: in_set_AList_update)
  ultimately show ?thesis using assms False by (simp add: store_add_def peer_store_ok_def AList.distinct_update)
qed (use assms in \<open>simp add: store_add_def\<close>)

lemma store_purge_ok:
  assumes "peer_store_ok ps"
  shows "peer_store_ok (store_purge now ps)"
proof -
  let ?f = "\<lambda>e. (fst e, filter (\<lambda>x. now - snd x < PEER_TTL) (snd e)) :: bytes \<times> (socket_addr \<times> instant) list"
  have d: "distinct (map fst (map ?f ps))" using assms by (simp add: comp_def peer_store_ok_def)
  have e: "entry_ok (filter P x)" if "entry_ok x" for P x
    using that le_trans [OF length_filter_le [of P x]] by (simp add: entry_ok_def distinct_map_filter)
  have "length (store_purge now ps) \<le> MAX_STORED_TORRENTS"
    using assms le_trans [OF length_filter_le [of "\<lambda>e. snd e \<noteq> []" "map ?f ps"]] by (simp add: store_purge_def peer_store_ok_def)
  moreover have "distinct (map fst (store_purge now ps))" unfolding store_purge_def by (rule distinct_map_filter [OF d])
  moreover have "list_all (\<lambda>x. entry_ok (snd x)) (store_purge now ps)"
    using assms e by (auto simp: store_purge_def list_all_iff peer_store_ok_def)
  ultimately show ?thesis by (simp add: peer_store_ok_def)
qed

text \<open>What a query does to the state of the manager.\<close>

lemma handle_announce_store:
  "snd (handle_announce sha1 now src args tid base m) = m \<or> (\<exists>p. length (qa_info_hash args) = 20
     \<and> token_is_valid sha1 (dm_tokens m) (qa_token args) (ip_of src) \<and> p \<noteq> 0
     \<and> snd (handle_announce sha1 now src args tid base m) = m\<lparr>dm_peer_store := store_add now (qa_info_hash args) (with_port src p) (dm_peer_store m)\<rparr>)"
  by (auto simp: handle_announce_def as_id_def Let_def split: option.split)

lemma answer_query_quiet: "name \<noteq> lit ''announce_peer'' \<Longrightarrow> snd (answer_query sha1 now src tid name args m) = m"
  by (simp add: answer_query_def Let_def split: option.split prod.split)

lemma names_distinct: "lit ''announce_peer'' \<noteq> lit ''ping''" "lit ''announce_peer'' \<noteq> lit ''find_node''" "lit ''announce_peer'' \<noteq> lit ''get_peers''"
  by (simp_all add: lit_def)

lemma answer_query_announce:
  "answer_query sha1 now src tid (lit ''announce_peer'') args m =
    map_prod Some id (handle_announce sha1 now src args tid \<lparr>ra_id = dm_local_id m, ra_nodes = [], ra_nodes6 = [], ra_token = [], ra_values = []\<rparr> m)"
  by (simp add: answer_query_def Let_def names_distinct split: prod.split)

lemma note_sender_simps [simp]:
  "dm_tokens (note_sender src i m) = dm_tokens m" "dm_peer_store (note_sender src i m) = dm_peer_store m"
  by (simp_all add: note_sender_def)

lemma handle_query_cases:
  assumes "handle_query sha1 now src msg m = (r, m')"
  obtains (quiet) "m' = m \<or> (\<exists>i. m' = note_sender (canonical src) i m)"
  | (announce) args p i where "km_q msg = Some (lit ''announce_peer'')" "km_a msg = Some args" "length (qa_info_hash args) = 20"
      "token_is_valid sha1 (dm_tokens m) (qa_token args) (ip_of (canonical src))" "p \<noteq> 0"
      "m' = (note_sender (canonical src) i m)\<lparr>dm_peer_store := store_add now (qa_info_hash args) (with_port (canonical src) p) (dm_peer_store m)\<rparr>"
proof (cases "\<exists>name args i. km_q msg = Some name \<and> km_a msg = Some args \<and> as_id (qa_id args) = Some i")
  case True
  then obtain name args i where n: "km_q msg = Some name" "km_a msg = Some args" "as_id (qa_id args) = Some i" by blast
  let ?m = "note_sender (canonical src) i m"
  have m': "m' = snd (answer_query sha1 now (canonical src) (km_t msg) name args ?m)"
    using assms n by (simp add: handle_query_def Let_def)
  show ?thesis
  proof (cases "name = lit ''announce_peer''")
    case True
    obtain base where "m' = snd (handle_announce sha1 now (canonical src) args (km_t msg) base ?m)"
      using m' by (simp add: True answer_query_announce)
    then show ?thesis using that n True handle_announce_store [of sha1 now "canonical src" args "km_t msg" base ?m] by auto
  next
    case False
    then show ?thesis using that(1) m' answer_query_quiet by auto
  qed
next
  case False
  then have "m' = m" using assms by (auto simp: handle_query_def Let_def split: option.splits)
  then show ?thesis using that(1) by blast
qed

section \<open>Announcements\<close>

text \<open>A peer was announced: a query in the run came from its IP address, with a token made for that address from one of the
  secrets the manager had.\<close>

definition announced :: "(bytes \<Rightarrow> bytes) \<Rightarrow> bytes set \<Rightarrow> (instant \<times> manager_input) list \<Rightarrow> bytes \<Rightarrow> socket_addr \<Rightarrow> bool" where
  "announced sha1 secrets inputs ih a \<longleftrightarrow> port_of a \<noteq> 0 \<and> (\<exists>now src msg args secret. (now, Query src msg) \<in> set inputs
     \<and> km_q msg = Some (lit ''announce_peer'') \<and> km_a msg = Some args \<and> qa_info_hash args = ih \<and> length ih = 20
     \<and> ip_of (canonical src) = ip_of a \<and> secret \<in> secrets \<and> qa_token args = token_make sha1 secret (ip_of a))"

definition all_announced :: "(bytes \<Rightarrow> bytes) \<Rightarrow> bytes set \<Rightarrow> (instant \<times> manager_input) list \<Rightarrow> peer_store \<Rightarrow> bool" where
  "all_announced sha1 secrets inputs ps \<longleftrightarrow> list_all (\<lambda>e. list_all (\<lambda>x. announced sha1 secrets inputs (fst e) (fst x)) (snd e)) ps"

fun new_secret :: "instant \<times> manager_input \<Rightarrow> bytes list" where
  "new_secret (now, Maintenance r) = [r]"
| "new_secret x = []"

lemma announced_mono:
  "announced sha1 S is ih a \<Longrightarrow> S \<subseteq> S' \<Longrightarrow> set is \<subseteq> set is' \<Longrightarrow> announced sha1 S' is' ih a"
  unfolding announced_def by blast

lemma all_announced_mono:
  "all_announced sha1 S is ps \<Longrightarrow> S \<subseteq> S' \<Longrightarrow> set is \<subseteq> set is' \<Longrightarrow> all_announced sha1 S' is' ps"
  by (auto simp: all_announced_def list_all_iff intro: announced_mono)

lemma all_announcedD: "all_announced sha1 S is ps \<Longrightarrow> (ih, es) \<in> set ps \<Longrightarrow> (a, t) \<in> set es \<Longrightarrow> announced sha1 S is ih a"
  by (force simp: all_announced_def list_all_iff)

lemma with_port_simps [simp]: "ip_of (with_port a p) = ip_of a" "port_of (with_port a p) = p"
  by (cases a; simp add: with_port_def)+

lemma store_add_announced:
  assumes "peer_store_ok ps" "all_announced sha1 S is ps" "announced sha1 S is ih a"
  shows "all_announced sha1 S is (store_add now ih a ps)"
proof -
  let ?old = "case map_of ps ih of None \<Rightarrow> [] | Some entry \<Rightarrow> entry"
  have old: "list_all (\<lambda>x. announced sha1 S is ih (fst x)) ?old"
    using all_announcedD [OF assms(2)] by (auto simp: list_all_iff split: option.split dest!: map_of_SomeD [OF sym])
  have new: "\<forall>x \<in> set (add_entry now a ?old). announced sha1 S is ih (fst x)"
    using old assms(3) add_entry_ok(2) [OF store_entry_ok [OF assms(1)], of now a ih] unfolding list_all_iff by fastforce
  have "all_announced sha1 S is (AList.update ih (add_entry now a ?old) ps)" unfolding all_announced_def list_all_iff
  proof (intro ballI)
    fix e x assume e: "e \<in> set (AList.update ih (add_entry now a ?old) ps)" "x \<in> set (snd e)"
    consider "e = (ih, add_entry now a ?old)" | "e \<in> set ps" using in_set_AList_update [OF e(1)] by blast
    then show "announced sha1 S is (fst e) (fst x)"
    proof cases
      case 1
      then show ?thesis using new e(2) by simp
    next
      case 2
      then show ?thesis using assms(2) e(2) unfolding all_announced_def list_all_iff by blast
    qed
  qed
  then show ?thesis using assms(2) by (simp add: store_add_def)
qed

lemma store_purge_announced: "all_announced sha1 S is ps \<Longrightarrow> all_announced sha1 S is (store_purge now ps)"
  unfolding all_announced_def [of _ _ _ "store_purge now ps"]
  by (auto simp: store_purge_def list_all_iff intro: all_announcedD)

definition dht_ok :: "(bytes \<Rightarrow> bytes) \<Rightarrow> bytes set \<Rightarrow> (instant \<times> manager_input) list \<Rightarrow> dht_manager \<Rightarrow> bool" where
  "dht_ok sha1 S is m \<longleftrightarrow> peer_store_ok (dm_peer_store m) \<and> all_announced sha1 S is (dm_peer_store m)
     \<and> tk_current (dm_tokens m) \<in> S \<and> tk_previous (dm_tokens m) \<in> S \<and> table_ok (dm_routing_table m)"

lemma manager_turn_ok:
  assumes ok: "dht_ok sha1 S is m" and sub: "set is \<subseteq> set is'" "(now, inp) \<in> set is'" "S \<subseteq> S'" "set (new_secret (now, inp)) \<subseteq> S'"
  shows "dht_ok sha1 S' is' (fst (manager_turn sha1 now inp m))"
proof -
  have ok': "dht_ok sha1 S' is' m" using ok sub all_announced_mono unfolding dht_ok_def by blast
  show ?thesis
  proof (cases inp)
    case (Query src msg)
    obtain r m' where q: "handle_query sha1 now src msg m = (r, m')" by fastforce
    have note_ok: "dht_ok sha1 S' is' (note_sender a i m)" for a i
      using ok' by (simp add: dht_ok_def note_sender_def rt_insert_ok)
    from q have "dht_ok sha1 S' is' m'"
    proof (cases rule: handle_query_cases)
      case quiet
      then show ?thesis using ok' note_ok by auto
    next
      case (announce args p i)
      obtain secret where "secret \<in> S'" "qa_token args = token_make sha1 secret (ip_of (canonical src))"
        using ok' announce(4) by (auto simp: token_is_valid_def dht_ok_def)
      moreover have "(now, Query src msg) \<in> set is'" using sub(2) Query by simp
      ultimately have "announced sha1 S' is' (qa_info_hash args) (with_port (canonical src) p)"
        unfolding announced_def with_port_simps using announce(1,2,3,5) by blast
      then show ?thesis using note_ok [of "canonical src" i] announce(6) store_add_ok store_add_announced
        by (auto simp: dht_ok_def)
    qed
    then show ?thesis using Query q by simp
  next
    case (Maintenance r)
    then show ?thesis using ok' sub(4) store_purge_ok store_purge_announced by (auto simp: dht_ok_def rotate_if_due_def)
  qed (use ok' in \<open>auto simp: dht_ok_def rt_insert_ok\<close>)
qed

lemma manager_run_ok:
  "dht_ok sha1 S is m \<Longrightarrow> dht_ok sha1 (S \<union> set (concat (map new_secret inputs))) (is @ inputs) (manager_run sha1 inputs m)"
proof (induction sha1 inputs m arbitrary: S "is" rule: manager_run.induct)
  case (2 sha1 now inp rest m)
  have "dht_ok sha1 (S \<union> set (new_secret (now, inp))) (is @ [(now, inp)]) (fst (manager_turn sha1 now inp m))"
    by (rule manager_turn_ok [OF "2.prems"]) auto
  from "2.IH" [OF this] show ?case by (simp add: Un_assoc)
qed simp

section \<open>Properties\<close>

text \<open>C25. Nobody can make the node advertise someone else as a peer, and its memory is bounded: after any run of the manager
  on any queries, each peer in the store was announced by a query that came from the IP address of that peer and carried the token
  made for that address from a secret of the manager; the store holds at most 500 torrents with at most 100 different peers each,
  and the routing table stays well-formed.\<close>

theorem dht_store_authorised_and_bounded:
  "case manager_run sha1 inputs (manager_new sha1 to_string local_id lookups r1 r2 t0 port) of m \<Rightarrow>
     all_announced sha1 ({r1, r2} \<union> set (concat (map new_secret inputs))) inputs (dm_peer_store m)
     \<and> length (dm_peer_store m) \<le> 500 \<and> distinct (map fst (dm_peer_store m))
     \<and> list_all (\<lambda>e. length (snd e) \<le> 100 \<and> distinct (map fst (snd e))) (dm_peer_store m)
     \<and> table_ok (dm_routing_table m)"
proof -
  have "table_ok (fold (\<lambda>addr t. rt_insert \<lparr>ct_id = pseudo_id sha1 to_string addr, ct_addr = addr\<rparr> t) xs t)" if "table_ok t" for xs t
    using that by (induction xs arbitrary: t) (simp_all add: rt_insert_ok)
  then have "dht_ok sha1 {r1, r2} [] (manager_new sha1 to_string local_id lookups r1 r2 t0 port)"
    by (simp add: dht_ok_def manager_new_def peer_store_ok_def all_announced_def tokens_new_def rt_new_ok)
  from manager_run_ok [OF this, of inputs] show ?thesis
    by (simp add: dht_ok_def peer_store_ok_def entry_ok_def MAX_STORED_TORRENTS_def MAX_PEERS_PER_TORRENT_def)
qed

text \<open>An announcement works: a peer that announces itself with the token it was given, the tokens having rotated at most once since,
  gets a response, and its address with the announced port is among the peers returned for that torrent until it expires, if the store
  has room for the torrent and fewer than \<open>MAX_VALUES_PER_REPLY\<close> other peers of it.\<close>

theorem dht_announce_visible:
  assumes "length (qa_id args) = 20" "length (qa_info_hash args) = 20" "qa_implied_port args \<noteq> Some 1" "qa_port args = Some p" "p \<noteq> 0"
    "qa_token args = token_issue sha1 tk (ip_of (canonical src))" "dm_tokens m = tk \<or> dm_tokens m = rotate_if_due r t1 tk"
    "length (dm_peer_store m) < MAX_STORED_TORRENTS"
    "length (case map_of (dm_peer_store m) (qa_info_hash args) of None \<Rightarrow> [] | Some e \<Rightarrow> e) < MAX_VALUES_PER_REPLY"
    "t3 - t2 < PEER_TTL"
    "handle_query sha1 t2 src (krpc_query tid (lit ''announce_peer'') args) m = (reply, m')"
  shows "\<exists>rsp. reply = Some (krpc_response tid rsp) \<and> with_port (canonical src) p \<in> set (store_get t3 (qa_info_hash args) (dm_peer_store m'))"
proof -
  let ?ih = "qa_info_hash args" and ?a = "with_port (canonical src) p" and ?m = "note_sender (canonical src) (qa_id args) m"
  let ?old = "case map_of (dm_peer_store m) ?ih of None \<Rightarrow> [] | Some e \<Rightarrow> e"
  have v: "token_is_valid sha1 (dm_tokens ?m) (qa_token args) (ip_of (canonical src))"
    using assms(6,7) by (auto simp: token_is_valid_def token_issue_def rotate_if_due_def)
  have h: "handle_query sha1 t2 src (krpc_query tid (lit ''announce_peer'') args) m
      = (Some (krpc_response tid \<lparr>ra_id = dm_local_id ?m, ra_nodes = [], ra_nodes6 = [], ra_token = [], ra_values = []\<rparr>),
         ?m\<lparr>dm_peer_store := store_add t2 ?ih ?a (dm_peer_store ?m)\<rparr>)"
    using assms(1-5) v
    by (simp add: handle_query_def krpc_query_def as_id_def Let_def answer_query_announce handle_announce_def)
  have st: "dm_peer_store m' = AList.update ?ih (add_entry t2 ?a ?old) (dm_peer_store m)"
    using assms(8,11) h by (auto simp: store_add_def)
  have len: "length (add_entry t2 ?a ?old) \<le> MAX_VALUES_PER_REPLY"
    using assms(9) by (auto simp: add_entry_def MAX_PEERS_PER_TORRENT_def MAX_VALUES_PER_REPLY_def split: option.split)
  have mem: "(?a, t2) \<in> set (add_entry t2 ?a e)" for e
    by (auto simp: add_entry_def split: option.split dest!: position_SomeD [OF sym] position_SomeD intro!: set_update_memI)
  have "store_get t3 ?ih (dm_peer_store m') = map fst (filter (\<lambda>e. t3 - snd e < PEER_TTL) (add_entry t2 ?a ?old))"
    using le_trans [OF length_filter_le len] by (simp add: store_get_def st AList.update_conv')
  then have "?a \<in> set (store_get t3 ?ih (dm_peer_store m'))" using mem assms(10) by force
  then show ?thesis using assms(11) h by auto
qed

definition demo_manager :: dht_manager where
  "demo_manager = manager_new (\<lambda>b. b) (\<lambda>_. []) (replicate 20 1) [] (replicate 16 2) (replicate 16 3) 0 6881"

definition demo_announce :: query_args where
  "demo_announce = (query_args_new (replicate 20 7))\<lparr>qa_info_hash := replicate 20 5, qa_port := Some 6881, qa_token := replicate 8 2\<rparr>"

theorem dht_announce_visible_witness:
  "V4 [10, 1, 2, 3] 6881 \<in> set (store_get 7 (replicate 20 5) (dm_peer_store
     (snd (handle_query (\<lambda>b. b) 5 (V4 [10, 1, 2, 3] 50000) (krpc_query [1] (lit ''announce_peer'') demo_announce) demo_manager))))"
proof -
  obtain reply m' where h: "handle_query (\<lambda>b. b) 5 (V4 [10, 1, 2, 3] 50000) (krpc_query [1] (lit ''announce_peer'') demo_announce) demo_manager = (reply, m')"
    by fastforce
  have c: "canonical (V4 [10, 1, 2, 3] 50000) = V4 [10, 1, 2, 3] 50000" by (simp add: canonical_def)
  have "\<exists>rsp. reply = Some (krpc_response [1] rsp)
      \<and> with_port (canonical (V4 [10, 1, 2, 3] 50000)) 6881 \<in> set (store_get 7 (qa_info_hash demo_announce) (dm_peer_store m'))"
    by (rule dht_announce_visible [OF _ _ _ _ _ _ _ _ _ _ h, where tk = "dm_tokens demo_manager"])
      (simp_all add: demo_announce_def demo_manager_def query_args_new_def manager_new_def tokens_new_def token_issue_def token_make_def
        MAX_STORED_TORRENTS_def MAX_VALUES_PER_REPLY_def PEER_TTL_def secs_def)
  moreover have "qa_info_hash demo_announce = replicate 20 5" by (simp add: demo_announce_def)
  ultimately show ?thesis by (simp add: h c with_port_def)
qed

end
