(* ===== verification/DhtSearch.thy ===== *)
theory DhtSearch
  imports DhtServer
begin

text \<open>
  The recursive lookup of peers, \<open>net/dht/search.rs\<close>: a short list of contacts sorted by distance, at most three queries
  in flight, and the final announcement. The replies to the queries, and the order in which they
  arrive, are the input of a run.
\<close>

definition ALPHA :: nat where "ALPHA = 3"

datatype node_state = Unqueried | InFlight | Queried | FailedNode

record search_contact =
  sc_contact :: contact
  sc_state :: node_state
  sc_token :: bytes

record dht_search =
  se_info_hash :: node_id
  se_local_id :: node_id
  se_short_list :: "search_contact list"
  se_announce_port :: "nat option"
  se_in_flight :: "socket_addr list"
  se_tid_counter :: "16 word"

definition distance_to :: "node_id \<Rightarrow> search_contact \<Rightarrow> node_id" where
  "distance_to info_hash sc = id_xor (ct_id (sc_contact sc)) info_hash"

definition search_new :: "node_id \<Rightarrow> node_id \<Rightarrow> contact list \<Rightarrow> nat option \<Rightarrow> dht_search" where
  "search_new info_hash local_id initial_nodes announce_port =
     \<lparr>se_info_hash = info_hash, se_local_id = local_id,
      se_short_list = sort_key (distance_to info_hash)
        (map (\<lambda>c. \<lparr>sc_contact = c, sc_state = Unqueried, sc_token = []\<rparr>) initial_nodes),
      se_announce_port = announce_port, se_in_flight = [], se_tid_counter = 0\<rparr>"

datatype search_out =
    Asked contact krpc_message
  | PeersFound "socket_addr list"
  | InsertFound contact
  | Announce contact krpc_message

section \<open>Asking\<close>

definition get_peers_query :: "dht_search \<Rightarrow> bytes \<Rightarrow> krpc_message" where
  "get_peers_query s tid =
     (let msg = (new_ping_query tid (se_local_id s))\<lparr>km_q := Some (lit ''get_peers'')\<rparr>
      in msg\<lparr>km_a := map_option (\<lambda>args. args\<lparr>qa_info_hash := se_info_hash s\<rparr>) (km_a msg)\<rparr>)"

definition unqueried :: "search_contact list \<Rightarrow> nat" where
  "unqueried xs = length (filter (\<lambda>sc. sc_state sc = Unqueried) xs)"

definition mark :: "nat \<Rightarrow> node_state \<Rightarrow> dht_search \<Rightarrow> dht_search" where
  "mark i st s = s\<lparr>se_short_list := (se_short_list s)[i := (se_short_list s ! i)\<lparr>sc_state := st\<rparr>]\<rparr>"

lemma unqueried_mark:
  assumes "position (\<lambda>sc. sc_state sc = Unqueried) (se_short_list s) = Some i"
  shows "unqueried (se_short_list (mark i InFlight s)) < unqueried (se_short_list s)"
proof -
  let ?xs = "se_short_list s"
  have i: "i < length ?xs" "sc_state (?xs ! i) = Unqueried" using position_SomeD [OF assms] by auto
  have "?xs = take i ?xs @ ?xs ! i # drop (Suc i) ?xs" using i(1) by (rule id_take_nth_drop)
  then have "unqueried ?xs = unqueried (take i ?xs @ ?xs ! i # drop (Suc i) ?xs)" by simp
  then show ?thesis using i by (simp add: unqueried_def mark_def upd_conv_take_nth_drop)
qed

text \<open>\<open>alive\<close>: the server still takes commands.\<close>

function search_fill :: "bool \<Rightarrow> dht_search \<Rightarrow> dht_search \<times> search_out list" where
  "search_fill alive s =
     (if length (se_in_flight s) < ALPHA then
        (case position (\<lambda>sc. sc_state sc = Unqueried) (se_short_list s) of
           Some idx \<Rightarrow>
             (let target_contact = sc_contact (se_short_list s ! idx);
                  s1 = (mark idx InFlight s)\<lparr>se_tid_counter := se_tid_counter s + 1\<rparr>;
                  msg = get_peers_query s1 (be_bytes 2 (unat (se_tid_counter s1)));
                  s2 = (if alive then s1\<lparr>se_in_flight := se_in_flight s1 @ [ct_addr target_contact]\<rparr> else s1);
                  (s3, out) = search_fill alive s2
              in (s3, (if alive then [Asked target_contact msg] else []) @ out))
         | None \<Rightarrow> (s, []))
      else (s, []))"
  by pat_completeness auto
termination search_fill
  by (relation "measure (\<lambda>(alive, s). unqueried (se_short_list s))") (simp_all add: unqueried_mark)

declare search_fill.simps [simp del]

section \<open>Replies\<close>

definition push_found :: "contact \<Rightarrow> search_contact list \<Rightarrow> search_contact list" where
  "push_found c xs =
     (if \<not> list_ex (\<lambda>e. ct_id (sc_contact e) = ct_id c) xs
      then xs @ [\<lparr>sc_contact = c, sc_state = Unqueried, sc_token = []\<rparr>] else xs)"

definition merge_found :: "node_id \<Rightarrow> contact list \<Rightarrow> search_contact list \<Rightarrow> search_contact list" where
  "merge_found info_hash found xs = take 50 (sort_key (distance_to info_hash) (fold push_found found xs))"

definition handle_response :: "nat \<Rightarrow> krpc_message \<Rightarrow> dht_search \<Rightarrow> dht_search \<times> search_out list" where
  "handle_response i response s0 =
     (let s = mark i Queried s0 in
      case km_r response of
        None \<Rightarrow> (s, [])
      | Some resp_args \<Rightarrow>
          (let s1 = s\<lparr>se_short_list := (se_short_list s)[i := (se_short_list s ! i)\<lparr>sc_token := ra_token resp_args\<rparr>]\<rparr>;
               peers = concat (map decode_compact_peers (ra_values resp_args));
               found = decode_compact_nodes (ra_nodes resp_args) @ decode_compact_nodes6 (ra_nodes6 resp_args);
               good = filter (\<lambda>c. is_valid_node_addr (ct_addr c)) found
           in (if found \<noteq> [] then s1\<lparr>se_short_list := merge_found (se_info_hash s1) good (se_short_list s1)\<rparr> else s1,
               (if peers \<noteq> [] then [PeersFound peers] else []) @ map InsertFound good)))"

text \<open>One answer: which of the queries in flight ended, and the reply if there was one in time.\<close>

definition search_join :: "nat \<Rightarrow> krpc_message option \<Rightarrow> dht_search \<Rightarrow> dht_search \<times> search_out list" where
  "search_join k result s0 =
     (let node_addr = se_in_flight s0 ! k; s = s0\<lparr>se_in_flight := remove_nth k (se_in_flight s0)\<rparr> in
      case position (\<lambda>sc. ct_addr (sc_contact sc) = node_addr) (se_short_list s) of
        None \<Rightarrow> (s, [])
      | Some i \<Rightarrow> (case result of Some response \<Rightarrow> handle_response i response s | None \<Rightarrow> (mark i FailedNode s, [])))"

section \<open>Announcing\<close>

definition announce_query :: "dht_search \<Rightarrow> nat \<Rightarrow> search_contact \<Rightarrow> krpc_message" where
  "announce_query s port sc =
     krpc_query [] (lit ''announce_peer'') ((query_args_new (se_local_id s))
       \<lparr>qa_info_hash := se_info_hash s, qa_port := Some port, qa_token := sc_token sc\<rparr>)"

fun announce_loop :: "bool \<Rightarrow> dht_search \<Rightarrow> nat \<Rightarrow> nat \<Rightarrow> search_contact list \<Rightarrow> search_out list" where
  "announce_loop alive s port announced [] = []"
| "announce_loop alive s port announced (sc # scs) =
     (if announced \<ge> 8 then []
      else if sc_state sc \<noteq> Queried \<or> sc_token sc = [] then announce_loop alive s port announced scs
      else if alive then Announce (sc_contact sc) (announce_query s port sc) # announce_loop alive s port (announced + 1) scs
      else announce_loop alive s port announced scs)"

definition announce_to_closest :: "bool \<Rightarrow> dht_search \<Rightarrow> search_out list" where
  "announce_to_closest alive s =
     (case se_announce_port s of None \<Rightarrow> [] | Some port \<Rightarrow> announce_loop alive s port 0 (se_short_list s))"

section \<open>The run\<close>

text \<open>The run consumes one answer per round and ends when nothing is in flight; \<open>False\<close> if it is still
  waiting when the given answers are used up.\<close>

fun search_run :: "bool \<Rightarrow> (nat \<times> krpc_message option) list \<Rightarrow> dht_search \<Rightarrow> bool \<times> dht_search \<times> search_out list" where
  "search_run alive answers s0 =
     (let (s, out) = search_fill alive s0 in
      if se_in_flight s = [] then (True, s, out @ announce_to_closest alive s)
      else case answers of
        [] \<Rightarrow> (False, s, out)
      | (k, result) # rest \<Rightarrow>
          (let (s1, out1) = search_join (k mod length (se_in_flight s)) result s;
               (fin, s2, out2) = search_run alive rest s1
           in (fin, s2, out @ out1 @ out2)))"

declare search_run.simps [simp del]

section \<open>The short list\<close>

abbreviation sc_id :: "search_contact \<Rightarrow> node_id" where
  "sc_id sc \<equiv> ct_id (sc_contact sc)"

abbreviation sc_addr :: "search_contact \<Rightarrow> socket_addr" where
  "sc_addr sc \<equiv> ct_addr (sc_contact sc)"

definition list_ok :: "node_id \<Rightarrow> search_contact list \<Rightarrow> bool" where
  "list_ok info_hash xs \<longleftrightarrow> length info_hash = 20 \<and> (\<forall>e \<in> set xs. length (sc_id e) = 20)"

definition closer :: "node_id \<Rightarrow> node_id \<Rightarrow> search_contact list \<Rightarrow> nat" where
  "closer info_hash q xs = length (filter (\<lambda>e. distance_to info_hash e < id_xor q info_hash) xs)"

text \<open>An identifier is known if it is in the list, or 50 nodes that are closer have pushed it out for good.\<close>

definition known :: "node_id \<Rightarrow> search_contact list \<Rightarrow> node_id \<Rightarrow> bool" where
  "known info_hash xs q \<longleftrightarrow> length q = 20 \<and> (q \<in> sc_id ` set xs \<or> 50 \<le> closer info_hash q xs)"

definition waiting :: "search_contact list \<Rightarrow> node_id \<Rightarrow> nat" where
  "waiting xs q = length (filter (\<lambda>e. sc_id e = q \<and> sc_state e = Unqueried) xs)"

lemma id_xor_inj:
  "length a = length b \<Longrightarrow> length k = length b \<Longrightarrow> id_xor a k = id_xor b k \<Longrightarrow> a = b"
proof (induction a b arbitrary: k rule: list_induct2')
  case (4 x xs y ys)
  then obtain z zs where k: "k = z # zs" by (cases k) auto
  have "x XOR z = y XOR z" using 4 by (simp add: id_xor_def k)
  then have "(x XOR z) XOR z = (y XOR z) XOR z" by simp
  then have "x = y" by (simp add: xor.assoc)
  moreover have "xs = ys" using 4 by (auto simp: id_xor_def k)
  ultimately show ?case by simp
qed auto

lemma take_closer:
  assumes "sorted (map f xs)" "n \<le> length (filter (\<lambda>e. f e < k) xs)" "e \<in> set (take n xs)"
  shows "f e < (k :: 'a :: linorder)"
  using assms
proof (induction xs arbitrary: n)
  case (Cons x xs)
  show ?case
  proof (cases "f x < k")
    case True
    then show ?thesis using Cons by (cases n) auto
  next
    case False
    then have "\<forall>y \<in> set (x # xs). \<not> f y < k" using Cons.prems(1) by force
    then have "filter (\<lambda>e. f e < k) (x # xs) = []" by (simp add: filter_empty_conv)
    then show ?thesis using Cons.prems by simp
  qed
qed simp

lemma waiting_simps [simp]:
  "waiting [] q = 0" "waiting (xs @ ys) q = waiting xs q + waiting ys q"
  "waiting (x # xs) q = of_bool (sc_id x = q \<and> sc_state x = Unqueried) + waiting xs q"
  by (simp_all add: waiting_def)

lemma waiting_absent: "q \<notin> sc_id ` set xs \<Longrightarrow> waiting xs q = 0"
  by (auto simp: waiting_def filter_empty_conv)

lemma push_found_ok:
  assumes "list_ok h xs" "length (ct_id c) = 20"
  shows "list_ok h (push_found c xs)" "\<exists>zs. push_found c xs = xs @ zs"
    "waiting (push_found c xs) q \<le> (if q \<in> sc_id ` set xs then waiting xs q else 1)"
    "\<forall>e \<in> set (push_found c xs). e \<in> set xs \<or> sc_state e = Unqueried"
proof -
  show "waiting (push_found c xs) q \<le> (if q \<in> sc_id ` set xs then waiting xs q else 1)"
    using waiting_absent [of q xs] by (force simp: push_found_def list_ex_iff)
qed (use assms in \<open>auto simp: push_found_def list_ok_def list_ex_iff\<close>)

lemma fold_push_found_ok:
  assumes "list_ok h xs" "\<forall>c \<in> set cs. length (ct_id c) = 20"
  shows "list_ok h (fold push_found cs xs) \<and> (\<exists>zs. fold push_found cs xs = xs @ zs)
    \<and> waiting (fold push_found cs xs) q \<le> (if q \<in> sc_id ` set xs then waiting xs q else 1)
    \<and> (\<forall>e \<in> set (fold push_found cs xs). e \<in> set xs \<or> sc_state e = Unqueried)"
  using assms
proof (induction cs arbitrary: xs)
  case Nil
  then show ?case using waiting_absent [of q xs] by simp
next
  case (Cons c cs)
  have c: "length (ct_id c) = 20" using Cons.prems by simp
  note P = push_found_ok [OF Cons.prems(1) c]
  have I: "list_ok h (fold push_found cs (push_found c xs)) \<and> (\<exists>zs. fold push_found cs (push_found c xs) = push_found c xs @ zs)
    \<and> waiting (fold push_found cs (push_found c xs)) q
       \<le> (if q \<in> sc_id ` set (push_found c xs) then waiting (push_found c xs) q else 1)
    \<and> (\<forall>e \<in> set (fold push_found cs (push_found c xs)). e \<in> set (push_found c xs) \<or> sc_state e = Unqueried)"
    by (rule Cons.IH [OF P(1)]) (use Cons.prems in simp)
  have "q \<in> sc_id ` set xs \<Longrightarrow> q \<in> sc_id ` set (push_found c xs)" using P(2) by auto
  then have "waiting (fold push_found (c # cs) xs) q \<le> (if q \<in> sc_id ` set xs then waiting xs q else 1)"
    using I P(3) [of q] by (auto split: if_splits)
  then show ?case using I P(2,4) by fastforce
qed

lemma closer_append: "closer h q (xs @ ys) = closer h q xs + closer h q ys"
  by (simp add: closer_def)

lemma filter_sort_key_length: "length (filter P (sort_key f xs)) = length (filter P xs)"
  by (metis mset_filter mset_sort size_mset)

lemma take_sorted_50:
  assumes ok: "list_ok h ys" and q: "length q = 20"
    and c: "50 \<le> closer h q ys \<or> (q \<in> sc_id ` set ys \<and> q \<notin> sc_id ` set (take 50 (sort_key (distance_to h) ys)))"
  shows "q \<notin> sc_id ` set (take 50 (sort_key (distance_to h) ys)) \<and> 50 \<le> closer h q (take 50 (sort_key (distance_to h) ys))"
proof -
  let ?zs = "sort_key (distance_to h) ys"
  have s: "sorted (map (distance_to h) ?zs)" by simp
  have cz: "closer h q ?zs = closer h q ys" by (simp add: closer_def filter_sort_key_length)
  have lt: "\<forall>e \<in> set (take 50 ?zs). distance_to h e < id_xor q h" and len: "50 \<le> length ?zs"
  proof -
    have "(\<forall>e \<in> set (take 50 ?zs). distance_to h e < id_xor q h) \<and> 50 \<le> length ?zs"
    proof (cases "50 \<le> closer h q ys")
      case True
      have f: "50 \<le> length (filter (\<lambda>e. distance_to h e < id_xor q h) ?zs)"
        using True cz unfolding closer_def by simp
      show ?thesis using take_closer [OF s f] le_trans [OF f length_filter_le] by blast
    next
      case False
      then obtain e where e: "e \<in> set ?zs" "sc_id e = q" "q \<notin> sc_id ` set (take 50 ?zs)" using c by auto
      have d: "e \<in> set (drop 50 ?zs)"
        using e by (metis Un_iff append_take_drop_id image_eqI set_append)
      then have l: "50 \<le> length ?zs" by (cases "50 \<le> length ?zs") auto
      have "sorted (map (distance_to h) (take 50 ?zs) @ map (distance_to h) (drop 50 ?zs))"
        using s by (simp add: map_append [symmetric] del: map_append)
      then have "\<forall>x \<in> set (take 50 ?zs). distance_to h x \<le> distance_to h e"
        using d by (auto simp: sorted_append)
      moreover have "distance_to h x \<noteq> distance_to h e" if x: "x \<in> set (take 50 ?zs)" for x
      proof
        assume eq: "distance_to h x = distance_to h e"
        have "x \<in> set ys" using in_set_takeD [OF x] by simp
        then have "length (sc_id x) = 20" "length h = 20" using ok by (auto simp: list_ok_def)
        then have "sc_id x = sc_id e" using eq q e(2) id_xor_inj [of "sc_id x" "sc_id e" h] by (simp add: distance_to_def)
        then show False using e x by (metis image_eqI)
      qed
      ultimately show ?thesis using l e(2) by (fastforce simp: distance_to_def)
    qed
    then show "\<forall>e \<in> set (take 50 ?zs). distance_to h e < id_xor q h" "50 \<le> length ?zs" by blast+
  qed
  have "filter (\<lambda>e. distance_to h e < id_xor q h) (take 50 ?zs) = take 50 ?zs" using lt by (simp add: filter_id_conv)
  then have "closer h q (take 50 ?zs) = length (take 50 ?zs)" by (simp add: closer_def)
  moreover have "q \<notin> sc_id ` set (take 50 ?zs)"
    using lt by (auto simp: distance_to_def)
  ultimately show ?thesis using len by simp
qed

lemma waiting_take_sort: "waiting (take n (sort_key f xs)) q \<le> waiting xs q"
proof -
  have "waiting (take n (sort_key f xs)) q \<le> waiting (take n (sort_key f xs) @ drop n (sort_key f xs)) q"
    unfolding waiting_simps by simp
  then show ?thesis by (simp add: waiting_def filter_sort_key_length)
qed

lemma merge_found_ok:
  assumes ok: "list_ok h xs" and cs: "\<forall>c \<in> set cs. length (ct_id c) = 20"
  shows "list_ok h (merge_found h cs xs)"
    "\<forall>e \<in> set (merge_found h cs xs). e \<in> set xs \<or> sc_state e = Unqueried"
    "known h xs q \<Longrightarrow> known h (merge_found h cs xs) q \<and> waiting (merge_found h cs xs) q \<le> waiting xs q"
    "waiting (merge_found h cs xs) q \<le> max 1 (waiting xs q)"
proof -
  let ?ys = "fold push_found cs xs" and ?zs = "take 50 (sort_key (distance_to h) (fold push_found cs xs))"
  note F = fold_push_found_ok [OF assms, of q]
  obtain ws where ys: "?ys = xs @ ws" using F by blast
  show "list_ok h (merge_found h cs xs)" using F by (auto simp: list_ok_def merge_found_def dest!: in_set_takeD)
  show "\<forall>e \<in> set (merge_found h cs xs). e \<in> set xs \<or> sc_state e = Unqueried"
    using F by (auto simp: merge_found_def dest!: in_set_takeD)
  have w: "waiting ?zs q \<le> waiting ?ys q" by (rule waiting_take_sort)
  then show "waiting (merge_found h cs xs) q \<le> max 1 (waiting xs q)" using F by (auto simp: merge_found_def split: if_splits)
  show "known h (merge_found h cs xs) q \<and> waiting (merge_found h cs xs) q \<le> waiting xs q" if k: "known h xs q"
  proof (cases "50 \<le> closer h q xs")
    case True
    then have "50 \<le> closer h q ?ys" by (simp add: ys closer_append)
    then have "q \<notin> sc_id ` set ?zs \<and> 50 \<le> closer h q ?zs" using take_sorted_50 [of h ?ys q] F k by (auto simp: known_def)
    then show ?thesis using k by (simp add: known_def merge_found_def waiting_absent)
  next
    case False
    then have q: "q \<in> sc_id ` set xs" using k by (simp add: known_def)
    then have "q \<in> sc_id ` set ?ys" by (auto simp: ys)
    then have "q \<in> sc_id ` set ?zs \<or> 50 \<le> closer h q ?zs" using take_sorted_50 [of h ?ys q] F k by (auto simp: known_def)
    moreover have "waiting ?ys q \<le> waiting xs q" using F q by auto
    ultimately show ?thesis using k w by (auto simp: known_def merge_found_def)
  qed
qed

lemma marked_list:
  assumes "i < length xs" "sc_contact y = sc_contact (xs ! i)"
  shows "map sc_id (xs[i := y]) = map sc_id xs" "list_ok h (xs[i := y]) = list_ok h xs" "known h (xs[i := y]) q = known h xs q"
    "waiting (xs[i := y]) q + of_bool (sc_id y = q \<and> sc_state (xs ! i) = Unqueried)
      = waiting xs q + of_bool (sc_id y = q \<and> sc_state y = Unqueried)"
proof -
  show m: "map sc_id (xs[i := y]) = map sc_id xs"
    using assms by (simp add: map_update list_update_same_conv)
  have "sc_id ` set (xs[i := y]) = sc_id ` set xs" using arg_cong [OF m, of set] by simp
  moreover have d: "map (distance_to h) (xs[i := y]) = map (distance_to h) xs"
    using arg_cong [OF m, of "map (\<lambda>q. id_xor q h)"] by (simp add: distance_to_def [abs_def] o_def)
  have c: "closer h q ys = length (filter (\<lambda>d. d < id_xor q h) (map (distance_to h) ys))" for ys
    by (simp add: closer_def filter_map o_def)
  have "closer h q (xs[i := y]) = closer h q xs" unfolding c d ..
  ultimately show "known h (xs[i := y]) q = known h xs q" by (simp add: known_def)
  have "list_ok h ys \<longleftrightarrow> length h = 20 \<and> list_all (\<lambda>q. length q = 20) (map sc_id ys)" for ys
    by (auto simp: list_ok_def list_all_iff)
  then show "list_ok h (xs[i := y]) = list_ok h xs" using m by metis
  have "xs = take i xs @ xs ! i # drop (Suc i) xs" using assms(1) by (rule id_take_nth_drop)
  then have "waiting xs q = waiting (take i xs @ xs ! i # drop (Suc i) xs) q" by simp
  moreover have "xs[i := y] = take i xs @ y # drop (Suc i) xs" using assms(1) by (rule upd_conv_take_nth_drop)
  ultimately show "waiting (xs[i := y]) q + of_bool (sc_id y = q \<and> sc_state (xs ! i) = Unqueried)
      = waiting xs q + of_bool (sc_id y = q \<and> sc_state y = Unqueried)"
    using assms(2) by simp
qed

section \<open>The invariant of a run\<close>

fun asked :: "search_out list \<Rightarrow> contact list" where
  "asked [] = []"
| "asked (Asked c msg # out) = c # asked out"
| "asked (_ # out) = asked out"

fun announced_to :: "search_out list \<Rightarrow> contact list" where
  "announced_to [] = []"
| "announced_to (Announce c msg # out) = c # announced_to out"
| "announced_to (_ # out) = announced_to out"

lemma asked_append [simp]: "asked (xs @ ys) = asked xs @ asked ys"
  by (induction xs rule: asked.induct) simp_all

lemma announced_to_append [simp]: "announced_to (xs @ ys) = announced_to xs @ announced_to ys"
  by (induction xs rule: announced_to.induct) simp_all

text \<open>\<open>n q\<close> bounds how often \<open>q\<close> is asked: what has been asked and what still waits to be asked. An identifier that was asked stays known.\<close>

definition search_ok :: "(node_id \<Rightarrow> nat) \<Rightarrow> contact list \<Rightarrow> dht_search \<Rightarrow> bool" where
  "search_ok n cs s \<longleftrightarrow> list_ok (se_info_hash s) (se_short_list s) \<and> (\<forall>q. 1 \<le> n q)
     \<and> (\<forall>q. count_list (map ct_id cs) q + waiting (se_short_list s) q \<le> n q)
     \<and> (\<forall>c \<in> set cs. known (se_info_hash s) (se_short_list s) (ct_id c))
     \<and> length (se_in_flight s) \<le> ALPHA \<and> set (se_in_flight s) \<subseteq> ct_addr ` set cs
     \<and> (\<forall>e \<in> set (se_short_list s). sc_state e = Queried \<longrightarrow> sc_addr e \<in> ct_addr ` set cs)"

lemma search_ok_set:
  assumes "search_ok n cs s" "i < length (se_short_list s)" "sc_contact y = sc_contact (se_short_list s ! i)"
    "sc_state y \<noteq> Unqueried \<or> sc_state y = sc_state (se_short_list s ! i)"
    "sc_state y = Queried \<Longrightarrow> sc_addr y \<in> ct_addr ` set cs"
  shows "search_ok n cs (s\<lparr>se_short_list := (se_short_list s)[i := y]\<rparr>)"
proof -
  have "waiting ((se_short_list s)[i := y]) q \<le> waiting (se_short_list s) q" for q
    using marked_list(4) [OF assms(2,3), of q] assms(4)
    by (cases "sc_id y = q"; cases "sc_state y = Unqueried"; cases "sc_state (se_short_list s ! i) = Unqueried") auto
  then have "count_list (map ct_id cs) q + waiting ((se_short_list s)[i := y]) q \<le> n q" for q
    using assms(1) add_left_mono le_trans unfolding search_ok_def by meson
  then show ?thesis
    using assms marked_list(2,3) [OF assms(2,3)] set_update_subset_insert [of "se_short_list s" i y] unfolding search_ok_def by auto
qed

lemma search_ok_mark:
  assumes "search_ok n cs s" "i < length (se_short_list s)" "st \<noteq> Unqueried"
    "st = Queried \<Longrightarrow> sc_addr (se_short_list s ! i) \<in> ct_addr ` set cs"
  shows "search_ok n cs (mark i st s)"
  unfolding mark_def by (rule search_ok_set) (use assms in simp_all)

lemma mark_simps [simp]:
  "se_info_hash (mark i st s) = se_info_hash s" "se_in_flight (mark i st s) = se_in_flight s"
  "length (se_short_list (mark i st s)) = length (se_short_list s)"
  "i < length (se_short_list s) \<Longrightarrow> se_short_list (mark i st s) ! i = (se_short_list s ! i)\<lparr>sc_state := st\<rparr>"
  by (simp_all add: mark_def)

lemma search_ok_ask:
  assumes ok: "search_ok n cs s" and i: "position (\<lambda>sc. sc_state sc = Unqueried) (se_short_list s) = Some i"
    and room: "length (se_in_flight s) < ALPHA"
  shows "search_ok n (cs @ [sc_contact (se_short_list s ! i)])
     ((mark i InFlight s)\<lparr>se_tid_counter := t, se_in_flight := se_in_flight s @ [sc_addr (se_short_list s ! i)]\<rparr>)"
proof -
  have u: "i < length (se_short_list s)" "sc_state (se_short_list s ! i) = Unqueried" using position_SomeD [OF i] by auto
  have m: "search_ok n cs (mark i InFlight s)" by (rule search_ok_mark) (use ok u in simp_all)
  let ?e = "(se_short_list s ! i)\<lparr>sc_state := InFlight\<rparr>"
  have e: "?e \<in> set (se_short_list (mark i InFlight s))" using u(1) by (simp add: mark_def set_update_memI)
  have w0: "waiting (se_short_list (mark i InFlight s)) q + of_bool (sc_id (se_short_list s ! i) = q) = waiting (se_short_list s) q" for q
    using marked_list(4) [OF u(1), of ?e q] u(2) by (simp add: mark_def)
  have "count_list (map ct_id (cs @ [sc_contact (se_short_list s ! i)])) q + waiting (se_short_list (mark i InFlight s)) q
      = count_list (map ct_id cs) q + waiting (se_short_list s) q" for q
    using w0 [of q] by (cases "sc_id (se_short_list s ! i) = q") simp_all
  then have w: "count_list (map ct_id (cs @ [sc_contact (se_short_list s ! i)])) q + waiting (se_short_list (mark i InFlight s)) q \<le> n q" for q
    using ok unfolding search_ok_def by metis
  have "sc_id (se_short_list s ! i) \<in> sc_id ` set (se_short_list (mark i InFlight s))" using e by (rule rev_image_eqI) simp
  then have "known (se_info_hash s) (se_short_list (mark i InFlight s)) (sc_id (se_short_list s ! i))"
    using ok u(1) by (auto simp: known_def search_ok_def list_ok_def)
  then show ?thesis using m w room by (auto simp: search_ok_def)
qed

lemma search_fill_ok:
  assumes "search_ok n cs s" "search_fill alive s = (s', out)"
  shows "search_ok n (cs @ asked out) s' \<and> announced_to out = []"
  using assms
proof (induction alive s arbitrary: cs s' out rule: search_fill.induct)
  case (1 alive s)
  show ?case
  proof (cases "length (se_in_flight s) < ALPHA")
    case room: True
    show ?thesis
    proof (cases "position (\<lambda>sc. sc_state sc = Unqueried) (se_short_list s)")
      case (Some i)
      let ?c = "sc_contact (se_short_list s ! i)"
      let ?s1 = "(mark i InFlight s)\<lparr>se_tid_counter := se_tid_counter s + 1\<rparr>"
      let ?s2 = "if alive then ?s1\<lparr>se_in_flight := se_in_flight ?s1 @ [ct_addr ?c]\<rparr> else ?s1"
      obtain s3 out3 where r: "search_fill alive ?s2 = (s3, out3)" by fastforce
      have o: "s' = s3" "out = (if alive then [Asked ?c (get_peers_query ?s1 (be_bytes 2 (unat (se_tid_counter ?s1))))] else []) @ out3"
        using 1(3) room Some r by (simp_all add: search_fill.simps [of alive s] Let_def)
      have "search_ok n (cs @ (if alive then [?c] else [])) ?s2"
      proof (cases alive)
        case True
        then show ?thesis using search_ok_ask [OF 1(2) Some room, of "se_tid_counter s + 1"] by simp
      next
        case False
        have "search_ok n cs (mark i InFlight s)"
          by (rule search_ok_mark [OF 1(2)]) (use position_SomeD [OF Some] in simp_all)
        then show ?thesis using False by (simp add: search_ok_def)
      qed
      from 1(1) [OF room Some refl refl refl refl this r] show ?thesis by (auto simp: o)
    qed (use 1 room in \<open>simp_all add: search_fill.simps [of alive s]\<close>)
  qed (use 1 in \<open>simp_all add: search_fill.simps [of alive s]\<close>)
qed

lemma decoded_id_length:
  "c \<in> set (decode_compact_nodes bs @ decode_compact_nodes6 bs') \<Longrightarrow> length (ct_id c) = 20"
  by (auto simp: decode_compact_nodes_def decode_compact_nodes6_def read_node_def read_node6_def dest: chunks_exact_length)

lemma asked_map_InsertFound [simp]: "asked (map InsertFound cs) = []" "announced_to (map InsertFound cs) = []"
  by (induction cs) simp_all

lemma search_ok_merge:
  assumes "search_ok n cs s" "\<forall>c \<in> set found. length (ct_id c) = 20"
  shows "search_ok n cs (s\<lparr>se_short_list := merge_found (se_info_hash s) found (se_short_list s)\<rparr>)"
proof -
  let ?xs = "se_short_list s" and ?h = "se_info_hash s"
  have ok: "list_ok ?h ?xs" using assms(1) by (simp add: search_ok_def)
  note M = merge_found_ok [OF ok assms(2)]
  have "count_list (map ct_id cs) q + waiting (merge_found ?h found ?xs) q \<le> n q" for q
  proof (cases "q \<in> ct_id ` set cs")
    case True
    then have "known ?h ?xs q" using assms(1) by (auto simp: search_ok_def)
    from M(3) [OF this] show ?thesis using assms(1) add_left_mono le_trans unfolding search_ok_def by meson
  next
    case False
    then have "count_list (map ct_id cs) q = 0" by (simp add: count_list_0_iff)
    moreover have "waiting ?xs q \<le> n q" using assms(1) le_trans [OF le_add2] unfolding search_ok_def by blast
    moreover have "1 \<le> n q" using assms(1) by (simp add: search_ok_def)
    ultimately show ?thesis using M(4) [of q] by simp
  qed
  then show ?thesis using assms(1) M unfolding search_ok_def by fastforce
qed

lemma handle_response_ok:
  assumes "search_ok n cs s" "i < length (se_short_list s)" "sc_addr (se_short_list s ! i) \<in> ct_addr ` set cs"
    "handle_response i response s = (s', out)"
  shows "search_ok n cs s' \<and> asked out = [] \<and> announced_to out = []"
proof -
  let ?s = "mark i Queried s"
  have q: "search_ok n cs ?s" by (rule search_ok_mark) (use assms in simp_all)
  show ?thesis
  proof (cases "km_r response")
    case None
    then show ?thesis using q assms(4) by (auto simp: handle_response_def)
  next
    case (Some r)
    let ?s1 = "?s\<lparr>se_short_list := (se_short_list ?s)[i := (se_short_list ?s ! i)\<lparr>sc_token := ra_token r\<rparr>]\<rparr>"
    let ?found = "decode_compact_nodes (ra_nodes r) @ decode_compact_nodes6 (ra_nodes6 r)"
    let ?good = "filter (\<lambda>c. is_valid_node_addr (ct_addr c)) ?found"
    have s1: "search_ok n cs ?s1" by (rule search_ok_set [OF q]) (use assms in simp_all)
    have "search_ok n cs (?s1\<lparr>se_short_list := merge_found (se_info_hash ?s1) ?good (se_short_list ?s1)\<rparr>)"
      by (rule search_ok_merge [OF s1]) (use decoded_id_length in fastforce)
    then show ?thesis using s1 Some assms(4) by (auto simp: handle_response_def Let_def)
  qed
qed

lemma search_join_ok:
  assumes "search_ok n cs s" "k < length (se_in_flight s)" "search_join k result s = (s', out)"
  shows "search_ok n cs s' \<and> asked out = [] \<and> announced_to out = []"
proof -
  let ?s = "s\<lparr>se_in_flight := remove_nth k (se_in_flight s)\<rparr>" and ?a = "se_in_flight s ! k"
  have "set (remove_nth k (se_in_flight s)) \<subseteq> set (se_in_flight s)"
    by (auto simp: remove_nth_def dest: in_set_takeD in_set_dropD)
  then have ok: "search_ok n cs ?s" using assms(1,2) by (auto simp: search_ok_def remove_nth_def)
  have a: "?a \<in> ct_addr ` set cs" using assms(1,2) nth_mem [OF assms(2)] by (auto simp: search_ok_def)
  show ?thesis
  proof (cases "position (\<lambda>sc. sc_addr sc = ?a) (se_short_list ?s)")
    case None
    then show ?thesis using ok assms(3) by (auto simp: search_join_def Let_def)
  next
    case (Some i)
    have i: "i < length (se_short_list ?s)" "sc_addr (se_short_list ?s ! i) = ?a" using position_SomeD [OF Some] by auto
    show ?thesis
    proof (cases result)
      case None
      have "search_ok n cs (mark i FailedNode ?s)" by (rule search_ok_mark [OF ok i(1)]) simp_all
      then show ?thesis using None Some assms(3) by (auto simp: search_join_def Let_def)
    next
      case R: (Some response)
      have "handle_response i response ?s = (s', out)" using R Some assms(3) by (simp add: search_join_def Let_def)
      then show ?thesis using handle_response_ok [OF ok i(1)] i(2) a by simp
    qed
  qed
qed

lemma announce_loop_ok:
  "asked (announce_loop alive s port n xs) = []"
  "n + length (announced_to (announce_loop alive s port n xs)) \<le> max n 8"
  "c \<in> set (announced_to (announce_loop alive s port n xs)) \<Longrightarrow> \<exists>e \<in> set xs. sc_contact e = c \<and> sc_state e = Queried \<and> sc_token e \<noteq> []"
  by (induction alive s port n xs rule: announce_loop.induct) (auto split: if_splits)

lemma announce_to_closest_ok:
  assumes "search_ok n cs s"
  shows "asked (announce_to_closest alive s) = []" "length (announced_to (announce_to_closest alive s)) \<le> 8"
    "ct_addr ` set (announced_to (announce_to_closest alive s)) \<subseteq> ct_addr ` set cs"
proof -
  show "asked (announce_to_closest alive s) = []" by (simp add: announce_to_closest_def announce_loop_ok(1) split: option.splits)
  show "length (announced_to (announce_to_closest alive s)) \<le> 8"
    using announce_loop_ok(2) [where n = 0] by (simp add: announce_to_closest_def split: option.splits)
  show "ct_addr ` set (announced_to (announce_to_closest alive s)) \<subseteq> ct_addr ` set cs"
  proof safe
    fix c assume "c \<in> set (announced_to (announce_to_closest alive s))"
    then obtain e where "e \<in> set (se_short_list s)" "sc_contact e = c" "sc_state e = Queried"
      by (auto simp: announce_to_closest_def split: option.splits dest: announce_loop_ok(3))
    then show "ct_addr c \<in> ct_addr ` set cs" using assms by (auto simp: search_ok_def)
  qed
qed

lemma search_run_ok:
  assumes "search_ok n cs s0" "search_run alive answers s0 = (fin, s, out)"
  shows "search_ok n (cs @ asked out) s \<and> length (announced_to out) \<le> 8 \<and> ct_addr ` set (announced_to out) \<subseteq> ct_addr ` set (cs @ asked out)"
  using assms
proof (induction answers arbitrary: s0 cs fin s out)
  case Nil
  obtain s1 o1 where f: "search_fill alive s0 = (s1, o1)" by fastforce
  have ok: "search_ok n (cs @ asked o1) s1" "announced_to o1 = []" using search_fill_ok [OF Nil(1) f] by auto
  have "s = s1" "out = o1 \<or> out = o1 @ announce_to_closest alive s1"
    using Nil(2) by (auto simp: search_run.simps [of alive "[]"] f split: if_splits)
  then show ?case using ok announce_to_closest_ok [OF ok(1), of alive] by (elim disjE) simp_all
next
  case (Cons a rest)
  obtain s1 o1 where f: "search_fill alive s0 = (s1, o1)" by fastforce
  obtain k result where a: "a = (k, result)" by fastforce
  have ok: "search_ok n (cs @ asked o1) s1" "announced_to o1 = []" using search_fill_ok [OF Cons.prems(1) f] by auto
  show ?case
  proof (cases "se_in_flight s1 = []")
    case True
    then have "s = s1" "out = o1 @ announce_to_closest alive s1"
      using Cons.prems(2) by (auto simp: search_run.simps [of alive "a # rest"] f)
    then show ?thesis using ok announce_to_closest_ok [OF ok(1), of alive] by simp
  next
    case False
    obtain s2 o2 where j: "search_join (k mod length (se_in_flight s1)) result s1 = (s2, o2)" by fastforce
    obtain fin3 s3 o3 where r: "search_run alive rest s2 = (fin3, s3, o3)" by (cases "search_run alive rest s2") auto
    have res: "s = s3" "out = o1 @ o2 @ o3"
      using Cons.prems(2) False by (simp_all add: search_run.simps [of alive "(k, result) # rest"] a f j r)
    have J: "search_ok n (cs @ asked o1) s2" "asked o2 = []" "announced_to o2 = []"
      using search_join_ok [OF ok(1) _ j] False by simp_all
    show ?thesis using Cons.IH [OF J(1) r] J(2,3) ok(2) by (simp add: res)
  qed
qed

section \<open>Properties\<close>

definition copies :: "contact list \<Rightarrow> node_id \<Rightarrow> nat" where
  "copies cs q = count_list (map ct_id cs) q"

lemma search_new_ok:
  assumes "length info_hash = 20" "\<forall>c \<in> set nodes. length (ct_id c) = 20"
  shows "search_ok (\<lambda>q. max 1 (copies nodes q)) [] (search_new info_hash local_id nodes announce_port)"
proof -
  let ?xs = "map (\<lambda>c. \<lparr>sc_contact = c, sc_state = Unqueried, sc_token = []\<rparr>) nodes"
  have "waiting (sort_key (distance_to info_hash) ?xs) q = copies nodes q" for q
  proof -
    have "waiting (sort_key (distance_to info_hash) ?xs) q = waiting ?xs q" by (simp add: waiting_def filter_sort_key_length)
    also have "waiting ?xs q = copies nodes q" by (induction nodes) (simp_all add: copies_def)
    finally show ?thesis .
  qed
  then show ?thesis using assms by (auto simp: search_ok_def list_ok_def search_new_def)
qed

text \<open>C24. A lookup asks every node once: whatever the nodes answer, and in whatever order their answers and timeouts arrive,
  no identifier is asked twice (even one that was pushed out of the list of 50 and is offered again), unless the routing table listed it several times among the
  nodes the lookup starts from, and then at most that many times; at most three queries wait at a time, and the final announcement goes to at most eight
  nodes, all at addresses that were asked.\<close>

theorem search_asks_once:
  assumes "length info_hash = 20" "list_all (\<lambda>c. length (ct_id c) = 20) nodes"
    and "search_run alive answers (search_new info_hash local_id nodes announce_port) = (fin, s, out)"
  shows "(\<forall>q. copies (asked out) q \<le> max 1 (copies nodes q)) \<and> length (se_in_flight s) \<le> 3 \<and> length (announced_to out) \<le> 8
     \<and> ct_addr ` set (announced_to out) \<subseteq> ct_addr ` set (asked out)"
proof -
  have n: "\<forall>c \<in> set nodes. length (ct_id c) = 20" using assms(2) by (simp add: list_all_iff)
  note R = search_run_ok [OF search_new_ok [OF assms(1) n] assms(3)]
  have "copies (asked out) q + waiting (se_short_list s) q \<le> max 1 (copies nodes q)" for q
    using R unfolding search_ok_def copies_def by simp
  then have "copies (asked out) q \<le> max 1 (copies nodes q)" for q using add_leD1 by blast
  then show ?thesis using R by (simp add: search_ok_def ALPHA_def)
qed

text \<open>A single node that answers nothing: it is asked, the query times out and the lookup ends.\<close>

lemma mark_single [simp]:
  "se_short_list s = [x] \<Longrightarrow> se_short_list (mark 0 st s) = [x\<lparr>sc_state := st\<rparr>]"
  by (simp add: mark_def)

theorem search_asks_once_witness:
  "\<exists>s out. search_run True [(0, None), (0, None)] (search_new (replicate 20 0) (replicate 20 1) [nct 5, nct 5] (Some 6881)) = (True, s, out)
     \<and> asked out = [nct 5, nct 5] \<and> copies (asked out) (nid 5) \<le> 2 \<and> copies (asked out) (nid 6) \<le> 1 \<and> length (announced_to out) \<le> 8"
proof -
  let ?s0 = "search_new (replicate 20 0) (replicate 20 1) [nct 5, nct 5] (Some 6881)"
  obtain fin s out where r: "search_run True [(0, None), (0, None)] ?s0 = (fin, s, out)" by (cases "search_run True [(0, None), (0, None)] ?s0") auto
  have "fin \<and> asked out = [nct 5, nct 5]"
    using r by (simp add: search_run.simps search_fill.simps search_new_def search_join_def mark_def ALPHA_def Let_def
      announce_to_closest_def remove_nth_def split: prod.splits) auto
  moreover have "(\<forall>q. copies (asked out) q \<le> max 1 (copies [nct 5, nct 5] q)) \<and> length (se_in_flight s) \<le> 3 \<and> length (announced_to out) \<le> 8
     \<and> ct_addr ` set (announced_to out) \<subseteq> ct_addr ` set (asked out)"
    by (rule search_asks_once [OF _ _ r]) (simp_all add: nct_def nid_def)
  moreover have "max 1 (copies [nct 5, nct 5] (nid 5)) = 2" "max 1 (copies [nct 5, nct 5] (nid 6)) = 1"
    by (simp_all add: copies_def nct_def nid_def)
  ultimately show ?thesis using r by metis
qed

end
