(* ===== verification/Tracker.thy ===== *)
theory Tracker
  imports Torrent BencodeSpec Pex "HOL-Library.Multiset"
begin

text \<open>
  Tracker announces, \<open>net/tracker.rs\<close>: the HTTP request and its answer, the UDP exchange of BEP 15, and the merge of the
  answers of several trackers. The HTTP client, DNS, \<open>serde_bencode\<close>, the percent encoding of the \<open>url\<close> crate and the random numbers
  are arguments; errors keep what their message carries.
\<close>

definition MAX_TRACKER_RESPONSE :: nat where "MAX_TRACKER_RESPONSE = 2 * 1024 * 1024"
definition UDP_ATTEMPTS :: nat where "UDP_ATTEMPTS = 2"
definition UDP_BUFFER :: nat where "UDP_BUFFER = 8192"

type_synonym peer_info = socket_addr

record announce_params =
  ap_info_hash :: bytes
  ap_peer_id :: bytes
  ap_port :: nat
  ap_uploaded :: nat
  ap_downloaded :: nat
  ap_left :: nat
  ap_event :: "rstring option"

record dict_peer =
  dp_ip :: rstring
  dp_port :: nat

datatype peers_field = Compact bytes | Dicts "dict_peer list"

record tracker_response =
  tr_peers :: "peers_field option"
  tr_peers6 :: "bytes option"
  tr_interval :: "nat option"
  tr_failure_reason :: "rstring option"
  tr_warning_message :: "rstring option"

datatype tracker_error =
    NoTrackers | AllTrackersFailed | HttpFailed | ResponseTooLong | BadBencodeDepth torrent_parse_error | UndecodableResponse
  | FailureReason rstring | NeitherPeersNorInterval | BadCompactPeers nat | BadCompactPeers6 nat
  | NoSocket | UdpSendFailed | UdpRecvFailed | UdpTimedOut
  | ConnectTooShort | AnnounceTooShort | UdpTrackerError bytes | UnexpectedAction nat | TransactionMismatch

section \<open>Compact peers\<close>

definition tracker_decode_compact_peers :: "bytes \<Rightarrow> tracker_error + peer_info list" where
  "tracker_decode_compact_peers peers_data =
     (if length peers_data mod 6 \<noteq> 0 then Inl (BadCompactPeers (length peers_data))
      else Inr (map read_ipv4 (chunks_exact 6 peers_data)))"

definition tracker_decode_compact_peers6 :: "bytes \<Rightarrow> tracker_error + peer_info list" where
  "tracker_decode_compact_peers6 peers_data =
     (if length peers_data mod 18 \<noteq> 0 then Inl (BadCompactPeers6 (length peers_data))
      else Inr (map read_ipv6 (chunks_exact 18 peers_data)))"

section \<open>HTTP\<close>

record http_env =
  he_byte_serialize :: "bytes \<Rightarrow> rstring"
  he_get :: "rstring \<Rightarrow> tracker_error + (tracker_error + bytes) list"
  he_de :: "bytes \<Rightarrow> tracker_response option"
  he_parse_ip :: "rstring \<Rightarrow> (nat \<Rightarrow> socket_addr) option"

definition show_dec :: "nat \<Rightarrow> rstring" where
  "show_dec n = map unat (dec_digits n)"

definition request_url :: "http_env \<Rightarrow> rstring \<Rightarrow> announce_params \<Rightarrow> rstring" where
  "request_url H tracker_url params =
     (let separator = (if 63 \<in> set tracker_url then lit ''&'' else lit ''?'');
          event_param = (case ap_event params of Some e \<Rightarrow> lit ''&event='' @ e | None \<Rightarrow> [])
      in tracker_url @ separator @ lit ''info_hash='' @ he_byte_serialize H (ap_info_hash params)
         @ lit ''&peer_id='' @ he_byte_serialize H (ap_peer_id params) @ lit ''&port='' @ show_dec (ap_port params)
         @ lit ''&uploaded='' @ show_dec (ap_uploaded params) @ lit ''&downloaded='' @ show_dec (ap_downloaded params)
         @ lit ''&left='' @ show_dec (ap_left params) @ lit ''&compact=1'' @ event_param)"

fun read_body :: "(tracker_error + bytes) list \<Rightarrow> bytes \<Rightarrow> tracker_error + bytes" where
  "read_body [] response_bytes = Inr response_bytes"
| "read_body (Inl e # chunks) response_bytes = Inl e"
| "read_body (Inr c # chunks) response_bytes =
     (if length response_bytes + length c > MAX_TRACKER_RESPONSE then Inl ResponseTooLong
      else read_body chunks (response_bytes @ c))"

definition response_peers :: "http_env \<Rightarrow> tracker_response \<Rightarrow> tracker_error + peer_info list" where
  "response_peers H response =
     (case tr_peers response of
        Some (Compact blob) \<Rightarrow> tracker_decode_compact_peers blob
      | Some (Dicts xs) \<Rightarrow> Inr (List.map_filter (\<lambda>p. map_option (\<lambda>mk. mk (dp_port p)) (he_parse_ip H (dp_ip p))) xs)
      | None \<Rightarrow> Inr [])"

definition parse_http_response :: "http_env \<Rightarrow> bytes \<Rightarrow> tracker_error + peer_info list \<times> nat option" where
  "parse_http_response H bs =
     (case check_bencode_depth bs of
        Inl e \<Rightarrow> Inl (BadBencodeDepth e)
      | Inr _ \<Rightarrow>
          (case he_de H bs of
             None \<Rightarrow> Inl UndecodableResponse
           | Some response \<Rightarrow>
               (case tr_failure_reason response of
                  Some reason \<Rightarrow> Inl (FailureReason reason)
                | None \<Rightarrow>
                    (case response_peers H response of
                       Inl e \<Rightarrow> Inl e
                     | Inr peers4 \<Rightarrow>
                         (case (case tr_peers6 response of None \<Rightarrow> Inr [] | Some blob \<Rightarrow> tracker_decode_compact_peers6 blob) of
                            Inl e \<Rightarrow> Inl e
                          | Inr peers6 \<Rightarrow>
                              (let peers = peers4 @ peers6 in
                               if peers = [] \<and> tr_interval response = None then Inl NeitherPeersNorInterval
                               else Inr (peers, tr_interval response)))))))"

definition announce_http :: "http_env \<Rightarrow> rstring \<Rightarrow> announce_params \<Rightarrow> tracker_error + peer_info list" where
  "announce_http H tracker_url params =
     (case he_get H (request_url H tracker_url params) of
        Inl e \<Rightarrow> Inl e
      | Inr chunks \<Rightarrow>
          (case read_body chunks [] of
             Inl e \<Rightarrow> Inl e
           | Inr body \<Rightarrow>
               (case parse_http_response H body of Inl e \<Rightarrow> Inl e | Inr (peers, _) \<Rightarrow> Inr peers)))"

section \<open>UDP\<close>

datatype attempt = SendFails | NoReply | RecvFails | Reply bytes

text \<open>Every attempt sends the request; the first reply, cut to the size of the buffer, ends the exchange.\<close>

fun exchange_loop :: "nat \<Rightarrow> (nat \<Rightarrow> attempt) \<Rightarrow> nat \<Rightarrow> (tracker_error + bytes) \<times> nat" where
  "exchange_loop 0 net i = (Inl UdpTimedOut, i)"
| "exchange_loop (Suc n) net i =
     (case net i of
        SendFails \<Rightarrow> (Inl UdpSendFailed, i)
      | NoReply \<Rightarrow> exchange_loop n net (i + 1)
      | RecvFails \<Rightarrow> (Inl UdpRecvFailed, i + 1)
      | Reply bs \<Rightarrow> (Inr (take UDP_BUFFER bs), i + 1))"

definition udp_exchange :: "(nat \<Rightarrow> attempt) \<Rightarrow> bytes \<Rightarrow> (tracker_error + bytes) \<times> bytes list" where
  "udp_exchange net request = (case exchange_loop UDP_ATTEMPTS net 0 of (r, n) \<Rightarrow> (r, replicate n request))"

record udp_env =
  ue_open :: "rstring \<Rightarrow> tracker_error + bool"
  ue_connect_tid :: "32 word"
  ue_announce_tid :: "32 word"
  ue_key :: "32 word"
  ue_connect_net :: "nat \<Rightarrow> attempt"
  ue_announce_net :: "nat \<Rightarrow> attempt"

definition connect_req :: "32 word \<Rightarrow> bytes" where
  "connect_req transaction_id = be_bytes 8 0x41727101980 @ be_bytes 4 0 @ be_bytes 4 (unat transaction_id)"

definition event_num :: "rstring option \<Rightarrow> nat" where
  "event_num event =
     (if event = Some (lit ''completed'') then 1 else if event = Some (lit ''started'') then 2
      else if event = Some (lit ''stopped'') then 3 else 0)"

definition announce_req :: "nat \<Rightarrow> 32 word \<Rightarrow> 32 word \<Rightarrow> announce_params \<Rightarrow> bytes" where
  "announce_req connection_id announce_tx_id key params =
     be_bytes 8 connection_id @ be_bytes 4 1 @ be_bytes 4 (unat announce_tx_id) @ ap_info_hash params @ ap_peer_id params
     @ be_bytes 8 (ap_downloaded params) @ be_bytes 8 (ap_left params) @ be_bytes 8 (ap_uploaded params)
     @ be_bytes 4 (event_num (ap_event params)) @ be_bytes 4 0 @ be_bytes 4 (unat key) @ be_bytes 4 (2 ^ 32 - 1) @ be_bytes 2 (ap_port params)"

text \<open>The checks on a reply: its length, the action and the transaction number.\<close>

definition check_reply :: "nat \<Rightarrow> tracker_error \<Rightarrow> nat \<Rightarrow> 32 word \<Rightarrow> bytes \<Rightarrow> tracker_error option" where
  "check_reply min_len too_short action tid buf =
     (if length buf < min_len then Some too_short
      else if be_val (slice 0 4 buf) = 3 then Some (UdpTrackerError (drop 8 buf))
      else if be_val (slice 0 4 buf) \<noteq> action then Some (UnexpectedAction (be_val (slice 0 4 buf)))
      else if be_val (slice 4 8 buf) \<noteq> unat tid then Some TransactionMismatch
      else None)"

definition announce_udp :: "udp_env \<Rightarrow> rstring \<Rightarrow> announce_params \<Rightarrow> (tracker_error + peer_info list) \<times> bytes list" where
  "announce_udp U tracker_url params =
     (case ue_open U tracker_url of
        Inl e \<Rightarrow> (Inl e, [])
      | Inr target_is_ipv4 \<Rightarrow>
          (case udp_exchange (ue_connect_net U) (connect_req (ue_connect_tid U)) of
             (Inl e, sent) \<Rightarrow> (Inl e, sent)
           | (Inr buf, sent) \<Rightarrow>
               (case check_reply 16 ConnectTooShort 0 (ue_connect_tid U) buf of
                  Some e \<Rightarrow> (Inl e, sent)
                | None \<Rightarrow>
                    (let connection_id = be_val (slice 8 16 buf) in
                     case udp_exchange (ue_announce_net U) (announce_req connection_id (ue_announce_tid U) (ue_key U) params) of
                       (Inl e, sent') \<Rightarrow> (Inl e, sent @ sent')
                     | (Inr buf', sent') \<Rightarrow>
                         (case check_reply 20 AnnounceTooShort 1 (ue_announce_tid U) buf' of
                            Some e \<Rightarrow> (Inl e, sent @ sent')
                          | None \<Rightarrow>
                              (if target_is_ipv4 then tracker_decode_compact_peers (drop 20 buf')
                               else tracker_decode_compact_peers6 (drop 20 buf'), sent @ sent'))))))"

definition announce :: "http_env \<Rightarrow> udp_env \<Rightarrow> rstring \<Rightarrow> announce_params \<Rightarrow> tracker_error + peer_info list" where
  "announce H U tracker_url params =
     (if starts_with tracker_url (lit ''udp://'') then fst (announce_udp U tracker_url params)
      else announce_http H tracker_url params)"

section \<open>All trackers\<close>

datatype joined = TaskPanicked | TaskDone rstring "tracker_error + peer_info list"

definition add_merged :: "peer_info \<Rightarrow> peer_info list \<Rightarrow> peer_info list" where
  "add_merged peer merged = (if \<not> list_ex (\<lambda>p. p = peer) merged then merged @ [peer] else merged)"

record merge_state =
  ms_merged :: "peer_info list"
  ms_last_err :: "tracker_error option"
  ms_any_ok :: bool
  ms_on_peers :: "peer_info list list"

fun join_one :: "joined \<Rightarrow> merge_state \<Rightarrow> merge_state" where
  "join_one (TaskDone url (Inr peers)) m =
     m\<lparr>ms_any_ok := True, ms_on_peers := ms_on_peers m @ [peers], ms_merged := fold add_merged peers (ms_merged m)\<rparr>"
| "join_one (TaskDone url (Inl err)) m = m\<lparr>ms_last_err := Some err\<rparr>"
| "join_one TaskPanicked m = m"

text \<open>The tasks in the order in which they end; the second component is what the callback was given.\<close>

definition announce_all :: "rstring list \<Rightarrow> joined list \<Rightarrow> (tracker_error + peer_info list) \<times> peer_info list list" where
  "announce_all tracker_urls tasks =
     (if tracker_urls = [] then (Inl NoTrackers, [])
      else
        let m = fold join_one tasks \<lparr>ms_merged = [], ms_last_err = None, ms_any_ok = False, ms_on_peers = []\<rparr>
        in (if ms_any_ok m then Inr (ms_merged m)
            else Inl (case ms_last_err m of Some e \<Rightarrow> e | None \<Rightarrow> AllTrackersFailed), ms_on_peers m))"

section \<open>Properties\<close>

lemma exchange_loop_reply:
  "exchange_loop n net i = (Inr bs, k) \<Longrightarrow> i < k \<and> k \<le> i + n \<and> (\<exists>j reply. net j = Reply reply \<and> bs = take UDP_BUFFER reply)"
  by (induction n net i rule: exchange_loop.induct) (auto split: attempt.splits)

lemma exchange_loop_sends: "exchange_loop n net i = (r, k) \<Longrightarrow> k \<le> i + n"
  by (induction n net i rule: exchange_loop.induct) (force split: attempt.splits)+

lemma is_v4_canonical: "is_v4 a \<Longrightarrow> canonical a = a"
  by (cases a) (simp_all add: canonical_def)

lemma udp_reads_reply:
  assumes "ue_open U tracker_url = Inr True"
    and "ue_connect_net U 0 = Reply (be_bytes 4 0 @ be_bytes 4 (unat (ue_connect_tid U)) @ be_bytes 8 connection_id)"
    and "ue_announce_net U 0 = Reply (be_bytes 4 1 @ be_bytes 4 (unat (ue_announce_tid U)) @ be_bytes 4 interval
           @ be_bytes 4 leechers @ be_bytes 4 seeders @ encode_compact_ipv4 peers)"
    and "connection_id < 2 ^ 64" "list_all (\<lambda>a. is_v4 a \<and> addr_wf a) peers" "length peers \<le> 1362"
  shows "announce_udp U tracker_url params =
      (Inr peers, [connect_req (ue_connect_tid U), announce_req connection_id (ue_announce_tid U) (ue_key U) params])"
proof -
  have can: "map canonical peers = peers" "filter is_v4 peers = peers"
    using assms(5) by (auto simp: list_all_iff is_v4_canonical intro!: map_idI)
  have enc: "encode_compact_ipv4 peers = concat (map addr_bytes peers)" by (simp add: encode_compact_ipv4_def split_compact_eq can)
  have len: "length (encode_compact_ipv4 peers) = 6 * length peers" using v4.length_concat_enc [OF assms(5)] enc by simp
  have dec: "tracker_decode_compact_peers (encode_compact_ipv4 peers) = Inr peers"
    using v4.chunks_enc [OF assms(5), of "[]"] len by (simp add: tracker_decode_compact_peers_def enc)
  have w: "be_val (be_bytes 4 (unat w)) = unat w" for w :: "32 word"
    using unsigned_less [of w, where ?'a = nat] by (intro be_val_be_bytes) simp
  have n: "be_val (be_bytes 4 0) = 0" "be_val (be_bytes 4 1) = 1" "be_val (be_bytes 8 connection_id) = connection_id"
    using assms(4) by (simp_all add: be_val_be_bytes)
  let ?a = "be_bytes 4 1 @ be_bytes 4 (unat (ue_announce_tid U)) @ be_bytes 4 interval @ be_bytes 4 leechers @ be_bytes 4 seeders @ encode_compact_ipv4 peers"
  have t: "take 8192 ?a = ?a" using len assms(6) by simp
  have x1: "udp_exchange (ue_connect_net U) r = (Inr (be_bytes 4 0 @ be_bytes 4 (unat (ue_connect_tid U)) @ be_bytes 8 connection_id), [r])" for r
    using assms(2) by (simp add: udp_exchange_def UDP_ATTEMPTS_def UDP_BUFFER_def numeral_2_eq_2)
  have x2: "udp_exchange (ue_announce_net U) r = (Inr ?a, [r])" for r
    using assms(3) t by (simp add: udp_exchange_def UDP_ATTEMPTS_def UDP_BUFFER_def numeral_2_eq_2)
  show ?thesis using assms(1)
    by (simp add: announce_udp_def x1 x2 check_reply_def slice_def w n dec Let_def del: One_nat_def)
qed

definition demo_udp :: udp_env where
  "demo_udp = \<lparr>ue_open = (\<lambda>_. Inr True), ue_connect_tid = 7, ue_announce_tid = 8, ue_key = 9,
     ue_connect_net = (\<lambda>_. Reply (be_bytes 4 0 @ be_bytes 4 7 @ be_bytes 8 5)),
     ue_announce_net = (\<lambda>_. Reply (be_bytes 4 1 @ be_bytes 4 8 @ be_bytes 4 1800 @ be_bytes 4 0 @ be_bytes 4 1 @ encode_compact_ipv4 [V4 [10, 0, 0, 1] 6881]))\<rparr>"

definition demo_params :: announce_params where
  "demo_params = \<lparr>ap_info_hash = replicate 20 1, ap_peer_id = replicate 20 2, ap_port = 6881, ap_uploaded = 0, ap_downloaded = 0, ap_left = 9,
     ap_event = Some (lit ''started'')\<rparr>"

text \<open>C27. A UDP tracker's answer is used only if it is the answer to our request: when \<open>announce_udp\<close> returns peers, a reply to the connect
  request with action 0 and a reply to the announce request with action 1 were received, both with the transaction number of the request, the
  announce request carried the connection number the tracker gave, and the peers are those of the second reply, read in the address family of the
  tracker. Nothing but these two requests is sent, each at most twice.\<close>

theorem udp_announce_authentic:
  assumes "announce_udp U tracker_url params = (Inr peers, sent)"
  shows "\<exists>v4 i c j a n m. ue_open U tracker_url = Inr v4
    \<and> ue_connect_net U i = Reply c \<and> 16 \<le> length c \<and> be_val (slice 0 4 c) = 0 \<and> be_val (slice 4 8 c) = unat (ue_connect_tid U)
    \<and> ue_announce_net U j = Reply a \<and> 20 \<le> length a \<and> be_val (slice 0 4 a) = 1 \<and> be_val (slice 4 8 a) = unat (ue_announce_tid U)
    \<and> (if v4 then tracker_decode_compact_peers else tracker_decode_compact_peers6) (drop 20 (take 8192 a)) = Inr peers
    \<and> sent = replicate n (connect_req (ue_connect_tid U))
        @ replicate m (announce_req (be_val (slice 8 16 c)) (ue_announce_tid U) (ue_key U) params) \<and> n \<le> 2 \<and> m \<le> 2"
proof -
  obtain v4 where v4: "ue_open U tracker_url = Inr v4" using assms by (auto simp: announce_udp_def split: sum.splits)
  obtain b1 k1 where x1: "exchange_loop 2 (ue_connect_net U) 0 = (Inr b1, k1)"
    "check_reply 16 ConnectTooShort 0 (ue_connect_tid U) b1 = None"
    using assms v4 by (auto simp: announce_udp_def udp_exchange_def UDP_ATTEMPTS_def split: sum.splits prod.splits option.splits)
  obtain b2 k2 where x2: "exchange_loop 2 (ue_announce_net U) 0 = (Inr b2, k2)"
    "check_reply 20 AnnounceTooShort 1 (ue_announce_tid U) b2 = None"
    using assms v4 x1 by (auto simp: announce_udp_def udp_exchange_def UDP_ATTEMPTS_def Let_def split: sum.splits prod.splits option.splits)
  have out: "(if v4 then tracker_decode_compact_peers else tracker_decode_compact_peers6) (drop 20 b2) = Inr peers"
    "sent = replicate k1 (connect_req (ue_connect_tid U)) @ replicate k2 (announce_req (be_val (slice 8 16 b1)) (ue_announce_tid U) (ue_key U) params)"
    using assms v4 x1 x2 by (simp_all add: announce_udp_def udp_exchange_def UDP_ATTEMPTS_def Let_def split: if_splits)
  obtain i c where c: "ue_connect_net U i = Reply c" "b1 = take 8192 c" "k1 \<le> 2"
    using exchange_loop_reply [OF x1(1)] by (auto simp: UDP_BUFFER_def)
  obtain j a where a: "ue_announce_net U j = Reply a" "b2 = take 8192 a" "k2 \<le> 2"
    using exchange_loop_reply [OF x2(1)] by (auto simp: UDP_BUFFER_def)
  have s: "slice x y (take 8192 zs) = slice x y zs" if "y \<le> 8192" for x y and zs :: bytes
    using that by (simp add: slice_def drop_take min_def)
  show ?thesis
    by (rule exI [of _ v4], rule exI [of _ i], rule exI [of _ c], rule exI [of _ j], rule exI [of _ a], rule exI [of _ k1], rule exI [of _ k2])
      (use v4 x1(2) x2(2) out c a in \<open>auto simp: check_reply_def s split: if_splits\<close>)
qed

theorem udp_announce_authentic_witness:
  "\<exists>sent i c n m. announce_udp demo_udp (lit ''udp://t:1'') demo_params = (Inr [V4 [10, 0, 0, 1] 6881], sent)
    \<and> ue_connect_net demo_udp i = Reply c \<and> be_val (slice 4 8 c) = unat (ue_connect_tid demo_udp) \<and> length sent = n + m \<and> n \<le> 2 \<and> m \<le> 2"
proof -
  obtain sent where r: "announce_udp demo_udp (lit ''udp://t:1'') demo_params = (Inr [V4 [10, 0, 0, 1] 6881], sent)"
    using udp_reads_reply [where U = demo_udp and interval = 1800 and leechers = 0 and seeders = 1 and connection_id = 5
        and peers = "[V4 [10, 0, 0, 1] 6881]" and tracker_url = "lit ''udp://t:1''" and params = demo_params]
    by (simp add: demo_udp_def)
  from udp_announce_authentic [OF r] show ?thesis using r by (metis length_append length_replicate)
qed

text \<open>The announce round-trips: a tracker that follows BEP 15 gets a connect request and an announce request of 98 bytes, and the program
  reads exactly the peers that the tracker encoded.\<close>

theorem udp_announce_roundtrip:
  assumes "ue_open U tracker_url = Inr True"
    and "ue_connect_net U 0 = Reply (be_bytes 4 0 @ be_bytes 4 (unat (ue_connect_tid U)) @ be_bytes 8 connection_id)"
    and "ue_announce_net U 0 = Reply (be_bytes 4 1 @ be_bytes 4 (unat (ue_announce_tid U)) @ be_bytes 4 interval
           @ be_bytes 4 leechers @ be_bytes 4 seeders @ encode_compact_ipv4 peers)"
    and "connection_id < 2 ^ 64" "list_all (\<lambda>a. is_v4 a \<and> addr_wf a) peers" "length peers \<le> 1362"
    and "length (ap_info_hash params) = 20" "length (ap_peer_id params) = 20"
  shows "announce_udp U tracker_url params =
      (Inr peers, [connect_req (ue_connect_tid U), announce_req connection_id (ue_announce_tid U) (ue_key U) params])
    \<and> length (connect_req (ue_connect_tid U)) = 16 \<and> length (announce_req connection_id (ue_announce_tid U) (ue_key U) params) = 98"
  using udp_reads_reply [OF assms(1-6)] assms(7,8) by (simp add: connect_req_def announce_req_def)

theorem udp_announce_roundtrip_witness:
  "fst (announce_udp demo_udp (lit ''udp://t:1'') demo_params) = Inr [V4 [10, 0, 0, 1] 6881]"
proof -
  have "announce_udp demo_udp (lit ''udp://t:1'') demo_params =
      (Inr [V4 [10, 0, 0, 1] 6881], [connect_req (ue_connect_tid demo_udp), announce_req 5 (ue_announce_tid demo_udp) (ue_key demo_udp) demo_params])
    \<and> length (connect_req (ue_connect_tid demo_udp)) = 16 \<and> length (announce_req 5 (ue_announce_tid demo_udp) (ue_key demo_udp) demo_params) = 98"
    by (rule udp_announce_roundtrip [where interval = 1800 and leechers = 0 and seeders = 1]) (simp_all add: demo_udp_def demo_params_def)
  then show ?thesis by simp
qed

fun ok_answers :: "joined list \<Rightarrow> peer_info list list" where
  "ok_answers [] = []"
| "ok_answers (TaskDone url (Inr peers) # tasks) = peers # ok_answers tasks"
| "ok_answers (_ # tasks) = ok_answers tasks"

lemma fold_add_merged:
  "distinct xs \<Longrightarrow> distinct (fold add_merged peers xs) \<and> set (fold add_merged peers xs) = set xs \<union> set peers"
proof (induction peers arbitrary: xs)
  case (Cons p peers)
  have "distinct (add_merged p xs) \<and> set (add_merged p xs) = insert p (set xs)"
    using Cons.prems by (auto simp: add_merged_def list_ex_iff)
  then show ?case using Cons.IH [of "add_merged p xs"] by auto
qed simp

lemma join_all:
  "distinct (ms_merged m) \<Longrightarrow> distinct (ms_merged (fold join_one tasks m))
     \<and> set (ms_merged (fold join_one tasks m)) = set (ms_merged m) \<union> set (concat (ok_answers tasks))
     \<and> ms_any_ok (fold join_one tasks m) = (ms_any_ok m \<or> ok_answers tasks \<noteq> [])
     \<and> ms_on_peers (fold join_one tasks m) = ms_on_peers m @ ok_answers tasks"
proof (induction tasks arbitrary: m rule: ok_answers.induct)
  case (2 url peers tasks)
  have "distinct (ms_merged (join_one (TaskDone url (Inr peers)) m))" using 2(2) fold_add_merged by simp
  from 2(1) [OF this] show ?case using fold_add_merged [OF 2(2), of peers] by auto
qed simp_all

text \<open>Announcing to several trackers loses nothing: whatever order the trackers answer in, the callback gets every answer as it arrives, the
  result has every peer of every answer exactly once, and the call fails only if no tracker answered.\<close>

theorem announce_all_merges:
  "snd (announce_all (url # urls) tasks) = ok_answers tasks
   \<and> (case fst (announce_all (url # urls) tasks) of
        Inr merged \<Rightarrow> ok_answers tasks \<noteq> [] \<and> distinct merged \<and> set merged = set (concat (ok_answers tasks))
      | Inl e \<Rightarrow> ok_answers tasks = [])"
  using join_all [of "\<lparr>ms_merged = [], ms_last_err = None, ms_any_ok = False, ms_on_peers = []\<rparr>" tasks]
  by (simp add: announce_all_def Let_def)

end
