(* ===== verification/MetadataFetch.thy ===== *)
theory MetadataFetch
  imports MetadataAssembler BencodeSpec Wire Pex
begin

text \<open>
  The download of the info dictionary of a magnet link, \<open>net/metadata.rs\<close>: the state the peers share, the
  conversation with one peer, and the loop that dials peers until one of them completes the dictionary. SHA-1 and
  \<open>serde_bencode\<close> are fields of an environment; what the network does is the input. A peer task waits in two places of its
  loop, while it sends a request and while it waits for a message, so an iteration is two steps, \<open>peer_ask\<close> and
  \<open>peer_recv\<close>, and the steps of different tasks interleave freely.
\<close>

section \<open>The shared state\<close>

definition MAX_PARALLEL_PEERS :: nat where "MAX_PARALLEL_PEERS = 8"
definition PIECE_TIMEOUT :: duration where "PIECE_TIMEOUT = secs 15"
definition EXT_HANDSHAKE_TIMEOUT :: duration where "EXT_HANDSHAKE_TIMEOUT = secs 30"
definition LOCAL_UT_METADATA_ID :: byte where "LOCAL_UT_METADATA_ID = 1"

definition MSG_REQUEST :: byte where "MSG_REQUEST = 0"
definition MSG_DATA :: byte where "MSG_DATA = 1"
definition MSG_REJECT :: byte where "MSG_REJECT = 2"

record metadata_header =
  mh_msg_type :: byte
  mh_piece :: nat

record ext_handshake_dict =
  eh_m :: "(rstring \<times> byte) list"
  eh_metadata_size :: "nat option"

record meta_env =
  me_sha1 :: "bytes \<Rightarrow> bytes"
  me_ser_handshake :: "ext_handshake_dict \<Rightarrow> bytes option"
  me_de_handshake :: "bytes \<Rightarrow> ext_handshake_dict option"
  me_de_header :: "bytes \<Rightarrow> metadata_header option"
  me_info_hash :: bytes
  me_peer_id :: bytes

datatype fetch_error =
    ConnectFailed | BadHandshake handshake_error | InfoHashMismatch | ConnectedToOurselves | NoExtensionProtocol
  | EncodeFailed | WriteFailed | ReadFailed | PeerTooSlow | NoExtendedHandshake | MalformedExtendedHandshake
  | NoUtMetadata | NoMetadataSize | UtMetadataDisabled | BadHeader torrent_parse_error | MalformedHeader
  | RequestRejected | DifferentSize | PieceBeforeSize | BadPiece metadata_error

record meta_inner =
  mi_assembler :: "metadata_assembler option"
  mi_in_flight :: "nat set"
  mi_result :: "bytes option"

definition inner_default :: meta_inner where
  "inner_default = \<lparr>mi_assembler = None, mi_in_flight = {}, mi_result = None\<rparr>"

definition meta_is_done :: "meta_inner \<Rightarrow> bool" where
  "meta_is_done s \<longleftrightarrow> mi_result s \<noteq> None"

definition take_result :: "meta_inner \<Rightarrow> bytes option \<times> meta_inner" where
  "take_result s = (mi_result s, s\<lparr>mi_result := None\<rparr>)"

definition init_size :: "nat \<Rightarrow> meta_inner \<Rightarrow> fetch_error + meta_inner" where
  "init_size n s =
     (case mi_assembler s of
        Some a \<Rightarrow> if ma_metadata_size a \<noteq> n then Inl DifferentSize else Inr s
      | None \<Rightarrow>
          (case ma_new n of
             Inl e \<Rightarrow> Inl (BadPiece e)
           | Inr a \<Rightarrow> Inr (s\<lparr>mi_assembler := Some a\<rparr>)))"

definition claim_piece :: "meta_inner \<Rightarrow> (nat \<times> meta_inner) option" where
  "claim_piece s =
     (case mi_assembler s of
        None \<Rightarrow> None
      | Some a \<Rightarrow>
          (case ma_next_piece_where (\<lambda>p. p \<in> mi_in_flight s) a of
             None \<Rightarrow> None
           | Some piece \<Rightarrow> Some (piece, s\<lparr>mi_in_flight := insert piece (mi_in_flight s)\<rparr>)))"

definition release_piece :: "nat \<Rightarrow> meta_inner \<Rightarrow> meta_inner" where
  "release_piece piece s = s\<lparr>mi_in_flight := mi_in_flight s - {piece}\<rparr>"

definition meta_add_piece :: "meta_env \<Rightarrow> nat \<Rightarrow> bytes \<Rightarrow> meta_inner \<Rightarrow> fetch_error option \<times> meta_inner" where
  "meta_add_piece E piece dat s0 =
     (let s = release_piece piece s0 in
      case mi_assembler s of
        None \<Rightarrow> (Some PieceBeforeSize, s)
      | Some a \<Rightarrow>
          (let (r, a') = ma_add_piece piece dat a; s' = s\<lparr>mi_assembler := Some a'\<rparr> in
           case r of
             Inl e \<Rightarrow> (Some (BadPiece e), s')
           | Inr False \<Rightarrow> (None, s')
           | Inr True \<Rightarrow>
               if me_sha1 E (ma_buffer a') = me_info_hash E then (None, s'\<lparr>mi_result := Some (ma_buffer a')\<rparr>)
               else
                 (case ma_new (ma_metadata_size a') of
                    Inl e \<Rightarrow> (Some (BadPiece e), s')
                  | Inr fresh \<Rightarrow> (None, s'\<lparr>mi_assembler := Some fresh, mi_in_flight := {}\<rparr>))))"

section \<open>One peer\<close>

record meta_peer =
  mp_remote_id :: "byte option"
  mp_claimed :: "nat option"
  mp_started :: instant
  mp_requested_at :: instant

definition peer_new :: "instant \<Rightarrow> meta_peer" where
  "peer_new now = \<lparr>mp_remote_id = None, mp_claimed = None, mp_started = now, mp_requested_at = now\<rparr>"

text \<open>The bytes of \<open>format!("d8:msg_typei{t}e5:piecei{piece}ee")\<close>.\<close>

definition ascii :: "string \<Rightarrow> bytes" where
  "ascii s = map of_char s"

definition header_bytes :: "byte \<Rightarrow> nat \<Rightarrow> bytes" where
  "header_bytes t piece = ascii ''d8:msg_typei'' @ dec_digits (unat t) @ ascii ''e5:piecei'' @ dec_digits piece @ ascii ''ee''"

text \<open>What the connection delivers before the conversation: nothing, or the 68 bytes of the remote handshake.\<close>

datatype connection = Unreachable | Incoming bytes

definition our_handshake :: ext_handshake_dict where
  "our_handshake = \<lparr>eh_m = [(lit ''ut_metadata'', LOCAL_UT_METADATA_ID)], eh_metadata_size = None\<rparr>"

definition peer_open :: "meta_env \<Rightarrow> instant \<Rightarrow> bool \<Rightarrow> connection \<Rightarrow> (fetch_error + meta_peer) \<times> bytes list" where
  "peer_open E now sent c =
     (case c of
        Unreachable \<Rightarrow> (Inl ConnectFailed, [])
      | Incoming bs \<Rightarrow>
          (let local = handshake_as_bytes (handshake_new (me_info_hash E) (me_peer_id E)) in
           case handshake_from_bytes bs of
             Inl e \<Rightarrow> (Inl (BadHandshake e), [local])
           | Inr remote \<Rightarrow>
               if hs_info_hash remote \<noteq> me_info_hash E then (Inl InfoHashMismatch, [local])
               else if hs_peer_id remote = me_peer_id E then (Inl ConnectedToOurselves, [local])
               else if \<not> supports_extension_protocol remote then (Inl NoExtensionProtocol, [local])
               else
                 (case me_ser_handshake E our_handshake of
                    None \<Rightarrow> (Inl EncodeFailed, [local])
                  | Some ours \<Rightarrow>
                      if sent then (Inr (peer_new now), [local, send_extended 0 ours]) else (Inl WriteFailed, [local]))))"

text \<open>The first half of an iteration. \<open>Inr False\<close> ends the conversation without an error.\<close>

definition peer_ask ::
  "instant \<Rightarrow> bool \<Rightarrow> meta_peer \<Rightarrow> meta_inner \<Rightarrow> (fetch_error + bool) \<times> meta_peer \<times> meta_inner \<times> bytes list" where
  "peer_ask now sent p s =
     (if meta_is_done s then (Inr False, p, s, [])
      else
        case (mp_remote_id p, mp_claimed p) of
          (Some rid, None) \<Rightarrow>
            (case claim_piece s of
               None \<Rightarrow> (Inr True, p, s, [])
             | Some (piece, s') \<Rightarrow>
                 if sent then (Inr True, p\<lparr>mp_claimed := Some piece, mp_requested_at := now\<rparr>, s', [send_extended rid (header_bytes MSG_REQUEST piece)])
                 else (Inl WriteFailed, p, s', []))
        | _ \<Rightarrow> (Inr True, p, s, []))"

datatype meta_event = Silence | Broken | Got peer_message

definition on_ext_handshake :: "meta_env \<Rightarrow> bytes \<Rightarrow> meta_peer \<Rightarrow> meta_inner \<Rightarrow> (fetch_error + bool) \<times> meta_peer \<times> meta_inner \<times> bytes list" where
  "on_ext_handshake E payload p s =
     (if \<not> is_ok (check_bencode_depth payload) then (Inl MalformedExtendedHandshake, p, s, [])
      else case me_de_handshake E payload of
        None \<Rightarrow> (Inl MalformedExtendedHandshake, p, s, [])
      | Some dict \<Rightarrow>
          (case map_of (eh_m dict) (lit ''ut_metadata'') of
             None \<Rightarrow> (Inl NoUtMetadata, p, s, [])
           | Some ut_metadata \<Rightarrow>
               (case eh_metadata_size dict of
                  None \<Rightarrow> (Inl NoMetadataSize, p, s, [])
                | Some n \<Rightarrow>
                    if ut_metadata = 0 then (Inl UtMetadataDisabled, p, s, [])
                    else
                      (case init_size n s of
                         Inl e \<Rightarrow> (Inl e, p, s, [])
                       | Inr s' \<Rightarrow> (Inr True, p\<lparr>mp_remote_id := Some ut_metadata\<rparr>, s', [])))))"

definition on_metadata :: "meta_env \<Rightarrow> bool \<Rightarrow> bytes \<Rightarrow> meta_peer \<Rightarrow> meta_inner \<Rightarrow> (fetch_error + bool) \<times> meta_peer \<times> meta_inner \<times> bytes list" where
  "on_metadata E sent payload p s =
     (case bencode_value_len payload of
        Inl e \<Rightarrow> (Inl (BadHeader e), p, s, [])
      | Inr header_len \<Rightarrow>
          (case me_de_header E (take header_len payload) of
             None \<Rightarrow> (Inl MalformedHeader, p, s, [])
           | Some header \<Rightarrow>
               if mh_msg_type header = MSG_DATA then
                 (case meta_add_piece E (mh_piece header) (drop header_len payload) s of
                    (Some e, s') \<Rightarrow> (Inl e, p, s', [])
                  | (None, s') \<Rightarrow>
                      (Inr True, if mp_claimed p = Some (mh_piece header) then p\<lparr>mp_claimed := None\<rparr> else p, s', []))
               else if mh_msg_type header = MSG_REJECT then (Inl RequestRejected, p, s, [])
               else if mh_msg_type header = MSG_REQUEST then
                 (case mp_remote_id p of
                    None \<Rightarrow> (Inr True, p, s, [])
                  | Some rid \<Rightarrow>
                      if sent then (Inr True, p, s, [send_extended rid (header_bytes MSG_REJECT (mh_piece header))])
                      else (Inl WriteFailed, p, s, []))
               else (Inr True, p, s, [])))"

definition peer_recv ::
  "meta_env \<Rightarrow> instant \<Rightarrow> bool \<Rightarrow> meta_event \<Rightarrow> meta_peer \<Rightarrow> meta_inner \<Rightarrow> (fetch_error + bool) \<times> meta_peer \<times> meta_inner \<times> bytes list" where
  "peer_recv E now sent ev p s =
     (case ev of
        Broken \<Rightarrow> (Inl ReadFailed, p, s, [])
      | Silence \<Rightarrow>
          if mp_claimed p \<noteq> None \<and> now - mp_requested_at p > PIECE_TIMEOUT then (Inl PeerTooSlow, p, s, [])
          else if mp_remote_id p = None \<and> now - mp_started p > EXT_HANDSHAKE_TIMEOUT then (Inl NoExtendedHandshake, p, s, [])
          else (Inr True, p, s, [])
      | Got (Extended ext_id payload) \<Rightarrow>
          if ext_id = 0 then on_ext_handshake E payload p s
          else if ext_id = LOCAL_UT_METADATA_ID then on_metadata E sent payload p s
          else (Inr True, p, s, [])
      | Got _ \<Rightarrow> (Inr True, p, s, []))"

text \<open>The end of \<open>fetch_from_peer\<close>: the claimed piece is released.\<close>

definition peer_close :: "meta_peer \<Rightarrow> meta_inner \<Rightarrow> meta_inner" where
  "peer_close p s = (case mp_claimed p of None \<Rightarrow> s | Some piece \<Rightarrow> release_piece piece s)"

datatype peer_event = Ask bool | Recv bool meta_event

text \<open>A step of the task of one peer: the task that goes on, or none once it has closed.\<close>

definition peer_step :: "meta_env \<Rightarrow> instant \<Rightarrow> peer_event \<Rightarrow> meta_peer \<Rightarrow> meta_inner \<Rightarrow> meta_peer option \<times> meta_inner \<times> bytes list" where
  "peer_step E now ev p s =
     (let (r, p', s', out) = (case ev of Ask sent \<Rightarrow> peer_ask now sent p s | Recv sent m \<Rightarrow> peer_recv E now sent m p s)
      in if r = Inr True then (Some p', s', out) else (None, peer_close p' s', out))"

section \<open>The download\<close>

record fetch =
  ft_queue :: "socket_addr list"
  ft_seen :: "socket_addr set"
  ft_tasks :: "(socket_addr \<times> meta_peer option) list"
  ft_unjoined :: nat
  ft_inner :: meta_inner
  ft_reported :: nat
  ft_dialed :: "socket_addr list"
  ft_sent :: "(socket_addr \<times> bytes) list"
  ft_status :: "nat list"
  ft_outcome :: "(nat + bytes) option"

definition queue_new :: "socket_addr \<Rightarrow> fetch \<Rightarrow> fetch" where
  "queue_new addr f =
     (if addr \<in> ft_seen f then f else f\<lparr>ft_seen := insert addr (ft_seen f), ft_queue := ft_queue f @ [addr]\<rparr>)"

definition fetch_start :: "socket_addr list \<Rightarrow> fetch" where
  "fetch_start initial_peers =
     fold queue_new initial_peers
       \<lparr>ft_queue = [], ft_seen = {}, ft_tasks = [], ft_unjoined = 0, ft_inner = inner_default, ft_reported = 0, ft_dialed = [], ft_sent = [],
        ft_status = [], ft_outcome = None\<rparr>"

function spawn_tasks :: "fetch \<Rightarrow> fetch" where
  "spawn_tasks f =
     (if length (ft_tasks f) + ft_unjoined f < MAX_PARALLEL_PEERS then
        (case ft_queue f of
           [] \<Rightarrow> f
         | addr # rest \<Rightarrow> spawn_tasks (f\<lparr>ft_queue := rest, ft_tasks := ft_tasks f @ [(addr, None)], ft_dialed := ft_dialed f @ [addr]\<rparr>))
      else f)"
  by pat_completeness auto
termination spawn_tasks
  by (relation "measure (\<lambda>f. length (ft_queue f))") simp_all

declare spawn_tasks.simps [simp del]

definition report :: "fetch \<Rightarrow> fetch" where
  "report f =
     (if card (ft_seen f) \<noteq> ft_reported f \<and> card (ft_seen f) mod 5 = 0
      then f\<lparr>ft_reported := card (ft_seen f), ft_status := ft_status f @ [card (ft_seen f)]\<rparr> else f)"

text \<open>The body of the loop after the \<open>select\<close>.\<close>

definition fetch_body :: "instant \<Rightarrow> instant \<Rightarrow> fetch \<Rightarrow> fetch" where
  "fetch_body deadline now f =
     (let (r, inner) = take_result (ft_inner f); f1 = f\<lparr>ft_inner := inner\<rparr> in
      case r of
        Some bs \<Rightarrow> f1\<lparr>ft_outcome := Some (Inr bs)\<rparr>
      | None \<Rightarrow>
          if now \<ge> deadline then f1\<lparr>ft_outcome := Some (Inl (card (ft_seen f1)))\<rparr>
          else report (spawn_tasks f1))"

datatype fetch_input =
    FoundPeers "socket_addr list"
  | Joined
  | Tick
  | Opened nat bool connection
  | PeerDoes nat peer_event

text \<open>A task that has ended counts until the main loop has joined it.\<close>

definition end_task :: "nat \<Rightarrow> fetch \<Rightarrow> fetch" where
  "end_task k f = f\<lparr>ft_tasks := remove_nth k (ft_tasks f), ft_unjoined := ft_unjoined f + 1\<rparr>"

text \<open>One step of the program: a round of the main loop, or a step of the task with the given number. Once the result is there
  every task is aborted.\<close>

definition fetch_turn :: "meta_env \<Rightarrow> instant \<Rightarrow> instant \<times> fetch_input \<Rightarrow> fetch \<Rightarrow> fetch" where
  "fetch_turn E deadline x f =
     (if ft_outcome f \<noteq> None then f
      else case x of
        (now, FoundPeers addrs) \<Rightarrow> fetch_body deadline now (fold queue_new (filter (\<lambda>a. port_of a \<noteq> 0) addrs) f)
      | (now, Joined) \<Rightarrow>
          (if ft_unjoined f = 0 then f else fetch_body deadline now (f\<lparr>ft_unjoined := ft_unjoined f - 1\<rparr>))
      | (now, Tick) \<Rightarrow> fetch_body deadline now f
      | (now, Opened k sent c) \<Rightarrow>
          (if k < length (ft_tasks f) \<and> snd (ft_tasks f ! k) = None then
             let (r, out) = peer_open E now sent c; addr = fst (ft_tasks f ! k) in
             (case r of Inl e \<Rightarrow> end_task k f | Inr p \<Rightarrow> f\<lparr>ft_tasks := (ft_tasks f)[k := (addr, Some p)]\<rparr>)
               \<lparr>ft_sent := ft_sent f @ map (Pair addr) out\<rparr>
           else f)
      | (now, PeerDoes k ev) \<Rightarrow>
          (if k < length (ft_tasks f) then
             case snd (ft_tasks f ! k) of
               None \<Rightarrow> f
             | Some p \<Rightarrow>
                 let (r, s, out) = peer_step E now ev p (ft_inner f); addr = fst (ft_tasks f ! k) in
                 (case r of None \<Rightarrow> end_task k f | Some p' \<Rightarrow> f\<lparr>ft_tasks := (ft_tasks f)[k := (addr, Some p')]\<rparr>)
                   \<lparr>ft_inner := s, ft_sent := ft_sent f @ map (Pair addr) out\<rparr>
           else f))"

definition fetch_metadata :: "meta_env \<Rightarrow> instant \<Rightarrow> socket_addr list \<Rightarrow> (instant \<times> fetch_input) list \<Rightarrow> fetch" where
  "fetch_metadata E deadline initial_peers inputs = fold (fetch_turn E deadline) inputs (fetch_start initial_peers)"

section \<open>The shared state is kept\<close>

definition inner_ok :: "meta_env \<Rightarrow> meta_inner \<Rightarrow> bool" where
  "inner_ok E s \<longleftrightarrow> (\<forall>a. mi_assembler s = Some a \<longrightarrow> ma_wf a)
     \<and> (\<forall>b. mi_result s = Some b \<longrightarrow> me_sha1 E b = me_info_hash E \<and> b \<noteq> [] \<and> length b \<le> MAX_TORRENT_SIZE)"

text \<open>The size the metadata is taken to have, once a peer has announced one.\<close>

definition known_size :: "meta_inner \<Rightarrow> nat option" where
  "known_size s = map_option ma_metadata_size (mi_assembler s)"

definition inner_step :: "meta_env \<Rightarrow> meta_inner \<Rightarrow> meta_inner \<Rightarrow> bool" where
  "inner_step E s s' \<longleftrightarrow> (inner_ok E s \<longrightarrow> inner_ok E s') \<and> (\<forall>n. known_size s = Some n \<longrightarrow> known_size s' = Some n)"

lemma inner_step_refl [intro!, simp]: "inner_step E s s"
  by (simp add: inner_step_def)

lemma inner_step_trans: "inner_step E s s1 \<Longrightarrow> inner_step E s1 s2 \<Longrightarrow> inner_step E s s2"
  by (auto simp: inner_step_def)

lemma ma_add_piece_size [simp]: "ma_metadata_size (snd (ma_add_piece piece dat a)) = ma_metadata_size a"
  by (simp add: ma_add_piece_def Let_def)

lemma init_size_step: "init_size n s = Inr s' \<Longrightarrow> inner_step E s s'"
  by (auto simp: init_size_def inner_step_def inner_ok_def known_size_def dest: ma_new_Inr split: option.splits sum.splits if_splits)

lemma claim_piece_step: "claim_piece s = Some (piece, s') \<Longrightarrow> inner_step E s s'"
  by (auto simp: claim_piece_def inner_step_def inner_ok_def known_size_def split: option.splits)

lemma release_piece_step [simp]: "inner_step E s (release_piece piece s)"
  by (simp add: release_piece_def inner_step_def inner_ok_def known_size_def)

lemma take_result_step: "take_result s = (r, s') \<Longrightarrow> inner_step E s s'"
  by (auto simp: take_result_def inner_step_def inner_ok_def known_size_def)

lemma meta_add_piece_step:
  assumes "meta_add_piece E piece dat s = (r, s')"
  shows "inner_step E s s'"
proof (cases "mi_assembler s")
  case None
  then show ?thesis using assms by (auto simp: meta_add_piece_def release_piece_def inner_step_def inner_ok_def known_size_def)
next
  case (Some a)
  obtain q a' where q: "ma_add_piece piece dat a = (q, a')" by fastforce
  have sz: "ma_metadata_size a' = ma_metadata_size a" using ma_add_piece_size [of piece dat a] q by simp
  have wf: "ma_wf a'" if "ma_wf a" using ma_add_piece_wf [OF that, of piece dat] q by simp
  have buf: "ma_buffer a' \<noteq> []" "length (ma_buffer a') \<le> MAX_TORRENT_SIZE" if "ma_wf a"
    using wf [OF that] by (auto simp: ma_wf_def)
  show ?thesis using assms Some q sz wf buf
    by (auto simp: meta_add_piece_def release_piece_def inner_step_def inner_ok_def known_size_def Let_def
        dest: ma_new_Inr split: sum.splits bool.splits if_splits)
qed

lemma on_ext_handshake_step: "on_ext_handshake E payload p s = (r, p', s', out) \<Longrightarrow> inner_step E s s'"
  by (auto simp: on_ext_handshake_def intro: init_size_step split: if_splits option.splits sum.splits)

lemma on_metadata_step: "on_metadata E sent payload p s = (r, p', s', out) \<Longrightarrow> inner_step E s s'"
  by (auto simp: on_metadata_def intro: meta_add_piece_step split: if_splits option.splits sum.splits prod.splits)

lemma peer_ask_step: "peer_ask now sent p s = (r, p', s', out) \<Longrightarrow> inner_step E s s'"
  by (auto simp: peer_ask_def intro: claim_piece_step split: if_splits option.splits prod.splits)

lemma peer_recv_step: "peer_recv E now sent ev p s = (r, p', s', out) \<Longrightarrow> inner_step E s s'"
  by (auto simp: peer_recv_def intro: on_ext_handshake_step on_metadata_step split: if_splits meta_event.splits peer_message.splits)

lemma peer_close_step [simp]: "inner_step E s (peer_close p s)"
  by (simp add: peer_close_def split: option.split)

lemma peer_step_step:
  assumes "peer_step E now ev p s = (r, s', out)"
  shows "inner_step E s s'"
proof -
  obtain q p1 s1 o1 where q: "(case ev of Ask sent \<Rightarrow> peer_ask now sent p s | Recv sent m \<Rightarrow> peer_recv E now sent m p s) = (q, p1, s1, o1)"
    by (cases "case ev of Ask sent \<Rightarrow> peer_ask now sent p s | Recv sent m \<Rightarrow> peer_recv E now sent m p s") auto
  have "inner_step E s s1" using q by (auto intro: peer_ask_step peer_recv_step split: peer_event.splits)
  moreover have "s' = s1 \<or> s' = peer_close p1 s1" using assms q by (auto simp: peer_step_def split: if_splits)
  ultimately show ?thesis using inner_step_trans [OF _ peer_close_step] by blast
qed

section \<open>The download is kept\<close>

definition fetch_ok :: "meta_env \<Rightarrow> fetch \<Rightarrow> bool" where
  "fetch_ok E f \<longleftrightarrow> inner_ok E (ft_inner f)
     \<and> (\<forall>b. ft_outcome f = Some (Inr b) \<longrightarrow> me_sha1 E b = me_info_hash E \<and> b \<noteq> [] \<and> length b \<le> MAX_TORRENT_SIZE)
     \<and> length (ft_tasks f) + ft_unjoined f \<le> MAX_PARALLEL_PEERS
     \<and> distinct (ft_dialed f @ ft_queue f) \<and> set (ft_dialed f @ ft_queue f) \<subseteq> ft_seen f"

lemma queue_new_ok: "fetch_ok E f \<Longrightarrow> fetch_ok E (queue_new addr f)"
  by (auto simp: fetch_ok_def queue_new_def)

lemma fold_queue_new_ok: "fetch_ok E f \<Longrightarrow> fetch_ok E (fold queue_new addrs f)"
  by (induction addrs arbitrary: f) (simp_all add: queue_new_ok)

lemma fetch_start_ok: "fetch_ok E (fetch_start initial_peers)"
  unfolding fetch_start_def by (rule fold_queue_new_ok) (simp add: fetch_ok_def inner_ok_def inner_default_def)

lemma spawn_tasks_ok: "fetch_ok E f \<Longrightarrow> fetch_ok E (spawn_tasks f)"
proof (induction f rule: spawn_tasks.induct)
  case (1 f)
  show ?case
  proof (cases "length (ft_tasks f) + ft_unjoined f < MAX_PARALLEL_PEERS \<and> ft_queue f \<noteq> []")
    case True
    then obtain a rest where q: "ft_queue f = a # rest" by (cases "ft_queue f") auto
    have "fetch_ok E (spawn_tasks (f\<lparr>ft_queue := rest, ft_tasks := ft_tasks f @ [(a, None)], ft_dialed := ft_dialed f @ [a]\<rparr>))"
      by (rule "1.IH") (use True q "1.prems" in \<open>auto simp: fetch_ok_def\<close>)
    then show ?thesis using True q by (simp add: spawn_tasks.simps [of f])
  qed (use "1.prems" in \<open>auto simp: spawn_tasks.simps [of f]\<close>)
qed

lemma fetch_body_ok:
  assumes "fetch_ok E f"
  shows "fetch_ok E (fetch_body deadline now f)"
proof -
  let ?f = "f\<lparr>ft_inner := snd (take_result (ft_inner f))\<rparr>"
  have "inner_step E (ft_inner f) (snd (take_result (ft_inner f)))" by (rule take_result_step) (rule prod.collapse [symmetric])
  then have f: "fetch_ok E ?f" using assms by (simp add: fetch_ok_def inner_step_def)
  have "fetch_ok E (report (spawn_tasks ?f))" using spawn_tasks_ok [OF f] by (auto simp: report_def fetch_ok_def)
  moreover have "fst (take_result (ft_inner f)) = Some b \<Longrightarrow> fetch_ok E (?f\<lparr>ft_outcome := Some (Inr b)\<rparr>)" for b
    using f assms by (auto simp: fetch_ok_def take_result_def inner_ok_def)
  moreover have "fetch_ok E (?f\<lparr>ft_outcome := Some (Inl n)\<rparr>)" for n using f by (simp add: fetch_ok_def)
  ultimately show ?thesis by (simp add: fetch_body_def split_beta Let_def split: option.split)
qed

lemma fetch_turn_ok:
  assumes "fetch_ok E f"
  shows "fetch_ok E (fetch_turn E deadline x f)"
proof (cases "ft_outcome f = None")
  case True
  obtain now inp where x: "x = (now, inp)" by fastforce
  have len: "k < length xs \<Longrightarrow> length (remove_nth k xs) + 1 = length xs" for k and xs :: "'z list" by (simp add: remove_nth_def)
  show ?thesis
  proof (cases inp)
    case (FoundPeers addrs)
    then show ?thesis using True fetch_body_ok [OF fold_queue_new_ok [OF assms]] by (simp add: fetch_turn_def x)
  next
    case Joined
    have "fetch_ok E (f\<lparr>ft_unjoined := ft_unjoined f - 1\<rparr>)" using assms by (auto simp: fetch_ok_def)
    then show ?thesis using True Joined assms fetch_body_ok by (simp add: fetch_turn_def x)
  next
    case Tick
    then show ?thesis using True fetch_body_ok [OF assms] by (simp add: fetch_turn_def x)
  next
    case (Opened k sent c)
    then show ?thesis using True assms len [of k "ft_tasks f"]
      by (auto simp: fetch_turn_def x fetch_ok_def end_task_def Let_def split: prod.split sum.split)
  next
    case (PeerDoes k ev)
    show ?thesis
    proof (cases "k < length (ft_tasks f) \<and> snd (ft_tasks f ! k) \<noteq> None")
      case go: True
      then obtain p where p: "snd (ft_tasks f ! k) = Some p" by auto
      obtain r s out where r: "peer_step E now ev p (ft_inner f) = (r, s, out)" by (cases "peer_step E now ev p (ft_inner f)") auto
      have "inner_ok E s" using peer_step_step [OF r] assms by (simp add: inner_step_def fetch_ok_def)
      then show ?thesis using True go p r assms len [of k "ft_tasks f"]
        by (auto simp: fetch_turn_def x PeerDoes fetch_ok_def end_task_def Let_def split: option.split)
    next
      case False
      then show ?thesis using True assms by (auto simp: fetch_turn_def x PeerDoes)
    qed
  qed
qed (use assms in \<open>simp add: fetch_turn_def\<close>)

lemma queue_new_inner [simp]: "ft_inner (fold queue_new addrs f) = ft_inner f"
  by (induction addrs arbitrary: f) (simp_all add: queue_new_def)

lemma spawn_tasks_inner [simp]: "ft_inner (spawn_tasks f) = ft_inner f"
proof (induction f rule: spawn_tasks.induct)
  case (1 f)
  then show ?case by (cases "ft_queue f") (simp_all add: spawn_tasks.simps [of f])
qed

lemma fetch_body_size: "known_size (ft_inner (fetch_body deadline now f)) = known_size (ft_inner f)"
  by (simp add: fetch_body_def take_result_def known_size_def report_def Let_def split: option.split)

lemma fetch_turn_size:
  assumes "known_size (ft_inner f) = Some n"
  shows "known_size (ft_inner (fetch_turn E deadline x f)) = Some n"
proof (cases "ft_outcome f = None")
  case True
  obtain now inp where x: "x = (now, inp)" by fastforce
  show ?thesis
  proof (cases inp)
    case (PeerDoes k ev)
    show ?thesis
    proof (cases "k < length (ft_tasks f) \<and> snd (ft_tasks f ! k) \<noteq> None")
      case go: True
      then obtain p where p: "snd (ft_tasks f ! k) = Some p" by auto
      obtain r s out where r: "peer_step E now ev p (ft_inner f) = (r, s, out)" by (cases "peer_step E now ev p (ft_inner f)") auto
      have "known_size s = Some n" using peer_step_step [OF r] assms by (simp add: inner_step_def)
      then show ?thesis using True go p r by (simp add: fetch_turn_def x PeerDoes end_task_def Let_def split: option.split)
    next
      case False
      then show ?thesis using True assms by (auto simp: fetch_turn_def x PeerDoes)
    qed
  qed (use True assms in \<open>auto simp: fetch_turn_def x fetch_body_size end_task_def Let_def split: prod.split sum.split\<close>)
qed (use assms in \<open>simp add: fetch_turn_def\<close>)

section \<open>Properties\<close>

text \<open>C28. Metadata is believed only if its hash is right: whatever peers are found and whatever they send, in any
  interleaving of their tasks, bytes that the download returns have the info hash of the magnet link and an acceptable length; at
  most eight peers are talked to at a time, and no address is dialled twice.\<close>

theorem fetch_metadata_verified:
  "(case ft_outcome (fetch_metadata E deadline initial_peers inputs) of
      Some (Inr bs) \<Rightarrow> me_sha1 E bs = me_info_hash E \<and> bs \<noteq> [] \<and> length bs \<le> MAX_TORRENT_SIZE
    | _ \<Rightarrow> True)
   \<and> length (ft_tasks (fetch_metadata E deadline initial_peers inputs)) \<le> 8
   \<and> distinct (ft_dialed (fetch_metadata E deadline initial_peers inputs))"
proof -
  have "fetch_ok E (fold (fetch_turn E deadline) inputs f)" if "fetch_ok E f" for f
    using that by (induction inputs arbitrary: f) (simp_all add: fetch_turn_ok)
  from this [OF fetch_start_ok] have "fetch_ok E (fetch_metadata E deadline initial_peers inputs)"
    by (simp add: fetch_metadata_def)
  then show ?thesis by (auto simp: fetch_ok_def MAX_PARALLEL_PEERS_def split: option.split sum.split)
qed

subsection \<open>An honest peer\<close>

fun peer_run :: "meta_env \<Rightarrow> instant \<Rightarrow> peer_event list \<Rightarrow> meta_peer \<Rightarrow> meta_inner \<Rightarrow> meta_peer option \<times> meta_inner \<times> bytes list" where
  "peer_run E now [] p s = (Some p, s, [])"
| "peer_run E now (ev # evs) p s =
     (case peer_step E now ev p s of
        (None, s', out) \<Rightarrow> (None, s', out)
      | (Some p', s', out) \<Rightarrow> (let (r, s'', out') = peer_run E now evs p' s' in (r, s'', out @ out')))"

lemma header_bytes_bencode:
  "header_bytes t piece = bencode (BDict [(ascii ''msg_type'', BInt (int (unat t))), (ascii ''piece'', BInt (int piece))])"
  by (simp add: header_bytes_def ascii_def bencode_BDict bencode_str_def dec_int_def dec_digits.simps)

lemma length_dec_digits: "length (dec_digits n) \<le> n + 1"
proof (induction n rule: dec_digits.induct)
  case (1 n)
  then show ?case by (auto simp: dec_digits.simps [of n])
qed

lemma header_len:
  assumes "unat t \<le> 2" "piece < 2 ^ 32" "length dat \<le> 2 ^ 32"
  shows "bencode_value_len (header_bytes t piece @ dat) = Inr (length (header_bytes t piece))"
proof -
  have "length (header_bytes t piece @ dat) \<le> U64_MAX"
    using assms length_dec_digits [of "unat t"] length_dec_digits [of piece] by (simp add: header_bytes_def ascii_def U64_MAX_def)
  then show ?thesis unfolding header_bytes_bencode by (subst bencode_value_len_exact) (simp_all add: height.simps MAX_BENCODE_DEPTH_def)
qed

definition data_event :: "bytes \<Rightarrow> nat \<Rightarrow> peer_event" where
  "data_event D i = Recv True (Got (Extended LOCAL_UT_METADATA_ID (header_bytes MSG_DATA i @ chunk META_PIECE_SIZE D i)))"

definition collected :: "bytes \<Rightarrow> nat \<Rightarrow> meta_inner \<Rightarrow> bool" where
  "collected D k s \<longleftrightarrow> mi_in_flight s = {} \<and> mi_result s = None
     \<and> (\<exists>a. mi_assembler s = Some a \<and> ma.agrees (length D) D a \<and> ma_received_pieces a = {..<k})"

lemma honest_round:
  assumes c: "collected D k s" and k: "k < div_ceil (length D) META_PIECE_SIZE" and D: "length D \<le> MAX_TORRENT_SIZE"
    and h: "me_sha1 E D = me_info_hash E" and de: "me_de_header E (header_bytes MSG_DATA k) = Some \<lparr>mh_msg_type = MSG_DATA, mh_piece = k\<rparr>"
    and p: "mp_remote_id p = Some rid" "mp_claimed p = None"
  shows "\<exists>p' s'. peer_run E now (Ask True # data_event D k # evs) p s =
      (let (r, s'', out) = peer_run E now evs p' s' in (r, s'', send_extended rid (header_bytes MSG_REQUEST k) # out))
    \<and> mp_remote_id p' = Some rid \<and> mp_claimed p' = None
    \<and> (if Suc k = div_ceil (length D) META_PIECE_SIZE then mi_result s' = Some D else collected D (Suc k) s')"
proof -
  let ?n = "div_ceil (length D) META_PIECE_SIZE" and ?d = "chunk META_PIECE_SIZE D k"
  obtain a where a: "mi_assembler s = Some a" "ma.agrees (length D) D a" "ma_received_pieces a = {..<k}" "mi_in_flight s = {}" "mi_result s = None"
    using c by (auto simp: collected_def)
  then have w: "ma_wf a" "ma_metadata_size a = length D" by (simp_all add: ma.agrees_def)
  then have n: "ma_total_pieces a = ?n" by (simp add: ma_wf_def)
  have "find (\<lambda>i. \<not> i < k) [0..<?n] = Some k" using k by (simp add: find_upt_Some_iff)
  then have claim: "claim_piece s = Some (k, s\<lparr>mi_in_flight := {k}\<rparr>)"
    using a n by (simp add: claim_piece_def ma_next_piece_where_def)
  let ?p = "p\<lparr>mp_claimed := Some k, mp_requested_at := now\<rparr>" and ?s = "s\<lparr>mi_in_flight := {k}\<rparr>"
  have ask: "peer_step E now (Ask True) p s = (Some ?p, ?s, [send_extended rid (header_bytes MSG_REQUEST k)])"
    using a(5) p claim by (simp add: peer_step_def peer_ask_def meta_is_done_def)
  have "?n < 2 ^ 32" by (rule meta_total_small [OF D])
  then have len: "bencode_value_len (header_bytes MSG_DATA k @ ?d) = Inr (length (header_bytes MSG_DATA k))"
    using k by (intro header_len) (simp_all add: MSG_DATA_def chunk_len_def META_PIECE_SIZE_def)
  let ?a = "ma_deliver k ?d a"
  have add: "ma_add_piece k ?d a = (Inr (Suc k = ?n), ?a)"
  proof -
    have "fst (ma_add_piece k ?d a) = Inr (insert k {..<k} = {..<?n})" using k w n a(3) by (simp add: ma_add_piece_eq)
    moreover have "insert k {..<k} = {..<Suc k}" by auto
    ultimately show ?thesis by (simp add: ma_deliver_def prod_eq_iff)
  qed
  have ag: "ma.agrees (length D) D ?a" by (rule ma.add_agrees [OF refl a(2) k])
  have got: "ma_received_pieces ?a = {..<Suc k}" using ma.add_got [of a "length D" k ?d] w k a(3) by (simp add: lessThan_Suc)
  have buf: "ma_buffer ?a = D" if "Suc k = ?n" using ma.complete_eq [OF refl ag] got that by simp
  define s' where "s' = ?s\<lparr>mi_in_flight := {}, mi_assembler := Some ?a, mi_result := (if Suc k = ?n then Some D else None)\<rparr>"
  have "meta_add_piece E k ?d ?s = (None, s')"
    using a(1,5) add buf h by (auto simp: meta_add_piece_def release_piece_def s'_def split: bool.split)
  then have recv: "peer_step E now (data_event D k) ?p ?s = (Some (?p\<lparr>mp_claimed := None\<rparr>), s', [])"
    using de len by (simp add: peer_step_def data_event_def peer_recv_def on_metadata_def LOCAL_UT_METADATA_ID_def)
  have "if Suc k = ?n then mi_result s' = Some D else collected D (Suc k) s'"
    using ag got by (simp add: s'_def collected_def)
  then show ?thesis using ask recv p(1)
    by (intro exI [of _ "?p\<lparr>mp_claimed := None\<rparr>"] exI [of _ s']) (simp add: split_beta Let_def)
qed

lemma honest_rounds:
  assumes D: "length D \<le> MAX_TORRENT_SIZE" and h: "me_sha1 E D = me_info_hash E"
    and de: "\<And>i. i < div_ceil (length D) META_PIECE_SIZE \<Longrightarrow> me_de_header E (header_bytes MSG_DATA i) = Some \<lparr>mh_msg_type = MSG_DATA, mh_piece = i\<rparr>"
  shows "collected D k s \<Longrightarrow> Suc k + m = div_ceil (length D) META_PIECE_SIZE \<Longrightarrow> mp_remote_id p = Some rid \<Longrightarrow> mp_claimed p = None \<Longrightarrow>
    \<exists>p' s'. peer_run E now (concat (map (\<lambda>i. [Ask True, data_event D i]) [k..<Suc k + m])) p s
      = (Some p', s', map (\<lambda>i. send_extended rid (header_bytes MSG_REQUEST i)) [k..<Suc k + m]) \<and> mi_result s' = Some D"
proof (induction m arbitrary: k p s)
  case 0
  have u: "[k..<Suc k + 0] = [k]" by simp
  from honest_round [OF 0(1) _ D h de 0(3,4), of now "[]"] 0(2) de [of k]
  show ?case unfolding u by (auto simp del: peer_run.simps(2))
next
  case (Suc m)
  have u: "[k..<Suc k + Suc m] = k # [Suc k..<Suc (Suc k) + m]" by (simp add: upt_conv_Cons)
  let ?evs = "concat (map (\<lambda>i. [Ask True, data_event D i]) [Suc k..<Suc (Suc k) + m])"
  obtain p1 s1 where r: "peer_run E now (Ask True # data_event D k # ?evs) p s =
      (let (r, s'', out) = peer_run E now ?evs p1 s1 in (r, s'', send_extended rid (header_bytes MSG_REQUEST k) # out))"
    "mp_remote_id p1 = Some rid" "mp_claimed p1 = None" "collected D (Suc k) s1"
    using honest_round [OF Suc.prems(1) _ D h de Suc.prems(3,4), of now ?evs] Suc.prems(2) by auto
  have "\<exists>p' s'. peer_run E now ?evs p1 s1
      = (Some p', s', map (\<lambda>i. send_extended rid (header_bytes MSG_REQUEST i)) [Suc k..<Suc (Suc k) + m]) \<and> mi_result s' = Some D"
    by (rule Suc.IH) (use r Suc.prems(2) in simp_all)
  then show ?case using r(1) unfolding u by (auto simp del: upt_Suc)
qed

text \<open>C29. One honest peer is enough: a peer that announces the right size and answers every request with the piece it was asked
  for makes the download complete with exactly the info dictionary, after one request for each piece, in order.\<close>

theorem honest_peer_completes:
  assumes "D \<noteq> []" "length D \<le> MAX_TORRENT_SIZE" "me_sha1 E D = me_info_hash E"
    and "list_all (\<lambda>i. me_de_header E (header_bytes MSG_DATA i) = Some \<lparr>mh_msg_type = MSG_DATA, mh_piece = i\<rparr>) [0..<n]"
    and "check_bencode_depth hs = Inr ()" "me_de_handshake E hs = Some \<lparr>eh_m = [(lit ''ut_metadata'', rid)], eh_metadata_size = Some (length D)\<rparr>" "rid \<noteq> 0"
    and "n = div_ceil (length D) META_PIECE_SIZE"
  shows "\<exists>p s. peer_run E now (Recv True (Got (Extended 0 hs)) # concat (map (\<lambda>i. [Ask True, data_event D i]) [0..<n])) (peer_new now) inner_default
      = (Some p, s, map (\<lambda>i. send_extended rid (header_bytes MSG_REQUEST i)) [0..<n])
    \<and> take_result s = (Some D, s\<lparr>mi_result := None\<rparr>)"
proof -
  obtain a where a: "ma_new (length D) = Inr a" using assms(1,2) by (simp add: ma_new_def)
  let ?s = "inner_default\<lparr>mi_assembler := Some a\<rparr>" and ?p = "(peer_new now)\<lparr>mp_remote_id := Some rid\<rparr>"
  have hs: "peer_step E now (Recv True (Got (Extended 0 hs))) (peer_new now) inner_default = (Some ?p, ?s, [])"
    using assms(5,6,7) a by (simp add: peer_step_def peer_recv_def on_ext_handshake_def init_size_def inner_default_def)
  have de: "i < div_ceil (length D) META_PIECE_SIZE \<Longrightarrow> me_de_header E (header_bytes MSG_DATA i) = Some \<lparr>mh_msg_type = MSG_DATA, mh_piece = i\<rparr>" for i
    using assms(4,8) by (simp add: list_all_iff)
  have "0 < n" using assms(1,8) by (simp add: less_div_ceil_iff)
  then obtain m where m: "n = Suc 0 + m" by (cases n) auto
  have "\<exists>p' s'. peer_run E now (concat (map (\<lambda>i. [Ask True, data_event D i]) [0..<Suc 0 + m])) ?p ?s
      = (Some p', s', map (\<lambda>i. send_extended rid (header_bytes MSG_REQUEST i)) [0..<Suc 0 + m]) \<and> mi_result s' = Some D"
  proof (rule honest_rounds [OF assms(2,3) de])
    show "collected D 0 ?s" using ma_new_Inr [OF a] by (simp add: collected_def inner_default_def ma.agrees_def)
  qed (use m assms(8) in \<open>simp_all add: peer_new_def\<close>)
  then show ?thesis unfolding m by (auto simp: hs take_result_def simp del: upt_Suc)
qed

definition demo_env :: meta_env where
  "demo_env = \<lparr>me_sha1 = (\<lambda>bs. if bs = [1, 2, 3] then replicate 20 7 else []),
     me_ser_handshake = (\<lambda>d. Some []),
     me_de_handshake = (\<lambda>bs. Some \<lparr>eh_m = [(lit ''ut_metadata'', 3)], eh_metadata_size = Some (if bs = [100, 101] then 3 else 9)\<rparr>),
     me_de_header = (\<lambda>bs. if bs = header_bytes MSG_DATA 0 then Some \<lparr>mh_msg_type = MSG_DATA, mh_piece = 0\<rparr> else None),
     me_info_hash = replicate 20 7, me_peer_id = replicate 20 1\<rparr>"

theorem honest_peer_completes_witness:
  "\<exists>p s. peer_run demo_env 0 (Recv True (Got (Extended 0 [100, 101])) # concat (map (\<lambda>i. [Ask True, data_event [1, 2, 3] i]) [0..<1])) (peer_new 0) inner_default
      = (Some p, s, [send_extended 3 (header_bytes MSG_REQUEST 0)]) \<and> take_result s = (Some [1, 2, 3], s\<lparr>mi_result := None\<rparr>)"
proof -
  have "\<exists>p s. peer_run demo_env 0 (Recv True (Got (Extended 0 [100, 101])) # concat (map (\<lambda>i. [Ask True, data_event [1, 2, 3] i]) [0..<1])) (peer_new 0) inner_default
      = (Some p, s, map (\<lambda>i. send_extended 3 (header_bytes MSG_REQUEST i)) [0..<1]) \<and> take_result s = (Some [1, 2, 3], s\<lparr>mi_result := None\<rparr>)"
  proof (rule honest_peer_completes)
    show "check_bencode_depth [100, 101] = Inr ()"
      by (simp add: check_bencode_depth_def check_loop.simps U64_MAX_def MAX_BENCODE_DEPTH_def)
  qed (simp_all add: demo_env_def MAX_TORRENT_SIZE_def div_ceil_def META_PIECE_SIZE_def)
  then show ?thesis by simp
qed

text \<open>A request that cannot be sent strands its piece. \<open>claim_piece\<close> marks the piece before the request is sent, and the
  task remembers the claim only afterwards; when sending fails the task ends without releasing it. With metadata of a single
  piece no other peer, however willing, is ever asked again.\<close>

theorem failed_request_strands_piece:
  assumes "mi_assembler s = Some a" "ma_total_pieces a = 1" "ma_received_pieces a = {}" "mi_in_flight s = {}" "mi_result s = None"
    and "mp_remote_id p = Some rid" "mp_claimed p = None" "mp_remote_id q = Some rid'" "mp_claimed q = None"
    and "peer_step E now (Ask False) p s = (r, s', out)"
  shows "r = None \<and> out = [] \<and> (\<forall>later. peer_step E later (Ask True) q s' = (Some q, s', []) \<and> peer_step E later (Recv True Silence) q s' = (Some q, s', []))"
proof -
  have "claim_piece s = Some (0, s\<lparr>mi_in_flight := {0}\<rparr>)"
    using assms(1-4) by (simp add: claim_piece_def ma_next_piece_where_def)
  then have s': "r = None" "out = []" "s' = s\<lparr>mi_in_flight := {0}\<rparr>"
    using assms(5-7,10) by (auto simp: peer_step_def peer_ask_def meta_is_done_def peer_close_def)
  moreover have "claim_piece s' = None" using assms(1-3) s'(3) by (simp add: claim_piece_def ma_next_piece_where_def)
  ultimately show ?thesis using assms(5,8,9) by (simp add: peer_step_def peer_ask_def peer_recv_def meta_is_done_def)
qed

theorem failed_request_strands_piece_witness:
  "\<exists>a s'. ma_new 3 = Inr a \<and> peer_step demo_env 0 (Ask False) ((peer_new 0)\<lparr>mp_remote_id := Some 3\<rparr>) (inner_default\<lparr>mi_assembler := Some a\<rparr>) = (None, s', [])
     \<and> peer_step demo_env 100 (Ask True) ((peer_new 0)\<lparr>mp_remote_id := Some 3\<rparr>) s' = (Some ((peer_new 0)\<lparr>mp_remote_id := Some 3\<rparr>), s', [])"
proof -
  obtain a where a: "ma_new 3 = Inr a" "ma_total_pieces a = 1" "ma_received_pieces a = {}"
    by (simp add: ma_new_def MAX_TORRENT_SIZE_def div_ceil_def META_PIECE_SIZE_def as_u32_def)
  let ?p = "(peer_new 0)\<lparr>mp_remote_id := Some 3\<rparr>" and ?s = "inner_default\<lparr>mi_assembler := Some a\<rparr>"
  obtain r s' out where r: "peer_step demo_env 0 (Ask False) ?p ?s = (r, s', out)" by (cases "peer_step demo_env 0 (Ask False) ?p ?s") auto
  have "r = None \<and> out = [] \<and> (\<forall>later. peer_step demo_env later (Ask True) ?p s' = (Some ?p, s', []) \<and> peer_step demo_env later (Recv True Silence) ?p s' = (Some ?p, s', []))"
    by (rule failed_request_strands_piece [OF _ a(2,3) _ _ _ _ _ _ r]) (simp_all add: inner_default_def peer_new_def)
  then show ?thesis using a(1) r by blast
qed

text \<open>The first announced size stays: once a peer has announced a size, a peer that announces another one is turned away
  for the rest of the download, also when the first size was a lie and every attempt to assemble the metadata has failed.\<close>

theorem first_size_stays:
  assumes "known_size (ft_inner (fetch_metadata E deadline initial_peers inputs)) = Some n" "m \<noteq> n"
  shows "init_size m (ft_inner (fetch_metadata E deadline initial_peers (inputs @ rest))) = Inl DifferentSize"
proof -
  have "known_size (ft_inner (fold (fetch_turn E deadline) rest f)) = Some n" if "known_size (ft_inner f) = Some n" for f
    using that by (induction rest arbitrary: f) (simp_all add: fetch_turn_size)
  from this [OF assms(1)] have "known_size (ft_inner (fetch_metadata E deadline initial_peers (inputs @ rest))) = Some n"
    by (simp add: fetch_metadata_def)
  then show ?thesis using assms(2) by (auto simp: init_size_def known_size_def)
qed

definition demo_handshake :: bytes where
  "demo_handshake = handshake_as_bytes (handshake_new (replicate 20 7) (replicate 20 2))"

definition demo_inputs :: "(instant \<times> fetch_input) list" where
  "demo_inputs = [(0, Tick), (0, Opened 0 True (Incoming demo_handshake)), (0, PeerDoes 0 (Recv True (Got (Extended 0 [108, 101]))))]"

lemma demo_size: "known_size (ft_inner (fetch_metadata demo_env 1000 [V4 [10, 0, 0, 1] 6881] demo_inputs)) = Some 9"
proof -
  have wf: "handshake_wf (handshake_new (replicate 20 7) (replicate 20 2))" by (simp add: handshake_wf_def handshake_new_def)
  have hs: "handshake_from_bytes demo_handshake = Inr (handshake_new (replicate 20 7) (replicate 20 2))"
    unfolding demo_handshake_def by (rule handshake_parse_print [OF wf])
  have ext: "supports_extension_protocol (handshake_new (replicate 20 7) (replicate 20 2))"
    by (simp add: supports_extension_protocol_def handshake_new_def)
  have f: "hs_info_hash (handshake_new (replicate 20 7) (replicate 20 2)) = replicate 20 7" "hs_peer_id (handshake_new (replicate 20 7) (replicate 20 2)) = replicate 20 2"
    by (simp_all add: handshake_new_def)
  have r: "replicate 20 (2 :: byte) \<noteq> replicate 20 1" by (simp add: numeral_eq_Suc)
  have o: "\<exists>out. peer_open demo_env 0 True (Incoming demo_handshake) = (Inr (peer_new 0), out)"
    using hs ext f r by (simp add: peer_open_def demo_env_def)
  have d: "check_bencode_depth [108, 101] = Inr ()"
    by (simp add: check_bencode_depth_def check_loop.simps U64_MAX_def MAX_BENCODE_DEPTH_def)
  let ?a = "V4 [10, 0, 0, 1] 6881"
  have s0: "fetch_start [?a] = \<lparr>ft_queue = [?a], ft_seen = {?a}, ft_tasks = [], ft_unjoined = 0, ft_inner = inner_default, ft_reported = 0,
     ft_dialed = [], ft_sent = [], ft_status = [], ft_outcome = None\<rparr>" by (simp add: fetch_start_def queue_new_def)
  let ?f1 = "\<lparr>ft_queue = [], ft_seen = {?a}, ft_tasks = [(?a, None)], ft_unjoined = 0, ft_inner = inner_default, ft_reported = 0,
     ft_dialed = [?a], ft_sent = [], ft_status = [], ft_outcome = None\<rparr>"
  have sp: "spawn_tasks (fetch_start [?a]) = ?f1"
    unfolding s0 by (subst spawn_tasks.simps, simp add: MAX_PARALLEL_PEERS_def, subst spawn_tasks.simps, simp)
  have t1: "fetch_turn demo_env 1000 (0, Tick) (fetch_start [?a]) = ?f1"
    using sp by (simp add: fetch_turn_def fetch_body_def take_result_def report_def s0 inner_default_def)
  obtain out where t2: "fetch_turn demo_env 1000 (0, Opened 0 True (Incoming demo_handshake)) ?f1
      = ?f1\<lparr>ft_tasks := [(?a, Some (peer_new 0))], ft_sent := out\<rparr>"
    using o by (auto simp: fetch_turn_def Let_def)
  have t3: "known_size (ft_inner (fetch_turn demo_env 1000 (0, PeerDoes 0 (Recv True (Got (Extended 0 [108, 101]))))
      (?f1\<lparr>ft_tasks := [(?a, Some (peer_new 0))], ft_sent := out\<rparr>))) = Some 9"
    using d by (simp add: fetch_turn_def inner_default_def peer_step_def peer_recv_def on_ext_handshake_def init_size_def demo_env_def ma_new_def
      MAX_TORRENT_SIZE_def known_size_def Let_def)
  show ?thesis unfolding fetch_metadata_def demo_inputs_def fold.simps comp_def id_def t1 t2 by (rule t3)
qed

theorem first_size_stays_witness:
  "init_size 3 (ft_inner (fetch_metadata demo_env 1000 [V4 [10, 0, 0, 1] 6881] (demo_inputs @ [(5, Tick)]))) = Inl DifferentSize"
  by (rule first_size_stays [OF demo_size]) simp

end
