(* ===== verification/Swarm.thy ===== *)
theory Swarm
  imports Tracker DhtServer SessionSafety
begin

text \<open>
  The swarm of one torrent, \<open>net/swarm.rs\<close>: which peers are dialled, which are dropped, and when the trackers are asked again. The tasks it
  starts are effects; their events are inputs. Status lines for the user interface are left out. \<open>swarm_tasks_step\<close> puts the swarm and the tasks of its
  sessions together.
\<close>

definition MAX_ACTIVE_PEERS :: nat where "MAX_ACTIVE_PEERS = 30"
definition PEER_IDLE_TIMEOUT_SECS :: nat where "PEER_IDLE_TIMEOUT_SECS = 300"
definition MAX_QUEUED_PEERS :: nat where "MAX_QUEUED_PEERS = 2000"
definition PEER_THRESHOLD :: nat where "PEER_THRESHOLD = 5"
definition MIN_ANNOUNCE_INTERVAL :: duration where "MIN_ANNOUNCE_INTERVAL = secs 30"

record active_peer =
  av_downloaded_bytes :: nat
  av_last_progress :: instant

record swarm_state =
  st_last_announce :: "instant option"
  st_announce_in_progress :: bool
  st_tracker_urls :: "rstring list"
  st_info_hash :: bytes
  st_peer_id :: bytes
  st_listen_port :: nat
  st_left_hint :: nat
  st_event :: "rstring option"

record swarm =
  sm_available :: "socket_addr list"
  sm_active :: "(socket_addr \<times> active_peer) list"
  sm_state :: swarm_state

record swarm_io =
  wi_now :: instant
  wi_uploaded :: nat
  wi_downloaded :: nat

datatype swarm_out =
    Dial socket_addr
  | AbortPeer socket_addr
  | StartAnnounce instant bool announce_params
  | SnapshotPeers "socket_addr list"
  | UnregisterTorrent bytes
  | StoppedAnnounce announce_params

section \<open>Announcing\<close>

definition left_bytes :: "swarm_state \<Rightarrow> swarm_io \<Rightarrow> nat" where
  "left_bytes st io = (if st_event st = Some (lit ''completed'') then 0 else st_left_hint st - wi_downloaded io)"

definition announce_params_of :: "swarm_state \<Rightarrow> swarm_io \<Rightarrow> rstring option \<Rightarrow> announce_params" where
  "announce_params_of st io event =
     \<lparr>ap_info_hash = st_info_hash st, ap_peer_id = st_peer_id st, ap_port = st_listen_port st, ap_uploaded = wi_uploaded io,
      ap_downloaded = wi_downloaded io, ap_left = left_bytes st io, ap_event = event\<rparr>"

definition should_reannounce :: "swarm_state \<Rightarrow> instant \<Rightarrow> nat \<Rightarrow> nat \<Rightarrow> bool" where
  "should_reannounce st now available_len active_len \<longleftrightarrow>
     (if st_tracker_urls st = [] \<or> st_announce_in_progress st then False
      else if available_len \<ge> PEER_THRESHOLD \<and> active_len \<ge> PEER_THRESHOLD then False
      else case st_last_announce st of None \<Rightarrow> True | Some t \<Rightarrow> now - t \<ge> MIN_ANNOUNCE_INTERVAL)"

text \<open>The flag tells whether the end of the download forced the announcement.\<close>

definition start_reannounce :: "bool \<Rightarrow> swarm_io \<Rightarrow> swarm_state \<Rightarrow> swarm_state \<times> swarm_out list" where
  "start_reannounce forced io st =
     (st\<lparr>st_announce_in_progress := True, st_last_announce := Some (wi_now io)\<rparr>,
      [StartAnnounce (wi_now io) forced (announce_params_of st io (st_event st))])"

section \<open>Peers\<close>

definition dialable :: "socket_addr \<Rightarrow> bool" where
  "dialable addr \<longleftrightarrow> port_of addr \<noteq> 0 \<and> \<not> is_unspecified addr \<and> \<not> is_multicast addr"

fun enqueue_peers :: "(socket_addr \<times> active_peer) list \<Rightarrow> socket_addr list \<Rightarrow> socket_addr list \<Rightarrow> socket_addr list" where
  "enqueue_peers active queue [] = queue"
| "enqueue_peers active queue (addr # addrs) =
     (if length queue \<ge> MAX_QUEUED_PEERS then queue
      else if \<not> dialable addr \<or> addr \<in> fst ` set active \<or> addr \<in> set queue then enqueue_peers active queue addrs
      else enqueue_peers active (queue @ [addr]) addrs)"

definition is_idle :: "instant \<Rightarrow> active_peer \<Rightarrow> bool" where
  "is_idle now p \<longleftrightarrow> (now - av_last_progress p) div secs 1 > PEER_IDLE_TIMEOUT_SECS"

fun dial_loop :: "instant \<Rightarrow> (socket_addr \<times> active_peer) list \<Rightarrow> socket_addr list
    \<Rightarrow> (socket_addr \<times> active_peer) list \<times> socket_addr list \<times> swarm_out list" where
  "dial_loop now active [] = (active, [], [])"
| "dial_loop now active (addr # queue) =
     (if length active < MAX_ACTIVE_PEERS then
        if addr \<in> fst ` set active then dial_loop now active queue
        else (let (a, q, out) = dial_loop now (active @ [(addr, \<lparr>av_downloaded_bytes = 0, av_last_progress = now\<rparr>)]) queue
              in (a, q, Dial addr # out))
      else (active, addr # queue, []))"

definition swarm_tick :: "instant \<Rightarrow> swarm \<Rightarrow> swarm \<times> swarm_out list" where
  "swarm_tick now s =
     (let expired = map fst (filter (\<lambda>x. is_idle now (snd x)) (sm_active s));
          (active, queue, out) = dial_loop now (filter (\<lambda>x. \<not> is_idle now (snd x)) (sm_active s)) (sm_available s)
      in (s\<lparr>sm_active := active, sm_available := queue\<rparr>, map AbortPeer expired @ out))"

section \<open>The loop\<close>

definition enqueue :: "socket_addr list \<Rightarrow> swarm \<Rightarrow> swarm" where
  "enqueue addrs s = s\<lparr>sm_available := enqueue_peers (sm_active s) (sm_available s) addrs\<rparr>"

fun on_swarm_event :: "instant \<Rightarrow> swarm_event \<Rightarrow> swarm \<Rightarrow> swarm" where
  "on_swarm_event now (PeerProgress addr delta) s =
     s\<lparr>sm_active := map (\<lambda>x. if fst x = addr
        then (addr, \<lparr>av_downloaded_bytes = saturating_add U64_MAX (av_downloaded_bytes (snd x)) delta, av_last_progress = now\<rparr>) else x) (sm_active s)\<rparr>"
| "on_swarm_event now (PeerExited addr) s = s\<lparr>sm_active := filter (\<lambda>x. fst x \<noteq> addr) (sm_active s)\<rparr>"
| "on_swarm_event now (TrackerPeersReceived addrs) s =
     enqueue addrs (s\<lparr>sm_state := (sm_state s)\<lparr>st_announce_in_progress := False, st_event := None\<rparr>\<rparr>)"
| "on_swarm_event now (PexPeersReceived addrs) s = enqueue addrs s"
| "on_swarm_event now (DhtPeersReceived addrs) s = enqueue addrs s"
| "on_swarm_event now (TrackerAnnounceFailed err) s = s\<lparr>sm_state := (sm_state s)\<lparr>st_announce_in_progress := False\<rparr>\<rparr>"

datatype swarm_input =
    SwarmShutdown
  | SwarmEv swarm_event
  | PexTick
  | SessionEv session_event
  | SwarmTick

definition on_session_event :: "swarm_io \<Rightarrow> session_event \<Rightarrow> swarm \<Rightarrow> swarm \<times> swarm_out list" where
  "on_session_event io ev s =
     (case ev of
        EvDownloadComplete \<Rightarrow>
          (let (st, out) = start_reannounce True io ((sm_state s)\<lparr>st_event := Some (lit ''completed''), st_left_hint := 0\<rparr>)
           in (s\<lparr>sm_state := st\<rparr>, out))
      | _ \<Rightarrow> (s, []))"

definition on_input :: "swarm_io \<Rightarrow> swarm_input \<Rightarrow> swarm \<Rightarrow> swarm \<times> swarm_out list" where
  "on_input io inp s =
     (case inp of
        SwarmEv ev \<Rightarrow> (on_swarm_event (wi_now io) ev s, [])
      | PexTick \<Rightarrow> (s, if sm_active s \<noteq> [] then [SnapshotPeers (map fst (sm_active s))] else [])
      | SessionEv ev \<Rightarrow> on_session_event io ev s
      | SwarmTick \<Rightarrow> swarm_tick (wi_now io) s
      | SwarmShutdown \<Rightarrow> (s, []))"

text \<open>One round of the loop that is not the last.\<close>

definition swarm_round :: "swarm_io \<Rightarrow> swarm_input \<Rightarrow> swarm \<Rightarrow> swarm \<times> swarm_out list" where
  "swarm_round io inp s0 =
     (let (s, out) = on_input io inp s0
      in if should_reannounce (sm_state s) (wi_now io) (length (sm_available s)) (length (sm_active s))
         then let (st, out') = start_reannounce False io (sm_state s) in (s\<lparr>sm_state := st\<rparr>, out @ out')
         else (s, out))"

definition swarm_stop :: "swarm_io \<Rightarrow> swarm \<Rightarrow> swarm_out list" where
  "swarm_stop io s =
     map AbortPeer (map fst (sm_active s)) @ [UnregisterTorrent (st_info_hash (sm_state s))]
     @ (if st_tracker_urls (sm_state s) \<noteq> [] then [StoppedAnnounce (announce_params_of (sm_state s) io (Some (lit ''stopped'')))] else [])"

definition swarm_new :: "socket_addr list \<Rightarrow> rstring list \<Rightarrow> bytes \<Rightarrow> bytes \<Rightarrow> nat \<Rightarrow> nat \<Rightarrow> swarm" where
  "swarm_new available_peers tracker_urls info_hash peer_id port left_hint =
     \<lparr>sm_available = available_peers, sm_active = [],
      sm_state = \<lparr>st_last_announce = None, st_announce_in_progress = False, st_tracker_urls = tracker_urls, st_info_hash = info_hash,
        st_peer_id = peer_id, st_listen_port = port, st_left_hint = left_hint, st_event = Some (lit ''started'')\<rparr>\<rparr>"

fun run_swarm_manager :: "(swarm_io \<times> swarm_input) list \<Rightarrow> swarm \<Rightarrow> swarm \<times> swarm_out list" where
  "run_swarm_manager [] s = (s, [])"
| "run_swarm_manager ((io, inp) # rest) s =
     (if inp = SwarmShutdown then (s, swarm_stop io s)
      else let (s1, out1) = swarm_round io inp s; (s2, out2) = run_swarm_manager rest s1 in (s2, out1 @ out2))"

section \<open>Bounds\<close>

fun dialed :: "swarm_out list \<Rightarrow> socket_addr list" where
  "dialed [] = []"
| "dialed (Dial a # out) = a # dialed out"
| "dialed (_ # out) = dialed out"

fun announcements :: "swarm_out list \<Rightarrow> (instant \<times> bool \<times> announce_params) list" where
  "announcements [] = []"
| "announcements (StartAnnounce t forced p # out) = (t, forced, p) # announcements out"
| "announcements (_ # out) = announcements out"

lemma dialed_append [simp]: "dialed (xs @ ys) = dialed xs @ dialed ys"
  by (induction xs rule: dialed.induct) simp_all

lemma announcements_append [simp]: "announcements (xs @ ys) = announcements xs @ announcements ys"
  by (induction xs rule: announcements.induct) simp_all

lemma map_AbortPeer [simp]: "dialed (map AbortPeer xs) = []" "announcements (map AbortPeer xs) = []"
  by (induction xs) simp_all

lemma map_AbortPeer_comp [simp]: "dialed (map (AbortPeer \<circ> f) xs) = []" "announcements (map (AbortPeer \<circ> f) xs) = []"
  by (induction xs) simp_all

text \<open>The addresses an input delivers, and those a swarm may dial: the ones it was started with and the ones delivered to it that can be dialled.\<close>

fun delivers :: "swarm_input \<Rightarrow> socket_addr list" where
  "delivers (SwarmEv (TrackerPeersReceived addrs)) = addrs"
| "delivers (SwarmEv (PexPeersReceived addrs)) = addrs"
| "delivers (SwarmEv (DhtPeersReceived addrs)) = addrs"
| "delivers _ = []"

definition delivered :: "(swarm_io \<times> swarm_input) list \<Rightarrow> socket_addr set" where
  "delivered inputs = {a. dialable a \<and> (\<exists>x \<in> set inputs. a \<in> set (delivers (snd x)))}"

lemma delivered_simps [simp]:
  "delivered [] = {}" "delivered (x # xs) = {a. dialable a \<and> a \<in> set (delivers (snd x))} \<union> delivered xs"
  by (auto simp: delivered_def)

definition swarm_ok :: "nat \<Rightarrow> socket_addr set \<Rightarrow> swarm \<Rightarrow> bool" where
  "swarm_ok n known s \<longleftrightarrow> distinct (map fst (sm_active s)) \<and> length (sm_active s) \<le> MAX_ACTIVE_PEERS
     \<and> length (sm_available s) \<le> max n MAX_QUEUED_PEERS \<and> set (sm_available s) \<subseteq> known"

lemma swarm_ok_state [simp]: "swarm_ok n known (s\<lparr>sm_state := st\<rparr>) = swarm_ok n known s"
  by (simp add: swarm_ok_def)

lemma swarm_ok_mono: "swarm_ok n known s \<Longrightarrow> known \<subseteq> known' \<Longrightarrow> swarm_ok n known' s"
  by (auto simp: swarm_ok_def)

lemma enqueue_peers_ok:
  "length (enqueue_peers active queue addrs) \<le> max (length queue) MAX_QUEUED_PEERS"
  "set (enqueue_peers active queue addrs) \<subseteq> set queue \<union> {a. dialable a \<and> a \<in> set addrs}"
  by (induction active queue addrs rule: enqueue_peers.induct) auto

lemma enqueue_ok: "swarm_ok n known s \<Longrightarrow> swarm_ok n (known \<union> {a. dialable a \<and> a \<in> set addrs}) (enqueue addrs s)"
  using enqueue_peers_ok [of "sm_active s" "sm_available s" addrs] by (auto simp: swarm_ok_def enqueue_def)

lemma dial_loop_ok:
  "dial_loop now active queue = (a, q, out) \<Longrightarrow> distinct (map fst active) \<Longrightarrow> length active \<le> MAX_ACTIVE_PEERS \<Longrightarrow>
   distinct (map fst a) \<and> length a \<le> MAX_ACTIVE_PEERS \<and> length q \<le> length queue \<and> set q \<subseteq> set queue
     \<and> map fst a = map fst active @ dialed out \<and> set (dialed out) \<subseteq> set queue \<and> announcements out = []"
proof (induction now active queue arbitrary: a q out rule: dial_loop.induct)
  case (2 now active addr queue)
  show ?case
  proof (cases "length active < MAX_ACTIVE_PEERS \<and> addr \<notin> fst ` set active")
    case True
    let ?p = "(addr, \<lparr>av_downloaded_bytes = 0, av_last_progress = now\<rparr>)"
    obtain out' where o: "dial_loop now (active @ [?p]) queue = (a, q, out')" "out = Dial addr # out'"
      using "2.prems"(1) True by (auto split: prod.splits)
    have d: "distinct (map fst (active @ [?p]))" "length (active @ [?p]) \<le> MAX_ACTIVE_PEERS" using "2.prems"(2) True by auto
    have I: "distinct (map fst a) \<and> length a \<le> MAX_ACTIVE_PEERS \<and> length q \<le> length queue \<and> set q \<subseteq> set queue
       \<and> map fst a = map fst (active @ [?p]) @ dialed out' \<and> set (dialed out') \<subseteq> set queue \<and> announcements out' = []"
      by (rule "2.IH"(2) [OF _ _ o(1) d]) (use True in simp_all)
    have "map fst a = map fst active @ dialed out" "set (dialed out) \<subseteq> set (addr # queue)" "announcements out = []"
      "set q \<subseteq> set (addr # queue)" "length q \<le> length (addr # queue)" using I by (auto simp: o(2))
    then show ?thesis using I by (intro conjI) (elim conjE, assumption)+
  next
    case False
    show ?thesis
    proof (cases "length active < MAX_ACTIVE_PEERS")
      case True
      have "addr \<in> fst ` set active" "dial_loop now active queue = (a, q, out)" using True False "2.prems"(1) by auto
      from "2.IH"(1) [OF True this "2.prems"(2,3)] show ?thesis by (elim conjE, intro conjI) (assumption | simp add: subset_insertI2)+
    qed (use "2.prems" in auto)
  qed
qed auto

lemma swarm_tick_ok:
  assumes "swarm_ok n known s" "swarm_tick now s = (s', out)"
  shows "swarm_ok n known s' \<and> set (dialed out) \<subseteq> known \<and> announcements out = [] \<and> sm_state s' = sm_state s
    \<and> distinct (dialed out) \<and> (\<forall>a \<in> set (dialed out). a \<in> fst ` set (sm_active s) \<longrightarrow> AbortPeer a \<in> set out)"
proof -
  let ?act = "filter (\<lambda>x. \<not> is_idle now (snd x)) (sm_active s)"
  obtain a q o1 where d: "dial_loop now ?act (sm_available s) = (a, q, o1)" by (cases "dial_loop now ?act (sm_available s)") auto
  have out: "out = map AbortPeer (map fst (filter (\<lambda>x. is_idle now (snd x)) (sm_active s))) @ o1"
    "s' = s\<lparr>sm_active := a, sm_available := q\<rparr>"
    using assms(2) d by (simp_all add: swarm_tick_def Let_def)
  have "distinct (map fst ?act)" "length ?act \<le> MAX_ACTIVE_PEERS"
    using assms(1) le_trans [OF length_filter_le] by (auto simp: swarm_ok_def intro: distinct_map_filter)
  note D = dial_loop_ok [OF d this]
  have "distinct (map fst ?act @ dialed o1)" using D by metis
  then have "distinct (dialed o1)" "\<forall>x \<in> set (dialed o1). x \<notin> fst ` set ?act" by auto
  then have "\<forall>x \<in> set (dialed o1). x \<in> fst ` set (sm_active s) \<longrightarrow> AbortPeer x \<in> set out" unfolding out(1) by force
  moreover have "dialed out = dialed o1" "announcements out = announcements o1" by (simp_all add: out(1) del: map_map)
  moreover have "distinct (map fst a)" "length a \<le> MAX_ACTIVE_PEERS" "length q \<le> length (sm_available s)" "set q \<subseteq> set (sm_available s)"
    "set (dialed o1) \<subseteq> set (sm_available s)" using D by blast+
  then have "swarm_ok n known s' \<and> set (dialed o1) \<subseteq> known"
    using assms(1) unfolding swarm_ok_def out(2) by (simp add: subset_trans [of _ "set (sm_available s)"])
  ultimately show ?thesis using D \<open>distinct (dialed o1)\<close> by (simp add: out(2))
qed

lemma map_fst_progress: "map fst (map (\<lambda>x. if fst x = addr then (addr, f x) else x) xs) = map fst xs"
  by (induction xs) auto

lemma on_swarm_event_ok:
  "swarm_ok n known s \<Longrightarrow> swarm_ok n (known \<union> {a. dialable a \<and> a \<in> set (delivers (SwarmEv ev))}) (on_swarm_event now ev s)"
proof (induction now ev s rule: on_swarm_event.induct)
  case (1 now addr delta s)
  then show ?case by (simp add: swarm_ok_def map_fst_progress del: map_map)
next
  case (2 now addr s)
  then show ?case using le_trans [OF length_filter_le] by (auto simp: swarm_ok_def intro: distinct_map_filter)
next
  case (3 now addrs s)
  then show ?case by (simp add: enqueue_ok)
qed (simp_all add: enqueue_ok)

lemma swarm_round_ok:
  assumes "swarm_ok n known s" "swarm_round io inp s = (s', out)"
  shows "swarm_ok n (known \<union> {a. dialable a \<and> a \<in> set (delivers inp)}) s' \<and> set (dialed out) \<subseteq> known
    \<and> distinct (dialed out) \<and> (\<forall>a \<in> set (dialed out). a \<in> fst ` set (sm_active s) \<longrightarrow> AbortPeer a \<in> set out)"
proof -
  obtain s1 o1 where i: "on_input io inp s = (s1, o1)" by fastforce
  have "swarm_ok n (known \<union> {a. dialable a \<and> a \<in> set (delivers inp)}) s1 \<and> set (dialed o1) \<subseteq> known
    \<and> distinct (dialed o1) \<and> (\<forall>a \<in> set (dialed o1). a \<in> fst ` set (sm_active s) \<longrightarrow> AbortPeer a \<in> set o1)"
  proof (cases inp)
    case (SwarmEv ev)
    then show ?thesis using i on_swarm_event_ok [OF assms(1)] by (auto simp: on_input_def)
  next
    case SwarmTick
    then show ?thesis using i swarm_tick_ok [OF assms(1)] by (simp add: on_input_def)
  qed (use i assms(1) in \<open>auto simp: on_input_def on_session_event_def start_reannounce_def split: session_event.splits if_splits\<close>)
  then show ?thesis using assms(2) unfolding swarm_round_def i by (auto simp: start_reannounce_def split: if_splits)
qed

lemma run_swarm_ok:
  "run_swarm_manager inputs s0 = (s', out') \<Longrightarrow> swarm_ok n known s0 \<Longrightarrow>
   swarm_ok n (known \<union> delivered inputs) s' \<and> set (dialed out') \<subseteq> known \<union> delivered inputs"
proof (induction inputs s0 arbitrary: known s' out' rule: run_swarm_manager.induct)
  case (2 io inp rest s0)
  obtain s1 o1 where r: "swarm_round io inp s0 = (s1, o1)" by fastforce
  show ?case
  proof (cases "inp = SwarmShutdown")
    case True
    then show ?thesis using "2.prems" by (auto simp: swarm_stop_def intro: swarm_ok_mono split: if_splits)
  next
    case False
    obtain o2 where r2: "run_swarm_manager rest s1 = (s', o2)" "out' = o1 @ o2"
      using "2.prems"(1) False r by (auto split: prod.splits)
    note R = swarm_round_ok [OF "2.prems"(2) r]
    from "2.IH" [OF False r [symmetric] refl r2(1) R [THEN conjunct1]] R r2(2) show ?thesis by (auto simp: Un_assoc)
  qed
qed simp

text \<open>C30. The swarm stays bounded and dials only what it was given. Whatever peers trackers, the DHT and other peers report: at most 30 are connected at a time,
  no address twice, and the queue has at most 2000 (or as many as it was started with); every address that is dialled was there at the start, or can be
  dialled and was delivered by a tracker, the DHT or a peer; and no round dials an address twice, or one that is connected and is not dropped in that round.\<close>

theorem swarm_bounded:
  assumes "run_swarm_manager inputs (swarm_new available_peers tracker_urls info_hash peer_id port left_hint) = (s, out)"
  shows "distinct (map fst (sm_active s)) \<and> length (sm_active s) \<le> 30 \<and> length (sm_available s) \<le> max (length available_peers) 2000
    \<and> (\<forall>a \<in> set (dialed out). a \<in> set available_peers \<or> dialable a \<and> (\<exists>x \<in> set inputs. a \<in> set (delivers (snd x))))
    \<and> (\<forall>io inp s' out'. swarm_round io inp s = (s', out') \<longrightarrow> distinct (dialed out')
         \<and> (\<forall>a \<in> set (dialed out'). a \<in> fst ` set (sm_active s) \<longrightarrow> AbortPeer a \<in> set out'))"
proof -
  have "swarm_ok (length available_peers) (set available_peers) (swarm_new available_peers tracker_urls info_hash peer_id port left_hint)"
    by (simp add: swarm_ok_def swarm_new_def)
  note R = run_swarm_ok [OF assms this]
  have "distinct (dialed out') \<and> (\<forall>a \<in> set (dialed out'). a \<in> fst ` set (sm_active s) \<longrightarrow> AbortPeer a \<in> set out')"
    if "swarm_round io inp s = (s', out')" for io inp s' out'
    using swarm_round_ok [OF R [THEN conjunct1] that] by simp
  moreover have "a \<in> set available_peers \<or> dialable a \<and> (\<exists>x \<in> set inputs. a \<in> set (delivers (snd x)))" if "a \<in> set (dialed out)" for a
    using R that by (auto simp: delivered_def)
  ultimately show ?thesis using R by (simp add: swarm_ok_def MAX_ACTIVE_PEERS_def MAX_QUEUED_PEERS_def)
qed

definition demo_swarm_io :: swarm_io where
  "demo_swarm_io = \<lparr>wi_now = 0, wi_uploaded = 0, wi_downloaded = 0\<rparr>"

theorem swarm_bounded_witness:
  "\<exists>s out. run_swarm_manager [(demo_swarm_io, SwarmEv (DhtPeersReceived [V4 [10, 0, 0, 1] 6881, V4 [10, 0, 0, 2] 0])), (demo_swarm_io, SwarmTick)]
       (swarm_new [] [] [] [] 1 2) = (s, out)
     \<and> dialed out = [V4 [10, 0, 0, 1] 6881] \<and> length (sm_active s) \<le> 30"
proof -
  let ?inputs = "[(demo_swarm_io, SwarmEv (DhtPeersReceived [V4 [10, 0, 0, 1] 6881, V4 [10, 0, 0, 2] 0])), (demo_swarm_io, SwarmTick)]"
  obtain s out where r: "run_swarm_manager ?inputs (swarm_new [] [] [] [] 1 2) = (s, out)" by fastforce
  have "dialable (V4 [10, 0, 0, 1] 6881)" "\<not> dialable (V4 [10, 0, 0, 2] 0)"
    by (simp_all add: dialable_def is_unspecified_def)
  then have "dialed out = [V4 [10, 0, 0, 1] 6881]"
    using r by (auto simp: swarm_round_def on_input_def swarm_tick_def swarm_new_def MAX_ACTIVE_PEERS_def MAX_QUEUED_PEERS_def
        should_reannounce_def enqueue_def)
  then show ?thesis using r swarm_bounded [OF r] by blast
qed

section \<open>Announcements\<close>

text \<open>Two announcements follow each other after 30 seconds at the earliest, unless the end of the download forces the second.\<close>

fun spaced :: "instant option \<Rightarrow> (instant \<times> bool \<times> announce_params) list \<Rightarrow> bool" where
  "spaced prev [] = True"
| "spaced prev ((t, forced, p) # xs) =
     ((forced \<or> (case prev of None \<Rightarrow> True | Some t0 \<Rightarrow> t0 + secs 30 \<le> t)) \<and> spaced (Some t) xs)"

fun last_time :: "instant option \<Rightarrow> (instant \<times> bool \<times> announce_params) list \<Rightarrow> instant option" where
  "last_time prev [] = prev"
| "last_time prev ((t, _) # xs) = last_time (Some t) xs"

lemma spaced_append: "spaced prev (xs @ ys) \<longleftrightarrow> spaced prev xs \<and> spaced (last_time prev xs) ys"
  by (induction prev xs rule: spaced.induct) simp_all

lemma on_swarm_event_announce [simp]:
  "st_last_announce (sm_state (on_swarm_event now ev s)) = st_last_announce (sm_state s)"
  "st_tracker_urls (sm_state (on_swarm_event now ev s)) = st_tracker_urls (sm_state s)"
  by (cases ev; simp add: enqueue_def)+

lemma dial_loop_quiet: "announcements (snd (snd (dial_loop now active queue))) = []"
  by (induction now active queue rule: dial_loop.induct) (auto split: prod.splits)

lemma swarm_tick_quiet: "swarm_tick now s = (s', out) \<Longrightarrow> announcements out = [] \<and> sm_state s' = sm_state s"
  using dial_loop_quiet [of now "filter (\<lambda>x. \<not> is_idle now (snd x)) (sm_active s)" "sm_available s"]
  by (auto simp: swarm_tick_def Let_def split: prod.splits)

lemma on_input_announcements:
  assumes "on_input io inp s = (s1, o1)"
  shows "if inp = SessionEv EvDownloadComplete
     then \<exists>p. announcements o1 = [(wi_now io, True, p)] \<and> st_last_announce (sm_state s1) = Some (wi_now io) \<and> st_announce_in_progress (sm_state s1)
       \<and> ap_event p = Some (lit ''completed'') \<and> ap_left p = 0
     else announcements o1 = [] \<and> st_last_announce (sm_state s1) = st_last_announce (sm_state s)"
  using assms swarm_tick_quiet [of "wi_now io" s]
  by (auto simp: on_input_def on_session_event_def start_reannounce_def announce_params_of_def left_bytes_def split: swarm_input.splits session_event.splits if_splits)

lemma round_announcements:
  assumes "swarm_round io inp s = (s', out)"
  shows "spaced (st_last_announce (sm_state s)) (announcements out)
    \<and> st_last_announce (sm_state s') = last_time (st_last_announce (sm_state s)) (announcements out)"
proof -
  obtain s1 o1 where i: "on_input io inp s = (s1, o1)" by fastforce
  show ?thesis
  proof (cases "should_reannounce (sm_state s1) (wi_now io) (length (sm_available s1)) (length (sm_active s1))")
    case True
    then have "\<not> st_announce_in_progress (sm_state s1)" and due: "\<And>t. st_last_announce (sm_state s1) = Some t \<Longrightarrow> wi_now io - t \<ge> secs 30"
      by (auto simp: should_reannounce_def MIN_ANNOUNCE_INTERVAL_def split: if_splits)
    then have "announcements o1 = []" and l: "st_last_announce (sm_state s1) = st_last_announce (sm_state s)"
      using on_input_announcements [OF i] by (auto split: if_splits)
    moreover have "0 < secs 30" by (simp add: secs_def)
    moreover have "t + secs 30 \<le> wi_now io" if "st_last_announce (sm_state s) = Some t" for t
      using due [of t] l that \<open>0 < secs 30\<close> by auto
    ultimately show ?thesis using assms True unfolding swarm_round_def i
      by (auto simp: start_reannounce_def split: option.split)
  next
    case False
    then have "s' = s1" "out = o1" using assms by (auto simp: swarm_round_def i)
    then show ?thesis using on_input_announcements [OF i] by (auto split: if_splits)
  qed
qed

text \<open>Trackers are not flooded: in any run two announcements are at least 30 seconds apart, except that the end of
  the download is announced at once.\<close>

theorem announcements_spaced:
  "spaced None (announcements (snd (run_swarm_manager inputs (swarm_new available_peers tracker_urls info_hash peer_id port left_hint))))"
proof -
  have "spaced (st_last_announce (sm_state s)) (announcements (snd (run_swarm_manager inputs s)))" for s
  proof (induction inputs s rule: run_swarm_manager.induct)
    case (2 io inp rest s)
    obtain s1 o1 where r: "swarm_round io inp s = (s1, o1)" by fastforce
    show ?case
    proof (cases "inp = SwarmShutdown")
      case False
      then show ?thesis using "2.IH" [OF False r [symmetric] refl] round_announcements [OF r]
        by (simp add: r split_beta spaced_append)
    qed (simp add: swarm_stop_def)
  qed simp
  from this [of "swarm_new available_peers tracker_urls info_hash peer_id port left_hint"] show ?thesis by (simp add: swarm_new_def)
qed

lemma quiet_round:
  assumes "swarm_round io (SwarmEv ev) s = (s', out)" "st_event (sm_state (on_swarm_event (wi_now io) ev s)) = None"
  shows "st_event (sm_state s') = None \<and> list_all (\<lambda>x. ap_event (snd (snd x)) = None) (announcements out)"
  using assms by (auto simp: swarm_round_def on_input_def start_reannounce_def announce_params_of_def Let_def split: if_splits)

text \<open>C31. The completed event can get lost. An answer to an older announcement clears the event although the announcement of the
  completed download is still under way; if that one then fails, no later announcement says that the download is complete.\<close>

theorem completed_event_lost:
  assumes "run_swarm_manager [(io1, SessionEv EvDownloadComplete), (io2, SwarmEv (TrackerPeersReceived addrs)), (io3, SwarmEv (TrackerAnnounceFailed err))] s
    = (s', out)"
  shows "(\<exists>p rest. announcements out = (wi_now io1, True, p) # rest \<and> ap_event p = Some (lit ''completed'')
      \<and> list_all (\<lambda>x. ap_event (snd (snd x)) = None) rest) \<and> st_event (sm_state s') = None"
proof -
  have r1: "swarm_round io1 (SessionEv EvDownloadComplete) s = on_input io1 (SessionEv EvDownloadComplete) s"
    by (simp add: swarm_round_def on_input_def on_session_event_def start_reannounce_def should_reannounce_def)
  obtain s1 o1 where 1: "on_input io1 (SessionEv EvDownloadComplete) s = (s1, o1)" by fastforce
  obtain s2 o2 where 2: "swarm_round io2 (SwarmEv (TrackerPeersReceived addrs)) s1 = (s2, o2)" by fastforce
  obtain s3 o3 where 3: "swarm_round io3 (SwarmEv (TrackerAnnounceFailed err)) s2 = (s3, o3)" by fastforce
  have out: "s' = s3" "out = o1 @ o2 @ o3" using assms by (simp_all add: r1 1 2 3)
  have e2: "st_event (sm_state s2) = None \<and> list_all (\<lambda>x. ap_event (snd (snd x)) = None) (announcements o2)"
    by (rule quiet_round [OF 2]) (simp add: enqueue_def)
  have e3: "st_event (sm_state s3) = None \<and> list_all (\<lambda>x. ap_event (snd (snd x)) = None) (announcements o3)"
    by (rule quiet_round [OF 3]) (use e2 in simp)
  obtain p where "announcements o1 = [(wi_now io1, True, p)]" "ap_event p = Some (lit ''completed'')"
    using on_input_announcements [OF 1] by auto
  then show ?thesis using e2 e3 by (auto simp: out)
qed

theorem completed_event_lost_witness:
  "\<exists>s' out p rest. run_swarm_manager [(demo_swarm_io, SessionEv EvDownloadComplete), (demo_swarm_io, SwarmEv (TrackerPeersReceived [])),
      (demo_swarm_io, SwarmEv (TrackerAnnounceFailed []))] (swarm_new [] [lit ''udp://t:1''] [] [] 1 2) = (s', out)
    \<and> announcements out = (0, True, p) # rest \<and> ap_event p = Some (lit ''completed'') \<and> st_event (sm_state s') = None"
proof -
  obtain s' out where r: "run_swarm_manager [(demo_swarm_io, SessionEv EvDownloadComplete), (demo_swarm_io, SwarmEv (TrackerPeersReceived [])),
      (demo_swarm_io, SwarmEv (TrackerAnnounceFailed []))] (swarm_new [] [lit ''udp://t:1''] [] [] 1 2) = (s', out)" by fastforce
  have "wi_now demo_swarm_io = 0" by (simp add: demo_swarm_io_def)
  with completed_event_lost [OF r] r show ?thesis by fastforce
qed

section \<open>Aborted sessions\<close>

fun aborted :: "swarm_out list \<Rightarrow> socket_addr list" where
  "aborted [] = []"
| "aborted (AbortPeer a # out) = a # aborted out"
| "aborted (_ # out) = aborted out"

lemma aborted_map [simp]: "aborted (map AbortPeer xs) = xs"
  by (induction xs) simp_all

lemma aborted_append [simp]: "aborted (xs @ ys) = aborted xs @ aborted ys"
  by (induction xs rule: aborted.induct) simp_all














end
