(* ===== verification/Engine.thy ===== *)
theory Engine
  imports Wire Session "HOL-Library.AList"
begin

text \<open>
  The shared listeners, \<open>net/engine.rs\<close>, and the two ends of a connection: \<open>net/inbound.rs\<close> for peers that connect to the program and
  \<open>net/probe.rs\<close> for peers it dials. Whether a port can be bound, what the sockets deliver and which of the two
  transports is ready first is decided outside and is an argument. The bytes of the handshakes are modelled, TLS and QUIC are not.
\<close>

section \<open>Ports\<close>

definition next_port :: "nat \<Rightarrow> nat" where
  "next_port port = (if port = 0 then 0 else saturating_add 65535 port 2)"

datatype os_error = AddrInUse | OsOther

text \<open>A chain of calls with \<open>?\<close>: the outcomes of the calls in order, \<open>None\<close> for success.\<close>

fun first_error :: "os_error option list \<Rightarrow> os_error option" where
  "first_error [] = None"
| "first_error (None # rs) = first_error rs"
| "first_error (Some e # rs) = Some e"

text \<open>\<open>bind_tcp\<close> and the DHT's \<open>bind_socket\<close>: the calls on an IPv6 socket (\<open>new\<close>, \<open>set_only_v6\<close>, \<open>bind\<close>, \<dots>), then, if one failed for another reason than an occupied port,
  those on an IPv4 socket. The flag tells which socket it is.\<close>

definition bind_dual :: "os_error option list \<Rightarrow> os_error option list \<Rightarrow> os_error + bool" where
  "bind_dual v6_calls v4_calls =
     (case first_error v6_calls of
        None \<Rightarrow> Inr True
      | Some AddrInUse \<Rightarrow> Inl AddrInUse
      | Some _ \<Rightarrow> (case first_error v4_calls of None \<Rightarrow> Inr False | Some e \<Rightarrow> Inl e))"

text \<open>\<open>bind_quic\<close> uses the kind of socket that TCP got and has no second choice; the last call makes the endpoint.\<close>

definition bind_quic :: "(bool \<Rightarrow> os_error option list) \<Rightarrow> os_error option \<Rightarrow> bool \<Rightarrow> os_error option" where
  "bind_quic calls endpoint dual_stack = first_error (calls dual_stack @ [endpoint])"

datatype engine_error = QuicConfig | NoFreePort | NoLocalAddr

text \<open>What the operating system answers to attempt \<open>i\<close> on a candidate port: to the calls of \<open>bind_tcp\<close>, to \<open>local_addr\<close>, and to the calls of \<open>bind_quic\<close>
  on the port TCP got.\<close>

record os_env =
  os_tcp_v6 :: "nat \<Rightarrow> nat \<Rightarrow> os_error option list"
  os_tcp_v4 :: "nat \<Rightarrow> nat \<Rightarrow> os_error option list"
  os_local_port :: "nat \<Rightarrow> nat \<Rightarrow> nat option"
  os_udp :: "nat \<Rightarrow> nat \<Rightarrow> bool \<Rightarrow> os_error option list"
  os_endpoint :: "nat \<Rightarrow> nat \<Rightarrow> os_error option"

text \<open>The loop of \<open>Engine::start\<close> with \<open>n\<close> attempts left.\<close>

fun bind_loop :: "os_env \<Rightarrow> nat \<Rightarrow> nat \<Rightarrow> nat \<Rightarrow> engine_error + nat \<times> bool" where
  "bind_loop os 0 i candidate = Inl NoFreePort"
| "bind_loop os (Suc n) i candidate =
     (case bind_dual (os_tcp_v6 os i candidate) (os_tcp_v4 os i candidate) of
        Inl _ \<Rightarrow> bind_loop os n (i + 1) (next_port candidate)
      | Inr dual_stack \<Rightarrow>
          (case os_local_port os i candidate of
             None \<Rightarrow> Inl NoLocalAddr
           | Some port \<Rightarrow>
               if bind_quic (os_udp os i port) (os_endpoint os i port) dual_stack = None then Inr (port, dual_stack)
               else bind_loop os n (i + 1) (next_port candidate)))"

definition dht_ports :: "nat \<Rightarrow> nat list" where
  "dht_ports peer_port = [saturating_add 65535 peer_port 1, 0]"

text \<open>\<open>start_dht\<close>: the first of the two ports on which the DHT starts.\<close>

definition start_dht :: "(nat \<Rightarrow> bool) \<Rightarrow> nat \<Rightarrow> nat option" where
  "start_dht starts peer_port = find starts (dht_ports peer_port)"

record registration =
  rg_ctx :: peer_ctx

record engine =
  en_peer_id :: bytes
  en_port :: nat
  en_ipv6 :: bool
  en_dht :: "nat option"
  en_torrents :: "(bytes \<times> registration) list"

definition engine_start :: "bool \<Rightarrow> os_env \<Rightarrow> (nat \<Rightarrow> bool) \<Rightarrow> bytes \<Rightarrow> nat \<Rightarrow> bool \<Rightarrow> engine_error + engine" where
  "engine_start tls os dht_starts peer_id listen_port enable_dht =
     (if \<not> tls then Inl QuicConfig
      else case bind_loop os 100 0 listen_port of
        Inl e \<Rightarrow> Inl e
      | Inr (port, ipv6) \<Rightarrow>
          Inr \<lparr>en_peer_id = peer_id, en_port = port, en_ipv6 = ipv6, en_dht = (if enable_dht then start_dht dht_starts port else None),
               en_torrents = []\<rparr>)"

section \<open>Torrents by info hash\<close>

definition register :: "bytes \<Rightarrow> registration \<Rightarrow> engine \<Rightarrow> engine" where
  "register info_hash r e = e\<lparr>en_torrents := AList.update info_hash r (en_torrents e)\<rparr>"

definition unregister :: "bytes \<Rightarrow> engine \<Rightarrow> engine" where
  "unregister info_hash e = e\<lparr>en_torrents := AList.delete info_hash (en_torrents e)\<rparr>"

definition lookup :: "bytes \<Rightarrow> engine \<Rightarrow> registration option" where
  "lookup info_hash e = map_of (en_torrents e) info_hash"

section \<open>Inbound peers\<close>

datatype connect_error =
    ConnReadFailed | ConnWriteFailed | ConnBadHandshake handshake_error | ConnSelf | ConnUnknownTorrent | ConnInfoHashMismatch | ConnFailed | ConnChannelsClosed

definition route :: "engine \<Rightarrow> handshake \<Rightarrow> connect_error + registration \<times> bool" where
  "route e remote =
     (if hs_peer_id remote = en_peer_id e then Inl ConnSelf
      else case lookup (hs_info_hash remote) e of
        None \<Rightarrow> Inl ConnUnknownTorrent
      | Some r \<Rightarrow> Inr (r, supports_extension_protocol remote))"

text \<open>\<open>serve_tcp\<close> and \<open>serve_quic\<close> up to the session, and the bytes they write: the 68 bytes of the remote handshake if they arrived in
  time, and whether ours could be written.\<close>

definition serve :: "engine \<Rightarrow> bytes option \<Rightarrow> bool \<Rightarrow> (connect_error + registration \<times> bool) \<times> bytes option" where
  "serve e incoming written =
     (case incoming of
        None \<Rightarrow> (Inl ConnReadFailed, None)
      | Some bs \<Rightarrow>
          (case handshake_from_bytes bs of
             Inl err \<Rightarrow> (Inl (ConnBadHandshake err), None)
           | Inr remote \<Rightarrow>
               (case route e remote of
                  Inl err \<Rightarrow> (Inl err, None)
                | Inr x \<Rightarrow>
                    (let local = handshake_as_bytes (handshake_new (hs_info_hash remote) (en_peer_id e)) in
                     if written then (Inr x, Some local) else (Inl ConnWriteFailed, None)))))"

section \<open>The acceptors\<close>

text \<open>\<open>spawn_tcp_acceptor\<close> and \<open>spawn_quic_acceptor\<close> share the permits. A connection, named by a number, holds a permit until its task ends; one that finds no permit is
  dropped (TCP) or refused (QUIC). Each acceptor stops when it sees the shutdown, the one of QUIC also when the endpoint is closed.\<close>

definition MAX_INBOUND_PEERS :: nat where "MAX_INBOUND_PEERS = 100"

record acceptors =
  ac_permits :: nat
  ac_live :: "nat list"
  ac_tcp :: bool
  ac_quic :: bool

datatype accept_event =
    TcpAccepted nat | TcpAcceptFailed | TcpStop | QuicIncoming nat | QuicClosed | QuicStop | ConnectionEnded nat

datatype accept_out = ServeTcp nat | ServeQuic nat | DropSocket nat | RefuseQuic nat | AcceptSleep

definition acceptors_new :: acceptors where
  "acceptors_new = \<lparr>ac_permits = MAX_INBOUND_PEERS, ac_live = [], ac_tcp = True, ac_quic = True\<rparr>"

definition admit :: "nat \<Rightarrow> accept_out \<Rightarrow> accept_out \<Rightarrow> acceptors \<Rightarrow> acceptors \<times> accept_out list" where
  "admit i served refused s =
     (if ac_permits s = 0 then (s, [refused])
      else (s\<lparr>ac_permits := ac_permits s - 1, ac_live := ac_live s @ [i]\<rparr>, [served]))"

fun accept_turn :: "accept_event \<Rightarrow> acceptors \<Rightarrow> acceptors \<times> accept_out list" where
  "accept_turn (TcpAccepted i) s = (if ac_tcp s then admit i (ServeTcp i) (DropSocket i) s else (s, []))"
| "accept_turn TcpAcceptFailed s = (s, if ac_tcp s then [AcceptSleep] else [])"
| "accept_turn TcpStop s = (s\<lparr>ac_tcp := False\<rparr>, [])"
| "accept_turn (QuicIncoming i) s = (if ac_quic s then admit i (ServeQuic i) (RefuseQuic i) s else (s, []))"
| "accept_turn QuicClosed s = (s\<lparr>ac_quic := False\<rparr>, [])"
| "accept_turn QuicStop s = (s\<lparr>ac_quic := False\<rparr>, [])"
| "accept_turn (ConnectionEnded i) s =
     (if i \<in> set (ac_live s) then (s\<lparr>ac_permits := ac_permits s + 1, ac_live := remove1 i (ac_live s)\<rparr>, []) else (s, []))"

fun accept_run :: "accept_event list \<Rightarrow> acceptors \<Rightarrow> acceptors \<times> accept_out list" where
  "accept_run [] s = (s, [])"
| "accept_run (e # es) s = (let (s1, out1) = accept_turn e s; (s2, out2) = accept_run es s1 in (s2, out1 @ out2))"

section \<open>Dialled peers\<close>

definition check_remote :: "handshake \<Rightarrow> bytes \<Rightarrow> bytes \<Rightarrow> connect_error + bool" where
  "check_remote remote info_hash peer_id =
     (if hs_info_hash remote \<noteq> info_hash then Inl ConnInfoHashMismatch
      else if hs_peer_id remote = peer_id then Inl ConnSelf
      else Inr (supports_extension_protocol remote))"

text \<open>\<open>dial_tcp\<close> and \<open>dial_quic\<close>: what is written, and what the answer (none if the connection, a write or the read failed)
  makes of it.\<close>

definition dial_hello :: "bytes \<Rightarrow> bytes \<Rightarrow> bytes" where
  "dial_hello info_hash peer_id = handshake_as_bytes (handshake_new info_hash peer_id)"

definition dial :: "bytes option \<Rightarrow> bytes \<Rightarrow> bytes \<Rightarrow> connect_error + bool" where
  "dial incoming info_hash peer_id =
     (case incoming of
        None \<Rightarrow> Inl ConnFailed
      | Some bs \<Rightarrow>
          (case handshake_from_bytes bs of
             Inl err \<Rightarrow> Inl (ConnBadHandshake err)
           | Inr remote \<Rightarrow> check_remote remote info_hash peer_id))"

text \<open>\<open>execute_probe\<close>: the outcomes of the two transports in the order in which they arrive; the first success is used.\<close>

fun probe_loop :: "connect_error option \<Rightarrow> (bool \<times> (connect_error + bool)) list \<Rightarrow> connect_error + bool \<times> bool" where
  "probe_loop first_err [] = Inl ConnChannelsClosed"
| "probe_loop first_err ((transport, Inr ext) # rest) = Inr (transport, ext)"
| "probe_loop first_err ((transport, Inl e) # rest) =
     (case first_err of None \<Rightarrow> probe_loop (Some e) rest | Some first \<Rightarrow> Inl first)"

definition execute_probe :: "bool \<times> (connect_error + bool) \<Rightarrow> bool \<times> (connect_error + bool) \<Rightarrow> connect_error + bool \<times> bool" where
  "execute_probe x y = probe_loop None [x, y]"

section \<open>Properties\<close>

lemma bind_loop_port:
  "bind_loop os n i candidate = Inr (port, dual) \<Longrightarrow>
   \<exists>k < n. bind_dual (os_tcp_v6 os (i + k) ((next_port ^^ k) candidate)) (os_tcp_v4 os (i + k) ((next_port ^^ k) candidate)) = Inr dual
     \<and> os_local_port os (i + k) ((next_port ^^ k) candidate) = Some port
     \<and> bind_quic (os_udp os (i + k) port) (os_endpoint os (i + k) port) dual = None"
proof (induction os n i candidate rule: bind_loop.induct)
  case (2 os n i candidate)
  let ?b = "bind_dual (os_tcp_v6 os i candidate) (os_tcp_v4 os i candidate)"
  show ?case
  proof (cases "\<exists>d p. ?b = Inr d \<and> os_local_port os i candidate = Some p \<and> bind_quic (os_udp os i p) (os_endpoint os i p) d = None")
    case True
    then show ?thesis using "2.prems" by (intro exI [of _ 0]) auto
  next
    case False
    then have r: "bind_loop os n (i + 1) (next_port candidate) = Inr (port, dual)"
      using "2.prems" by (auto split: sum.splits option.splits if_splits)
    have "\<exists>k < n. bind_dual (os_tcp_v6 os (i + 1 + k) ((next_port ^^ k) (next_port candidate))) (os_tcp_v4 os (i + 1 + k) ((next_port ^^ k) (next_port candidate))) = Inr dual
      \<and> os_local_port os (i + 1 + k) ((next_port ^^ k) (next_port candidate)) = Some port
      \<and> bind_quic (os_udp os (i + 1 + k) port) (os_endpoint os (i + 1 + k) port) dual = None"
    proof (cases ?b)
      case (Inl e)
      then show ?thesis by (rule "2.IH"(1) [OF _ r])
    next
      case (Inr d)
      show ?thesis
      proof (cases "os_local_port os i candidate")
        case None
        then show ?thesis using "2.prems" Inr by simp
      next
        case (Some p)
        with False Inr have "bind_quic (os_udp os i p) (os_endpoint os i p) d \<noteq> None" by simp
        then show ?thesis by (rule "2.IH"(2) [OF Inr Some _ r])
      qed
    qed
    then obtain k where "k < n" "bind_dual (os_tcp_v6 os (i + 1 + k) ((next_port ^^ k) (next_port candidate))) (os_tcp_v4 os (i + 1 + k) ((next_port ^^ k) (next_port candidate))) = Inr dual"
      "os_local_port os (i + 1 + k) ((next_port ^^ k) (next_port candidate)) = Some port"
      "bind_quic (os_udp os (i + 1 + k) port) (os_endpoint os (i + 1 + k) port) dual = None" by blast
    then show ?thesis by (intro exI [of _ "Suc k"]) (simp add: funpow_swap1)
  qed
qed simp

lemma admit_ok:
  "ac_permits s + length (ac_live s) = MAX_INBOUND_PEERS \<Longrightarrow> admit i x y s = (s', out) \<Longrightarrow>
   ac_permits s' + length (ac_live s') = MAX_INBOUND_PEERS \<and> (if length (ac_live s) < MAX_INBOUND_PEERS then out = [x] else out = [y])"
  by (auto simp: admit_def split: if_splits)

lemma one_live_less: "i \<in> set xs \<Longrightarrow> Suc (a + (length xs - Suc 0)) = a + length xs"
  by (cases xs) auto

lemma accept_turn_ok:
  "ac_permits s + length (ac_live s) = MAX_INBOUND_PEERS \<Longrightarrow> accept_turn e s = (s', out) \<Longrightarrow>
   ac_permits s' + length (ac_live s') = MAX_INBOUND_PEERS"
  by (cases e) (auto simp: admit_def length_remove1 one_live_less split: if_splits)

lemma accept_run_ok:
  "accept_run es s = (s', out) \<Longrightarrow> ac_permits s + length (ac_live s) = MAX_INBOUND_PEERS \<Longrightarrow>
   ac_permits s' + length (ac_live s') = MAX_INBOUND_PEERS"
proof (induction es arbitrary: s out)
  case (Cons e es)
  obtain s1 o1 where 1: "accept_turn e s = (s1, o1)" by fastforce
  obtain o2 where 2: "accept_run es s1 = (s', o2)" using Cons.prems(1) 1 by (auto split: prod.splits)
  show ?case by (rule Cons.IH [OF 2 accept_turn_ok [OF Cons.prems(2) 1]])
qed simp

text \<open>The inbound peers of all torrents together are bounded, and no permit is lost: after any sequence of connections over both transports, failures, ends of
  connections and shutdowns at most 100 connections are served at a time, and the next one is served if there are fewer and turned away otherwise.\<close>

theorem inbound_bounded:
  assumes "accept_run es acceptors_new = (s, out)"
  shows "length (ac_live s) \<le> 100 \<and> ac_permits s = 100 - length (ac_live s)
    \<and> (ac_tcp s \<longrightarrow> snd (accept_turn (TcpAccepted i) s) = [if length (ac_live s) < 100 then ServeTcp i else DropSocket i])
    \<and> (ac_quic s \<longrightarrow> snd (accept_turn (QuicIncoming i) s) = [if length (ac_live s) < 100 then ServeQuic i else RefuseQuic i])"
proof -
  have "ac_permits s + length (ac_live s) = MAX_INBOUND_PEERS"
    using accept_run_ok [OF assms] by (simp add: acceptors_new_def)
  then have p: "ac_permits s + length (ac_live s) = 100" by (simp add: MAX_INBOUND_PEERS_def)
  then have "length (ac_live s) \<le> 100 \<and> ac_permits s = 100 - length (ac_live s)" "(ac_permits s = 0) = (\<not> length (ac_live s) < 100)" by auto
  then show ?thesis by (auto simp: admit_def)
qed

theorem inbound_bounded_witness:
  "\<exists>s out. accept_run [TcpAccepted 1, QuicIncoming 2, ConnectionEnded 1, TcpStop, TcpAccepted 3] acceptors_new = (s, out)
    \<and> out = [ServeTcp 1, ServeQuic 2] \<and> ac_permits s = 99 \<and> length (ac_live s) \<le> 100"
proof -
  obtain s out where r: "accept_run [TcpAccepted 1, QuicIncoming 2, ConnectionEnded 1, TcpStop, TcpAccepted 3] acceptors_new = (s, out)" by fastforce
  then have "out = [ServeTcp 1, ServeQuic 2]" "ac_permits s = 99" by (auto simp: acceptors_new_def admit_def MAX_INBOUND_PEERS_def)
  with inbound_bounded [OF r] r show ?thesis by blast
qed

lemma lookup_register [simp]: "lookup h (register h' r e) = (if h = h' then Some r else lookup h e)"
  by (auto simp: lookup_def register_def update_conv')

lemma lookup_unregister [simp]: "lookup h (unregister h' e) = (if h = h' then None else lookup h e)"
  by (auto simp: lookup_def unregister_def delete_conv')

lemma handshake_new_wf: "length h = 20 \<Longrightarrow> length p = 20 \<Longrightarrow> handshake_wf (handshake_new h p)"
  by (simp add: handshake_wf_def handshake_new_def)

lemma handshake_new_fields [simp]:
  "hs_info_hash (handshake_new h p) = h" "hs_peer_id (handshake_new h p) = p" "supports_extension_protocol (handshake_new h p)"
  by (simp_all add: handshake_new_def supports_extension_protocol_def)

text \<open>A program that dials another one reaches exactly the torrent it wants: the served side finds the registration
  of the dialled info hash, whatever other torrents were registered and unregistered before, and both sides end up with the session (and with the
  extension protocol) if and only if that torrent is served and the two peer identifiers differ.\<close>

theorem dial_meets_serve:
  assumes "length info_hash = 20" "length peer_id = 20" "length (en_peer_id e) = 20"
  shows "(case serve e (Some (dial_hello info_hash peer_id)) True of
       (Inr (r, ext), Some reply) \<Rightarrow> lookup info_hash e = Some r \<and> ext \<and> peer_id \<noteq> en_peer_id e \<and> dial (Some reply) info_hash peer_id = Inr True
     | (Inl err, None) \<Rightarrow> err = (if peer_id = en_peer_id e then ConnSelf else ConnUnknownTorrent) \<and> (peer_id = en_peer_id e \<or> lookup info_hash e = None)
     | _ \<Rightarrow> False)"
  using assms
  by (auto simp: serve_def dial_hello_def dial_def route_def check_remote_def handshake_parse_print handshake_new_wf Let_def split: option.split)

definition demo_engine :: engine where
  "demo_engine = \<lparr>en_peer_id = replicate 20 9, en_port = 6881, en_ipv6 = False, en_dht = None, en_torrents = []\<rparr>"

theorem dial_meets_serve_witness:
  "\<forall>r. \<exists>reply. serve (unregister (replicate 20 2) (register (replicate 20 1) r demo_engine)) (Some (dial_hello (replicate 20 1) (replicate 20 3))) True = (Inr (r, True), Some reply)
     \<and> dial (Some reply) (replicate 20 1) (replicate 20 3) = Inr True"
proof
  fix r
  let ?e = "unregister (replicate 20 2) (register (replicate 20 1) r demo_engine)"
  have d: "replicate 20 (3 :: byte) \<noteq> replicate 20 9" "replicate 20 (1 :: byte) \<noteq> replicate 20 2" by simp_all
  have i: "en_peer_id ?e = replicate 20 9" by (simp add: demo_engine_def register_def unregister_def)
  have l: "lookup (replicate 20 1) ?e = Some r" using d by simp
  have "(case serve ?e (Some (dial_hello (replicate 20 1) (replicate 20 3))) True of
       (Inr (r', ext), Some reply) \<Rightarrow> lookup (replicate 20 1) ?e = Some r' \<and> ext \<and> replicate 20 3 \<noteq> en_peer_id ?e \<and> dial (Some reply) (replicate 20 1) (replicate 20 3) = Inr True
     | (Inl err, None) \<Rightarrow> err = (if replicate 20 3 = en_peer_id ?e then ConnSelf else ConnUnknownTorrent) \<and> (replicate 20 3 = en_peer_id ?e \<or> lookup (replicate 20 1) ?e = None)
     | _ \<Rightarrow> False)"
    by (rule dial_meets_serve) (simp_all add: i)
  moreover obtain x y where xy: "serve ?e (Some (dial_hello (replicate 20 1) (replicate 20 3))) True = (x, y)" by fastforce
  ultimately show "\<exists>reply. serve ?e (Some (dial_hello (replicate 20 1) (replicate 20 3))) True = (Inr (r, True), Some reply)
     \<and> dial (Some reply) (replicate 20 1) (replicate 20 3) = Inr True" using d l unfolding i xy by (cases x; cases y) (auto split: prod.splits)
qed

end
