(* ===== verification/Magnet.thy ===== *)
theory Magnet
  imports Prelude
begin

text \<open>
  Magnet links, \<open>net/magnet.rs\<close>. URL parsing (the \<open>url\<close> crate) and hex decoding (the \<open>hex\<close> crate) are arguments; the base32
  decoder with its 32-bit accumulator is the program's own.
\<close>

unbundle bit_operations_syntax

record magnet =
  mg_info_hash :: bytes
  mg_name :: "rstring option"
  mg_trackers :: "rstring list"

datatype magnet_error =
    NotAUri | NotMagnet | NoInfoHash | BadHex | BadBase32 | UnsupportedHashLength nat | HashNot20Bytes

definition to_ascii_uppercase :: "nat \<Rightarrow> nat" where
  "to_ascii_uppercase c = (if 97 \<le> c \<and> c \<le> 122 then c - 32 else c)"

definition base32_digit :: "nat \<Rightarrow> nat option" where
  "base32_digit ch =
     (let c = to_ascii_uppercase ch in
      if 65 \<le> c \<and> c \<le> 90 then Some (c - 65) else if 50 \<le> c \<and> c \<le> 55 then Some (c - 50 + 26) else None)"

fun base32_loop :: "rstring \<Rightarrow> bytes \<Rightarrow> 32 word \<Rightarrow> nat \<Rightarrow> bytes option" where
  "base32_loop [] out buffer bits = Some out"
| "base32_loop (c # cs) out buffer bits =
     (case base32_digit c of
        None \<Rightarrow> None
      | Some v \<Rightarrow>
          (let buffer = push_bit 5 buffer OR word_of_nat v; bits = bits + 5 in
           if bits \<ge> 8 then
             (let bits = bits - 8 in
              base32_loop cs (out @ [ucast (drop_bit bits buffer)]) (buffer AND (push_bit bits 1 - 1)) bits)
           else base32_loop cs out buffer bits))"

definition decode_base32 :: "rstring \<Rightarrow> bytes option" where
  "decode_base32 input = base32_loop input [] 0 0"

definition decode_info_hash :: "(rstring \<Rightarrow> bytes option) \<Rightarrow> rstring \<Rightarrow> magnet_error + bytes" where
  "decode_info_hash hex hash =
     (case (if utf8_len hash = 40 then (case hex hash of None \<Rightarrow> Inl BadHex | Some bs \<Rightarrow> Inr bs)
            else if utf8_len hash = 32 then (case decode_base32 hash of None \<Rightarrow> Inl BadBase32 | Some bs \<Rightarrow> Inr bs)
            else Inl (UnsupportedHashLength (utf8_len hash))) of
        Inl e \<Rightarrow> Inl e
      | Inr bs \<Rightarrow> if length bs = 20 then Inr bs else Inl HashNot20Bytes)"

definition strip_prefix :: "rstring \<Rightarrow> rstring \<Rightarrow> rstring option" where
  "strip_prefix p s = (if starts_with s p then Some (drop (length p) s) else None)"

text \<open>The loop over \<open>query_pairs\<close>; an invalid hash ends it.\<close>

fun read_pairs :: "(rstring \<Rightarrow> bytes option) \<Rightarrow> (rstring \<times> rstring) list \<Rightarrow> bytes option \<Rightarrow> rstring option \<Rightarrow> rstring list
    \<Rightarrow> magnet_error + bytes option \<times> rstring option \<times> rstring list" where
  "read_pairs hex [] info_hash name trackers = Inr (info_hash, name, trackers)"
| "read_pairs hex ((key, v) # pairs) info_hash name trackers =
     (if key = lit ''xt'' then
        (case strip_prefix (lit ''urn:btih:'') v of
           None \<Rightarrow> read_pairs hex pairs info_hash name trackers
         | Some hash \<Rightarrow>
             (case decode_info_hash hex hash of
                Inl e \<Rightarrow> Inl e
              | Inr h \<Rightarrow> read_pairs hex pairs (Some h) name trackers))
      else if key = lit ''dn'' then read_pairs hex pairs info_hash (Some v) trackers
      else if key = lit ''tr'' then read_pairs hex pairs info_hash name (trackers @ [v])
      else read_pairs hex pairs info_hash name trackers)"

text \<open>\<open>str::trim\<close> removes the characters of Unicode's \<open>White_Space\<close> at both ends.\<close>

definition is_whitespace :: "nat \<Rightarrow> bool" where
  "is_whitespace c \<longleftrightarrow> (9 \<le> c \<and> c \<le> 13) \<or> c = 0x20 \<or> c = 0x85 \<or> c = 0xA0 \<or> c = 0x1680 \<or> (0x2000 \<le> c \<and> c \<le> 0x200A)
     \<or> c = 0x2028 \<or> c = 0x2029 \<or> c = 0x202F \<or> c = 0x205F \<or> c = 0x3000"

definition trim :: "rstring \<Rightarrow> rstring" where
  "trim s = rev (dropWhile is_whitespace (rev (dropWhile is_whitespace s)))"

definition magnet_parse ::
  "(rstring \<Rightarrow> bytes option) \<Rightarrow> (rstring \<Rightarrow> (rstring \<times> (rstring \<times> rstring) list) option) \<Rightarrow> rstring \<Rightarrow> magnet_error + magnet" where
  "magnet_parse hex url_parse uri =
     (case url_parse (trim uri) of
        None \<Rightarrow> Inl NotAUri
      | Some (scheme, query_pairs) \<Rightarrow>
          if scheme \<noteq> lit ''magnet'' then Inl NotMagnet
          else case read_pairs hex query_pairs None None [] of
            Inl e \<Rightarrow> Inl e
          | Inr (info_hash, name, trackers) \<Rightarrow>
              (case info_hash of
                 None \<Rightarrow> Inl NoInfoHash
               | Some h \<Rightarrow> Inr \<lparr>mg_info_hash = h, mg_name = name, mg_trackers = trackers\<rparr>))"

section \<open>Base32\<close>

definition base32_value :: "nat list \<Rightarrow> nat" where
  "base32_value ds = foldl (\<lambda>acc d. acc * 32 + d) 0 ds"

lemma base32_digit_less: "base32_digit c = Some v \<Longrightarrow> v < 32"
  by (auto simp: base32_digit_def Let_def split: if_splits)

lemma nat_shift_or: "v < 32 \<Longrightarrow> push_bit 5 a OR v = a * 32 + (v :: nat)"
proof -
  assume "v < 32"
  then have v: "take_bit 5 v = v" by (simp add: take_bit_eq_mod)
  have "push_bit 5 a + take_bit 5 v = push_bit 5 a OR take_bit 5 v"
    by (rule disjunctive_add_eq_or) (rule bit_eqI, auto simp: bit_simps)
  then show ?thesis by (simp add: v push_bit_eq_mult)
qed

lemma unat_shift_or:
  assumes "unat (b :: 32 word) < 2 ^ 7" "v < 32"
  shows "unat (push_bit 5 b OR word_of_nat v) = unat b * 32 + v"
proof -
  have v: "unat (word_of_nat v :: 32 word) = v" using assms(2) by (simp add: unat_of_nat take_bit_eq_mod)
  have "unat (push_bit 5 b) = push_bit 5 (unat b)"
    using assms(1) by (subst unsigned_push_bit_eq) (simp add: take_bit_eq_mod push_bit_eq_mult)
  then show ?thesis using nat_shift_or [OF assms(2), of "unat b"] by (simp add: unsigned_or_eq v)
qed

lemma unat_take_low: "unat (b AND (push_bit n 1 - 1) :: 32 word) = unat b mod 2 ^ n"
proof -
  have "push_bit n 1 - 1 = (mask n :: 32 word)" by (simp add: mask_eq_exp_minus_1 push_bit_of_1)
  then have "b AND (push_bit n 1 - 1) = take_bit n b" by (simp add: take_bit_eq_mask)
  then have "unat (b AND (push_bit n 1 - 1)) = take_bit n (unat b)" by (simp only: unsigned_take_bit_eq)
  then show ?thesis by (simp add: take_bit_eq_mod)
qed

lemma unat_top_byte:
  assumes "unat (b :: 32 word) < 2 ^ (n + 8)"
  shows "unat (ucast (drop_bit n b) :: byte) = unat b div 2 ^ n"
proof -
  have "unat (drop_bit n b) = unat b div 2 ^ n" 
    using take_bit_nat_eq_self [OF unsigned_less [of b, where ?'a = nat]] by (subst unsigned_drop_bit_eq) (simp add: drop_bit_eq_div)
  moreover have "unat b div 2 ^ n < 2 ^ 8" using assms by (simp add: less_mult_imp_div_less power_add mult.commute)
  ultimately show ?thesis by (simp add: unsigned_ucast_eq take_bit_eq_mod)
qed

lemma base32_value_Cons: "base32_value (d # ds) = d * 32 ^ length ds + base32_value ds"
proof -
  have "foldl (\<lambda>acc d. acc * 32 + d) a ds = a * 32 ^ length ds + foldl (\<lambda>acc d. acc * 32 + d) 0 ds" for a :: nat
  proof (induction ds arbitrary: a)
    case (Cons x xs)
    show ?case using Cons.IH [of "a * 32 + x"] Cons.IH [of x] by (simp add: algebra_simps)
  qed simp
  from this [of d] show ?thesis by (simp add: base32_value_def)
qed

text \<open>The accumulator holds the last \<open>bits\<close> bits, so nothing is lost in 32 bits.\<close>

lemma base32_loop_inv:
  assumes "unat buffer < 2 ^ bits" "bits < 8" "base32_loop cs out buffer bits = Some out'"
  shows "\<exists>b r. list_all (\<lambda>c. base32_digit c \<noteq> None) cs \<and> 8 * length out' + b = 8 * length out + bits + 5 * length cs \<and> b < 8 \<and> r < 2 ^ b
      \<and> be_val out' * 2 ^ b + r = (be_val out * 2 ^ bits + unat buffer) * 32 ^ length cs + base32_value (map (\<lambda>c. the (base32_digit c)) cs)"
  using assms
proof (induction cs arbitrary: out buffer bits)
  case Nil
  then show ?case by (intro exI [of _ bits] exI [of _ "unat buffer"]) (simp add: base32_value_def)
next
  case (Cons c cs)
  obtain v where v: "base32_digit c = Some v" using Cons.prems(3) by (cases "base32_digit c") auto
  let ?b = "push_bit 5 buffer OR word_of_nat v :: 32 word"
  have b7: "unat buffer < 2 ^ 7" by (rule less_le_trans [OF Cons.prems(1)]) (use Cons.prems(2) power_increasing [of bits 7 "2 :: nat"] in simp)
  have ub: "unat ?b = unat buffer * 32 + v" by (rule unat_shift_or [OF b7 base32_digit_less [OF v]])
  have "unat buffer * 32 + v < (unat buffer + 1) * 32" using base32_digit_less [OF v] by simp
  also have "\<dots> \<le> 2 ^ bits * 32" using Cons.prems(1) by (intro mult_le_mono1) simp
  finally have lt: "unat ?b < 2 ^ (bits + 5)" by (simp add: ub power_add)
  have val: "(be_val out * 2 ^ (bits + 5) + unat ?b) * 32 ^ length cs + base32_value (map (\<lambda>c. the (base32_digit c)) cs)
    = (be_val out * 2 ^ bits + unat buffer) * 32 ^ length (c # cs) + base32_value (map (\<lambda>c. the (base32_digit c)) (c # cs))"
    by (simp add: ub v base32_value_Cons power_add algebra_simps)
  show ?case
  proof (cases "bits + 5 \<ge> 8")
    case False
    have r: "base32_loop cs out ?b (bits + 5) = Some out'" using Cons.prems(3) v False by simp
    from Cons.IH [OF lt _ r] False obtain b r' where
      "list_all (\<lambda>c. base32_digit c \<noteq> None) cs" "8 * length out' + b = 8 * length out + (bits + 5) + 5 * length cs" "b < 8" "r' < 2 ^ b"
      "be_val out' * 2 ^ b + r' = (be_val out * 2 ^ (bits + 5) + unat ?b) * 32 ^ length cs + base32_value (map (\<lambda>c. the (base32_digit c)) cs)"
      by auto
    then show ?thesis unfolding val using v by (intro exI [of _ b] exI [of _ r']) auto
  next
    case True
    let ?n = "bits + 5 - 8" and ?o = "out @ [ucast (drop_bit (bits + 5 - 8) ?b)]" and ?l = "?b AND (push_bit (bits + 5 - 8) 1 - 1)"
    have r: "base32_loop cs ?o ?l ?n = Some out'" using Cons.prems(3) v True by (simp add: Let_def)
    have n: "bits + 5 = ?n + 8" using True by simp
    have top: "unat (ucast (drop_bit ?n ?b) :: byte) = unat ?b div 2 ^ ?n" by (rule unat_top_byte) (use lt n in \<open>simp only:\<close>)
    have low: "unat ?l = unat ?b mod 2 ^ ?n" by (rule unat_take_low)
    have "be_val ?o * 2 ^ ?n + unat ?l = be_val out * 2 ^ (?n + 8) + (unat ?b div 2 ^ ?n * 2 ^ ?n + unat ?b mod 2 ^ ?n)"
      by (simp only: be_val_snoc top low power_add) (simp add: algebra_simps)
    then have eq: "be_val ?o * 2 ^ ?n + unat ?l = be_val out * 2 ^ (bits + 5) + unat ?b" by (simp only: div_mult_mod_eq n [symmetric])
    have l: "unat ?l < 2 ^ ?n" unfolding low by simp
    have "?n < 8" using Cons.prems(2) by simp
    from Cons.IH [OF l this r] obtain b r' where
      "list_all (\<lambda>c. base32_digit c \<noteq> None) cs" "8 * length out' + b = 8 * length ?o + ?n + 5 * length cs" "b < 8" "r' < 2 ^ b"
      "be_val out' * 2 ^ b + r' = (be_val ?o * 2 ^ ?n + unat ?l) * 32 ^ length cs + base32_value (map (\<lambda>c. the (base32_digit c)) cs)"
      by blast
    moreover have "8 * length ?o + ?n + 5 * length cs = 8 * length out + bits + 5 * length (c # cs)" using n by simp
    ultimately show ?thesis unfolding eq val using v by (intro exI [of _ b] exI [of _ r']) auto
  qed
qed

lemma base32_loop_fails: "base32_loop cs out buffer bits = None \<longleftrightarrow> \<not> list_all (\<lambda>c. base32_digit c \<noteq> None) cs"
  by (induction cs out buffer bits rule: base32_loop.induct) (auto simp: Let_def split: option.splits if_splits)

text \<open>A base32 info hash is read exactly: a string of 32 characters is accepted if and only if all of them are base32 digits in either
  case, and then the 20 bytes are the number that the digits write, most significant first; nothing overflows the
  32-bit accumulator.\<close>

theorem base32_info_hash_exact:
  assumes "length s = 32" "utf8_len s = 32"
  shows "case decode_info_hash hex s of
      Inr h \<Rightarrow> length h = 20 \<and> list_all (\<lambda>c. base32_digit c \<noteq> None) s \<and> be_val h = base32_value (map (\<lambda>c. the (base32_digit c)) s)
    | Inl e \<Rightarrow> e = BadBase32 \<and> \<not> list_all (\<lambda>c. base32_digit c \<noteq> None) s"
proof (cases "decode_base32 s")
  case None
  then have "\<not> list_all (\<lambda>c. base32_digit c \<noteq> None) s" using base32_loop_fails by (auto simp: decode_base32_def)
  then show ?thesis using None assms(2) by (simp add: decode_info_hash_def)
next
  case (Some h)
  from base32_loop_inv [of 0 0 s "[]" h] Some assms(1) obtain b r where
    b: "list_all (\<lambda>c. base32_digit c \<noteq> None) s" "8 * length h + b = 160" "b < 8" "r < 2 ^ b"
      "be_val h * 2 ^ b + r = base32_value (map (\<lambda>c. the (base32_digit c)) s)"
    by (auto simp: decode_base32_def)
  then have "length h = 20" "b = 0" by presburger+
  then show ?thesis using b assms(2) Some by (simp add: decode_info_hash_def)
qed

theorem base32_info_hash_exact_witness:
  "\<exists>h. decode_info_hash (\<lambda>_. None) (replicate 31 65 @ [98]) = Inr h \<and> length h = 20 \<and> be_val h = 1"
proof -
  let ?s = "replicate 31 65 @ [98] :: rstring"
  have d: "base32_digit 65 = Some 0" "base32_digit 98 = Some 1" by (simp_all add: base32_digit_def to_ascii_uppercase_def)
  have l: "length ?s = 32" "utf8_len ?s = 32" by (simp_all add: utf8_len_def utf8_len1_def sum_list_replicate)
  have "foldl (\<lambda>acc d. acc * 32 + d) (0 :: nat) (replicate n 0) = 0" for n by (induction n) simp_all
  then have v: "base32_value (map (\<lambda>c. the (base32_digit c)) ?s) = 1" by (simp add: base32_value_def d)
  have a: "list_all (\<lambda>c. base32_digit c \<noteq> None) ?s" by (simp add: d list_all_iff)
  show ?thesis using base32_info_hash_exact [OF l, of "\<lambda>_. None"] v a by (auto split: sum.splits)
qed

end
