(* ===== verification/Shaper.thy ===== *)
theory Shaper
  imports Prelude Complex_Main
begin

text \<open>
  Bandwidth limits, \<open>net/shaper.rs\<close>: the token bucket of each direction and the stream that draws from it. An \<open>f64\<close> is a real number, and
  every operation on \<open>f64\<close> rounds its exact result: the rounding \<open>rnd\<close> is an argument, and \<open>f64_rounding\<close> states what IEEE 754
  promises of it. The rounding of \<open>Duration::from_secs_f64\<close> to nanoseconds is the argument \<open>to_dur\<close>. An operation of the limiter is one step: the
  rate it reads is the rate when it holds the lock. \<open>acquire\<close> reads the clock just before it takes the lock; the theorem on the rate is about calls that get
  the lock in the order of their readings.
\<close>

definition MIN_CHUNK :: nat where "MIN_CHUNK = 4096"
definition MIN_BURST :: real where "MIN_BURST = 16 * 1024"

definition f64_rounding :: "(real \<Rightarrow> real) \<Rightarrow> bool" where
  "f64_rounding rnd \<longleftrightarrow> mono rnd \<and> (\<forall>x. rnd (rnd x) = rnd x) \<and> (\<forall>n \<le> 2 ^ 53. rnd (real n) = real n)
     \<and> (\<forall>x \<ge> 0. rnd x \<le> x * (1 + 1 / 2 ^ 53) + 1 / 2 ^ 1074)"

section \<open>The limiter\<close>

record limiter =
  li_rate :: nat
  li_tokens :: real
  li_last :: instant

definition burst :: "(real \<Rightarrow> real) \<Rightarrow> nat \<Rightarrow> real" where
  "burst rnd rate = max (rnd (rnd (real rate) / 4)) MIN_BURST"

definition limiter_new :: "(real \<Rightarrow> real) \<Rightarrow> instant \<Rightarrow> nat \<Rightarrow> limiter" where
  "limiter_new rnd now bytes_per_sec = \<lparr>li_rate = bytes_per_sec, li_tokens = burst rnd bytes_per_sec, li_last = now\<rparr>"

definition set_rate :: "(real \<Rightarrow> real) \<Rightarrow> instant \<Rightarrow> nat \<Rightarrow> limiter \<Rightarrow> limiter" where
  "set_rate rnd now bytes_per_sec l =
     \<lparr>li_rate = bytes_per_sec, li_tokens = min (li_tokens l) (burst rnd bytes_per_sec), li_last = now\<rparr>"

text \<open>\<open>Duration::as_secs_f64\<close> and the cast of an \<open>f64\<close> to \<open>usize\<close>.\<close>

definition as_secs_f64 :: "(real \<Rightarrow> real) \<Rightarrow> duration \<Rightarrow> real" where
  "as_secs_f64 rnd d = rnd (rnd (real (d div 10 ^ 9)) + rnd (real (d mod 10 ^ 9) / 10 ^ 9))"

definition as_usize :: "real \<Rightarrow> nat" where
  "as_usize x = min (nat \<lfloor>x\<rfloor>) U64_MAX"

definition acquire_at :: "(real \<Rightarrow> real) \<Rightarrow> (real \<Rightarrow> duration) \<Rightarrow> nat \<Rightarrow> instant \<Rightarrow> limiter \<Rightarrow> (duration + nat) \<times> limiter" where
  "acquire_at rnd to_dur want now l =
     (let rate = li_rate l in
      if rate = 0 \<or> want = 0 then (Inr want, l)
      else
        let elapsed = as_secs_f64 rnd (now - li_last l);
            l1 = l\<lparr>li_last := now, li_tokens := min (rnd (li_tokens l + rnd (elapsed * rnd (real rate)))) (burst rnd rate)\<rparr>;
            need = rnd (real (min want MIN_CHUNK))
        in if li_tokens l1 < need then
             (let wait = rnd (rnd (need - li_tokens l1) / rnd (real rate)) in (Inl (max (to_dur wait) (millis 1)), l1))
           else
             (let tk = min (as_usize (li_tokens l1)) want in (Inr tk, l1\<lparr>li_tokens := rnd (li_tokens l1 - rnd (real tk))\<rparr>)))"

definition give_back :: "(real \<Rightarrow> real) \<Rightarrow> nat \<Rightarrow> limiter \<Rightarrow> limiter" where
  "give_back rnd n l =
     (if li_rate l = 0 \<or> n = 0 then l
      else l\<lparr>li_tokens := min (rnd (li_tokens l + rnd (real n))) (burst rnd (li_rate l))\<rparr>)"

section \<open>The stream\<close>

record shaper =
  sp_download :: limiter
  sp_upload :: limiter

definition shaper_new :: "(real \<Rightarrow> real) \<Rightarrow> instant \<Rightarrow> nat \<Rightarrow> nat \<Rightarrow> shaper" where
  "shaper_new rnd now download_bps upload_bps =
     \<lparr>sp_download = limiter_new rnd now download_bps, sp_upload = limiter_new rnd now upload_bps\<rparr>"

definition set_limits :: "(real \<Rightarrow> real) \<Rightarrow> instant \<Rightarrow> nat \<Rightarrow> nat \<Rightarrow> shaper \<Rightarrow> shaper" where
  "set_limits rnd now download_bps upload_bps s =
     \<lparr>sp_download = set_rate rnd now download_bps (sp_download s), sp_upload = set_rate rnd now upload_bps (sp_upload s)\<rparr>"

record shaped_stream =
  ss_read_delay :: "instant option"
  ss_write_delay :: "instant option"

datatype 'a poll = Pending | ReadyErr | ReadyOk 'a

definition poll_delay :: "instant \<Rightarrow> instant option \<Rightarrow> bool \<times> instant option" where
  "poll_delay now delay = (case delay of Some t \<Rightarrow> if now < t then (False, Some t) else (True, None) | None \<Rightarrow> (True, None))"

definition start_delay :: "instant \<Rightarrow> duration \<Rightarrow> instant option" where
  "start_delay now wait = (if now < now + wait then Some (now + wait) else None)"

text \<open>What the wrapped stream does with a buffer of the given size; it reads or writes at most that many bytes.\<close>

definition poll_read ::
  "(real \<Rightarrow> real) \<Rightarrow> (real \<Rightarrow> duration) \<Rightarrow> instant \<Rightarrow> (nat \<Rightarrow> bytes poll) \<Rightarrow> nat \<Rightarrow> shaper \<Rightarrow> shaped_stream \<Rightarrow> bytes poll \<times> shaper \<times> shaped_stream" where
  "poll_read rnd to_dur now inner remaining sp st =
     (if li_rate (sp_download sp) = 0 then (inner remaining, sp, st)
      else
        let (ready, delay) = poll_delay now (ss_read_delay st); st1 = st\<lparr>ss_read_delay := delay\<rparr> in
        if \<not> ready then (Pending, sp, st1)
        else if remaining = 0 then (ReadyOk [], sp, st1)
        else case acquire_at rnd to_dur remaining now (sp_download sp) of
          (Inl wait, l) \<Rightarrow> (Pending, sp\<lparr>sp_download := l\<rparr>, st1\<lparr>ss_read_delay := start_delay now wait\<rparr>)
        | (Inr allowed, l) \<Rightarrow>
            (case inner allowed of
               ReadyOk data \<Rightarrow> (ReadyOk data, sp\<lparr>sp_download := give_back rnd (allowed - length data) l\<rparr>, st1)
             | other \<Rightarrow> (other, sp\<lparr>sp_download := give_back rnd allowed l\<rparr>, st1)))"

definition poll_write ::
  "(real \<Rightarrow> real) \<Rightarrow> (real \<Rightarrow> duration) \<Rightarrow> instant \<Rightarrow> (bytes \<Rightarrow> nat poll) \<Rightarrow> bytes \<Rightarrow> shaper \<Rightarrow> shaped_stream \<Rightarrow> nat poll \<times> shaper \<times> shaped_stream" where
  "poll_write rnd to_dur now inner buf sp st =
     (if li_rate (sp_upload sp) = 0 then (inner buf, sp, st)
      else
        let (ready, delay) = poll_delay now (ss_write_delay st); st1 = st\<lparr>ss_write_delay := delay\<rparr> in
        if \<not> ready then (Pending, sp, st1)
        else case acquire_at rnd to_dur (length buf) now (sp_upload sp) of
          (Inl wait, l) \<Rightarrow> (Pending, sp\<lparr>sp_upload := l\<rparr>, st1\<lparr>ss_write_delay := start_delay now wait\<rparr>)
        | (Inr allowed, l) \<Rightarrow>
            (case inner (take allowed buf) of
               ReadyOk written \<Rightarrow> (ReadyOk written, sp\<lparr>sp_upload := give_back rnd (allowed - written) l\<rparr>, st1)
             | other \<Rightarrow> (other, sp\<lparr>sp_upload := give_back rnd allowed l\<rparr>, st1)))"

section \<open>Bounds\<close>

definition limiter_ok :: "(real \<Rightarrow> real) \<Rightarrow> limiter \<Rightarrow> bool" where
  "limiter_ok rnd l \<longleftrightarrow> 0 \<le> li_tokens l \<and> li_tokens l \<le> burst rnd (li_rate l) \<and> rnd (li_tokens l) = li_tokens l"

lemma rnd_nat: "f64_rounding rnd \<Longrightarrow> n \<le> 2 ^ 53 \<Longrightarrow> rnd (real n) = real n"
  by (simp add: f64_rounding_def)

lemma rnd_0: "f64_rounding rnd \<Longrightarrow> rnd 0 = 0"
  using rnd_nat [of rnd 0] by simp

lemma rnd_nonneg: "f64_rounding rnd \<Longrightarrow> 0 \<le> x \<Longrightarrow> 0 \<le> rnd x"
  using rnd_0 [of rnd] by (metis f64_rounding_def monoD)

lemma rnd_burst:
  assumes "f64_rounding rnd"
  shows "rnd (burst rnd rate) = burst rnd rate" "16384 \<le> burst rnd rate"
proof -
  have "rnd 16384 = 16384" using rnd_nat [OF assms, of 16384] by simp
  then show "rnd (burst rnd rate) = burst rnd rate"
    using assms by (auto simp: burst_def MIN_BURST_def max_def f64_rounding_def)
qed (simp add: burst_def MIN_BURST_def)

lemma rnd_le_burst: "f64_rounding rnd \<Longrightarrow> x \<le> burst rnd rate \<Longrightarrow> rnd x \<le> burst rnd rate"
  using rnd_burst(1) [of rnd rate] by (metis f64_rounding_def monoD)

lemma rnd_rnd: "f64_rounding rnd \<Longrightarrow> rnd (rnd x) = rnd x"
  by (simp add: f64_rounding_def)

lemma rnd_mono: "f64_rounding rnd \<Longrightarrow> x \<le> y \<Longrightarrow> rnd x \<le> rnd y"
  by (simp add: f64_rounding_def monoD)

lemma rnd_min_burst: "f64_rounding rnd \<Longrightarrow> min (rnd x) (burst rnd rate) = rnd (min x (burst rnd rate))"
  using rnd_burst(1) [of rnd rate] rnd_mono [of rnd x "burst rnd rate"] rnd_mono [of rnd "burst rnd rate" x]
  by (auto simp: min_def)

lemma limiter_new_ok: "f64_rounding rnd \<Longrightarrow> limiter_ok rnd (limiter_new rnd now n)"
  using rnd_burst [of rnd n] by (simp add: limiter_ok_def limiter_new_def)

lemma set_rate_ok: "f64_rounding rnd \<Longrightarrow> limiter_ok rnd l \<Longrightarrow> limiter_ok rnd (set_rate rnd now n l)"
  using rnd_burst [of rnd n] by (auto simp: limiter_ok_def set_rate_def min_def)

lemma refill_ok:
  assumes "f64_rounding rnd" "0 \<le> t" "0 \<le> x"
  shows "0 \<le> min (rnd (t + x)) (burst rnd r)" "min (rnd (t + x)) (burst rnd r) \<le> burst rnd r"
    "rnd (min (rnd (t + x)) (burst rnd r)) = min (rnd (t + x)) (burst rnd r)"
  using rnd_nonneg [OF assms(1), of "t + x"] rnd_burst(2) [OF assms(1), of r] assms(2,3) rnd_rnd [OF assms(1)]
  by (simp_all add: rnd_min_burst [OF assms(1)] rnd_nonneg [OF assms(1)])
     (metis assms(1) min.cobounded2 rnd_le_burst)

lemma give_back_ok: "f64_rounding rnd \<Longrightarrow> limiter_ok rnd l \<Longrightarrow> limiter_ok rnd (give_back rnd n l)"
  using refill_ok [of rnd "li_tokens l" "rnd (real n)" "li_rate l"] rnd_nonneg [of rnd "real n"] by (simp add: limiter_ok_def give_back_def)

text \<open>What \<open>acquire_at\<close> adds for the time that has passed.\<close>

definition credit :: "(real \<Rightarrow> real) \<Rightarrow> instant \<Rightarrow> limiter \<Rightarrow> real" where
  "credit rnd now l = rnd (as_secs_f64 rnd (now - li_last l) * rnd (real (li_rate l)))"

definition refill :: "(real \<Rightarrow> real) \<Rightarrow> instant \<Rightarrow> limiter \<Rightarrow> limiter" where
  "refill rnd now l = l\<lparr>li_last := now, li_tokens := min (rnd (li_tokens l + credit rnd now l)) (burst rnd (li_rate l))\<rparr>"

lemma credit_nonneg: "f64_rounding rnd \<Longrightarrow> 0 \<le> credit rnd now l"
  by (simp add: credit_def as_secs_f64_def rnd_nonneg)

lemma refill_limiter_ok: "f64_rounding rnd \<Longrightarrow> limiter_ok rnd l \<Longrightarrow> limiter_ok rnd (refill rnd now l)"
  using refill_ok [of rnd "li_tokens l" "credit rnd now l" "li_rate l"] credit_nonneg [of rnd now l] by (simp add: limiter_ok_def refill_def)

lemma acquire_at_eq:
  "li_rate l \<noteq> 0 \<Longrightarrow> want \<noteq> 0 \<Longrightarrow> acquire_at rnd to_dur want now l =
    (let l1 = refill rnd now l; need = rnd (real (min want MIN_CHUNK)) in
     if li_tokens l1 < need then (Inl (max (to_dur (rnd (rnd (need - li_tokens l1) / rnd (real (li_rate l))))) (millis 1)), l1)
     else (Inr (min (as_usize (li_tokens l1)) want), l1\<lparr>li_tokens := rnd (li_tokens l1 - rnd (real (min (as_usize (li_tokens l1)) want)))\<rparr>))"
  by (simp add: acquire_at_def refill_def credit_def Let_def)

lemma as_usize_le: "0 \<le> x \<Longrightarrow> real (as_usize x) \<le> x"
  by (simp add: as_usize_def min_def) linarith

lemma acquire_at_ok:
  assumes R: "f64_rounding rnd" and ok: "limiter_ok rnd l" and nz: "li_rate l \<noteq> 0" "want \<noteq> 0"
  shows "limiter_ok rnd (snd (acquire_at rnd to_dur want now l))" "li_rate (snd (acquire_at rnd to_dur want now l)) = li_rate l"
    "fst (acquire_at rnd to_dur want now l) = Inr g \<Longrightarrow> min want 4096 \<le> g \<and> g \<le> want \<and> real g \<le> burst rnd (li_rate l)"
proof -
  let ?l = "refill rnd now l" and ?g = "min (as_usize (li_tokens (refill rnd now l))) want"
  have l: "limiter_ok rnd ?l" "li_rate ?l = li_rate l" using refill_limiter_ok [OF R ok] by (simp_all add: refill_def)
  then have t: "0 \<le> li_tokens ?l" "li_tokens ?l \<le> burst rnd (li_rate l)" "rnd (li_tokens ?l) = li_tokens ?l" by (simp_all add: limiter_ok_def)
  have g: "real ?g \<le> li_tokens ?l" using as_usize_le [OF t(1)] by simp
  have "rnd (real ?g) \<le> li_tokens ?l" using rnd_mono [OF R g] t(3) by simp
  then have sub: "0 \<le> rnd (li_tokens ?l - rnd (real ?g))" by (intro rnd_nonneg [OF R]) simp
  have "li_tokens ?l - rnd (real ?g) \<le> burst rnd (li_rate l)" using t(2) rnd_nonneg [OF R, of "real ?g"] by linarith
  then have le: "rnd (li_tokens ?l - rnd (real ?g)) \<le> burst rnd (li_rate l)" by (rule rnd_le_burst [OF R])
  have ok2: "limiter_ok rnd (?l\<lparr>li_tokens := rnd (li_tokens ?l - rnd (real ?g))\<rparr>)"
    using sub le l(2) rnd_rnd [OF R] by (simp add: limiter_ok_def)
  show "limiter_ok rnd (snd (acquire_at rnd to_dur want now l))" "li_rate (snd (acquire_at rnd to_dur want now l)) = li_rate l"
    using l ok2 by (simp_all add: acquire_at_eq [OF nz] Let_def)
  assume a: "fst (acquire_at rnd to_dur want now l) = Inr g"
  have n: "rnd (real (min want MIN_CHUNK)) = real (min want 4096)" using rnd_nat [OF R, of "min want 4096"] by (simp add: MIN_CHUNK_def min_def)
  have "real (min want 4096) \<le> li_tokens ?l" "g = ?g" using a n by (auto simp: acquire_at_eq [OF nz] Let_def split: if_splits)
  moreover from this(1) have "int (min want 4096) \<le> \<lfloor>li_tokens ?l\<rfloor>" by (simp add: le_floor_iff)
  then have "min want 4096 \<le> nat \<lfloor>li_tokens ?l\<rfloor>" by linarith
  ultimately show "min want 4096 \<le> g \<and> g \<le> want \<and> real g \<le> burst rnd (li_rate l)"
    using g t(2) by (auto simp: as_usize_def U64_MAX_def min_le_iff_disj)
qed

section \<open>The rate\<close>

datatype limiter_op = Acquire nat instant | GiveBack nat

text \<open>The calls that use a limiter while its rate stays the same, each at a moment of the clock, and what they moved.\<close>

record traffic =
  tf_granted :: nat
  tf_returned :: nat

fun limiter_run :: "(real \<Rightarrow> real) \<Rightarrow> (real \<Rightarrow> duration) \<Rightarrow> limiter_op list \<Rightarrow> limiter \<Rightarrow> traffic \<times> limiter" where
  "limiter_run rnd to_dur [] l = (\<lparr>tf_granted = 0, tf_returned = 0\<rparr>, l)"
| "limiter_run rnd to_dur (Acquire want now # ops) l =
     (let (r, l1) = acquire_at rnd to_dur want now l; (t, l2) = limiter_run rnd to_dur ops l1
      in (t\<lparr>tf_granted := tf_granted t + (case r of Inr g \<Rightarrow> g | Inl _ \<Rightarrow> 0)\<rparr>, l2))"
| "limiter_run rnd to_dur (GiveBack n # ops) l =
     (let (t, l2) = limiter_run rnd to_dur ops (give_back rnd n l) in (t\<lparr>tf_returned := tf_returned t + n\<rparr>, l2))"

fun op_times :: "limiter_op list \<Rightarrow> instant list" where
  "op_times [] = []"
| "op_times (Acquire want now # ops) = now # op_times ops"
| "op_times (GiveBack n # ops) = op_times ops"

text \<open>What the rate allows in a time: each of the three roundings on the way may add its relative error.\<close>

definition accrued :: "nat \<Rightarrow> duration \<Rightarrow> real" where
  "accrued rate d = real rate * (real d / 10 ^ 9) * (1 + 1 / 2 ^ 53) ^ 3"

lemma accrued_simps: "accrued rate (a + b) = accrued rate a + accrued rate b" "0 \<le> accrued rate a" "a \<le> b \<Longrightarrow> accrued rate a \<le> accrued rate b"
proof -
  show "accrued rate (a + b) = accrued rate a + accrued rate b" by (simp add: accrued_def field_simps)
  show "0 \<le> accrued rate a" by (simp add: accrued_def)
  show "accrued rate a \<le> accrued rate b" if "a \<le> b"
    unfolding accrued_def using that by (intro mult_right_mono mult_left_mono divide_right_mono) simp_all
qed

definition slack :: "(real \<Rightarrow> real) \<Rightarrow> nat \<Rightarrow> real" where
  "slack rnd rate = burst rnd rate / 2 ^ 53 + 1 / 2 ^ 1074"

lemma slack_nonneg: "f64_rounding rnd \<Longrightarrow> 0 \<le> slack rnd rate"
  using rnd_burst(2) [of rnd rate] by (simp add: slack_def)

lemma rnd_error:
  assumes "f64_rounding rnd" "0 \<le> x" "x \<le> burst rnd rate"
  shows "rnd x \<le> x + slack rnd rate"
proof -
  have "rnd x \<le> x * (1 + 1 / 2 ^ 53) + 1 / 2 ^ 1074" using assms(1,2) by (simp add: f64_rounding_def)
  also have "\<dots> = x + x / 2 ^ 53 + 1 / 2 ^ 1074" by (simp add: algebra_simps)
  also have "\<dots> \<le> x + slack rnd rate" using assms(3) by (simp add: slack_def divide_right_mono)
  finally show ?thesis .
qed

lemma refill_error:
  assumes "f64_rounding rnd" "0 \<le> t" "0 \<le> x"
  shows "min (rnd (t + x)) (burst rnd r) \<le> t + x + slack rnd r"
proof -
  have "rnd (min (t + x) (burst rnd r)) \<le> min (t + x) (burst rnd r) + slack rnd r"
    by (rule rnd_error [OF assms(1)]) (use assms rnd_burst(2) [OF assms(1), of r] in auto)
  then show ?thesis unfolding rnd_min_burst [OF assms(1)] by linarith
qed

lemma burst_le:
  assumes "f64_rounding rnd" "rate \<le> 2 ^ 53"
  shows "burst rnd rate \<le> 2 ^ 53"
proof -
  have "rnd (real rate) = real rate" by (rule rnd_nat [OF assms])
  moreover have "rnd (real rate / 4) \<le> rnd (real (2 ^ 53))"
    by (rule rnd_mono [OF assms(1)]) (use assms(2) in simp)
  moreover have "rnd (real (2 ^ 53)) = 2 ^ 53" using rnd_nat [OF assms(1), of "2 ^ 53"] by simp
  ultimately show ?thesis by (simp add: burst_def MIN_BURST_def)
qed

lemma credit_le:
  assumes R: "f64_rounding rnd" and rate: "li_rate l \<le> 2 ^ 53"
  shows "credit rnd now l \<le> accrued (li_rate l) (now - li_last l) + slack rnd (li_rate l)"
proof -
  define u :: real where "u = 1 / 2 ^ 53"
  define h :: real where "h = 1 / 2 ^ 1074"
  define d where "d = now - li_last l"
  define D :: real where "D = real d / 10 ^ 9"
  have err: "rnd x \<le> x * (1 + u) + h" if "0 \<le> x" for x using R that by (simp add: f64_rounding_def u_def h_def)
  have uh: "0 \<le> u" "u \<le> 1" "0 \<le> h" "16 * 2 ^ 53 * h \<le> u"
  proof -
    have "(2 :: real) ^ 110 \<le> 2 ^ 1074" by (rule power_increasing) simp_all
    then have "h \<le> 1 / 2 ^ 110" unfolding h_def by (intro divide_left_mono) simp_all
    then show "16 * 2 ^ 53 * h \<le> u" by (simp add: u_def)
  qed (simp_all add: u_def h_def)
  let ?q = "real (d div 10 ^ 9)" and ?f = "real (d mod 10 ^ 9) / 10 ^ 9" and ?r = "real (li_rate l)"
  have D: "D = ?q + ?f" "0 \<le> D"
  proof -
    have "real d = real (d div 10 ^ 9 * 10 ^ 9 + d mod 10 ^ 9)" by (simp only: div_mult_mod_eq)
    also have "\<dots> = ?q * 10 ^ 9 + real (d mod 10 ^ 9)" by (simp only: of_nat_add of_nat_mult of_nat_power of_nat_numeral)
    finally show "D = ?q + ?f" unfolding D_def by (simp only: add_divide_distrib) simp
  qed (simp add: D_def)
  have "rnd ?q + rnd ?f \<le> D * (1 + u) + 2 * h"
    using err [of ?q] err [of ?f] D(1) by (simp add: algebra_simps)
  moreover have "0 \<le> rnd ?q + rnd ?f" using rnd_nonneg [OF R] by simp
  ultimately have "as_secs_f64 rnd d \<le> (D * (1 + u) + 2 * h) * (1 + u) + h"
    using err [of "rnd ?q + rnd ?f"] mult_right_mono [of "rnd ?q + rnd ?f" "D * (1 + u) + 2 * h" "1 + u"] uh unfolding as_secs_f64_def by linarith
  also have "\<dots> \<le> D * (1 + u) ^ 2 + 5 * h"
    using mult_left_mono [of u 1 h] uh by (simp add: algebra_simps power2_eq_square)
  finally have s: "as_secs_f64 rnd d * ?r \<le> (D * (1 + u) ^ 2 + 5 * h) * ?r" by (rule mult_right_mono) simp
  have "credit rnd now l = rnd (as_secs_f64 rnd d * ?r)" using rnd_nat [OF R rate] by (simp add: credit_def d_def)
  also have "\<dots> \<le> as_secs_f64 rnd d * ?r * (1 + u) + h"
    by (rule err) (simp add: as_secs_f64_def rnd_nonneg [OF R])
  also have "\<dots> \<le> (D * (1 + u) ^ 2 + 5 * h) * ?r * (1 + u) + h" using mult_right_mono [OF s, of "1 + u"] uh by simp
  also have "\<dots> = ?r * D * (1 + u) ^ 3 + (5 * h * ?r * (1 + u) + h)" by (simp add: power2_eq_square power3_eq_cube algebra_simps)
  also have "5 * h * ?r * (1 + u) + h \<le> slack rnd (li_rate l)"
  proof -
    have "?r \<le> real (2 ^ 53)" using rate by (simp only: of_nat_le_iff)
    then have m: "5 * h * ?r \<le> 5 * h * 2 ^ 53" using uh by (intro mult_left_mono) simp_all
    have "5 * h * ?r * (1 + u) \<le> 5 * h * 2 ^ 53 * 2" by (rule mult_mono [OF m]) (use uh in simp_all)
    moreover have "5 * h * 2 ^ 53 * 2 + h \<le> u" using uh(3,4) by simp
    ultimately have "5 * h * ?r * (1 + u) + h \<le> u" by linarith
    also have "u \<le> slack rnd (li_rate l)"
      using rnd_burst(2) [OF R, of "li_rate l"] uh(3) unfolding slack_def u_def h_def by (simp add: divide_right_mono add_increasing2)
    finally show ?thesis .
  qed
  finally show ?thesis by (simp add: accrued_def D_def d_def u_def)
qed

lemma acquire_after:
  assumes R: "f64_rounding rnd" and ok: "limiter_ok rnd l" and rate: "li_rate l \<noteq> 0" "li_rate l \<le> 2 ^ 53" and want: "want \<noteq> 0"
    and a: "acquire_at rnd to_dur want now l = (r, l')"
  shows "real (case r of Inr g \<Rightarrow> g | Inl _ \<Rightarrow> 0) + li_tokens l' \<le> li_tokens (refill rnd now l) + slack rnd (li_rate l)" "li_last l' = now"
proof -
  let ?l = "refill rnd now l" and ?g = "min (as_usize (li_tokens (refill rnd now l))) want" and ?e = "slack rnd (li_rate l)"
  have l: "0 \<le> li_tokens ?l" "li_tokens ?l \<le> burst rnd (li_rate l)" using refill_limiter_ok [OF R ok, of now] by (simp_all add: limiter_ok_def refill_def)
  have g: "real ?g \<le> li_tokens ?l" using as_usize_le [OF l(1)] by simp
  then have "real ?g \<le> real (2 ^ 53)" using l(2) burst_le [OF R rate(2)] by simp
  then have "?g \<le> 2 ^ 53" by (simp only: of_nat_le_iff)
  then have ex: "rnd (real ?g) = real ?g" by (rule rnd_nat [OF R])
  have "rnd (li_tokens ?l - real ?g) \<le> li_tokens ?l - real ?g + ?e" by (rule rnd_error [OF R]) (use g l(2) in auto)
  then have sub: "rnd (li_tokens ?l - rnd (real ?g)) \<le> li_tokens ?l - real ?g + ?e" unfolding ex .
  consider (wait) d where "r = Inl d" "l' = ?l" | (grant) "r = Inr ?g" "l' = ?l\<lparr>li_tokens := rnd (li_tokens ?l - rnd (real ?g))\<rparr>"
    using a unfolding acquire_at_eq [OF rate(1) want] Let_def by (metis Pair_inject)
  then have "real (case r of Inr g \<Rightarrow> g | Inl _ \<Rightarrow> 0) + li_tokens l' \<le> li_tokens ?l + ?e \<and> li_last l' = now"
  proof cases
    case wait
    then show ?thesis using slack_nonneg [OF R, of "li_rate l"] by (simp add: refill_def)
  next
    case grant
    have "real (case r of Inr g \<Rightarrow> g | Inl _ \<Rightarrow> 0) + li_tokens l' = real ?g + rnd (li_tokens ?l - rnd (real ?g))" "li_last l' = now"
      by (simp_all add: grant refill_def)
    then show ?thesis using sub by simp
  qed
  then show "real (case r of Inr g \<Rightarrow> g | Inl _ \<Rightarrow> 0) + li_tokens l' \<le> li_tokens ?l + ?e" "li_last l' = now" by blast+
qed

lemma refill_tokens:
  assumes R: "f64_rounding rnd" and ok: "limiter_ok rnd l" and rate: "li_rate l \<le> 2 ^ 53"
  shows "li_tokens (refill rnd now l) \<le> li_tokens l + accrued (li_rate l) (now - li_last l) + 2 * slack rnd (li_rate l)"
    "li_tokens (refill rnd now l) \<le> burst rnd (li_rate l)"
  using refill_error [OF R, of "li_tokens l" "credit rnd now l" "li_rate l"] ok credit_nonneg [OF R, of now l] credit_le [OF R rate, of now]
  by (simp_all add: refill_def limiter_ok_def)

lemma acquire_keeps:
  assumes "f64_rounding rnd" "limiter_ok rnd l" "li_rate l \<noteq> 0" "acquire_at rnd to_dur want now l = (r, l1)"
  shows "limiter_ok rnd l1" "li_rate l1 = li_rate l" "want = 0 \<Longrightarrow> r = Inr 0 \<and> l1 = l"
proof -
  have "limiter_ok rnd l1 \<and> li_rate l1 = li_rate l \<and> (want = 0 \<longrightarrow> r = Inr 0 \<and> l1 = l)"
  proof (cases "want = 0")
    case True
    then show ?thesis using assms(2,4) by (auto simp: acquire_at_def)
  next
    case False
    then show ?thesis using acquire_at_ok(1,2) [OF assms(1-3) False, of to_dur now] assms(4) by simp
  qed
  then show "limiter_ok rnd l1" "li_rate l1 = li_rate l" "want = 0 \<Longrightarrow> r = Inr 0 \<and> l1 = l" by blast+
qed

lemma give_back_tokens:
  assumes R: "f64_rounding rnd" and ok: "limiter_ok rnd l" and n: "n \<le> 2 ^ 53"
  shows "li_tokens (give_back rnd n l) \<le> li_tokens l + real n + slack rnd (li_rate l)"
  using refill_error [OF R, of "li_tokens l" "real n" "li_rate l"] rnd_nat [OF R n] ok slack_nonneg [OF R, of "li_rate l"]
  by (simp add: give_back_def limiter_ok_def)

definition op_small :: "limiter_op \<Rightarrow> bool" where
  "op_small x = (case x of GiveBack n \<Rightarrow> n \<le> 2 ^ 53 | Acquire _ _ \<Rightarrow> True)"

lemma slack_step: "3 * real (length (op # ops)) * e = 3 * real (length ops) * e + 3 * (e :: real)"
  by (simp add: algebra_simps)

lemma limiter_run_bound:
  assumes R: "f64_rounding rnd"
  shows "limiter_ok rnd l \<Longrightarrow> li_rate l \<noteq> 0 \<Longrightarrow> li_rate l \<le> 2 ^ 53 \<Longrightarrow> list_all op_small ops \<Longrightarrow> limiter_run rnd to_dur ops l = (t, l') \<Longrightarrow>
    sorted (li_last l # op_times ops) \<Longrightarrow> list_all (\<lambda>x. x \<le> till) (li_last l # op_times ops) \<Longrightarrow>
    limiter_ok rnd l' \<and> real (tf_granted t) + li_tokens l'
      \<le> li_tokens l + real (tf_returned t) + accrued (li_rate l) (till - li_last l) + 3 * real (length ops) * slack rnd (li_rate l)"
proof (induction ops arbitrary: l t l')
  case Nil
  then have "t = \<lparr>tf_granted = 0, tf_returned = 0\<rparr>" "l = l'" by auto
  then show ?case using Nil(1) accrued_simps(2) by simp
next
  case (Cons op ops)
  let ?e = "slack rnd (li_rate l)"
  note e = slack_nonneg [OF R, of "li_rate l"]
  show ?case
  proof (cases op)
    case (Acquire want now)
    obtain r l1 where a: "acquire_at rnd to_dur want now l = (r, l1)" by fastforce
    obtain t1 l2 where r: "limiter_run rnd to_dur ops l1 = (t1, l2)" by fastforce
    have t: "t = t1\<lparr>tf_granted := tf_granted t1 + (case r of Inr g \<Rightarrow> g | Inl _ \<Rightarrow> 0)\<rparr>" "l' = l2"
      using Cons.prems(5) by (simp_all add: Acquire a r)
    note K = acquire_keeps [OF R Cons.prems(1,2) a]
    have times: "li_last l \<le> now" "now \<le> till" "sorted (now # op_times ops)" "list_all (\<lambda>x. x \<le> till) (now # op_times ops)"
      using Cons.prems(6,7) by (simp_all add: Acquire)
    have last: "li_last l1 = (if want = 0 then li_last l else now)" using K(3) acquire_after(2) [OF R Cons.prems(1-3) _ a] by simp
    then have "sorted (li_last l1 # op_times ops)" "list_all (\<lambda>x. x \<le> till) (li_last l1 # op_times ops)"
      using times by auto
    then have IH: "limiter_ok rnd l2 \<and> real (tf_granted t1) + li_tokens l2
      \<le> li_tokens l1 + real (tf_returned t1) + accrued (li_rate l) (till - li_last l1) + 3 * real (length ops) * ?e"
      using Cons.IH [OF K(1) _ _ _ r] K(2) Cons.prems(2-4) by simp
    have "real (case r of Inr g \<Rightarrow> g | Inl _ \<Rightarrow> 0) + li_tokens l1 + accrued (li_rate l) (till - li_last l1)
        \<le> li_tokens l + accrued (li_rate l) (till - li_last l) + 3 * ?e"
    proof (cases "want = 0")
      case True
      then show ?thesis using K(3) e by simp
    next
      case False
      have "till - li_last l = (now - li_last l) + (till - now)" using times by simp
      then have "accrued (li_rate l) (till - li_last l) = accrued (li_rate l) (now - li_last l) + accrued (li_rate l) (till - now)"
        using accrued_simps(1) by presburger
      then show ?thesis using False last acquire_after(1) [OF R Cons.prems(1-3) False a] refill_tokens(1) [OF R Cons.prems(1,3), of now] by simp
    qed
    then show ?thesis using IH unfolding slack_step by (simp add: t)
  next
    case (GiveBack n)
    let ?l1 = "give_back rnd n l"
    obtain t1 l2 where r: "limiter_run rnd to_dur ops ?l1 = (t1, l2)" by fastforce
    have l1: "limiter_ok rnd ?l1" "li_rate ?l1 = li_rate l" "li_last ?l1 = li_last l" using give_back_ok [OF R Cons.prems(1)] by (simp_all add: give_back_def)
    have t: "t = t1\<lparr>tf_returned := tf_returned t1 + n\<rparr>" "l' = l2" using Cons.prems(5) by (simp_all add: GiveBack r)
    have IH: "limiter_ok rnd l2 \<and> real (tf_granted t1) + li_tokens l2
      \<le> li_tokens ?l1 + real (tf_returned t1) + accrued (li_rate l) (till - li_last l) + 3 * real (length ops) * ?e"
      using Cons.IH [OF l1(1) _ _ _ r] l1(2,3) Cons.prems(2-4,6,7) by (simp add: GiveBack)
    have "n \<le> 2 ^ 53" using Cons.prems(4) by (simp add: GiveBack op_small_def)
    then show ?thesis using IH give_back_tokens [OF R Cons.prems(1), of n] e unfolding slack_step by (simp add: t)
  qed
qed

lemma limiter_window:
  assumes R: "f64_rounding rnd"
  shows "limiter_ok rnd l \<Longrightarrow> li_rate l \<noteq> 0 \<Longrightarrow> li_rate l \<le> 2 ^ 53 \<Longrightarrow> list_all op_small ops \<Longrightarrow> limiter_run rnd to_dur ops l = (t, l') \<Longrightarrow>
    sorted (op_times ops) \<Longrightarrow> list_all (\<lambda>x. since \<le> x \<and> x \<le> till) (op_times ops) \<Longrightarrow>
    real (tf_granted t) \<le> burst rnd (li_rate l) + real (tf_returned t) + accrued (li_rate l) (till - since) + 3 * real (length ops) * slack rnd (li_rate l)"
proof (induction ops arbitrary: l t l')
  case Nil
  then show ?case using rnd_burst(2) [OF R, of "li_rate l"] accrued_simps(2) [of "li_rate l" "till - since"] by auto
next
  case (Cons op ops)
  let ?e = "slack rnd (li_rate l)"
  note e = slack_nonneg [OF R, of "li_rate l"]
  show ?case
  proof (cases op)
    case (Acquire want now)
    obtain r l1 where a: "acquire_at rnd to_dur want now l = (r, l1)" by fastforce
    obtain t1 l2 where r: "limiter_run rnd to_dur ops l1 = (t1, l2)" by fastforce
    have t: "t = t1\<lparr>tf_granted := tf_granted t1 + (case r of Inr g \<Rightarrow> g | Inl _ \<Rightarrow> 0)\<rparr>" "l' = l2"
      using Cons.prems(5) by (simp_all add: Acquire a r)
    note K = acquire_keeps [OF R Cons.prems(1,2) a]
    show ?thesis
    proof (cases "want = 0")
      case True
      then have "real (tf_granted t1) \<le> burst rnd (li_rate l) + real (tf_returned t1) + accrued (li_rate l) (till - since) + 3 * real (length ops) * ?e"
        using Cons.IH [OF K(1) _ _ _ r] K Cons.prems(2-4,6,7) by (simp add: Acquire)
      then show ?thesis using K(3) True e unfolding slack_step by (simp add: t)
    next
      case False
      have last: "li_last l1 = now" by (rule acquire_after(2) [OF R Cons.prems(1-3) False a])
      have times: "since \<le> now" "sorted (li_last l1 # op_times ops)" "list_all (\<lambda>x. x \<le> till) (li_last l1 # op_times ops)"
        using Cons.prems(6,7) by (auto simp: Acquire last list_all_iff)
      have "limiter_ok rnd l2 \<and> real (tf_granted t1) + li_tokens l2
        \<le> li_tokens l1 + real (tf_returned t1) + accrued (li_rate l) (till - now) + 3 * real (length ops) * ?e"
        using limiter_run_bound [OF R K(1) _ _ _ r times(2,3)] K(2) Cons.prems(2-4) last by simp
      moreover have "0 \<le> li_tokens l2" using calculation by (simp add: limiter_ok_def)
      moreover have "accrued (li_rate l) (till - now) \<le> accrued (li_rate l) (till - since)" using times(1) by (intro accrued_simps(3)) simp
      moreover have "real (case r of Inr g \<Rightarrow> g | Inl _ \<Rightarrow> 0) + li_tokens l1 \<le> burst rnd (li_rate l) + ?e"
        using acquire_after(1) [OF R Cons.prems(1-3) False a] refill_tokens(2) [OF R Cons.prems(1,3), of now] by simp
      ultimately show ?thesis using e unfolding slack_step by (simp add: t)
    qed
  next
    case (GiveBack n)
    let ?l1 = "give_back rnd n l"
    obtain t1 l2 where r: "limiter_run rnd to_dur ops ?l1 = (t1, l2)" by fastforce
    have l1: "limiter_ok rnd ?l1" "li_rate ?l1 = li_rate l" using give_back_ok [OF R Cons.prems(1)] by (simp_all add: give_back_def)
    have t: "t = t1\<lparr>tf_returned := tf_returned t1 + n\<rparr>" "l' = l2" using Cons.prems(5) by (simp_all add: GiveBack r)
    have "real (tf_granted t1) \<le> burst rnd (li_rate l) + real (tf_returned t1) + accrued (li_rate l) (till - since) + 3 * real (length ops) * ?e"
      using Cons.IH [OF l1(1) _ _ _ r] l1(2) Cons.prems(2-4,6,7) by (simp add: GiveBack)
    then show ?thesis using e unfolding slack_step by (simp add: t)
  qed
qed

section \<open>Properties\<close>

text \<open>C33. The limit holds in real time: whatever a limiter did before, between any two moments \<open>since\<close> and \<open>till\<close> of the clock what it grants and does not get
  back is at most one burst and what its rate allows for the time between them, up to the rounding of \<open>f64\<close> (three units in the last place
  of the rate for the time, and of the burst for each call). The calls read the clock in the order in which they get the lock.\<close>

theorem limiter_keeps_rate:
  assumes "f64_rounding rnd" "limiter_ok rnd l" "li_rate l \<noteq> 0" "li_rate l \<le> 2 ^ 53" "list_all op_small ops"
    and "sorted (op_times ops)" "list_all (\<lambda>x. since \<le> x \<and> x \<le> till) (op_times ops)"
    and "limiter_run rnd to_dur ops l = (t, l')"
  shows "real (tf_granted t) - real (tf_returned t) \<le> burst rnd (li_rate l)
      + real (li_rate l) * (real (till - since) / 10 ^ 9) * (1 + 1 / 2 ^ 53) ^ 3 + 3 * real (length ops) * slack rnd (li_rate l)"
  using limiter_window [OF assms(1-5,8,6,7)] by (simp add: accrued_def)

theorem limiter_keeps_rate_witness:
  "real (tf_granted (fst (limiter_run (\<lambda>x. x) (\<lambda>_. 0) [Acquire 50000 0, Acquire 50000 0] (limiter_new (\<lambda>x. x) 0 100000)))) \<le> 25003"
proof -
  let ?ops = "[Acquire 50000 0, Acquire 50000 0]" and ?l = "limiter_new (\<lambda>x. x) 0 100000"
  have id: "f64_rounding (\<lambda>x. x)" by (auto simp: f64_rounding_def mono_def algebra_simps)
  obtain t l where r: "limiter_run (\<lambda>x. x) (\<lambda>_. 0) ?ops ?l = (t, l)" by fastforce
  have rt: "li_rate ?l = 100000" by (simp add: limiter_new_def)
  have "tf_returned t = 0" using r by (auto split: prod.splits)
  moreover have "real (tf_granted t) - real (tf_returned t) \<le> burst (\<lambda>x. x) (li_rate ?l)
      + real (li_rate ?l) * (real (0 - 0) / 10 ^ 9) * (1 + 1 / 2 ^ 53) ^ 3 + 3 * real (length ?ops) * slack (\<lambda>x. x) (li_rate ?l)"
    by (rule limiter_keeps_rate [OF id limiter_new_ok [OF id] _ _ _ _ _ r]) (simp_all add: op_small_def rt)
  moreover have "slack (\<lambda>x. x) 100000 \<le> 1 / 2"
  proof -
    have "(2 :: real) ^ 2 \<le> 2 ^ 1074" by (rule power_increasing) simp_all
    then have "1 / 2 ^ 1074 \<le> 1 / (2 :: real) ^ 2" by (intro divide_left_mono) simp_all
    then show ?thesis by (simp add: slack_def burst_def MIN_BURST_def)
  qed
  ultimately show ?thesis unfolding r fst_conv by (simp add: burst_def MIN_BURST_def rt)
qed

text \<open>A limited read moves what the bucket allows: it returns at most the bytes that fit the buffer and at most one burst, and the bucket
  stays between empty and full, whatever the wrapped stream does; a read that waits waits at least a millisecond, so it does not spin.\<close>

theorem shaped_read_bounded:
  assumes "f64_rounding rnd" "limiter_ok rnd (sp_download sp)" "li_rate (sp_download sp) \<noteq> 0"
    and "\<forall>n. case inner n of ReadyOk bs \<Rightarrow> length bs \<le> n | _ \<Rightarrow> True"
    and "poll_read rnd to_dur now inner remaining sp st = (r, sp', st')"
  shows "limiter_ok rnd (sp_download sp') \<and> sp_upload sp' = sp_upload sp
    \<and> (case r of ReadyOk bs \<Rightarrow> length bs \<le> remaining \<and> real (length bs) \<le> burst rnd (li_rate (sp_download sp)) | _ \<Rightarrow> True)"
proof -
  let ?d = "sp_download sp"
  consider (early) "sp' = sp" "r = Pending \<or> r = ReadyOk []" | (go) "remaining \<noteq> 0"
    "poll_read rnd to_dur now inner remaining sp st = (r, sp', st')" "fst (poll_delay now (ss_read_delay st))"
    using assms(3,5) by (cases "fst (poll_delay now (ss_read_delay st)) \<and> remaining \<noteq> 0") (auto simp: poll_read_def Let_def split: prod.splits if_splits)
  then show ?thesis
  proof cases
    case early
    then show ?thesis using assms(2) rnd_burst(2) [OF assms(1), of "li_rate ?d"] by auto
  next
    case go
    note A = acquire_at_ok [OF assms(1,2,3) go(1), of to_dur now]
    obtain q l where q: "acquire_at rnd to_dur remaining now ?d = (q, l)" by fastforce
    show ?thesis
    proof (cases q)
      case (Inl w)
      then have "r = Pending" "sp' = sp\<lparr>sp_download := l\<rparr>" using go assms(3) q by (auto simp: poll_read_def Let_def split: prod.splits)
      then show ?thesis using A(1) q by simp
    next
      case (Inr allowed)
      have g: "allowed \<le> remaining" "real allowed \<le> burst rnd (li_rate ?d)" using A(3) q Inr by auto
      have l: "limiter_ok rnd l" using A(1) q by simp
      have out: "r = inner allowed" "\<exists>n. sp' = sp\<lparr>sp_download := give_back rnd n l\<rparr>"
        using go assms(3) q Inr by (auto simp: poll_read_def Let_def split: prod.splits poll.splits)
      have "\<And>bs. r = ReadyOk bs \<Longrightarrow> length bs \<le> allowed" using assms(4) out(1) by (metis poll.simps(10))
      then show ?thesis using out(2) give_back_ok [OF assms(1) l] g by (fastforce split: poll.split)
    qed
  qed
qed

theorem shaped_read_bounded_witness:
  "\<exists>r sp' st'. poll_read (\<lambda>x. x) (\<lambda>_. 0) 0 (\<lambda>n. ReadyOk []) 10 (shaper_new (\<lambda>x. x) 0 1000 0) \<lparr>ss_read_delay = None, ss_write_delay = None\<rparr> = (r, sp', st')
     \<and> limiter_ok (\<lambda>x. x) (sp_download sp')"
proof -
  have id: "f64_rounding (\<lambda>x. x)" by (auto simp: f64_rounding_def mono_def algebra_simps)
  let ?p = "poll_read (\<lambda>x. x) (\<lambda>_. 0) 0 (\<lambda>n. ReadyOk []) 10 (shaper_new (\<lambda>x. x) 0 1000 0) \<lparr>ss_read_delay = None, ss_write_delay = None\<rparr>"
  obtain r sp' st' where r: "?p = (r, sp', st')" by (cases ?p) auto
  have "limiter_ok (\<lambda>x. x) (sp_download sp') \<and> sp_upload sp' = sp_upload (shaper_new (\<lambda>x. x) 0 1000 0)
    \<and> (case r of ReadyOk bs \<Rightarrow> length bs \<le> 10 \<and> real (length bs) \<le> burst (\<lambda>x. x) (li_rate (sp_download (shaper_new (\<lambda>x. x) 0 1000 0))) | _ \<Rightarrow> True)"
    by (rule shaped_read_bounded [OF id _ _ _ r]) (use limiter_new_ok [OF id] in \<open>simp_all add: shaper_new_def limiter_new_def\<close>)
  then show ?thesis using r by blast
qed

end
