(* ===== verification/Driver.thy ===== *)
theory Driver
  imports CoordinatorRun Magnet Tracker BencodeSpec
begin

text \<open>
  The life of one torrent, \<open>background_task\<close> of \<open>ui/dashboard.rs\<close>: from the source of the torrent over the choice of files and the resume data to
  the start of its coordinator, and then the commands of the user until the end. The user's commands, the result of the metadata download and of the
  announcement, and what the file system says of the target are arguments; status lines are left out. A list of commands is the whole history of
  the channel: its end is the end of the sender.
\<close>

section \<open>Loading\<close>

datatype core_command = ProbePeer socket_addr | StartSwarm | StopAll | CmdPause | CmdResume | SelectionChanged | Remove bool

datatype driver_error = BadMagnet magnet_error | BadTorrent torrent_parse_error | FetchFailed

text \<open>What \<open>target_path.exists()\<close>, \<open>is_file()\<close>, the length of \<open>metadata()\<close> and the second \<open>exists()\<close> answer.\<close>

record target =
  tg_exists :: bool
  tg_is_file :: bool
  tg_len :: "nat option"
  tg_still_exists :: bool

record driver_env =
  dv_cfg :: coord_cfg
  dv_open :: "path \<Rightarrow> nat \<Rightarrow> filesystem \<Rightarrow> (io_error + unit) \<times> filesystem"
  dv_output_dir :: path
  dv_target :: "rstring \<Rightarrow> target"
  dv_hex :: "rstring \<Rightarrow> bytes option"
  dv_hex_encode :: "bytes \<Rightarrow> rstring"
  dv_url_parse :: "rstring \<Rightarrow> (rstring \<times> (rstring \<times> rstring) list) option"
  dv_file_len :: "path \<Rightarrow> string + nat"
  dv_file_bytes :: "path \<Rightarrow> string + bytes"
  dv_de_torrent :: "bytes \<Rightarrow> string + raw_torrent"
  dv_from_json :: "bytes \<Rightarrow> fast_resume_state option"
  dv_resume_file :: "bytes \<Rightarrow> path"

definition magnet_meta :: "magnet \<Rightarrow> torrent_meta" where
  "magnet_meta mg =
     with_extra_trackers
       (meta_new [] (case mg_name mg of Some n \<Rightarrow> n | None \<Rightarrow> lit ''Magnet Download'') (256 * 1024) 0 [] None None (mg_info_hash mg))
       (mg_trackers mg)"

definition load_source :: "driver_env \<Rightarrow> torrent_source \<Rightarrow> driver_error + torrent_meta" where
  "load_source E src =
     (case src of
        SourceMagnet uri \<Rightarrow>
          (case magnet_parse (dv_hex E) (dv_url_parse E) uri of Inl e \<Rightarrow> Inl (BadMagnet e) | Inr mg \<Rightarrow> Inr (magnet_meta mg))
      | SourceFile p \<Rightarrow>
          (case parse_torrent_file (cc_win (dv_cfg E)) (cc_sha1 (dv_cfg E)) (dv_de_torrent E) (dv_file_len E p) (dv_file_bytes E p) of
             Inl e \<Rightarrow> Inl (BadTorrent e)
           | Inr m \<Rightarrow> Inr m))"

text \<open>The wait for the start, and the wait for the metadata: each poll says whether the download had finished and what the next 200 ms
  brought.\<close>

datatype waited = WaitOver | WaitStopped | WaitClosed

fun await_start :: "core_command list \<Rightarrow> waited" where
  "await_start [] = WaitClosed"
| "await_start (StartSwarm # rest) = WaitOver"
| "await_start (StopAll # rest) = WaitStopped"
| "await_start (_ # rest) = await_start rest"

datatype poll_result = PollCommand core_command | PollTimeout

fun await_fetch :: "(bool \<times> poll_result) list \<Rightarrow> waited" where
  "await_fetch [] = WaitClosed"
| "await_fetch ((finished, r) # rest) =
     (if finished then WaitOver
      else case r of PollCommand StopAll \<Rightarrow> WaitStopped | _ \<Rightarrow> await_fetch rest)"

definition adopt_metadata :: "driver_env \<Rightarrow> torrent_meta \<Rightarrow> bytes option \<Rightarrow> driver_error + torrent_meta" where
  "adopt_metadata E meta fetched =
     (case fetched of
        None \<Rightarrow> Inl FetchFailed
      | Some bs \<Rightarrow>
          (case parse_torrent_metadata_bytes (cc_win (dv_cfg E)) (cc_sha1 (dv_cfg E)) (cc_de_info (dv_cfg E)) bs (tm_info_hash meta) of
             Inl e \<Rightarrow> Inl FetchFailed
           | Inr m \<Rightarrow> Inr (with_extra_trackers m (tm_trackers meta))))"

section \<open>Choice of files\<close>

definition usable_flags :: "torrent_file list \<Rightarrow> bool list option \<Rightarrow> bool list option" where
  "usable_flags files sel =
     (case sel of Some flags \<Rightarrow> if length flags = length files \<and> True \<in> set flags then Some flags else None | None \<Rightarrow> None)"

definition chosen_files :: "torrent_meta \<Rightarrow> bool list option \<Rightarrow> bool list option" where
  "chosen_files meta sel = (case tm_files meta of Some files \<Rightarrow> usable_flags files sel | None \<Rightarrow> None)"

definition file_selection :: "torrent_meta \<Rightarrow> bool list option \<Rightarrow> selection" where
  "file_selection meta chosen =
     (case (tm_files meta, chosen) of
        (Some files, Some flags) \<Rightarrow> sel_from_files files flags (tm_piece_length meta) (length (tm_pieces meta))
      | _ \<Rightarrow> sel_all (length (tm_pieces meta)))"

text \<open>The second \<open>chosen_files\<close>: a selection that covers everything counts as none.\<close>

definition stored_files :: "torrent_meta \<Rightarrow> bool list option \<Rightarrow> bool list option" where
  "stored_files meta sel =
     (let chosen = chosen_files meta sel in if sel_is_all (file_selection meta chosen) then None else chosen)"

definition total_size :: "torrent_meta \<Rightarrow> nat" where
  "total_size meta = (case tm_total_length meta of Some t \<Rightarrow> t | None \<Rightarrow> tm_piece_length meta * tm_pieces_count meta)"

definition left_to_fetch :: "torrent_meta \<Rightarrow> bool list option \<Rightarrow> nat" where
  "left_to_fetch meta sel = wanted_bytes (file_selection meta (chosen_files meta sel)) (tm_piece_length meta) (total_size meta)"

section \<open>Start of the coordinator\<close>

text \<open>\<open>Path::with_extension\<close> on the last component.\<close>

definition set_extension :: "rstring \<Rightarrow> rstring \<Rightarrow> rstring" where
  "set_extension name ext =
     (let stem = rev (drop 1 (dropWhile (\<lambda>c. c \<noteq> 46) (rev name)))
      in (if stem = [] then name else stem) @ 46 # ext)"

definition with_extension :: "path \<Rightarrow> rstring \<Rightarrow> path" where
  "with_extension p ext = (if p = [] \<or> last p = lit ''..'' then p else butlast p @ [set_extension (last p) ext])"

definition legacy_resume_path :: "driver_env \<Rightarrow> torrent_source \<Rightarrow> bytes \<Rightarrow> path" where
  "legacy_resume_path E src info_hash =
     (case src of
        SourceFile p \<Rightarrow> with_extension p (lit ''fastresume'')
      | SourceMagnet _ \<Rightarrow> dv_output_dir E @ [dv_hex_encode E info_hash @ lit ''.fastresume''])"

definition is_valid :: "target \<Rightarrow> bool" where
  "is_valid t \<longleftrightarrow> (if tg_exists t \<and> tg_is_file t \<and> tg_len t = Some 0 then False else tg_exists t)"

definition load_resume :: "driver_env \<Rightarrow> torrent_source \<Rightarrow> torrent_meta \<Rightarrow> filesystem
    \<Rightarrow> (resume_error + fast_resume_state option) \<times> filesystem" where
  "load_resume E src meta fs =
     (case load_fastresume (dv_from_json E) (cc_env (dv_cfg E)) (dv_resume_file E (tm_info_hash meta)) fs of
        (Inr None, fs1) \<Rightarrow> load_fastresume (dv_from_json E) (cc_env (dv_cfg E)) (legacy_resume_path E src (tm_info_hash meta)) fs1
      | other \<Rightarrow> other)"

text \<open>The manager, whether the files must be checked, and whether the torrent starts paused.\<close>

definition choose_manager :: "resume_error + fast_resume_state option \<Rightarrow> target \<Rightarrow> nat \<Rightarrow> selection \<Rightarrow> torrent_manager \<times> bool \<times> bool" where
  "choose_manager loaded t pieces_count sel =
     (case loaded of
        Inr (Some st) \<Rightarrow>
          if is_valid t then (with_selection pieces_count (fr_completed st) sel, False, False)
          else (with_selection pieces_count [] sel, False, True)
      | _ \<Rightarrow> (with_selection pieces_count [] sel, is_valid t \<and> tg_still_exists t, False))"

definition initial_coordinator_state :: "torrent_manager \<Rightarrow> disk \<Rightarrow> bool \<Rightarrow> bytes list \<Rightarrow> nat \<Rightarrow> nat \<Rightarrow> bool \<Rightarrow> coordinator_state" where
  "initial_coordinator_state m d requires_check hashes piece_length total_length start_paused =
     (if requires_check \<and> hashes \<noteq> [] then CheckingFiles m d hashes piece_length total_length 0
      else DownloadingData m d start_paused False)"

definition driver_cfg :: "driver_env \<Rightarrow> torrent_meta \<Rightarrow> coord_cfg" where
  "driver_cfg E meta = (dv_cfg E)\<lparr>cc_resume_path := dv_resume_file E (tm_info_hash meta)\<rparr>"

definition start_coordinator ::
  "driver_env \<Rightarrow> torrent_source \<Rightarrow> torrent_meta \<Rightarrow> bool list option \<Rightarrow> instant \<Rightarrow> filesystem \<Rightarrow> (io_error + coordinator) \<times> filesystem" where
  "start_coordinator E src meta sel now fs =
     (let (loaded, fs1) = load_resume E src meta fs;
          (m, requires_check, start_paused) =
            choose_manager loaded (dv_target E (tm_name meta)) (tm_pieces_count meta) (file_selection meta (chosen_files meta sel))
      in case init_with_selection (dv_open E) (cc_env (dv_cfg E)) (cc_win (dv_cfg E)) (dv_output_dir E) (total_size meta)
              (tm_piece_length meta) (tm_files meta) (tm_name meta) (stored_files meta sel) fs1 of
           (Inl e, fs2) \<Rightarrow> (Inl e, fs2)
         | (Inr d, fs2) \<Rightarrow>
             (Inr \<lparr>co_state = initial_coordinator_state m d requires_check (tm_pieces meta) (tm_piece_length meta) (total_size meta) start_paused,
                   co_fs = fs2, co_last_persist = now\<rparr>, fs2))"

section \<open>Commands\<close>

datatype driver_out =
    TorrentLoaded torrent_meta
  | MetadataFetched torrent_meta
  | DriverError driver_error
  | StartAnnouncement announce_params
  | PeerFound socket_addr
  | TrackerDone nat
  | DiskFailed io_error
  | CoordinatorStarted coordinator
  | SwarmStarted "socket_addr list" nat
  | ToCoordinator coordinator_msg
  | ShutdownSignal
  | ShutdownComplete

definition initial_flags :: "torrent_meta \<Rightarrow> bool list option \<Rightarrow> bool list" where
  "initial_flags meta sel =
     (case stored_files meta sel of
        Some flags \<Rightarrow> flags
      | None \<Rightarrow> (case tm_files meta of Some files \<Rightarrow> replicate (length files) True | None \<Rightarrow> []))"

definition change_selection :: "torrent_meta \<Rightarrow> bool list option \<Rightarrow> bool list \<Rightarrow> bool list \<times> driver_out list" where
  "change_selection meta sel current_flags =
     (case tm_files meta of
        None \<Rightarrow> (current_flags, [])
      | Some files \<Rightarrow>
          (case usable_flags files sel of
             None \<Rightarrow> (current_flags, [])
           | Some after \<Rightarrow>
               if after = current_flags then (current_flags, [])
               else (after, [ToCoordinator (SetSelection
                      (sel_from_files files after (tm_piece_length meta) (length (tm_pieces meta))) after
                      (pieces_to_refetch files current_flags after (tm_piece_length meta) (length (tm_pieces meta))))])))"

text \<open>The command loop. With each command come the selection of the user at that time and whether the channel to the coordinator has room
  (\<open>try_send\<close>).\<close>

fun command_loop :: "torrent_meta \<Rightarrow> bool list \<Rightarrow> (bool list option \<times> bool \<times> core_command) list \<Rightarrow> bool list \<times> driver_out list" where
  "command_loop meta flags [] = (flags, [])"
| "command_loop meta flags ((sel, room, cmd) # rest) =
     (case cmd of
        SelectionChanged \<Rightarrow>
          (let (flags1, out1) = change_selection meta sel flags; (flags2, out2) = command_loop meta flags1 rest in (flags2, out1 @ out2))
      | StopAll \<Rightarrow> (flags, [ShutdownSignal, ShutdownComplete])
      | CmdPause \<Rightarrow> (let (flags', out) = command_loop meta flags rest in (flags', (if room then [ToCoordinator Pause] else []) @ out))
      | CmdResume \<Rightarrow> (let (flags', out) = command_loop meta flags rest in (flags', (if room then [ToCoordinator Resume] else []) @ out))
      | _ \<Rightarrow> command_loop meta flags rest)"

section \<open>The task\<close>

record driver_inputs =
  di_commands :: "core_command list"
  di_polls :: "(bool \<times> poll_result) list"
  di_fetched :: "bytes option"
  di_selection :: "bool list option"
  di_announced :: "peer_info list option"
  di_now :: instant
  di_later :: "(bool list option \<times> bool \<times> core_command) list"

text \<open>From the choice of files on.\<close>

definition run_torrent ::
  "driver_env \<Rightarrow> bytes \<Rightarrow> nat \<Rightarrow> torrent_source \<Rightarrow> driver_inputs \<Rightarrow> filesystem \<Rightarrow> torrent_meta \<Rightarrow> driver_out list" where
  "run_torrent E peer_id port src inp fs meta =
     (let left = left_to_fetch meta (di_selection inp);
          found = (if tm_trackers meta = [] then [] else case di_announced inp of Some ps \<Rightarrow> ps | None \<Rightarrow> []);
          out1 = (if tm_trackers meta = [] then []
                  else [StartAnnouncement \<lparr>ap_info_hash = tm_info_hash meta, ap_peer_id = peer_id, ap_port = port, ap_uploaded = 0,
                          ap_downloaded = 0, ap_left = left, ap_event = Some (lit ''started'')\<rparr>])
                 @ map PeerFound found @ [TrackerDone (length found)]
      in if tm_pieces meta = [] then out1
         else
           let out2 = (case fst (start_coordinator E src meta (di_selection inp) (di_now inp) fs) of
                         Inl e \<Rightarrow> [DiskFailed e]
                       | Inr c \<Rightarrow> [CoordinatorStarted c])
           in out1 @ out2 @ [SwarmStarted found left]
              @ snd (command_loop meta (initial_flags meta (di_selection inp)) (di_later inp)))"

definition background_task ::
  "driver_env \<Rightarrow> bytes \<Rightarrow> nat \<Rightarrow> torrent_source \<Rightarrow> driver_inputs \<Rightarrow> filesystem \<Rightarrow> (driver_error + unit) \<times> driver_out list" where
  "background_task E peer_id port src inp fs =
     (case load_source E src of
        Inl e \<Rightarrow> (Inl e, [DriverError e])
      | Inr meta \<Rightarrow>
          (case await_start (di_commands inp) of
             WaitClosed \<Rightarrow> (Inr (), [TorrentLoaded meta])
           | WaitStopped \<Rightarrow> (Inr (), [TorrentLoaded meta, ShutdownComplete])
           | WaitOver \<Rightarrow>
               if tm_pieces meta \<noteq> [] then (Inr (), TorrentLoaded meta # run_torrent E peer_id port src inp fs meta)
               else
                 (case await_fetch (di_polls inp) of
                    WaitClosed \<Rightarrow> (Inr (), [TorrentLoaded meta])
                  | WaitStopped \<Rightarrow> (Inr (), [TorrentLoaded meta, ShutdownComplete])
                  | WaitOver \<Rightarrow>
                      (case adopt_metadata E meta (di_fetched inp) of
                         Inl e \<Rightarrow> (Inl e, [TorrentLoaded meta, DriverError e])
                       | Inr m \<Rightarrow> (Inr (), TorrentLoaded meta # MetadataFetched m # run_torrent E peer_id port src inp fs m)))))"

section \<open>Opening after a crash\<close>

text \<open>What the coordinator is told about a torrent, and the files it starts with.\<close>

definition torrent_files :: "torrent_meta \<Rightarrow> torrent_file list" where
  "torrent_files meta =
     (case tm_files meta of Some files \<Rightarrow> files | None \<Rightarrow> [\<lparr>tf_length = total_size meta, tf_path = [tm_name meta]\<rparr>])"

definition facts_of :: "driver_env \<Rightarrow> torrent_meta \<Rightarrow> torrent_facts" where
  "facts_of E meta = \<lparr>tf_sha1 = cc_sha1 (dv_cfg E), tf_hashes = tm_pieces meta, tf_files = torrent_files meta,
     tf_piece_length = tm_piece_length meta, tf_resume = dv_resume_file E (tm_info_hash meta)\<rparr>"

definition coord_flags :: "torrent_meta \<Rightarrow> bool list option \<Rightarrow> bool list" where
  "coord_flags meta sel =
     (case stored_files meta sel of Some flags \<Rightarrow> flags | None \<Rightarrow> replicate (length (torrent_files meta)) True)"

definition file_path :: "driver_env \<Rightarrow> torrent_meta \<Rightarrow> nat \<Rightarrow> path_error + path" where
  "file_path E meta i =
     build_file_path (cc_win (dv_cfg E)) (dv_output_dir E) (tm_name meta) (tm_files meta \<noteq> None) (tf_path (torrent_files meta ! i))"

text \<open>A torrent as the parser delivers it, whose files have different paths that are not those of the resume file.\<close>

definition layout_known :: "torrent_meta \<Rightarrow> bool" where
  "layout_known meta \<longleftrightarrow> 0 < tm_piece_length meta \<and> tm_piece_length meta < 2 ^ 32
     \<and> (\<exists>t. tm_total_length meta = Some t \<and> 0 < t \<and> t \<le> U64_MAX \<and> length (tm_pieces meta) = div_ceil t (tm_piece_length meta))
     \<and> tm_pieces_count meta = as_u32 (length (tm_pieces meta))"

lemma meta_wf_layout: "meta_wf meta \<Longrightarrow> layout_known meta"
  by (simp add: meta_wf_def layout_known_def)

definition startable :: "driver_env \<Rightarrow> torrent_meta \<Rightarrow> bool" where
  "startable E meta \<longleftrightarrow> layout_known meta \<and> sum_list (map tf_length (torrent_files meta)) = total_size meta
     \<and> length (tm_pieces meta) \<le> MAX_PIECES
     \<and> dv_open E \<in> {open_preallocated (cc_env (dv_cfg E)), uring_open (cc_env (dv_cfg E))}
     \<and> distinct (map (file_path E meta) [0..<length (torrent_files meta)])
     \<and> Inr (dv_resume_file E (tm_info_hash meta)) \<notin> file_path E meta ` {..<length (torrent_files meta)}
     \<and> Inr (tmp_sibling (dv_resume_file E (tm_info_hash meta))) \<notin> file_path E meta ` {..<length (torrent_files meta)}"

lemma facts_of_simps [simp]:
  "tf_sha1 (facts_of E meta) = cc_sha1 (dv_cfg E)" "tf_hashes (facts_of E meta) = tm_pieces meta"
  "tf_files (facts_of E meta) = torrent_files meta" "tf_piece_length (facts_of E meta) = tm_piece_length meta"
  "tf_resume (facts_of E meta) = dv_resume_file E (tm_info_hash meta)"
  by (simp_all add: facts_of_def)

lemma usable_flagsD: "usable_flags files sel = Some flags \<Longrightarrow> length flags = length files"
  by (auto simp: usable_flags_def split: option.splits if_splits)

lemma coord_flags_length: "length (coord_flags meta sel) = length (torrent_files meta)"
  by (auto simp: coord_flags_def stored_files_def chosen_files_def Let_def torrent_files_def
      dest!: usable_flagsD split: option.splits if_splits)

lemma stored_selected: "i < length (torrent_files meta) \<Longrightarrow> is_selected (stored_files meta sel) i = coord_flags meta sel ! i"
  using coord_flags_length [of meta sel] by (auto simp: is_selected_def coord_flags_def split: option.splits)

lemma count_0_has: "bf_wf b \<Longrightarrow> bf_count b = 0 \<Longrightarrow> \<not> bf_has b i"
  using bf_count_iter_ones [of b] by (auto simp: bf_iter_ones_def bf_has_def filter_empty_conv)

lemma unservable_iff:
  assumes "0 < tm_piece_length meta" "sum_list (map tf_length (torrent_files meta)) < 2 ^ 64" "p < length (tm_pieces meta)"
  shows "bf_has (sel_unservable (file_selection meta (chosen_files meta sel))) p
    \<longleftrightarrow> holds_byte_of (tm_piece_length meta) (torrent_files meta) (map Not (coord_flags meta sel)) p"
proof (cases "stored_files meta sel")
  case None
  have "\<not> bf_has (sel_unservable (file_selection meta (chosen_files meta sel))) p"
  proof (cases "chosen_files meta sel")
    case None
    then show ?thesis by (simp add: file_selection_def sel_all_def split: option.splits)
  next
    case (Some flags)
    then obtain files where f: "tm_files meta = Some files" by (auto simp: chosen_files_def split: option.splits)
    have "sel_is_all (file_selection meta (chosen_files meta sel))"
      using None Some by (auto simp: stored_files_def Let_def split: if_splits)
    moreover have "sel_wf (length (tm_pieces meta)) (file_selection meta (chosen_files meta sel))"
      using assms(2) f Some by (simp add: file_selection_def torrent_files_def sel_from_files_wf)
    ultimately show ?thesis by (intro count_0_has) (simp_all add: sel_is_all_def sel_wf_def)
  qed
  moreover have "\<not> holds_byte_of (tm_piece_length meta) (torrent_files meta) (map Not (coord_flags meta sel)) p"
    by (auto simp: coord_flags_def None holds_byte_of_def)
  ultimately show ?thesis by simp
next
  case (Some flags)
  then have c: "chosen_files meta sel = Some flags" by (auto simp: stored_files_def Let_def split: if_splits)
  then obtain files where f: "tm_files meta = Some files" by (auto simp: chosen_files_def split: option.splits)
  have "max (tm_piece_length meta) (Suc 0) = tm_piece_length meta" using assms(1) by simp
  with assms(2,3) show ?thesis
    by (simp add: file_selection_def c f torrent_files_def coord_flags_def Some sel_from_files_eq pieces_of_files_props)
qed

text \<open>Opening a file keeps every byte of it, those beyond its end read as zero, and nothing on stable storage changes.\<close>

definition opens_cells :: "(path \<Rightarrow> nat \<Rightarrow> filesystem \<Rightarrow> (io_error + unit) \<times> filesystem) \<Rightarrow> bool" where
  "opens_cells opn \<longleftrightarrow> (\<forall>p len fs u fs'. opn p len fs = (Inr u, fs') \<longrightarrow>
     fs_stable fs' = fs_stable fs \<and> (\<forall>off < len. cell fs' p off = cell fs p off) \<and> (\<forall>q. q \<noteq> p \<longrightarrow> contents fs' q = contents fs q))"

lemma cell_call: "cell (call fs) = cell fs"
  by (simp add: cell_def fun_eq_iff)

lemma set_len_cell: "off < len \<Longrightarrow> (set_len len b) ! off = (if off < length b then b ! off else 0)"
  by (auto simp: set_len_def nth_append)

lemma open_preallocated_cells: "opens_cells (open_preallocated env)"
  unfolding opens_cells_def open_preallocated_def Let_def
  by (auto simp: cell_def contents_def set_len_cell split: if_splits)

lemma uring_open_cells: "opens_cells (uring_open env)"
  unfolding opens_cells_def
proof (intro allI impI)
  fix p len fs u fs' assume u: "uring_open env p len fs = (Inr u, fs')"
  obtain r fs1 where r: "open_preallocated env p len fs = (r, fs1)" by fastforce
  with u have "r = Inr ()" "fs' = call fs1"
    by (auto simp: uring_open_def open_uring_def split: sum.splits if_splits)
  with r open_preallocated_cells [of env] show "fs_stable fs' = fs_stable fs \<and> (\<forall>off < len. cell fs' p off = cell fs p off)
      \<and> (\<forall>q. q \<noteq> p \<longrightarrow> contents fs' q = contents fs q)"
    unfolding opens_cells_def by (auto simp: cell_call)
qed

lemma open_plans_cells:
  assumes "opens_cells opn"
  shows "open_plans opn sel idx plans fs = (Inr ms, fs') \<Longrightarrow> distinct (map fp_path plans) \<Longrightarrow>
     fs_stable fs' = fs_stable fs \<and> (\<forall>q. q \<notin> fp_path ` set plans \<longrightarrow> contents fs' q = contents fs q)
     \<and> (\<forall>pl \<in> set plans. \<forall>off < fp_end pl - fp_start pl. cell fs' (fp_path pl) off = cell fs (fp_path pl) off)"
proof (induction plans arbitrary: idx fs ms fs')
  case (Cons pl plans)
  obtain fs1 ms1 where fs1: "open_plans opn sel (Suc idx) plans fs1 = (Inr ms1, fs')"
    "is_selected sel idx \<Longrightarrow> opn (fp_path pl) (fp_end pl - fp_start pl) fs = (Inr (), fs1)"
    "\<not> is_selected sel idx \<Longrightarrow> fs1 = fs"
    using Cons.prems(1) by (auto split: if_splits sum.splits prod.splits)
  have o: "fs_stable fs1 = fs_stable fs" "\<forall>off < fp_end pl - fp_start pl. cell fs1 (fp_path pl) off = cell fs (fp_path pl) off"
    "\<forall>q. q \<noteq> fp_path pl \<longrightarrow> contents fs1 q = contents fs q"
    using assms fs1(2,3) unfolding opens_cells_def by (cases "is_selected sel idx"; blast)+
  note IH = Cons.IH [OF fs1(1)]
  have np: "fp_path pl \<notin> fp_path ` set plans" and dp: "distinct (map fp_path plans)" using Cons.prems(2) by auto
  have "cell fs' (fp_path p) off = cell fs (fp_path p) off" if "p \<in> set (pl # plans)" "off < fp_end p - fp_start p" for p off
  proof (cases "p \<in> set plans")
    case True
    then have "fp_path p \<noteq> fp_path pl" using np by (metis image_eqI)
    then have "cell fs1 (fp_path p) off = cell fs (fp_path p) off" using o(3) by (simp add: cell_def)
    with IH [OF dp] True that(2) show ?thesis by simp
  next
    case False
    then have "p = pl" using that(1) by simp
    moreover have "cell fs' (fp_path pl) off = cell fs1 (fp_path pl) off" using IH [OF dp] np by (simp add: cell_def)
    ultimately show ?thesis using o(2) that(2) by simp
  qed
  moreover have "\<forall>q. q \<notin> fp_path ` set (pl # plans) \<longrightarrow> contents fs' q = contents fs q" using IH [OF dp] o(3) by simp
  ultimately show ?case using IH [OF dp] o(1) by simp
qed simp

lemma file_path_eq:
  "i < length (torrent_files meta) \<Longrightarrow> file_path E meta i =
     build_file_path (cc_win (dv_cfg E)) (dv_output_dir E) (tm_name meta) (tm_files meta \<noteq> None) (tf_path (torrent_files meta ! i))"
  by (simp add: file_path_def)

lemma paths_map:
  "map (file_path E meta) [0..<length (torrent_files meta)] =
     map (\<lambda>t. build_file_path (cc_win (dv_cfg E)) (dv_output_dir E) (tm_name meta) (tm_files meta \<noteq> None) (tf_path t)) (torrent_files meta)"
  by (rule nth_equalityI) (simp_all add: file_path_def)

lemma init_cells:
  assumes "opens_cells opn" "init_with_selection opn env win base tot pl files_meta name sel fs = (Inr d, fs')"
    "distinct (map fm_path (dk_files d))"
  shows "fs_stable fs' = fs_stable fs"
    "i < length (dk_files d) \<Longrightarrow> off < fm_end (dk_files d ! i) - fm_start (dk_files d ! i) \<Longrightarrow>
       cell fs' (fm_path (dk_files d ! i)) off = cell fs (fm_path (dk_files d ! i)) off"
proof -
  obtain plans ms where o: "open_plans opn sel 0 plans (call fs) = (Inr ms, fs')" and d: "d = \<lparr>dk_files = ms, dk_piece_length = pl\<rparr>"
    using assms(2) by (auto simp: init_with_selection_def Let_def split: if_splits sum.splits prod.splits)
  have ms: "ms = map (\<lambda>(i, p). mapping_of p (is_selected sel i)) (enumerate 0 plans)"
    using o
  proof -
    have "open_plans opn sel idx plans fs0 = (Inr ms, fs') \<Longrightarrow>
        ms = map (\<lambda>(i, p). mapping_of p (is_selected sel i)) (enumerate idx plans)" for idx fs0 ms
      by (induction plans arbitrary: idx fs0 ms)
        (auto simp: mapping_of_def split: if_splits sum.splits prod.splits)
    with o show ?thesis by blast
  qed
  have n: "length ms = length plans" "\<And>i. i < length plans \<Longrightarrow> ms ! i = mapping_of (plans ! i) (is_selected sel i)"
    using ms enumerate_nth_mapping [of _ plans "is_selected sel" 0] by simp_all
  have "map fm_path ms = map fp_path plans"
    by (rule nth_equalityI) (simp_all add: n mapping_of_def)
  then have dis: "distinct (map fp_path plans)" using assms(3) d by simp
  note O = open_plans_cells [OF assms(1) o dis]
  show "fs_stable fs' = fs_stable fs" using O by simp
  show "cell fs' (fm_path (dk_files d ! i)) off = cell fs (fm_path (dk_files d ! i)) off"
    if "i < length (dk_files d)" "off < fm_end (dk_files d ! i) - fm_start (dk_files d ! i)"
    using O that n by (simp add: d mapping_of_def cell_call)
qed

lemma chained_starts:
  "chained off ms \<Longrightarrow> length ms = length files \<Longrightarrow>
   (\<forall>i < length files. fm_end (ms ! i) - fm_start (ms ! i) = tf_length (files ! i)) \<Longrightarrow> i < length files \<Longrightarrow>
   fm_start (ms ! i) = off + file_start files i \<and> fm_end (ms ! i) = off + file_start files i + tf_length (files ! i)"
proof (induction ms arbitrary: off files i)
  case (Cons m ms)
  then obtain f fs where f: "files = f # fs" by (cases files) auto
  have m: "fm_start m = off" "fm_end m = off + tf_length f" "chained (fm_end m) ms" using Cons.prems(1,3) f by (auto simp: All_less_Suc2)
  have r: "\<forall>i < length fs. fm_end (ms ! i) - fm_start (ms ! i) = tf_length (fs ! i)" using Cons.prems(3) f by (auto simp: All_less_Suc2)
  show ?case
  proof (cases i)
    case (Suc k)
    with Cons.IH [OF m(3) _ r, of k] Cons.prems(2,4) f m(2) show ?thesis by (simp add: add.assoc)
  qed (simp add: f m)
qed simp

text \<open>What the disk of a torrent looks like when it is opened, whatever files are chosen; and that all of it is durable if the cache was what is on stable storage.\<close>

definition flags_of :: "torrent_meta \<Rightarrow> bool list option \<Rightarrow> bool list" where
  "flags_of meta chosen = (case chosen of Some flags \<Rightarrow> flags | None \<Rightarrow> replicate (length (torrent_files meta)) True)"

lemma coord_flags_eq: "coord_flags meta sel = flags_of meta (stored_files meta sel)"
  by (simp add: coord_flags_def flags_of_def)

lemma flags_of_selected:
  "length (flags_of meta chosen) = length (torrent_files meta) \<Longrightarrow> i < length (torrent_files meta) \<Longrightarrow> is_selected chosen i = flags_of meta chosen ! i"
  by (auto simp: flags_of_def is_selected_def split: option.splits)

lemma opened_files:
  assumes st: "startable E meta" and i: "init_with_selection (dv_open E) (cc_env (dv_cfg E)) (cc_win (dv_cfg E)) (dv_output_dir E) (total_size meta)
      (tm_piece_length meta) (tm_files meta) (tm_name meta) chosen fs = (Inr d, fs')"
    and fl: "length (flags_of meta chosen) = length (torrent_files meta)"
  shows "store_ok d fs'" "disk_matches (torrent_files meta) (flags_of meta chosen) d" "dk_piece_length d = tm_piece_length meta"
    "\<And>i. i < length (torrent_files meta) \<Longrightarrow> file_path E meta i = Inr (fm_path (dk_files d ! i))"
    "length (dk_files d) = length (torrent_files meta)"
    "fs_cache fs = fs_stable fs \<Longrightarrow> all_durable d fs'" "fs_stable fs' = fs_stable fs"
    "fs_cache fs = fs_stable fs \<Longrightarrow> crash_image d fs' = disk_image d fs'"
    "dv_resume_file E (tm_info_hash meta) \<notin> fm_path ` set (dk_files d)"
    "tmp_sibling (dv_resume_file E (tm_info_hash meta)) \<notin> fm_path ` set (dk_files d)"
proof -
  have o: "opens (dv_open E)" "opens_cells (dv_open E)"
    using st open_preallocated_opens uring_open_opens open_preallocated_cells uring_open_cells by (auto simp: startable_def)
  have tot: "sum_list (map tf_length (torrent_files meta)) < 2 ^ 64"
    using st by (auto simp: startable_def layout_known_def total_size_def U64_MAX_def)
  note S = init_spec [OF o(1) i, of "torrent_files meta", unfolded torrent_files_def, OF refl tot [unfolded torrent_files_def],
      folded torrent_files_def, folded paths_map]
  have "distinct (map (file_path E meta) [0..<length (torrent_files meta)])" using st by (simp add: startable_def)
  note S = S [OF this]
  show len: "length (dk_files d) = length (torrent_files meta)" "dk_piece_length d = tm_piece_length meta" using S by simp_all
  show path: "file_path E meta i = Inr (fm_path (dk_files d ! i))" if "i < length (torrent_files meta)" for i
    using S that by (simp add: file_path_def)
  have wf: "disk_wf d fs'" using S by simp
  have dis: "distinct (map fm_path (dk_files d))"
    unfolding distinct_conv_nth
  proof (intro allI impI)
    fix i j assume ij: "i < length (map fm_path (dk_files d))" "j < length (map fm_path (dk_files d))" "i \<noteq> j"
    then have "file_path E meta i \<noteq> file_path E meta j"
      using st len(1) unfolding startable_def distinct_conv_nth by (metis add_0 length_map length_upt minus_nat.diff_0 nth_map nth_upt)
    then show "map fm_path (dk_files d) ! i \<noteq> map fm_path (dk_files d) ! j" using ij len(1) path [of i] path [of j] by auto
  qed
  show "store_ok d fs'" using wf dis by (simp add: store_ok_def)
  have ch: "chained 0 (dk_files d)" using wf by (simp add: disk_wf_def layout_ok_def)
  show "disk_matches (torrent_files meta) (flags_of meta chosen) d"
    using chained_starts [OF ch len(1)] S len(1) by (simp add: disk_matches_def fl flags_of_selected)
  note C = init_cells [OF o(2) i dis]
  show "fs_stable fs' = fs_stable fs" by (rule C(1))
  have crash: "cell (after_crash fs') q off = cell fs q off" if "fs_cache fs = fs_stable fs" for q off
    using that C(1) by (simp add: cell_def contents_def after_crash_def)
  have du: "durable (dk_files d) fs' k" if "fs_cache fs = fs_stable fs" for k
    using C(2) locate_SomeD [of "dk_files d" k] by (auto simp: durable_def crash [OF that] split: option.splits)
  then show "fs_cache fs = fs_stable fs \<Longrightarrow> all_durable d fs'" by (simp add: all_durable_def)
  have "byte_at (dk_files d) fs' k = (case locate (dk_files d) k of None \<Rightarrow> 0
      | Some i \<Rightarrow> if fm_open (dk_files d ! i) then cell (after_crash fs') (fm_path (dk_files d ! i)) (k - fm_start (dk_files d ! i)) else 0)" if "fs_cache fs = fs_stable fs" for k
    using du [OF that, of k] stored_cell [of "dk_files d" fs' k] wf
    by (auto simp: durable_def byte_at_def stored_def disk_wf_def split: option.splits)
  then show "fs_cache fs = fs_stable fs \<Longrightarrow> crash_image d fs' = disk_image d fs'" by (simp add: crash_image_def disk_image_def fun_eq_iff)
  have "\<exists>i < length (torrent_files meta). file_path E meta i = Inr q" if q: "q \<in> fm_path ` set (dk_files d)" for q
    using q path len(1) by (fastforce simp: in_set_conv_nth)
  with st show "dv_resume_file E (tm_info_hash meta) \<notin> fm_path ` set (dk_files d)"
    "tmp_sibling (dv_resume_file E (tm_info_hash meta)) \<notin> fm_path ` set (dk_files d)"
    unfolding startable_def by (metis image_eqI lessThan_iff)+
qed

lemma opened_disk:
  assumes st: "startable E meta" and i: "init_with_selection (dv_open E) (cc_env (dv_cfg E)) (cc_win (dv_cfg E)) (dv_output_dir E) (total_size meta)
      (tm_piece_length meta) (tm_files meta) (tm_name meta) (stored_files meta sel) fs = (Inr d, fs')"
    and cache: "fs_cache fs = fs_stable fs"
  shows "store_ok d fs'" "disk_matches (torrent_files meta) (coord_flags meta sel) d" "dk_piece_length d = tm_piece_length meta"
    "\<And>i. i < length (torrent_files meta) \<Longrightarrow> file_path E meta i = Inr (fm_path (dk_files d ! i))"
    "length (dk_files d) = length (torrent_files meta)"
    "all_durable d fs'" "fs_stable fs' = fs_stable fs" "crash_image d fs' = disk_image d fs'"
    "dv_resume_file E (tm_info_hash meta) \<notin> fm_path ` set (dk_files d)"
    "tmp_sibling (dv_resume_file E (tm_info_hash meta)) \<notin> fm_path ` set (dk_files d)"
  using opened_files [OF st i] cache by (simp_all add: coord_flags_length flip: coord_flags_eq)

lemma load_fastresume_fs: "load_fastresume from_json env p fs = (r, fs') \<Longrightarrow> fs_cache fs' = fs_cache fs \<and> fs_stable fs' = fs_stable fs"
  by (auto simp: load_fastresume_def split: if_splits option.splits)

lemma load_resume_fs: "load_resume E src meta fs = (r, fs') \<Longrightarrow> fs_cache fs' = fs_cache fs \<and> fs_stable fs' = fs_stable fs"
  unfolding load_resume_def by (auto split: prod.splits sum.splits option.splits dest!: load_fastresume_fs)

lemma startableD:
  assumes "startable E meta"
  shows "tm_pieces_count meta = length (tm_pieces meta)" "0 < tm_piece_length meta" "tm_piece_length meta < 2 ^ 32"
    "sum_list (map tf_length (torrent_files meta)) = total_size meta" "total_size meta < 2 ^ 64"
    "length (tm_pieces meta) = div_ceil (total_size meta) (tm_piece_length meta)"
  using assms by (auto simp: startable_def layout_known_def total_size_def U64_MAX_def as_u32_def MAX_PIECES_def)

lemma resumed_store_inv:
  assumes "startable E meta" "store_ok d fs" "disk_matches (torrent_files meta) (coord_flags meta sel) d"
    "dk_piece_length d = tm_piece_length meta" "all_durable d fs"
    "dv_resume_file E (tm_info_hash meta) \<notin> fm_path ` set (dk_files d)"
    "tmp_sibling (dv_resume_file E (tm_info_hash meta)) \<notin> fm_path ` set (dk_files d)"
    and honest: "\<And>p. p \<in> set cs \<Longrightarrow> p < length (tm_pieces meta) \<Longrightarrow>
      \<not> holds_byte_of (tm_piece_length meta) (torrent_files meta) (map Not (coord_flags meta sel)) p \<Longrightarrow>
      cc_sha1 (dv_cfg E) (piece_bytes (facts_of E meta) p (disk_image d fs)) = tm_pieces meta ! p"
  shows "store_inv (facts_of E meta) (coord_flags meta sel)
    (with_selection (tm_pieces_count meta) cs (file_selection meta (chosen_files meta sel))) d fs"
proof -
  note S = startableD [OF assms(1)]
  note U = unservable_iff [OF S(2), of _ sel]
  have w: "mgr_completed (with_selection n cs s) = {p \<in> set cs. p < n}" "mgr_selection (with_selection n cs s) = s"
    "mgr_total_pieces (with_selection n cs s) = n" for n s
    by (auto simp: with_selection_def Let_def)
  have "pieces_verified (cc_sha1 (dv_cfg E)) (tm_pieces meta)
      (with_selection (tm_pieces_count meta) cs (file_selection meta (chosen_files meta sel))) d fs"
    using honest U S(1,4,5) by (auto simp: pieces_verified_def is_servable_def w piece_bytes_def assms(4))
  moreover have "crash_safe (with_selection (tm_pieces_count meta) cs (file_selection meta (chosen_files meta sel))) d fs"
    using assms(5) by (simp add: crash_safe_def all_durable_def)
  ultimately show ?thesis
    using assms(2-4,6,7) S U with_selection_inv by (simp add: store_inv_def w)
qed

text \<open>The coordinator starts in a state that satisfies the invariant of its runs, if every piece listed by the resume file that no skipped file touches is
  on disk.\<close>

lemma startup_ok:
  assumes st: "startable E meta" and cache: "fs_cache fs = fs_stable fs" and start: "start_coordinator E src meta sel now fs = (Inr c, fs')"
    and honest: "\<And>st fs1 d p. load_resume E src meta fs = (Inr (Some st), fs1) \<Longrightarrow> disk_of (co_state c) = Some d \<Longrightarrow>
      p \<in> set (fr_completed st) \<Longrightarrow> p < length (tm_pieces meta) \<Longrightarrow>
      \<not> holds_byte_of (tm_piece_length meta) (torrent_files meta) (map Not (coord_flags meta sel)) p \<Longrightarrow>
      cc_sha1 (dv_cfg E) (piece_bytes (facts_of E meta) p (crash_image d (co_fs c))) = tm_pieces meta ! p"
  shows "coord_ok (facts_of E meta) (coord_flags meta sel) c"
proof -
  obtain loaded fs1 where l: "load_resume E src meta fs = (loaded, fs1)" by fastforce
  obtain m chk paused where m: "choose_manager loaded (dv_target E (tm_name meta)) (tm_pieces_count meta)
      (file_selection meta (chosen_files meta sel)) = (m, chk, paused)" by (metis prod_cases3)
  obtain d fs2 where i: "init_with_selection (dv_open E) (cc_env (dv_cfg E)) (cc_win (dv_cfg E)) (dv_output_dir E) (total_size meta)
      (tm_piece_length meta) (tm_files meta) (tm_name meta) (stored_files meta sel) fs1 = (Inr d, fs2)"
    and c: "co_state c = initial_coordinator_state m d chk (tm_pieces meta) (tm_piece_length meta) (total_size meta) paused" "co_fs c = fs2"
    using start l m by (auto simp: start_coordinator_def Let_def split: prod.splits sum.splits)
  have "fs_cache fs1 = fs_stable fs1" using load_resume_fs [OF l] cache by simp
  note D = opened_disk [OF st i this]
  have dd: "disk_of (co_state c) = Some d" by (simp add: c disk_of_def initial_coordinator_state_def)
  obtain cs where cs: "m = with_selection (tm_pieces_count meta) cs (file_selection meta (chosen_files meta sel))"
    "cs = [] \<or> (\<exists>s. loaded = Inr (Some s) \<and> cs = fr_completed s)"
    using m by (auto simp: choose_manager_def split: sum.splits option.splits if_splits)
  have "store_inv (facts_of E meta) (coord_flags meta sel) m d fs2"
    unfolding cs(1)
  proof (rule resumed_store_inv [OF st D(1-3,6,9,10)])
    fix p assume p: "p \<in> set cs" "p < length (tm_pieces meta)"
      "\<not> holds_byte_of (tm_piece_length meta) (torrent_files meta) (map Not (coord_flags meta sel)) p"
    then obtain s where "loaded = Inr (Some s)" "cs = fr_completed s" using cs(2) by auto
    with honest [OF _ dd _ p(2,3)] l p(1) show "cc_sha1 (dv_cfg E) (piece_bytes (facts_of E meta) p (disk_image d fs2)) = tm_pieces meta ! p"
      by (simp add: c(2) D(8))
  qed
  then show ?thesis
    using startableD [OF st] D(6) by (simp add: coord_ok_def c initial_coordinator_state_def)
qed

section \<open>Crash and restart\<close>

lemma coord_ok_store:
  "coord_ok T flags c \<Longrightarrow> manager_of (co_state c) = Some m \<Longrightarrow> disk_of (co_state c) = Some d \<Longrightarrow> store_inv T flags m d (co_fs c)"
  by (auto simp: coord_ok_def manager_of_def disk_of_def split: coordinator_state.splits)

text \<open>The image a crash leaves depends only on where the files are and on stable storage.\<close>

lemma crash_image_cong:
  assumes "disk_matches files flags d" "disk_matches files flags d'" "chained 0 (dk_files d)" "chained 0 (dk_files d')"
    "\<And>i. i < length files \<Longrightarrow> fm_path (dk_files d ! i) = fm_path (dk_files d' ! i)" "fs_stable fs = fs_stable fs'"
  shows "crash_image d fs = crash_image d' fs'"
proof -
  have e: "disk_end 0 (dk_files d) = disk_end 0 (dk_files d')"
    unfolding disk_matches_end [OF assms(1)] disk_matches_end [OF assms(2)] ..
  have l: "locate (dk_files d) k = locate (dk_files d') k" for k
  proof -
    have "locate (dk_files d) k = Some i \<longleftrightarrow> locate (dk_files d') k = Some i" for i
      unfolding locate_eq_Some_iff [OF assms(3)] locate_eq_Some_iff [OF assms(4)] using assms(1,2) by (auto simp: disk_matches_def)
    then show ?thesis by (metis not_Some_eq)
  qed
  have c: "cell (after_crash fs) = cell (after_crash fs')"
    using assms(6) by (simp add: cell_def contents_def after_crash_def fun_eq_iff)
  have m: "i < length files \<Longrightarrow> fm_path (dk_files d ! i) = fm_path (dk_files d' ! i) \<and> fm_start (dk_files d ! i) = fm_start (dk_files d' ! i)
      \<and> fm_open (dk_files d ! i) = fm_open (dk_files d' ! i)" for i
    using assms(1,2,5) by (simp add: disk_matches_def)
  have b: "locate (dk_files d') k = Some i \<Longrightarrow> i < length files" for k i
    using locate_SomeD [of "dk_files d'" k i] assms(2) by (simp add: disk_matches_def)
  show ?thesis unfolding crash_image_def e
  proof (rule map_cong [OF refl])
    fix k
    show "(case locate (dk_files d) k of None \<Rightarrow> 0
        | Some i \<Rightarrow> if fm_open (dk_files d ! i) then cell (after_crash fs) (fm_path (dk_files d ! i)) (k - fm_start (dk_files d ! i)) else 0)
      = (case locate (dk_files d') k of None \<Rightarrow> 0
        | Some i \<Rightarrow> if fm_open (dk_files d' ! i) then cell (after_crash fs') (fm_path (dk_files d' ! i)) (k - fm_start (dk_files d' ! i)) else 0)"
    proof (cases "locate (dk_files d') k")
      case (Some i)
      with m [OF b [OF Some]] show ?thesis by (simp add: l c)
    qed (simp add: l)
  qed
qed

lemma resume_loaded:
  assumes "fs_cache fs (dv_resume_file E (tm_info_hash meta)) = Some (fr_encode (fr_from_manager m))" "mgr_inv m" "mgr_total_pieces m \<le> MAX_PIECES"
    "load_resume E src meta fs = (loaded, fs')"
  shows "if call_fails (cc_env (dv_cfg E)) fs then loaded = Inl ResumeIo
    else \<exists>st. loaded = Inr (Some st) \<and> set (fr_completed st) = mgr_completed m"
proof -
  have "set (fr_completed (fr_from_manager m)) = mgr_completed m"
    using finite_completed [OF assms(2)] by (simp add: fr_from_manager_def completed_pieces_def)
  moreover have "mgr_completed m \<subseteq> {..<mgr_total_pieces m}" using mgr_invD [OF assms(2)] by auto
  ultimately have "set (filter (\<lambda>i. i \<in> set (fr_completed (fr_from_manager m))) [0..<fr_total_pieces (fr_from_manager m)]) = mgr_completed m"
    by (auto simp: fr_from_manager_def)
  with assms(1,3,4) show ?thesis
    by (auto simp: load_resume_def load_fastresume_def fr_decode_encode fr_from_manager_def split: prod.splits sum.splits option.splits if_splits)
qed

definition demo_driver :: driver_env where
  "demo_driver = \<lparr>dv_cfg = demo_cfg, dv_open = open_preallocated no_faults, dv_output_dir = [],
     dv_target = (\<lambda>_. \<lparr>tg_exists = True, tg_is_file = True, tg_len = Some 2, tg_still_exists = True\<rparr>), dv_hex = (\<lambda>_. None), dv_hex_encode = (\<lambda>_. []),
     dv_url_parse = (\<lambda>_. None), dv_file_len = (\<lambda>_. Inl []), dv_file_bytes = (\<lambda>_. Inl []), dv_de_torrent = (\<lambda>_. Inl []),
     dv_from_json = (\<lambda>_. None), dv_resume_file = (\<lambda>_. [[9]])\<rparr>"

definition demo_meta :: torrent_meta where
  "demo_meta = \<lparr>tm_announce = [], tm_trackers = [], tm_name = [5], tm_piece_length = 2, tm_pieces_count = 1, tm_pieces = [[7, 8]],
     tm_total_length = Some 2, tm_files = None, tm_info_hash = []\<rparr>"

lemma demo_path: "build_file_path False [] [5] False [[5]] = Inr [[5]]" by code_simp

lemma demo_stored: "stored_files demo_meta sel = None" "total_size demo_meta = 2"
  by (simp_all add: stored_files_def chosen_files_def demo_meta_def Let_def total_size_def)

lemma demo_driver_ok:
  "startable demo_driver demo_meta" "facts_of demo_driver demo_meta = demo_facts" "coord_flags demo_meta None = [True]"
  "torrent_files demo_meta = [\<lparr>tf_length = 2, tf_path = [[5]]\<rparr>]" "file_path demo_driver demo_meta 0 = Inr [[5]]"
  "cc_env (dv_cfg demo_driver) = no_faults"
proof -
  show t: "torrent_files demo_meta = [\<lparr>tf_length = 2, tf_path = [[5]]\<rparr>]"
    by (simp add: torrent_files_def demo_meta_def total_size_def)
  show p: "file_path demo_driver demo_meta 0 = Inr [[5]]"
    by (simp add: file_path_def t demo_path demo_driver_def demo_cfg_def) (simp add: demo_meta_def demo_path)
  show "facts_of demo_driver demo_meta = demo_facts"
    by (simp add: facts_of_def t demo_facts_def demo_driver_def demo_cfg_def) (simp add: demo_meta_def)
  show "coord_flags demo_meta None = [True]"
    using demo_stored by (simp add: coord_flags_def t)
  show "cc_env (dv_cfg demo_driver) = no_faults" by (simp add: demo_driver_def demo_cfg_def)
  have "file_path demo_driver demo_meta ` {..<length (torrent_files demo_meta)} = {Inr [[5]]}"
    by (simp add: t p lessThan_Suc)
  then show "startable demo_driver demo_meta"
    by (simp add: startable_def t) (simp add: layout_known_def demo_meta_def demo_driver_def demo_cfg_def total_size_def
        U64_MAX_def div_ceil_def as_u32_def MAX_PIECES_def tmp_sibling_def lit_def)
qed

lemma demo_starts: "\<exists>c fs'. start_coordinator demo_driver src demo_meta sel now fs = (Inr c, fs')"
proof -
  have nf: "\<not> call_fails no_faults fs" for fs by (simp add: call_fails_def no_faults_def)
  have "\<exists>fs'. open_preallocated no_faults q len fs = (Inr (), fs')" for q len fs
    using nf by (simp add: open_preallocated_def Let_def)
  then have "\<exists>d fs'. init_with_selection (open_preallocated no_faults) no_faults False [] 2 2 None [5] None fs = (Inr d, fs')" for fs
  proof -
    obtain fs1 where "open_preallocated no_faults [[5]] (Suc (Suc 0)) (call fs) = (Inr (), fs1)"
      using \<open>\<And>q len fs. \<exists>fs'. open_preallocated no_faults q len fs = (Inr (), fs')\<close> by blast
    then show ?thesis by (simp add: init_with_selection_def plan_files_def demo_path nf is_selected_def)
  qed
  moreover obtain loaded fs1 where "load_resume demo_driver src demo_meta fs = (loaded, fs1)" by fastforce
  moreover obtain d fs2 where "init_with_selection (open_preallocated no_faults) no_faults False [] 2 2 None [5] None fs1 = (Inr d, fs2)"
    using calculation(1) by blast
  ultimately show ?thesis
    using demo_stored by (auto simp: start_coordinator_def Let_def demo_driver_def demo_cfg_def demo_meta_def split: prod.splits)
qed

section \<open>Changing the choice of files\<close>

text \<open>The selections among the messages follow each other: each is computed from the files stored after the one before.\<close>

fun selections_chain :: "torrent_facts \<Rightarrow> bool list \<Rightarrow> driver_out list \<Rightarrow> bool" where
  "selections_chain T flags [] = True"
| "selections_chain T flags (out # outs) =
     (case out of
        ToCoordinator (SetSelection sel after refetch) \<Rightarrow> selection_msg_ok T flags sel after refetch \<and> selections_chain T after outs
      | _ \<Rightarrow> selections_chain T flags outs)"

lemma chain_skip: "selections_chain T flags (map PeerFound ps @ outs) = selections_chain T flags outs"
  by (induction ps) simp_all

lemma change_selection_ok:
  assumes "change_selection meta sel flags = (flags', out)" "selections_chain (facts_of E meta) flags' outs"
  shows "selections_chain (facts_of E meta) flags (out @ outs)"
  using assms by (auto simp: change_selection_def selection_msg_ok_def torrent_files_def dest!: usable_flagsD split: option.splits if_splits)

lemma command_loop_chain: "selections_chain (facts_of E meta) flags (snd (command_loop meta flags cmds))"
proof (induction meta flags cmds rule: command_loop.induct)
  case (2 meta flags sel room cmd rest)
  then show ?case
    by (cases cmd) (auto simp: Let_def split: prod.splits intro!: change_selection_ok)
qed simp

lemma single_file_quiet: "tm_files meta = None \<Longrightarrow> selections_chain T flags (snd (command_loop meta flags' cmds))"
proof (induction meta flags' cmds rule: command_loop.induct)
  case (2 meta flags' sel room cmd rest)
  then show ?case by (cases cmd) (auto simp: change_selection_def split: prod.splits)
qed simp

text \<open>C34. What the task of a torrent sends to its coordinator is what the proofs about the coordinator assume: every change of the selection is the one
  that belongs to the files stored before and after it, starting with the files the disk was opened with, in any sequence of
  commands.\<close>

theorem task_selections_consistent:
  "selections_chain (facts_of E meta) (coord_flags meta (di_selection inp)) (run_torrent E peer_id port src inp fs meta)"
proof -
  have "selections_chain (facts_of E meta) (coord_flags meta (di_selection inp))
      (snd (command_loop meta (initial_flags meta (di_selection inp)) (di_later inp)))"
  proof (cases "tm_files meta")
    case None
    then show ?thesis by (rule single_file_quiet)
  next
    case (Some files)
    then have "initial_flags meta (di_selection inp) = coord_flags meta (di_selection inp)"
      by (auto simp: initial_flags_def coord_flags_def torrent_files_def split: option.splits)
    then show ?thesis using command_loop_chain by simp
  qed
  then show ?thesis by (auto simp: run_torrent_def Let_def chain_skip split: option.splits sum.splits)
qed

text \<open>A change of selection that the coordinator could not carry out cannot be asked for again: the task takes the new flags as the current
  ones whatever comes of the message, so the coordinator keeps its old selection while every further request for the same files sends nothing.\<close>

theorem failed_selection_not_retried:
  assumes "tm_files meta = Some files" "usable_flags files sel = Some after" "after \<noteq> flags"
  shows "command_loop meta flags (replicate (Suc n) (sel, room, SelectionChanged)) =
      (after, [ToCoordinator (SetSelection (sel_from_files files after (tm_piece_length meta) (length (tm_pieces meta))) after
         (pieces_to_refetch files flags after (tm_piece_length meta) (length (tm_pieces meta))))])
    \<and> (\<forall>cfg now s ref c e d fs. (\<exists>d0. disk_of (co_state c) = Some d0 \<and> do_set_selection (cc_ops cfg) after (d0, co_fs c) = (Inl e, d, fs)) \<longrightarrow>
         manager_of (co_state (fst (handle_msg cfg now (SetSelection s after ref) c))) = manager_of (co_state c)
         \<and> snd (handle_msg cfg now (SetSelection s after ref) c) = [Ui (SelectionError e)])"
proof -
  have "command_loop meta after (replicate n (sel, room, SelectionChanged)) = (after, [])"
    by (induction n) (simp_all add: change_selection_def assms(1,2))
  moreover have "change_selection meta sel flags = (after, [ToCoordinator (SetSelection
      (sel_from_files files after (tm_piece_length meta) (length (tm_pieces meta))) after
      (pieces_to_refetch files flags after (tm_piece_length meta) (length (tm_pieces meta))))])"
    using assms by (simp add: change_selection_def)
  moreover have "manager_of (co_state (fst (apply_set_selection cfg s after ref c))) = manager_of (co_state c)
      \<and> snd (apply_set_selection cfg s after ref c) = [Ui (SelectionError e)]"
    if "disk_of (co_state c) = Some d0" "do_set_selection (cc_ops cfg) after (d0, co_fs c) = (Inl e, d, fs)" for cfg s ref c e d fs d0
    using that by (auto simp: apply_set_selection_def disk_of_def manager_of_def split: coordinator_state.splits)
  ultimately show ?thesis by auto
qed

definition two_files :: "torrent_file list" where
  "two_files = [\<lparr>tf_length = 1, tf_path = [[6]]\<rparr>, \<lparr>tf_length = 1, tf_path = [[7]]\<rparr>]"

definition two_meta :: torrent_meta where
  "two_meta = demo_meta\<lparr>tm_files := Some two_files\<rparr>"

theorem failed_selection_not_retried_witness:
  "snd (command_loop two_meta [True, False] (replicate 3 (Some [True, True], True, SelectionChanged)))
     = [ToCoordinator (SetSelection (sel_from_files two_files [True, True] 2 1) [True, True] (pieces_to_refetch two_files [True, False] [True, True] 2 1))]"
proof -
  have "usable_flags two_files (Some [True, True]) = Some [True, True]" by (simp add: usable_flags_def two_files_def)
  from failed_selection_not_retried [of two_meta two_files _ _ "[True, False]" 2, OF _ this] show ?thesis
    by (simp add: two_meta_def demo_meta_def numeral_3_eq_3 numeral_2_eq_2)
qed

section \<open>Another choice of files at the restart\<close>

text \<open>A torrent of one piece that two files share. The first run has the first file only, so the piece is complete and not served.\<close>

definition hole_selection :: selection where
  "hole_selection = sel_from_files two_files [True, False] 2 1"

definition hole_disk :: "bool \<Rightarrow> disk" where
  "hole_disk b = \<lparr>dk_files = [\<lparr>fm_path = [[5], [6]], fm_open = True, fm_start = 0, fm_end = 1, fm_dirty = False\<rparr>,
     \<lparr>fm_path = [[5], [7]], fm_open = b, fm_start = 1, fm_end = 2, fm_dirty = False\<rparr>], dk_piece_length = 2\<rparr>"

definition hole_stable :: "path \<Rightarrow> bytes option" where
  "hole_stable = [[[5], [6]] \<mapsto> [7], [[9]] \<mapsto> fr_encode (fr_from_manager (with_selection 1 [0] hole_selection))]"

definition hole_run :: coordinator where
  "hole_run = \<lparr>co_state = DownloadingData (with_selection 1 [0] hole_selection) (hole_disk False) False False,
     co_fs = \<lparr>fs_cache = hole_stable, fs_stable = hole_stable, fs_calls = 0\<rparr>, co_last_persist = 0\<rparr>"

lemma two_meta_simps [simp]:
  "tm_files two_meta = Some two_files" "tm_piece_length two_meta = 2" "tm_pieces two_meta = [[7, 8]]" "tm_pieces_count two_meta = 1"
  "tm_name two_meta = [5]" "tm_total_length two_meta = Some 2" "torrent_files two_meta = two_files" "total_size two_meta = 2"
  by (simp_all add: two_meta_def demo_meta_def torrent_files_def total_size_def)

lemma two_paths:
  "file_path demo_driver two_meta 0 = Inr [[5], [6]]" "file_path demo_driver two_meta (Suc 0) = Inr [[5], [7]]"
proof -
  have "build_file_path False [] [5] True [[6]] = Inr [[5], [6]]" "build_file_path False [] [5] True [[7]] = Inr [[5], [7]]" by code_simp+
  then show "file_path demo_driver two_meta 0 = Inr [[5], [6]]" "file_path demo_driver two_meta (Suc 0) = Inr [[5], [7]]"
    by (simp_all add: file_path_def two_files_def demo_driver_def demo_cfg_def)
qed

lemma demo_driver_simps [simp]:
  "dv_open demo_driver = open_preallocated no_faults" "dv_resume_file demo_driver h = [[9]]" "cc_env (dv_cfg demo_driver) = no_faults"
  "cc_sha1 (dv_cfg demo_driver) b = b" "is_valid (dv_target demo_driver n)"
  by (simp_all add: demo_driver_def demo_cfg_def is_valid_def)

lemma two_startable: "startable demo_driver two_meta"
proof -
  have "file_path demo_driver two_meta ` {..<length two_files} = {Inr [[5], [6]], Inr [[5], [7]]}"
    by (auto simp: two_files_def two_paths lessThan_Suc)
  then show ?thesis
    by (simp add: startable_def layout_known_def U64_MAX_def div_ceil_def as_u32_def MAX_PIECES_def)
      (simp add: two_files_def two_paths tmp_sibling_def lit_def)
qed

lemma hole_unservable: "bf_has (sel_unservable hole_selection) 0" "holds_byte_of 2 two_files (map Not [True, False]) 0"
proof -
  show h: "holds_byte_of 2 two_files (map Not [True, False]) 0"
    unfolding holds_byte_of_def by (intro exI [of _ 1] conjI exI [of _ 1]) (simp_all add: two_files_def file_start_def)
  have "sum_list (map tf_length two_files) < 2 ^ 64" by (simp add: two_files_def)
  moreover have "holds_byte_of (max 2 1) two_files (map Not [True, False]) 0" unfolding max_def using h by simp
  ultimately show "bf_has (sel_unservable hole_selection) 0"
    unfolding hole_selection_def sel_from_files_eq by (simp only: selection.simps pieces_of_files_props) simp
qed

lemma hole_run_ok: "coord_ok (facts_of demo_driver two_meta) [True, False] hole_run" "resume_true (facts_of demo_driver two_meta) hole_run"
proof -
  let ?fs = "\<lparr>fs_cache = hole_stable, fs_stable = hole_stable, fs_calls = 0\<rparr>"
  have w: "mgr_completed (with_selection (Suc 0) [0] hole_selection) = {0}" "mgr_selection (with_selection n cs s) = s"
    "mgr_total_pieces (with_selection n cs s) = n" for n cs s
    by (auto simp: with_selection_def Let_def)
  have du: "durable ms ?fs k" for ms k by (simp add: durable_def after_crash_def split: option.splits)
  have "store_ok (hole_disk False) ?fs"
    by (auto simp: store_ok_def disk_wf_def layout_ok_def hole_disk_def paths_distinct_def sized_def contents_def hole_stable_def less_Suc_eq)
  moreover have "disk_matches two_files [True, False] (hole_disk False)"
    by (auto simp: disk_matches_def two_files_def hole_disk_def less_Suc_eq file_start_def)
  moreover have "pieces_verified f hs (with_selection 1 [0] hole_selection) d fs" for f hs d fs
    using hole_unservable(1) by (simp add: pieces_verified_def is_servable_def w)
  ultimately show "coord_ok (facts_of demo_driver two_meta) [True, False] hole_run"
    using hole_unservable with_selection_inv du
    by (simp add: coord_ok_def hole_run_def store_inv_def w crash_safe_def div_ceil_def)
      (simp add: hole_disk_def tmp_sibling_def lit_def two_files_def)
  show "resume_true (facts_of demo_driver two_meta) hole_run"
    using du by (simp add: resume_true_def hole_run_def) (simp add: hole_stable_def)
qed

lemma two_starts: "\<exists>c fs'. start_coordinator demo_driver src two_meta (Some [True, True]) now fs = (Inr c, fs')"
proof -
  have nf: "\<not> call_fails no_faults fs" for fs by (simp add: call_fails_def no_faults_def)
  have op: "\<exists>fs'. open_preallocated no_faults q len fs = (Inr (), fs')" for q len fs
    using nf by (simp add: open_preallocated_def Let_def)
  have paths: "build_file_path False [] [5] True [[6]] = Inr [[5], [6]]" "build_file_path False [] [5] True [[7]] = Inr [[5], [7]]" by code_simp+
  have st: "is_selected (stored_files two_meta (Some [True, True])) i" if "i < 2" for i
    using that by (auto simp: is_selected_def stored_files_def chosen_files_def usable_flags_def two_files_def Let_def less_2_cases_iff)
  have "\<exists>d fs'. init_with_selection (open_preallocated no_faults) no_faults False [] 2 2 (Some two_files) [5]
      (stored_files two_meta (Some [True, True])) fs = (Inr d, fs')" for fs
  proof -
    obtain fs1 where 1: "open_preallocated no_faults [[5], [6]] (Suc 0) (call fs) = (Inr (), fs1)" using op by blast
    obtain fs2 where 2: "open_preallocated no_faults [[5], [7]] (Suc 0) fs1 = (Inr (), fs2)" using op by blast
    show ?thesis using 1 2 st [of 0] st [of 1]
      by (simp add: init_with_selection_def plan_files_def two_files_def paths nf)
  qed
  moreover obtain loaded fs1 where "load_resume demo_driver src two_meta fs = (loaded, fs1)" by fastforce
  moreover obtain d fs2 where "init_with_selection (open_preallocated no_faults) no_faults False [] 2 2 (Some two_files) [5]
      (stored_files two_meta (Some [True, True])) fs1 = (Inr d, fs2)" using calculation(1) by blast
  moreover have "cc_win (dv_cfg demo_driver) = False" "dv_output_dir demo_driver = []" by (simp_all add: demo_driver_def demo_cfg_def)
  ultimately show ?thesis by (auto simp: start_coordinator_def Let_def split: prod.splits)
qed

text \<open>C35. A crash recovery needs the same choice of files. The resume data does not say under which choice it was written, and the start takes its pieces as they
  are: there is a run that satisfies the invariant and has recorded its progress truthfully, after which a start with one file more
  makes a piece servable that was never stored in full, whose bytes on disk do not have the expected hash, and which is neither missing nor going to be
  checked.\<close>

theorem changed_selection_serves_holes:
  "\<exists>E meta src c sel c' fs' m d.
     startable E meta \<and> coord_ok (facts_of E meta) [True, False] c \<and> resume_true (facts_of E meta) c
     \<and> start_coordinator E src meta (Some sel) 0 (after_crash (co_fs c)) = (Inr c', fs')
     \<and> co_state c' = DownloadingData m d False False \<and> is_servable m 0 \<and> 0 \<notin> set (mgr_missing m)
     \<and> tf_sha1 (facts_of E meta) (piece_bytes (facts_of E meta) 0 (disk_image d (co_fs c'))) \<noteq> tf_hashes (facts_of E meta) ! 0"
proof -
  let ?fs = "after_crash (co_fs hole_run)" and ?sel = "Some [True, True]"
  let ?s = "file_selection two_meta (chosen_files two_meta ?sel)"
  obtain c' fs' where s: "start_coordinator demo_driver (SourceFile [[8]]) two_meta ?sel 0 ?fs = (Inr c', fs')"
    using two_starts by blast
  obtain loaded fs1 where l: "load_resume demo_driver (SourceFile [[8]]) two_meta ?fs = (loaded, fs1)" by fastforce
  have "mgr_completed (with_selection 1 [0] hole_selection) = {0}" "mgr_total_pieces (with_selection 1 [0] hole_selection) = 1"
    by (simp_all add: with_selection_def Let_def)
  then obtain st where st: "loaded = Inr (Some st)" "set (fr_completed st) = {0}"
    using resume_loaded [OF _ with_selection_inv _ l, of 1 "[0]" hole_selection]
    by (auto simp: hole_run_def hole_stable_def after_crash_def MAX_PIECES_def call_fails_def no_faults_def)
  have m: "choose_manager loaded (dv_target demo_driver [5]) 1 ?s = (with_selection 1 (fr_completed st) ?s, False, False)"
    by (simp add: choose_manager_def st(1))
  obtain d fs2 where i: "init_with_selection (dv_open demo_driver) (cc_env (dv_cfg demo_driver)) (cc_win (dv_cfg demo_driver)) (dv_output_dir demo_driver)
      (total_size two_meta) (tm_piece_length two_meta) (tm_files two_meta) (tm_name two_meta) (stored_files two_meta ?sel) fs1 = (Inr d, fs2)"
    and c: "co_state c' = DownloadingData (with_selection 1 (fr_completed st) ?s) d False False" "co_fs c' = fs2"
    using s l m by (auto simp: start_coordinator_def Let_def initial_coordinator_state_def simp del: One_nat_def demo_driver_simps split: prod.splits sum.splits)
  have fs1: "fs_cache fs1 = fs_stable fs1" "fs_stable fs1 = hole_stable" using load_resume_fs [OF l] by (simp_all add: after_crash_def hole_run_def)
  note D = opened_disk [OF two_startable i fs1(1), unfolded two_meta_simps]
  have fl: "coord_flags two_meta ?sel = [True, True]"
    by (auto simp: coord_flags_def stored_files_def chosen_files_def usable_flags_def two_files_def Let_def)
  have M: "disk_matches two_files [True, True] (hole_disk True)"
    by (auto simp: disk_matches_def two_files_def hole_disk_def less_Suc_eq file_start_def)
  have "fm_path (dk_files d ! i) = fm_path (dk_files (hole_disk True) ! i)" if "i < length two_files" for i
    using D(4) [of i] that two_paths by (auto simp: two_files_def hole_disk_def less_Suc_eq)
  then have "disk_image d fs2 = crash_image (hole_disk True) fs1"
    unfolding D(8) [symmetric] using D(1,2,7) M
    by (intro crash_image_cong [of two_files "[True, True]"]) (simp_all add: fl store_ok_def disk_wf_def layout_ok_def hole_disk_def)
  also have "\<dots> = [7, 0]"
    using fs1(2) by (simp add: crash_image_def hole_disk_def disk_end_def locate_def cell_def contents_def after_crash_def hole_stable_def upt_rec)
  finally have im: "disk_image d fs2 = [7, 0]" .
  have "\<not> holds_byte_of 2 two_files (map Not (coord_flags two_meta ?sel)) 0" by (auto simp: fl holds_byte_of_def two_files_def less_Suc_eq nth_Cons')
  then have "\<not> bf_has (sel_unservable ?s) 0" using unservable_iff [of two_meta 0 ?sel] by (simp add: two_files_def)
  then have sv: "is_servable (with_selection 1 (fr_completed st) ?s) 0" "0 \<notin> set (mgr_missing (with_selection 1 (fr_completed st) ?s))"
    using st(2) by (auto simp: is_servable_def with_selection_def Let_def)
  have "tf_sha1 (facts_of demo_driver two_meta) (piece_bytes (facts_of demo_driver two_meta) 0 (disk_image d (co_fs c')))
      \<noteq> tf_hashes (facts_of demo_driver two_meta) ! 0"
    by (simp add: c(2) im piece_bytes_def piece_end_def slice_def)
  with two_startable hole_run_ok s c(1) sv show ?thesis by blast
qed

end
