(* ===== verification/Lifetime.thy ===== *)
theory Lifetime
  imports Driver
begin

text \<open>
  A torrent over any number of crashes: it is started for the first time, its coordinator takes turns, the machine crashes after one of them, and the torrent is started
  again on what stable storage holds. The lemmas of the locale \<open>piece_store\<close> say which bytes stay durable in a turn; \<open>recorded\<close> says that the resume file on
  stable storage lists only pieces that would survive a crash now, and every turn keeps it.
\<close>

section \<open>Bytes that stay durable\<close>

definition safe_on :: "nat set \<Rightarrow> nat \<Rightarrow> disk \<Rightarrow> filesystem \<Rightarrow> bool" where
  "safe_on S pl d fs \<longleftrightarrow> (\<forall>k. k div pl \<in> S \<longrightarrow> stored (dk_files d) k \<longrightarrow> durable (dk_files d) fs k)"

lemma safe_onI: "(\<And>k. k div pl \<in> S \<Longrightarrow> stored (dk_files d) k \<Longrightarrow> durable (dk_files d) fs k) \<Longrightarrow> safe_on S pl d fs"
  by (simp add: safe_on_def)

lemma safe_onD: "safe_on S pl d fs \<Longrightarrow> k div pl \<in> S \<Longrightarrow> stored (dk_files d) k \<Longrightarrow> durable (dk_files d) fs k"
  by (simp add: safe_on_def)

lemma safe_on_cong:
  assumes "\<And>p. p \<in> fm_path ` set (dk_files d) \<Longrightarrow> contents fs' p = contents fs p"
    "\<And>p. p \<in> fm_path ` set (dk_files d) \<Longrightarrow> contents (after_crash fs') p = contents (after_crash fs) p"
  shows "safe_on S pl d fs' = safe_on S pl d fs"
proof -
  have "durable (dk_files d) fs' k = durable (dk_files d) fs k" for k by (rule durable_cong [OF same_files_refl assms])
  then show ?thesis by (simp add: safe_on_def)
qed

text \<open>A file that holds a byte of a piece kept by a change of the selection and that is selected now was open before.\<close>

lemma reselect_opened:
  assumes inv: "store_inv T before m d fs" and R: "reselected after d fs d' fs'" and msg: "selection_msg_ok T before sel after refetch"
    and p: "k div tf_piece_length T \<in> mgr_completed (apply_selection sel refetch m)" and i: "locate (dk_files d) k = Some i" "after ! i"
  shows "fm_open (dk_files d ! i)"
proof -
  note I = store_invD [OF inv]
  let ?pl = "tf_piece_length T" and ?files = "tf_files T" and ?n = "length (tf_hashes T)"
  have lens: "length (dk_files d) = length ?files" "length before = length ?files" "length after = length ?files"
    using I(2) msg by (simp_all add: disk_matches_def selection_msg_ok_def)
  have il: "i < length ?files" using locate_SomeD(1) [OF i(1)] lens by simp
  have f: "fm_start (dk_files d ! i) = file_start ?files i" "fm_end (dk_files d ! i) = file_start ?files i + tf_length (?files ! i)"
    "fm_open (dk_files d ! i) = before ! i" using I(2) il by (simp_all add: disk_matches_def)
  have mx: "max ?pl (Suc 0) = ?pl" using I(4) by simp
  have "mgr_completed (apply_selection sel refetch m) = mgr_completed m - set (bf_iter_ones refetch)"
    by (simp add: apply_selection_def Let_def)
  moreover have "k div ?pl < ?n" using p mgr_invD(7) [OF I(8)] I(9) calculation by auto
  ultimately have "\<not> holds_byte_of ?pl ?files (map (\<lambda>(was, now). \<not> was \<and> now) (zip before after)) (k div ?pl)"
    using msg I(4,5) p by (simp add: selection_msg_ok_def pieces_to_refetch_def pieces_of_files_props bf_iter_ones_def mx)
  then show ?thesis
    using kept_piece_files [OF lens(2,3) _ il _ _ refl i(2), of ?pl k] locate_SomeD(2,3) [OF i(1)] f by simp
qed

context piece_store
begin

lemma write_safe:
  assumes inv: "store_inv T flags m d fs" and w: "do_write ops p data (d, fs) = (r, d', fs')"
    and p: "p \<notin> S" and len: "length data = piece_size T p" and safe: "safe_on S (tf_piece_length T) d fs"
  shows "safe_on S (tf_piece_length T) d' fs'" "same_files (dk_files d') (dk_files d)"
proof -
  note I = store_invD [OF inv]
  let ?pl = "tf_piece_length T"
  have wf: "disk_wf d fs" using I(1) by (simp add: store_ok_def)
  from write_law [OF wf w] have wr: "wrote False (p * ?pl) data 0 (dk_files d) fs r (dk_files d') fs'" by (simp add: I(3))
  note W = wroteD [OF wr] and st = wroteD(2) [OF wr]
  show sf: "same_files (dk_files d') (dk_files d)" by (rule strip_same_files [OF st])
  show "safe_on S ?pl d' fs'"
  proof (rule safe_onI)
    fix k assume k: "k div ?pl \<in> S" "stored (dk_files d') k"
    have s: "stored (dk_files d) k" using k(2) by (simp add: strip_eq(3) [OF st])
    then obtain i where i: "locate (dk_files d) k = Some i" by (auto simp: stored_def split: option.splits)
    have i': "locate (dk_files d') k = Some i" using i by (simp add: same_files_layout(1) [OF sf])
    have il: "i < length (dk_files d)" by (rule locate_SomeD(1) [OF i])
    have "k < p * ?pl + 0 \<or> p * ?pl + length data \<le> k"
      using k(1) p piece_size_le [of T p] range_of_piece [OF I(4), of p k] by (auto simp: len)
    then have "byte_at (dk_files d') fs' k = byte_at (dk_files d) fs k" by (rule W(5))
    then have "cell fs' (fm_path (dk_files d ! i)) (k - fm_start (dk_files d ! i))
        = cell fs (fm_path (dk_files d ! i)) (k - fm_start (dk_files d ! i))"
      using stored_cell [OF I(14) s i] stored_cell [OF W(1) k(2) i'] by (simp add: same_filesD(2,3) [OF sf il])
    moreover have "cell (after_crash fs') q off = cell (after_crash fs) q off" for q off
      using W(3) by (simp add: cell_def after_crash_def contents_def)
    ultimately show "durable (dk_files d') fs' k"
      using safe_onD [OF safe k(1) s] i i' by (simp add: durable_def same_filesD(2,3) [OF sf il])
  qed
qed

lemma flush_safe:
  assumes f: "do_flush ops (d, fs) = (r, d', fs')" and safe: "safe_on S pl d fs"
  shows "safe_on S pl d' fs'" "same_files (dk_files d') (dk_files d)"
proof -
  from flush_law [OF f] have st: "map strip (dk_files d') = map strip (dk_files d)" and c: "fs_cache fs' = fs_cache fs"
    and stab: "\<And>p. fs_stable fs' p = fs_stable fs p \<or> fs_stable fs' p = fs_cache fs p"
    unfolding flushed_def by blast+
  show sf: "same_files (dk_files d') (dk_files d)" by (rule strip_same_files [OF st])
  show "safe_on S pl d' fs'"
  proof (rule safe_onI)
    fix k assume k: "k div pl \<in> S" "stored (dk_files d') k"
    then obtain i where i: "locate (dk_files d) k = Some i"
      using strip_eq(3) [OF st] by (auto simp: stored_def split: option.splits)
    have il: "i < length (dk_files d)" by (rule locate_SomeD(1) [OF i])
    have "durable (dk_files d) fs k" using safe_onD [OF safe k(1)] k(2) by (simp add: strip_eq(3) [OF st])
    then show "durable (dk_files d') fs' k"
      using i stab [of "fm_path (dk_files d ! i)"] c
      by (auto simp: durable_def same_files_layout(1) [OF sf] same_filesD(2,3) [OF sf il] cell_def contents_def after_crash_def)
  qed
qed

lemma persist_safe:
  assumes cfg: "cc_ops cfg = ops" "cfg_matches cfg T" and inv: "store_inv T flags m d fs"
    and fp: "flush_and_persist cfg m d fs = (d', fs')" and safe: "safe_on S pl d fs"
  shows "safe_on S pl d' fs'" "same_files (dk_files d') (dk_files d)"
proof -
  obtain r d1 fs1 where f: "do_flush ops (d, fs) = (r, d1, fs1)" by (metis prod_cases3)
  note F = flush_safe [OF f safe] and I1 = store_invD [OF flush_keeps(1) [OF inv f]]
  have "safe_on S pl d' fs' \<and> d' = d1"
  proof (cases r)
    case (Inl e)
    then show ?thesis using fp f cfg(1) F(1) by (simp add: flush_and_persist_def)
  next
    case (Inr u)
    obtain r2 trace where a: "atomic_write (cc_env cfg) (tf_resume T) (fr_encode (fr_from_manager m)) fs1 = (r2, trace)" by fastforce
    have e: "d' = d1" "fs' = last trace"
      using fp f cfg Inr a by (simp_all add: flush_and_persist_def persist_resume_def save_fastresume_def cfg_matches_def)
    have "fs_cache fs' q = fs_cache fs1 q" "fs_stable fs' q = fs_stable fs1 q" if "q \<in> fm_path ` set (dk_files d1)" for q
      unfolding e(2) by (rule atomic_write_other [OF a]; use that I1(6,7) in metis)+
    then have "safe_on S pl d1 fs' = safe_on S pl d1 fs1" by (intro safe_on_cong) (simp_all add: contents_def after_crash_def)
    then show ?thesis using F(1) e(1) by simp
  qed
  then show "safe_on S pl d' fs'" "same_files (dk_files d') (dk_files d)" using F(2) by auto
qed

lemma read_safe:
  assumes inv: "store_inv T flags m d fs" and r: "do_read ops i off len (d, fs) = (r, d', fs')" "0 < len" and safe: "safe_on S pl d fs"
  shows "safe_on S pl d' fs'" "d' = d"
proof -
  have wf: "disk_wf d fs" using store_invD(1) [OF inv] by (simp add: store_ok_def)
  from read_law [OF wf r(2,1)] have R: "d' = d" "fs_cache fs' = fs_cache fs" "fs_stable fs' = fs_stable fs" by auto
  then have "safe_on S pl d fs' = safe_on S pl d fs" by (intro safe_on_cong) (simp_all add: contents_def after_crash_def)
  then show "safe_on S pl d' fs'" "d' = d" using safe R(1) by simp_all
qed

lemma reselect_safe:
  assumes inv: "store_inv T before m d fs" and sel: "do_set_selection ops after (d, fs) = (Inr u, d', fs')"
    and msg: "selection_msg_ok T before sel after refetch" and S: "S \<subseteq> mgr_completed (apply_selection sel refetch m)"
    and safe: "safe_on S (tf_piece_length T) d fs"
  shows "safe_on S (tf_piece_length T) d' fs'" "same_files (dk_files d') (dk_files d)"
proof -
  note I = store_invD [OF inv]
  let ?pl = "tf_piece_length T" and ?files = "tf_files T"
  note R = select_law [OF I(1) sel]
  have lens: "length (dk_files d) = length ?files" "length before = length ?files" "length after = length ?files"
    using I(2) msg by (simp_all add: disk_matches_def selection_msg_ok_def)
  note F = reselected_files [OF R I(1), unfolded lens, OF refl]
  show sf: "same_files (dk_files d') (dk_files d)" by (rule F(1))
  show "safe_on S ?pl d' fs'"
  proof (rule safe_onI)
    fix k assume k: "k div ?pl \<in> S" "stored (dk_files d') k"
    obtain i where i: "locate (dk_files d') k = Some i" "fm_open (dk_files d' ! i)"
      using k(2) by (auto simp: stored_def split: option.splits)
    have i0: "locate (dk_files d) k = Some i" using i(1) by (simp add: same_files_layout(1) [OF sf])
    have il: "i < length ?files" using locate_SomeD(1) [OF i0] lens by simp
    have a: "after ! i" using i(2) F(4) [OF il] by simp
    have "k div ?pl \<in> mgr_completed (apply_selection sel refetch m)" using k(1) S by blast
    then have o: "fm_open (dk_files d ! i)"
      using reselect_opened [OF inv R msg _ i0 a] by blast
    then have s: "stored (dk_files d) k" using i0 by (simp add: stored_def)
    note r = F(3) [OF il, unfolded reselected1_def]
    have "length (contents fs (fm_path (dk_files d ! i))) = fm_end (dk_files d ! i) - fm_start (dk_files d ! i)"
      using I(14) o il lens by (simp add: layout_ok_def sized_def)
    then have c: "contents fs' (fm_path (dk_files d ! i)) = contents fs (fm_path (dk_files d ! i))"
      using r a set_len_same [of "contents fs (fm_path (dk_files d ! i))"] by simp
    show "durable (dk_files d') fs' k"
      using safe_onD [OF safe k(1) s] i i0 r a o c by (auto simp: durable_def cell_def)
  qed
qed

lemma piece_downloaded_safe:
  assumes cfg: "cc_ops cfg = ops" "cfg_matches cfg T" and st: "co_state c = DownloadingData m d paused hc"
    and inv: "store_inv T flags m d (co_fs c)"
    and p: "p < length (tf_hashes T)" "length data = piece_size T p" "tf_sha1 T data = tf_hashes T ! p"
    and turn: "piece_downloaded cfg now p data c = (c', eff)" and S: "S \<subseteq> mgr_completed m"
    and safe: "safe_on S (tf_piece_length T) d (co_fs c)"
  shows "\<exists>d'. disk_of (co_state c') = Some d' \<and> same_files (dk_files d') (dk_files d) \<and> safe_on S (tf_piece_length T) d' (co_fs c')"
proof (cases "is_completed m p")
  case True
  then have "c' = c" using turn st by (simp add: piece_downloaded_def)
  then show ?thesis using st safe by (simp add: disk_of_def)
next
  case False
  then have np: "p \<notin> mgr_completed m" "p \<notin> S" using S by (auto simp: is_completed_def)
  obtain r d1 fs1 where w: "do_write ops p data (d, co_fs c) = (r, d1, fs1)" by (metis prod_cases3)
  note W = write_safe [OF inv w np(2) p(2) safe]
  show ?thesis
  proof (cases r)
    case (Inl e)
    then show ?thesis using turn st False w cfg(1) W by (auto simp: piece_downloaded_def disk_of_def)
  next
    case (Inr u)
    let ?m = "mark_completed p m"
    let ?persist = "is_done ?m \<or> now - co_last_persist c \<ge> RESUME_PERSIST_INTERVAL"
    have inv1: "store_inv T flags ?m d1 fs1" by (rule write_completes [OF inv w [unfolded Inr] np(1) p])
    obtain d2 fs2 where fp: "(if ?persist then flush_and_persist cfg ?m d1 fs1 else (d1, fs1)) = (d2, fs2)" by fastforce
    have c': "disk_of (co_state c') = Some d2" "co_fs c' = fs2"
      using turn st False w Inr cfg(1) fp by (auto simp: piece_downloaded_def Let_def disk_of_def split: prod.splits)
    have "safe_on S (tf_piece_length T) d2 fs2 \<and> same_files (dk_files d2) (dk_files d1)"
      using fp persist_safe [OF cfg inv1 _ W(1)] W(1) by (auto split: if_splits)
    then show ?thesis using c' W(2) by (simp add: same_files_def)
  qed
qed

lemma check_tick_safe:
  assumes cfg: "cc_ops cfg = ops" and ok: "coord_ok T flags c" and d: "disk_of (co_state c) = Some d"
    and turn: "check_tick cfg c = (c', eff)" and safe: "safe_on S (tf_piece_length T) d (co_fs c)"
  shows "\<exists>d'. disk_of (co_state c') = Some d' \<and> same_files (dk_files d') (dk_files d) \<and> safe_on S (tf_piece_length T) d' (co_fs c')"
proof (cases "\<exists>m hs pl tlen p. co_state c = CheckingFiles m d hs pl tlen p \<and> p < mgr_total_pieces m")
  case False
  then have "disk_of (co_state c') = Some d" "co_fs c' = co_fs c"
    using turn d by (auto simp: check_tick_def finish_check_def disk_of_def split: coordinator_state.splits)
  then show ?thesis using safe by simp
next
  case True
  then obtain m hs pl tlen p where c: "co_state c = CheckingFiles m d hs pl tlen p" "p < mgr_total_pieces m" by blast
  then have inv: "store_inv T flags m d (co_fs c)"
    and e: "hs = tf_hashes T" "pl = tf_piece_length T" "tlen = sum_list (map tf_length (tf_files T))" "tf_piece_length T < 2 ^ 32"
    using ok by (simp_all add: coord_ok_def)
  note I = store_invD [OF inv]
  have pn: "p < length (tf_hashes T)" using c(2) I(9) by simp
  then have "p * tf_piece_length T < sum_list (map tf_length (tf_files T))" using I(4,10) by (simp add: piece_start_less)
  then have len: "0 < check_length p (mgr_total_pieces m) pl tlen"
    using check_length_eq [OF I(4) e(4) I(10) pn] I(4,9) e by (simp add: piece_size_def piece_end_def)
  obtain r d1 fs1 where rd: "(if is_wanted m p then do_read ops p 0 (check_length p (mgr_total_pieces m) pl tlen) (d, co_fs c)
      else (Inl IoFailed, d, co_fs c)) = (r, d1, fs1)" by (metis prod_cases3)
  have R: "safe_on S (tf_piece_length T) d1 fs1 \<and> d1 = d"
    using rd read_safe [OF inv _ len safe] safe by (auto split: if_splits)
  have "disk_of (co_state c') = Some d1 \<and> co_fs c' = fs1"
    using turn c rd unfolding cfg [symmetric] by (auto simp: check_tick_def finish_check_def Let_def disk_of_def split: if_splits prod.splits)
  then show ?thesis using R by auto
qed

lemma read_block_safe:
  assumes cfg: "cc_ops cfg = ops" and ok: "coord_ok T flags c" and d: "disk_of (co_state c) = Some d"
    and turn: "read_block cfg i b l c = (c', eff)" and safe: "safe_on S (tf_piece_length T) d (co_fs c)"
  shows "\<exists>d'. disk_of (co_state c') = Some d' \<and> same_files (dk_files d') (dk_files d) \<and> safe_on S (tf_piece_length T) d' (co_fs c')"
proof (cases "\<exists>m p h. co_state c = DownloadingData m d p h \<and> 0 < l \<and> l \<le> MAX_BLOCK_REQUEST \<and> is_servable m i")
  case False
  then have "c' = c" using turn d by (auto simp: read_block_def disk_of_def split: coordinator_state.splits if_splits)
  then show ?thesis using d safe by simp
next
  case True
  then obtain m p h where c: "co_state c = DownloadingData m d p h" "0 < l" "l \<le> MAX_BLOCK_REQUEST" "is_servable m i" by blast
  have inv: "store_inv T flags m d (co_fs c)" using ok c(1) by (simp add: coord_ok_def)
  obtain r d1 fs1 where rd: "do_read ops i b l (d, co_fs c) = (r, d1, fs1)" by (metis prod_cases3)
  have "disk_of (co_state c') = Some d1" "co_fs c' = fs1"
    using turn c rd cfg by (auto simp: read_block_def disk_of_def split: sum.splits)
  then show ?thesis using read_safe [OF inv rd c(2) safe] by auto
qed

lemma set_selection_safe:
  assumes cfg: "cc_ops cfg = ops" "cfg_matches cfg T" and ok: "coord_ok T before c" and d: "disk_of (co_state c) = Some d"
    and msg: "selection_msg_ok T before sel after refetch"
    and turn: "apply_set_selection cfg sel after refetch c = (c', eff)" and suc: "\<forall>e. Ui (SelectionError e) \<notin> set eff"
    and S: "\<And>m'. manager_of (co_state c') = Some m' \<Longrightarrow> S \<subseteq> mgr_completed m'" and safe: "safe_on S (tf_piece_length T) d (co_fs c)"
  shows "\<exists>d'. disk_of (co_state c') = Some d' \<and> same_files (dk_files d') (dk_files d) \<and> safe_on S (tf_piece_length T) d' (co_fs c')"
proof -
  obtain m where m: "manager_of (co_state c) = Some m" using d by (auto simp: disk_of_def manager_of_def split: coordinator_state.splits)
  note inv = coord_ok_store [OF ok m d]
  let ?m = "apply_selection sel refetch m"
  obtain r d1 fs1 where s: "do_set_selection ops after (d, co_fs c) = (r, d1, fs1)" by (metis prod_cases3)
  have r: "r = Inr ()"
    using turn suc s cfg(1) d by (cases r) (auto simp: apply_set_selection_def disk_of_def split: coordinator_state.splits)
  obtain d2 fs2 where fp: "flush_and_persist cfg ?m d1 fs1 = (d2, fs2)" by fastforce
  have c': "manager_of (co_state c') = Some ?m \<and>
      (disk_of (co_state c') = Some d1 \<and> co_fs c' = fs1 \<or> disk_of (co_state c') = Some d2 \<and> co_fs c' = fs2)"
    using turn s r cfg(1) fp d m
    by (auto simp: apply_set_selection_def disk_of_def manager_of_def Let_def split: coordinator_state.splits)
  have Sm: "S \<subseteq> mgr_completed ?m" using S c' by blast
  note R = reselect_safe [OF inv s [unfolded r] msg Sm safe]
  have "store_inv T after ?m d1 fs1" by (rule reselect_keeps [OF inv select_law [OF store_invD(1) [OF inv] s [unfolded r]] msg])
  from persist_safe [OF cfg this fp R(1)] R c' show ?thesis by (auto simp: same_files_def)
qed

lemma shutdown_safe:
  assumes cfg: "cc_ops cfg = ops" "cfg_matches cfg T" and ok: "coord_ok T flags c" and d: "disk_of (co_state c) = Some d"
    and safe: "safe_on S pl d (co_fs c)"
  shows "\<exists>d'. disk_of (co_state (shutdown cfg c)) = Some d' \<and> same_files (dk_files d') (dk_files d) \<and> safe_on S pl d' (co_fs (shutdown cfg c))"
proof (cases "\<exists>m p h. co_state c = DownloadingData m d p h")
  case True
  then obtain m p h where c: "co_state c = DownloadingData m d p h" by blast
  obtain d2 fs2 where fp: "flush_and_persist cfg m d (co_fs c) = (d2, fs2)" by fastforce
  have "store_inv T flags m d (co_fs c)" using ok c by (simp add: coord_ok_def)
  from persist_safe [OF cfg this fp safe] show ?thesis using c fp by (simp add: shutdown_def disk_of_def)
next
  case False
  then have "shutdown cfg c = c" using d by (auto simp: shutdown_def disk_of_def split: coordinator_state.splits)
  then show ?thesis using d safe by simp
qed

text \<open>A whole turn: what was durable of the pieces that the manager has before and after it stays durable.\<close>

lemma disk_of_mut [simp]: "disk_of (manager_mut f st) = disk_of st"
  by (simp add: disk_of_def manager_mut_def split: coordinator_state.split)

lemma set_paused_same: "disk_of (co_state (fst (set_paused p c))) = disk_of (co_state c)" "co_fs (fst (set_paused p c)) = co_fs c"
  by (simp_all add: set_paused_def disk_of_def split: coordinator_state.split)

lemma turn_safe:
  assumes cfg: "cc_ops cfg = ops" "cfg_matches cfg T" and ok: "coord_ok T flags c" and inp: "input_ok T flags inp flags'"
    and turn: "coord_turn cfg inp c = (c', eff)" and suc: "\<forall>e. Ui (SelectionError e) \<notin> set eff"
    and d: "disk_of (co_state c) = Some d" and m: "manager_of (co_state c) = Some m" and S: "S \<subseteq> mgr_completed m"
    and S': "\<And>m'. manager_of (co_state c') = Some m' \<Longrightarrow> S \<subseteq> mgr_completed m'" and safe: "safe_on S (tf_piece_length T) d (co_fs c)"
  shows "\<exists>d'. disk_of (co_state c') = Some d' \<and> same_files (dk_files d') (dk_files d) \<and> safe_on S (tf_piece_length T) d' (co_fs c')"
proof (cases inp)
  case CheckTick
  then show ?thesis using check_tick_safe [OF cfg(1) ok d _ safe] turn by simp
next
  case Shutdown
  then show ?thesis using shutdown_safe [OF cfg ok d safe] turn by auto
next
  case (Msg now msg)
  note t = turn [unfolded Msg coord_turn.simps] and i = inp [unfolded Msg]
  have same: ?thesis if "disk_of (co_state c') = disk_of (co_state c)" "co_fs c' = co_fs c" using that d safe by simp
  show ?thesis
  proof (cases msg)
    case (PieceDownloaded p data)
    then have p: "p < length (tf_hashes T)" "length data = piece_size T p" "tf_sha1 T data = tf_hashes T ! p"
      and t': "piece_downloaded cfg now p data c = (c', eff)" using t i by simp_all
    show ?thesis
    proof (cases "co_state c")
      case (DownloadingData m0 d0 paused hc)
      then have e: "m0 = m" "d0 = d" using m d by (simp_all add: manager_of_def disk_of_def)
      have inv: "store_inv T flags m d (co_fs c)" using coord_ok_store [OF ok m d] .
      show ?thesis by (rule piece_downloaded_safe [OF cfg DownloadingData [unfolded e] inv p t' S safe])
    qed (use t' same in \<open>auto simp: piece_downloaded_def\<close>)
  next
    case (ReadPiece x b l)
    then show ?thesis using read_block_safe [OF cfg(1) ok d _ safe] t by simp
  next
    case (SetSelection sel after refetch)
    then have m: "selection_msg_ok T flags sel after refetch" and t': "apply_set_selection cfg sel after refetch c = (c', eff)"
      using t i by simp_all
    show ?thesis by (rule set_selection_safe [OF cfg ok d m t' suc S' safe])
  next
    case (MetadataPieceDownloaded x data)
    then have "c' = c" using t ok by (auto simp: metadata_piece_downloaded_def coord_ok_def split: coordinator_state.splits)
    then show ?thesis using same by simp
  next
    case (RequestWork have')
    then have "disk_of (co_state c') = disk_of (co_state c)" "co_fs c' = co_fs c"
      using request_work_mut [of cfg have' c c' eff] t by auto
    then show ?thesis by (rule same)
  next
    case (PieceFailed x)
    then have "disk_of (co_state c') = disk_of (co_state c)" "co_fs c' = co_fs c"
      using t by (auto simp: piece_failed_def disk_of_def split: coordinator_state.splits)
    then show ?thesis by (rule same)
  qed (rule same; use t set_paused_same [of _ c] in \<open>auto simp: prod_eq_iff\<close>)+
qed

end

section \<open>What the resume file on stable storage lists\<close>

definition listed :: "torrent_facts \<Rightarrow> filesystem \<Rightarrow> nat set" where
  "listed T fs = (case fs_stable fs (tf_resume T) of
     None \<Rightarrow> {}
   | Some bs \<Rightarrow> (case fr_decode (\<lambda>_. None) bs of Inl _ \<Rightarrow> {} | Inr st \<Rightarrow> set (fr_completed st)))"

definition our_resume :: "torrent_facts \<Rightarrow> filesystem \<Rightarrow> bool" where
  "our_resume T fs \<longleftrightarrow> fs_stable fs (tf_resume T) = None \<or>
     (\<exists>m0. fs_stable fs (tf_resume T) = Some (fr_encode (fr_from_manager m0)) \<and> mgr_inv m0 \<and> mgr_total_pieces m0 = length (tf_hashes T))"

definition saved :: "torrent_facts \<Rightarrow> coordinator \<Rightarrow> bool" where
  "saved T c \<longleftrightarrow> (\<forall>m. manager_of (co_state c) = Some m \<longrightarrow> listed T (co_fs c) \<subseteq> mgr_completed m)"

text \<open>The resume file was written by the program, lists only complete pieces, and these would survive a crash.\<close>

definition recorded :: "torrent_facts \<Rightarrow> coordinator \<Rightarrow> bool" where
  "recorded T c \<longleftrightarrow> our_resume T (co_fs c) \<and> saved T c
     \<and> (\<forall>d. disk_of (co_state c) = Some d \<longrightarrow> safe_on (listed T (co_fs c)) (tf_piece_length T) d (co_fs c))"

lemma decoded_completed:
  assumes "mgr_inv m" "mgr_total_pieces m \<le> MAX_PIECES"
  obtains st where "fr_decode from_json (fr_encode (fr_from_manager m)) = Inr st" "set (fr_completed st) = mgr_completed m"
proof -
  have "set (fr_completed (fr_from_manager m)) = mgr_completed m"
    using finite_completed [OF assms(1)] by (simp add: fr_from_manager_def completed_pieces_def)
  moreover have "mgr_completed m \<subseteq> {..<mgr_total_pieces m}" using mgr_invD [OF assms(1)] by auto
  ultimately have "set (filter (\<lambda>i. i \<in> set (fr_completed (fr_from_manager m))) [0..<fr_total_pieces (fr_from_manager m)]) = mgr_completed m"
    by (auto simp: fr_from_manager_def)
  moreover have "fr_total_pieces (fr_from_manager m) \<le> MAX_PIECES" using assms(2) by (simp add: fr_from_manager_def)
  ultimately show ?thesis using that [OF fr_decode_encode] by simp
qed

lemma listed_encode:
  assumes "fs_stable fs (tf_resume T) = Some (fr_encode (fr_from_manager m))" "mgr_inv m" "mgr_total_pieces m \<le> MAX_PIECES"
  shows "listed T fs = mgr_completed m"
proof -
  obtain st where "fr_decode (\<lambda>_. None) (fr_encode (fr_from_manager m)) = Inr st" "set (fr_completed st) = mgr_completed m"
    by (rule decoded_completed [OF assms(2,3)])
  then show ?thesis by (simp add: listed_def assms(1))
qed

lemma listed_cong: "fs_stable fs' (tf_resume T) = fs_stable fs (tf_resume T) \<Longrightarrow> listed T fs' = listed T fs"
  by (simp add: listed_def)

lemma coord_ok_has:
  assumes "coord_ok T flags c"
  obtains m d where "manager_of (co_state c) = Some m" "disk_of (co_state c) = Some d" "store_inv T flags m d (co_fs c)"
  using assms by (auto simp: coord_ok_def manager_of_def disk_of_def split: coordinator_state.splits)

lemma turn_recorded:
  assumes cfg: "reporting_backend cfg" "cfg_matches cfg T" and ok: "coord_ok T flags c" and inp: "input_ok T flags inp flags'"
    and turn: "coord_turn cfg inp c = (c', eff)" and suc: "\<forall>e. Ui (SelectionError e) \<notin> set eff"
    and n: "length (tf_hashes T) \<le> MAX_PIECES" and rec: "recorded T c" and sv: "saved T c'"
  shows "recorded T c'" "\<exists>d d'. disk_of (co_state c) = Some d \<and> disk_of (co_state c') = Some d' \<and> same_files (dk_files d') (dk_files d)"
proof -
  let ?S = "listed T (co_fs c)" and ?S' = "listed T (co_fs c')" and ?pl = "tf_piece_length T"
  note store = backend_store [OF cfg(1)]
  have ok': "coord_ok T flags' c'" and rt: "fs_stable (co_fs c') (tf_resume T) \<noteq> fs_stable (co_fs c) (tf_resume T) \<Longrightarrow> resume_true T c'"
    using piece_store.turn_keeps [OF store refl cfg(2) ok inp turn suc] by auto
  obtain m d where md: "manager_of (co_state c) = Some m" "disk_of (co_state c) = Some d" by (rule coord_ok_has [OF ok])
  obtain m' d1 where md': "manager_of (co_state c') = Some m'" "disk_of (co_state c') = Some d1" "store_inv T flags' m' d1 (co_fs c')"
    by (rule coord_ok_has [OF ok'])
  note I' = store_invD [OF md'(3)]
  have "same_files (dk_files d1) (dk_files d)"
    using piece_store.turn_safe [OF store refl cfg(2) ok inp turn suc md(2,1), of "{}"] md'(2) by (auto simp: safe_on_def)
  then show "\<exists>d d'. disk_of (co_state c) = Some d \<and> disk_of (co_state c') = Some d' \<and> same_files (dk_files d') (dk_files d)"
    using md(2) md'(2) by blast
  show "recorded T c'"
  proof (cases "fs_stable (co_fs c') (tf_resume T) = fs_stable (co_fs c) (tf_resume T)")
    case True
    then have e: "?S' = ?S" by (rule listed_cong)
    have S: "?S \<subseteq> mgr_completed m" "?S \<subseteq> mgr_completed m'" "safe_on ?S ?pl d (co_fs c)"
      using rec sv md md' by (auto simp: recorded_def saved_def e)
    have "safe_on ?S ?pl d1 (co_fs c')"
      using piece_store.turn_safe [OF store refl cfg(2) ok inp turn suc md(2,1) S(1) _ S(3)] S(2) md'(1,2) by auto
    then show ?thesis using rec sv md'(2) True by (simp add: recorded_def our_resume_def e)
  next
    case False
    from rt [OF this] have r: "fs_stable (co_fs c') (tf_resume T) = Some (fr_encode (fr_from_manager m'))"
      and s: "safe_on (mgr_completed m') ?pl d1 (co_fs c')"
      using md' by (auto simp: resume_true_def safe_on_def manager_of_def disk_of_def split: coordinator_state.splits)
    have "?S' = mgr_completed m'" using listed_encode [OF r I'(8)] I'(9) n by simp
    then show ?thesis using r s I'(8,9) md' sv by (auto simp: recorded_def our_resume_def)
  qed
qed

text \<open>Only a change of the selection gives up pieces.\<close>

fun selects :: "coord_input \<Rightarrow> bool" where
  "selects (Msg now (SetSelection sel flags refetch)) = True"
| "selects inp = False"

lemma manager_of_mut [simp]: "manager_of (manager_mut f st) = map_option f (manager_of st)"
  by (simp add: manager_of_def manager_mut_def split: coordinator_state.split)

lemma piece_downloaded_grows:
  assumes "piece_downloaded cfg now p data c = (c', eff)" "manager_of (co_state c) = Some m" "manager_of (co_state c') = Some m'"
  shows "mgr_completed m \<subseteq> mgr_completed m'"
proof -
  have "mgr_completed (return_work p m) = mgr_completed m" by (simp add: return_work_def Let_def split: option.split)
  moreover have "mgr_completed m \<subseteq> mgr_completed (mark_completed p m)" by (auto simp: mark_completed_def Let_def)
  moreover have "m' = m \<or> m' = return_work p m \<or> m' = mark_completed p m"
    using assms by (auto simp: piece_downloaded_def manager_of_def Let_def split: coordinator_state.splits sum.splits prod.splits if_splits)
  ultimately show ?thesis by auto
qed

lemma turn_grows:
  assumes ok: "coord_ok T flags c" and turn: "coord_turn cfg inp c = (c', eff)" and sel: "\<not> selects inp"
    and m: "manager_of (co_state c) = Some m" "manager_of (co_state c') = Some m'"
  shows "mgr_completed m \<subseteq> mgr_completed m'"
proof (cases inp)
  case CheckTick
  show ?thesis
  proof (cases "\<exists>d hs pl tlen i. co_state c = CheckingFiles m d hs pl tlen i")
    case True
    then obtain d hs pl tlen i where c: "co_state c = CheckingFiles m d hs pl tlen i" by blast
    obtain m1 where "mgr_completed m \<subseteq> mgr_completed m1" "manager_of (co_state (fst (check_tick cfg c))) = Some m1"
      by (rule check_tick_step [OF c, of cfg]) (auto simp: manager_of_def split: if_splits)
    then show ?thesis using turn CheckTick m(2) by simp
  next
    case False
    then have "c' = c" using turn CheckTick m(1) by (auto simp: check_tick_def manager_of_def split: coordinator_state.splits)
    then show ?thesis using m by simp
  qed
next
  case Shutdown
  then have "manager_of (co_state c') = manager_of (co_state c)"
    using turn by (auto simp: shutdown_def manager_of_def Let_def split: coordinator_state.splits prod.splits)
  then show ?thesis using m by simp
next
  case (Msg now msg)
  note t = turn [unfolded Msg coord_turn.simps]
  have inv: "mgr_inv m" using ok m(1) by (auto simp: coord_ok_def manager_of_def dest: store_invD(8) split: coordinator_state.splits)
  have mut: ?thesis if "c' = c\<lparr>co_state := manager_mut f (co_state c)\<rparr>" "mgr_completed (f m) = mgr_completed m" for f using that m by simp
  have same: ?thesis if "manager_of (co_state c') = manager_of (co_state c)" using that m by simp
  show ?thesis
  proof (cases msg)
    case (RequestWork have')
    then show ?thesis using request_work_mut [of cfg have' c c' eff] mut peer_pieces_keep(5) [OF inv] t same by auto
  next
    case (PieceDownloaded p data)
    then show ?thesis using piece_downloaded_grows [OF _ m] t by simp
  next
    case (PieceFailed x)
    then have "c' = c \<or> c' = c\<lparr>co_state := manager_mut (return_work x) (co_state c)\<rparr>"
      using t by (auto simp: piece_failed_def manager_mut_def split: coordinator_state.splits)
    then show ?thesis using mut peer_pieces_keep(4) [OF inv] same by auto
  next
    case (MetadataPieceDownloaded x data)
    then have "c' = c" using t ok by (auto simp: metadata_piece_downloaded_def coord_ok_def split: coordinator_state.splits)
    then show ?thesis using same by simp
  next
    case (ReadPiece x b l)
    then have "manager_of (co_state c') = manager_of (co_state c)"
      using t by (auto simp: read_block_def manager_of_def split: coordinator_state.splits if_splits sum.splits prod.splits)
    then show ?thesis by (rule same)
  next
    case (SetSelection s a r)
    then show ?thesis using sel Msg by simp
  next
    case Pause
    then show ?thesis using t same by (auto simp: set_paused_def manager_of_def split: coordinator_state.splits)
  next
    case Resume
    then show ?thesis using t same by (auto simp: set_paused_def manager_of_def split: coordinator_state.splits)
  next
    case (PeerBitfield ps)
    then show ?thesis using t mut [of "add_peer_pieces ps"] peer_pieces_keep(1) [OF inv] by simp
  next
    case (PeerHave x)
    then show ?thesis using t mut [of "add_peer_piece x"] peer_pieces_keep(3) [OF inv] by simp
  next
    case (PeerGone ps)
    then show ?thesis using t mut [of "remove_peer_pieces ps"] peer_pieces_keep(2) [OF inv] by simp
  qed (use t same in auto)
qed

lemma turn_saves:
  assumes cfg: "reporting_backend cfg" "cfg_matches cfg T" and ok: "coord_ok T flags c" and inp: "input_ok T flags inp flags'"
    and turn: "coord_turn cfg inp c = (c', eff)" and suc: "\<forall>e. Ui (SelectionError e) \<notin> set eff"
    and n: "length (tf_hashes T) \<le> MAX_PIECES" and sv: "saved T c" and sel: "\<not> selects inp"
  shows "saved T c'"
proof -
  have ok': "coord_ok T flags' c'" and rt: "fs_stable (co_fs c') (tf_resume T) \<noteq> fs_stable (co_fs c) (tf_resume T) \<Longrightarrow> resume_true T c'"
    using piece_store.turn_keeps [OF backend_store [OF cfg(1)] refl cfg(2) ok inp turn suc] by auto
  obtain m where m: "manager_of (co_state c) = Some m" by (rule coord_ok_has [OF ok])
  obtain m' d' where m': "manager_of (co_state c') = Some m'" "store_inv T flags' m' d' (co_fs c')" by (rule coord_ok_has [OF ok'])
  have "listed T (co_fs c') \<subseteq> mgr_completed m'"
  proof (cases "fs_stable (co_fs c') (tf_resume T) = fs_stable (co_fs c) (tf_resume T)")
    case True
    then show ?thesis using sv m turn_grows [OF ok turn sel m m'(1)] by (auto simp: saved_def listed_cong [OF True])
  next
    case False
    from rt [OF this] m'(1) have "fs_stable (co_fs c') (tf_resume T) = Some (fr_encode (fr_from_manager m'))"
      by (auto simp: resume_true_def manager_of_def split: coordinator_state.splits)
    from listed_encode [OF this store_invD(8) [OF m'(2)]] store_invD(9) [OF m'(2)] n show ?thesis by simp
  qed
  then show ?thesis using m'(1) by (simp add: saved_def)
qed

section \<open>Start and restart\<close>

definition paths_ok :: "driver_env \<Rightarrow> torrent_meta \<Rightarrow> coordinator \<Rightarrow> bool" where
  "paths_ok E meta c \<longleftrightarrow> (\<forall>d. disk_of (co_state c) = Some d \<longrightarrow>
     (\<forall>i < length (torrent_files meta). file_path E meta i = Inr (fm_path (dk_files d ! i))))"

text \<open>A start that takes over what the resume file says: there is none, or it can be read and the target is there.\<close>

definition takes_over :: "driver_env \<Rightarrow> torrent_source \<Rightarrow> torrent_meta \<Rightarrow> filesystem \<Rightarrow> bool" where
  "takes_over E src meta fs = (case fst (load_resume E src meta fs) of
     Inl _ \<Rightarrow> False
   | Inr None \<Rightarrow> True
   | Inr (Some _) \<Rightarrow> fs_cache fs (dv_resume_file E (tm_info_hash meta)) \<noteq> None \<and> is_valid (dv_target E (tm_name meta)))"

text \<open>The weaker condition that the resume data, if any could be read, is not that of an older version of the program beside the torrent.\<close>

definition own_resume :: "driver_env \<Rightarrow> torrent_source \<Rightarrow> torrent_meta \<Rightarrow> filesystem \<Rightarrow> bool" where
  "own_resume E src meta fs = (case fst (load_resume E src meta fs) of
     Inr (Some _) \<Rightarrow> fs_cache fs (dv_resume_file E (tm_info_hash meta)) \<noteq> None
   | _ \<Rightarrow> True)"

lemma takes_over_own: "takes_over E src meta fs \<Longrightarrow> own_resume E src meta fs"
  by (auto simp: takes_over_def own_resume_def split: sum.splits option.splits)

lemma load_none:
  assumes "fst (load_resume E src meta fs) = Inr None"
  shows "fs_cache fs (dv_resume_file E (tm_info_hash meta)) = None"
  using assms
  by (auto simp: load_resume_def load_fastresume_def split: if_splits option.splits sum.splits prod.splits)

lemma completed_with_selection: "mgr_completed (with_selection n cs s) = {p \<in> set cs. p < n}"
  by (auto simp: with_selection_def Let_def)

lemma length_crash_image: "length (crash_image d fs) = length (disk_image d fs)"
  by (simp add: crash_image_def)

lemma start_parts:
  assumes "start_coordinator E src meta sel now fs = (Inr c, fs')"
  obtains loaded fs1 m chk paused d where "load_resume E src meta fs = (loaded, fs1)"
    "choose_manager loaded (dv_target E (tm_name meta)) (tm_pieces_count meta) (file_selection meta (chosen_files meta sel)) = (m, chk, paused)"
    "init_with_selection (dv_open E) (cc_env (dv_cfg E)) (cc_win (dv_cfg E)) (dv_output_dir E) (total_size meta)
      (tm_piece_length meta) (tm_files meta) (tm_name meta) (stored_files meta sel) fs1 = (Inr d, fs')"
    "manager_of (co_state c) = Some m" "disk_of (co_state c) = Some d" "co_fs c = fs'"
proof -
  obtain loaded fs1 where l: "load_resume E src meta fs = (loaded, fs1)" by fastforce
  obtain m chk paused where m: "choose_manager loaded (dv_target E (tm_name meta)) (tm_pieces_count meta)
      (file_selection meta (chosen_files meta sel)) = (m, chk, paused)" by (metis prod_cases3)
  obtain d where i: "init_with_selection (dv_open E) (cc_env (dv_cfg E)) (cc_win (dv_cfg E)) (dv_output_dir E) (total_size meta)
      (tm_piece_length meta) (tm_files meta) (tm_name meta) (stored_files meta sel) fs1 = (Inr d, fs')"
    and c: "co_state c = initial_coordinator_state m d chk (tm_pieces meta) (tm_piece_length meta) (total_size meta) paused" "co_fs c = fs'"
    using assms l m by (auto simp: start_coordinator_def Let_def split: prod.splits sum.splits)
  show ?thesis by (rule that [OF l m i _ _ c(2)]) (simp_all add: c manager_of_def disk_of_def initial_coordinator_state_def)
qed

lemma fresh_start:
  assumes st: "startable E meta" and cache: "fs_cache fs = fs_stable fs" and none: "fst (load_resume E src meta fs) = Inr None"
    and start: "start_coordinator E src meta sel now fs = (Inr c, fs')"
  shows "coord_ok (facts_of E meta) (coord_flags meta sel) c" "recorded (facts_of E meta) c" "paths_ok E meta c"
proof -
  obtain loaded fs1 m chk paused d where l: "load_resume E src meta fs = (loaded, fs1)"
    and i: "init_with_selection (dv_open E) (cc_env (dv_cfg E)) (cc_win (dv_cfg E)) (dv_output_dir E) (total_size meta)
      (tm_piece_length meta) (tm_files meta) (tm_name meta) (stored_files meta sel) fs1 = (Inr d, fs')"
    and c: "disk_of (co_state c) = Some d" "co_fs c = fs'"
    by (rule start_parts [OF start])
  have fs1: "fs_cache fs1 = fs_stable fs1" "fs_stable fs1 = fs_stable fs" using load_resume_fs [OF l] cache by simp_all
  note D = opened_disk [OF st i fs1(1)]
  show "coord_ok (facts_of E meta) (coord_flags meta sel) c"
    by (rule startup_ok [OF st cache start]) (use none in simp)
  have "fs_stable (co_fs c) (dv_resume_file E (tm_info_hash meta)) = None"
    using load_none [OF none] cache fs1(2) by (simp add: c(2) D(7))
  then show "recorded (facts_of E meta) c" by (simp add: recorded_def our_resume_def saved_def listed_def safe_on_def)
  show "paths_ok E meta c" using D(4) c(1) by (simp add: paths_ok_def)
qed

text \<open>What a start after a crash takes from the resume file.\<close>

lemma resumed_pieces:
  assumes st: "startable E meta" and rec: "recorded (facts_of E meta) c" and own: "own_resume E src meta (after_crash (co_fs c))"
    and l: "load_resume E src meta (after_crash (co_fs c)) = (loaded, fs1)"
    and m: "choose_manager loaded (dv_target E (tm_name meta)) (tm_pieces_count meta) (file_selection meta (chosen_files meta sel)) = (m', chk, paused)"
  shows "loaded = Inr (Some s) \<Longrightarrow> set (fr_completed s) = listed (facts_of E meta) (co_fs c)"
    "mgr_completed m' \<subseteq> listed (facts_of E meta) (co_fs c)"
    "takes_over E src meta (after_crash (co_fs c)) \<Longrightarrow> mgr_completed m' = listed (facts_of E meta) (co_fs c)"
proof -
  let ?T = "facts_of E meta" and ?S = "listed (facts_of E meta) (co_fs c)" and ?sel = "file_selection meta (chosen_files meta sel)"
  have S: "\<forall>s. loaded = Inr (Some s) \<longrightarrow> set (fr_completed s) = ?S \<and> ?S \<subseteq> {..<tm_pieces_count meta}"
    and none: "loaded = Inr None \<Longrightarrow> ?S = {}"
  proof -
    have "loaded = Inr None \<Longrightarrow> fs_stable (co_fs c) (tf_resume ?T) = None"
      using load_none [of E src meta "after_crash (co_fs c)"] l by (simp add: after_crash_def)
    then show "loaded = Inr None \<Longrightarrow> ?S = {}" by (simp add: listed_def)
    show "\<forall>s. loaded = Inr (Some s) \<longrightarrow> set (fr_completed s) = ?S \<and> ?S \<subseteq> {..<tm_pieces_count meta}"
    proof (intro allI impI)
      fix s assume s: "loaded = Inr (Some s)"
      then obtain bs where "fs_stable (co_fs c) (tf_resume ?T) = Some bs"
        using own l by (auto simp: own_resume_def after_crash_def)
      then obtain m0 where m0: "fs_stable (co_fs c) (tf_resume ?T) = Some (fr_encode (fr_from_manager m0))" "mgr_inv m0"
        "mgr_total_pieces m0 = length (tm_pieces meta)"
        using rec by (auto simp: recorded_def our_resume_def)
      have mp: "mgr_total_pieces m0 \<le> MAX_PIECES" using st m0(3) by (simp add: startable_def)
      have "set (fr_completed s) = mgr_completed m0"
        using resume_loaded [OF _ m0(2) mp l] m0(1) s by (auto simp: after_crash_def split: if_splits)
      moreover have "mgr_completed m0 \<subseteq> {..<tm_pieces_count meta}" using mgr_invD(7) [OF m0(2)] m0(3) startableD(1) [OF st] by auto
      ultimately show "set (fr_completed s) = ?S \<and> ?S \<subseteq> {..<tm_pieces_count meta}" using listed_encode [OF m0(1,2) mp] by simp
    qed
  qed
  show "loaded = Inr (Some s) \<Longrightarrow> set (fr_completed s) = ?S" using S by blast
  have full: "mgr_completed (with_selection (tm_pieces_count meta) (fr_completed s) ?sel) = ?S" if "loaded = Inr (Some s)" for s
    using S that by (auto simp: completed_with_selection)
  have empty: "mgr_completed (with_selection n [] s) = {}" for n s by (simp add: completed_with_selection)
  show "mgr_completed m' \<subseteq> ?S" using m full empty by (auto simp: choose_manager_def split: sum.splits option.splits if_splits)
  show "takes_over E src meta (after_crash (co_fs c)) \<Longrightarrow> mgr_completed m' = ?S"
    using m full empty none l by (auto simp: choose_manager_def takes_over_def split: sum.splits option.splits if_splits)
qed

lemma restart_ok:
  assumes st: "startable E meta" and ok: "coord_ok (facts_of E meta) (coord_flags meta sel) c" and rec: "recorded (facts_of E meta) c"
    and paths: "paths_ok E meta c" and own: "own_resume E src meta (after_crash (co_fs c))"
    and start: "start_coordinator E src meta sel now (after_crash (co_fs c)) = (Inr c', fs')"
  shows "coord_ok (facts_of E meta) (coord_flags meta sel) c'" "paths_ok E meta c'" "fs_stable (co_fs c') = fs_stable (co_fs c)"
    "disk_of (co_state c') = Some d' \<Longrightarrow> all_durable d' (co_fs c')"
    "manager_of (co_state c') = Some m' \<Longrightarrow> mgr_completed m' \<subseteq> listed (facts_of E meta) (co_fs c)
      \<and> (takes_over E src meta (after_crash (co_fs c)) \<longrightarrow> mgr_completed m' = listed (facts_of E meta) (co_fs c))"
proof -
  let ?T = "facts_of E meta" and ?fs = "after_crash (co_fs c)" and ?sel = "file_selection meta (chosen_files meta sel)"
    and ?S = "listed (facts_of E meta) (co_fs c)"
  obtain m d where md: "manager_of (co_state c) = Some m" "disk_of (co_state c) = Some d"
    and inv: "store_inv ?T (coord_flags meta sel) m d (co_fs c)" by (rule coord_ok_has [OF ok])
  note I = store_invD [OF inv]
  obtain loaded fs1 m1 chk paused d1 where l: "load_resume E src meta ?fs = (loaded, fs1)"
    and m1: "choose_manager loaded (dv_target E (tm_name meta)) (tm_pieces_count meta) ?sel = (m1, chk, paused)"
    and i: "init_with_selection (dv_open E) (cc_env (dv_cfg E)) (cc_win (dv_cfg E)) (dv_output_dir E) (total_size meta)
      (tm_piece_length meta) (tm_files meta) (tm_name meta) (stored_files meta sel) fs1 = (Inr d1, fs')"
    and c': "manager_of (co_state c') = Some m1" "disk_of (co_state c') = Some d1" "co_fs c' = fs'"
    by (rule start_parts [OF start])
  have fs1: "fs_cache fs1 = fs_stable fs1" "fs_stable fs1 = fs_stable (co_fs c)"
    using load_resume_fs [OF l] by (simp_all add: after_crash_def)
  note D = opened_disk [OF st i fs1(1)]
  show "fs_stable (co_fs c') = fs_stable (co_fs c)" using c'(3) D(7) fs1(2) by simp
  show "all_durable d' (co_fs c')" if "disk_of (co_state c') = Some d'" using that c' D(6) by simp
  show "paths_ok E meta c'" using D(4) c'(2) by (simp add: paths_ok_def)
  have im: "crash_image d1 fs' = crash_image d (co_fs c)"
    using D(1,2,7) I(2,15) fs1(2) D(4) paths md(2)
    by (intro crash_image_cong [of "torrent_files meta" "coord_flags meta sel"]) (simp_all add: store_ok_def disk_wf_def layout_ok_def paths_ok_def)
  note L = resumed_pieces [OF st rec own l m1]
  have SS: "?S \<subseteq> mgr_completed m" "safe_on ?S (tm_piece_length meta) d (co_fs c)"
    using rec md by (simp_all add: recorded_def saved_def)
  show "coord_ok ?T (coord_flags meta sel) c'"
  proof (rule startup_ok [OF st _ start])
    fix s f d0 p assume h: "load_resume E src meta ?fs = (Inr (Some s), f)" "disk_of (co_state c') = Some d0"
      "p \<in> set (fr_completed s)" "p < length (tm_pieces meta)"
      "\<not> holds_byte_of (tm_piece_length meta) (torrent_files meta) (map Not (coord_flags meta sel)) p"
    then have p: "p \<in> ?S" using L(1) l by auto
    then have sp: "is_servable m p" using SS(1) I(11) [of p] h(4,5) by (auto simp: is_servable_def)
    obtain d2 where d2: "disk_of (co_state c) = Some d2" "tf_sha1 ?T (piece_bytes ?T p (disk_image d2 (co_fs c))) = tf_hashes ?T ! p"
      by (rule coord_ok_pieces [OF ok md(1) sp])
    have "durable (dk_files d) (co_fs c) k" if "k div tf_piece_length ?T = p" "stored (dk_files d) k" for k
      using safe_onD [OF SS(2)] that p by simp
    from crash_image_durable [OF inv sp this] have "piece_bytes ?T p (crash_image d (co_fs c)) = piece_bytes ?T p (disk_image d (co_fs c))"
      by (simp add: piece_bytes_def length_crash_image)
    moreover have "d2 = d" using d2(1) md(2) by simp
    ultimately have "cc_sha1 (dv_cfg E) (piece_bytes ?T p (crash_image d (co_fs c))) = tm_pieces meta ! p" using d2(2) by simp
    with h(2) c'(2,3) im show "cc_sha1 (dv_cfg E) (piece_bytes ?T p (crash_image d0 (co_fs c'))) = tm_pieces meta ! p" by simp
  qed (simp add: after_crash_def)
  show "mgr_completed m' \<subseteq> ?S \<and> (takes_over E src meta ?fs \<longrightarrow> mgr_completed m' = ?S)" if "manager_of (co_state c') = Some m'"
    using that c'(1) L(2,3) by auto
qed

lemma restart_keeps:
  assumes "startable E meta" "coord_ok (facts_of E meta) (coord_flags meta sel) c" "recorded (facts_of E meta) c"
    "paths_ok E meta c" "takes_over E src meta (after_crash (co_fs c))"
    "start_coordinator E src meta sel now (after_crash (co_fs c)) = (Inr c', fs')"
  shows "coord_ok (facts_of E meta) (coord_flags meta sel) c' \<and> recorded (facts_of E meta) c' \<and> paths_ok E meta c'"
proof -
  note R = restart_ok [OF assms(1-4) takes_over_own [OF assms(5)] assms(6)]
  have S: "listed (facts_of E meta) (co_fs c') = listed (facts_of E meta) (co_fs c)" by (rule listed_cong) (simp add: R(3))
  obtain m' d' where md: "manager_of (co_state c') = Some m'" "disk_of (co_state c') = Some d'" by (rule coord_ok_has [OF R(1)])
  have "mgr_completed m' = listed (facts_of E meta) (co_fs c)" using R(5) [OF md(1)] assms(5) by blast
  moreover have "safe_on X pl d' (co_fs c')" for X pl using R(4) [OF md(2)] by (simp add: safe_on_def all_durable_def)
  ultimately show ?thesis using R(1-3) assms(3) md by (simp add: recorded_def our_resume_def saved_def S)
qed

section \<open>Lifetimes\<close>

text \<open>The states of a torrent's coordinator from its first start on. \<open>ok\<close> says which inputs it gets and which files are selected after them. A turn may fail in any of its
  calls of the file system, with two exceptions: the disk's change of the selection does not fail, and a turn that changes the selection, which gives up pieces, does
  not leave a resume file on stable storage that still lists one of them. The machine may crash after any turn; the torrent is then started again with the files
  selected last. (A crash inside a turn that does not change the selection is the turn whose remaining calls fail, and then the crash: a call that fails leaves
  stable storage as it is. A crash between the disk's change of the selection and the new resume file is not covered: what it does is \<open>changed_selection_serves_holes\<close>
  of \<open>Driver\<close>.)\<close>

inductive lifetime :: "(bool list \<Rightarrow> coord_input \<Rightarrow> bool list \<Rightarrow> bool) \<Rightarrow> driver_env \<Rightarrow> torrent_meta \<Rightarrow> bool list \<Rightarrow> coordinator \<Rightarrow> bool" for ok E meta where
  first: "fs_cache fs = fs_stable fs \<Longrightarrow> fst (load_resume E src meta fs) = Inr None \<Longrightarrow>
    start_coordinator (E\<lparr>dv_target := t\<rparr>) src meta sel now fs = (Inr c, fs') \<Longrightarrow> lifetime ok E meta (coord_flags meta sel) c"
| turn: "lifetime ok E meta flags c \<Longrightarrow> ok flags inp flags' \<Longrightarrow> coord_turn (driver_cfg E meta) inp c = (c', eff) \<Longrightarrow>
    \<forall>e. Ui (SelectionError e) \<notin> set eff \<Longrightarrow> (selects inp \<longrightarrow> saved (facts_of E meta) c') \<Longrightarrow> lifetime ok E meta flags' c'"
| crash: "lifetime ok E meta (coord_flags meta sel) c \<Longrightarrow> takes_over (E\<lparr>dv_target := t\<rparr>) src meta (after_crash (co_fs c)) \<Longrightarrow>
    start_coordinator (E\<lparr>dv_target := t\<rparr>) src meta sel now (after_crash (co_fs c)) = (Inr c', fs') \<Longrightarrow>
    lifetime ok E meta (coord_flags meta sel) c'"

lemma target_irrelevant [simp]:
  "facts_of (E\<lparr>dv_target := t\<rparr>) meta = facts_of E meta" "file_path (E\<lparr>dv_target := t\<rparr>) meta = file_path E meta"
  "startable (E\<lparr>dv_target := t\<rparr>) meta = startable E meta" "paths_ok (E\<lparr>dv_target := t\<rparr>) meta c = paths_ok E meta c"
  "load_resume (E\<lparr>dv_target := t\<rparr>) src meta fs = load_resume E src meta fs"
proof -
  show f: "file_path (E\<lparr>dv_target := t\<rparr>) meta = file_path E meta" by (simp add: file_path_def fun_eq_iff)
  show "facts_of (E\<lparr>dv_target := t\<rparr>) meta = facts_of E meta" by (simp add: facts_of_def)
  show "startable (E\<lparr>dv_target := t\<rparr>) meta = startable E meta" unfolding startable_def f by simp
  show "paths_ok (E\<lparr>dv_target := t\<rparr>) meta c = paths_ok E meta c" by (simp add: paths_ok_def f)
  show "load_resume (E\<lparr>dv_target := t\<rparr>) src meta fs = load_resume E src meta fs"
    by (simp add: load_resume_def legacy_resume_path_def split: prod.split sum.split option.split torrent_source.split)
qed

lemma driver_cfg_matches: "cfg_matches (driver_cfg E meta) (facts_of E meta)" "reporting_backend (driver_cfg E meta) = reporting_backend (dv_cfg E)"
  by (simp_all add: cfg_matches_def driver_cfg_def reporting_backend_def)

lemma lifetime_inv:
  assumes st: "startable E meta" and be: "reporting_backend (dv_cfg E)"
    and ok: "\<And>flags inp flags'. ok flags inp flags' \<Longrightarrow> input_ok (facts_of E meta) flags inp flags'"
    and life: "lifetime ok E meta flags c"
  shows "coord_ok (facts_of E meta) flags c \<and> recorded (facts_of E meta) c \<and> paths_ok E meta c"
  using life
proof induction
  case (first fs src t sel now c fs')
  then show ?case using fresh_start [of "E\<lparr>dv_target := t\<rparr>" meta fs src sel now c fs'] st by simp
next
  case (turn flags c inp flags' c' eff)
  have cfg: "reporting_backend (driver_cfg E meta)" "cfg_matches (driver_cfg E meta) (facts_of E meta)" using be driver_cfg_matches by simp_all
  have n: "length (tf_hashes (facts_of E meta)) \<le> MAX_PIECES" using st by (simp add: startable_def)
  note i = ok [OF turn.hyps(2)]
  have c: "coord_ok (facts_of E meta) flags c" "recorded (facts_of E meta) c" "paths_ok E meta c" using turn.IH by simp_all
  have "saved (facts_of E meta) c'"
    using turn_saves [OF cfg c(1) i turn.hyps(3,4) n] c(2) turn.hyps(5) by (auto simp: recorded_def)
  note R = turn_recorded [OF cfg c(1) i turn.hyps(3,4) n c(2) this]
  have "coord_ok (facts_of E meta) flags' c'"
    using piece_store.turn_keeps [OF backend_store [OF cfg(1)] refl cfg(2) c(1) i turn.hyps(3,4)] by blast
  moreover have "paths_ok E meta c'"
  proof -
    obtain d d' where d: "disk_of (co_state c) = Some d" "disk_of (co_state c') = Some d'" "same_files (dk_files d') (dk_files d)"
      using R(2) by blast
    have "length (dk_files d) = length (torrent_files meta)"
      using c(1) d(1) by (auto simp: coord_ok_def disk_of_def disk_matches_def dest!: store_invD(2) split: coordinator_state.splits)
    then show ?thesis using c(3) d same_filesD(2) [OF d(3)] by (simp add: paths_ok_def)
  qed
  ultimately show ?case using R(1) by blast
next
  case (crash sel c t src now c' fs')
  then show ?case using restart_keeps [of "E\<lparr>dv_target := t\<rparr>" meta sel c src now c' fs'] st by simp
qed

text \<open>C4. Nothing that was recorded is lost in a crash. Take a torrent through any number of turns and crashes, with a disk backend that loses no write without an error, where any
  call may fail except the disk's change of the selection and where no resume file that is left after a change of the selection lists a piece given up by it. Crash the
  machine after any turn and start the torrent again with the same files: whether the files are checked or the resume data is used and whichever calls fail, every piece the new coordinator may serve is on disk with
  the right hash, and it takes no piece over that was not complete before the crash. If the resume data could be read and the target is there, it has exactly the pieces
  the resume file on stable storage lists.\<close>

theorem crash_recovers:
  assumes "startable E meta" "reporting_backend (dv_cfg E)" "lifetime (input_ok (facts_of E meta)) E meta (coord_flags meta sel) c"
    "manager_of (co_state c) = Some m"
    "own_resume E src meta (after_crash (co_fs c))" "start_coordinator E src meta sel now (after_crash (co_fs c)) = (Inr c', fs')"
  shows "\<exists>m' d'. manager_of (co_state c') = Some m' \<and> disk_of (co_state c') = Some d' \<and> mgr_completed m' \<subseteq> mgr_completed m
    \<and> (takes_over E src meta (after_crash (co_fs c)) \<longrightarrow> mgr_completed m' = listed (facts_of E meta) (co_fs c))
    \<and> (\<forall>p. is_servable m' p \<longrightarrow>
        tf_sha1 (facts_of E meta) (piece_bytes (facts_of E meta) p (disk_image d' (co_fs c'))) = tf_hashes (facts_of E meta) ! p)"
proof -
  have c: "coord_ok (facts_of E meta) (coord_flags meta sel) c" "recorded (facts_of E meta) c" "paths_ok E meta c"
    using lifetime_inv [OF assms(1,2) _ assms(3)] by simp_all
  note R = restart_ok [OF assms(1) c assms(5,6)]
  obtain m' d' where md: "manager_of (co_state c') = Some m'" "disk_of (co_state c') = Some d'" by (rule coord_ok_has [OF R(1)])
  have "tf_sha1 (facts_of E meta) (piece_bytes (facts_of E meta) p (disk_image d' (co_fs c'))) = tf_hashes (facts_of E meta) ! p"
    if "is_servable m' p" for p
    using coord_ok_pieces [OF R(1) md(1) that] md(2) by (metis option.inject)
  moreover have "listed (facts_of E meta) (co_fs c) \<subseteq> mgr_completed m" using c(2) assms(4) by (simp add: recorded_def saved_def)
  ultimately show ?thesis using md R(5) [OF md(1)] by blast
qed

definition absent :: "rstring \<Rightarrow> target" where
  "absent = (\<lambda>_. \<lparr>tg_exists = False, tg_is_file = False, tg_len = None, tg_still_exists = False\<rparr>)"

lemma demo_meta_parts:
  "tm_pieces_count demo_meta = 1" "dv_output_dir demo_driver = []" "cc_win (dv_cfg demo_driver) = False" "tm_piece_length demo_meta = 2"
  "tm_files demo_meta = None" "tm_name demo_meta = [5]" "tm_pieces demo_meta = [[7, 8]]"
  "file_selection demo_meta (chosen_files demo_meta None) = sel_all 1"
  by (simp_all add: demo_meta_def demo_driver_def demo_cfg_def file_selection_def chosen_files_def)

lemma demo_first: "start_coordinator (demo_driver\<lparr>dv_target := absent\<rparr>) (SourceFile [[8]]) demo_meta None 0 fs_empty = (Inr demo_start, demo_fs0)"
proof -
  have nf: "\<not> call_fails no_faults fs" for fs by (simp add: call_fails_def no_faults_def)
  have l: "load_resume (demo_driver\<lparr>dv_target := absent\<rparr>) (SourceFile [[8]]) demo_meta fs_empty = (Inr None, call (call fs_empty))"
    by (simp add: load_resume_def load_fastresume_def nf) (simp add: fs_empty_def call_def load_fastresume_def nf)
  have i: "init_with_selection (open_preallocated no_faults) no_faults False [] 2 2 None [5] None (call (call fs_empty)) = (Inr (demo_files False), demo_fs0)"
    by (simp add: init_with_selection_def plan_files_def demo_path nf is_selected_def open_preallocated_def Let_def)
      (simp add: fs_empty_def call_def contents_def demo_files_def demo_fs0_def set_len_def numeral_2_eq_2)
  have m: "choose_manager (Inr None) (absent n) 1 (sel_all 1) = (with_selection 1 [] (sel_all 1), False, False)" for n
    by (simp add: choose_manager_def is_valid_def absent_def)
  show ?thesis
    unfolding start_coordinator_def Let_def l prod.case driver_env.simps
    by (simp add: demo_meta_parts m i demo_stored demo_start_def initial_coordinator_state_def del: One_nat_def)
qed

lemma demo_completed_pieces: "mgr_completed (mark_completed 0 (with_selection 1 [] (sel_all 1))) = {0}"
  by (simp add: mark_completed_def with_selection_def is_completed_def Let_def)

lemma demo_manager_inv:
  "mgr_inv (mark_completed 0 (with_selection 1 [] (sel_all 1)))" "mgr_total_pieces (mark_completed 0 (with_selection 1 [] (sel_all 1))) \<le> MAX_PIECES"
  by (rule mark_completed_inv [OF with_selection_inv]) (simp add: mark_completed_def with_selection_def MAX_PIECES_def Let_def)

lemma demo_resume_file: "fs_stable (co_fs demo_done) [[9]] = Some (fr_encode (fr_from_manager (mark_completed 0 (with_selection 1 [] (sel_all 1)))))"
proof -
  obtain eff where e: "coord_turn demo_cfg (Msg 0 (PieceDownloaded 0 [7, 8])) demo_start = (demo_done, eff)"
    "\<forall>e. Ui (SelectionError e) \<notin> set eff" using demo_turn by blast
  have i: "input_ok demo_facts [True] (Msg 0 (PieceDownloaded 0 [7, 8])) [True]"
    by (simp add: demo_facts_def piece_size_def piece_end_def)
  have "fs_stable (co_fs demo_done) (tf_resume demo_facts) \<noteq> fs_stable (co_fs demo_start) (tf_resume demo_facts)"
    using demo_resume by (simp add: demo_facts_def)
  from persisted_turn [OF demo_cfg_ok coord_run.start [OF demo_start_ok] i e this] demo_manager(1)
  show ?thesis by (auto simp: demo_facts_def)
qed

lemma demo_listed: "listed demo_facts (co_fs demo_done) = {0}"
proof -
  from listed_encode [OF _ demo_manager_inv, of "co_fs demo_done" demo_facts] demo_resume_file show ?thesis
    by (simp add: demo_facts_def demo_completed_pieces del: One_nat_def)
qed

lemma demo_takes_over: "takes_over demo_driver (SourceFile [[8]]) demo_meta (after_crash (co_fs demo_done))"
proof -
  let ?m = "mark_completed 0 (with_selection 1 [] (sel_all 1))" and ?fs = "after_crash (co_fs demo_done)"
  have r: "fs_cache ?fs (dv_resume_file demo_driver (tm_info_hash demo_meta)) = Some (fr_encode (fr_from_manager ?m))"
    using demo_resume_file by (simp add: after_crash_def)
  obtain loaded fs' where l: "load_resume demo_driver (SourceFile [[8]]) demo_meta ?fs = (loaded, fs')" by fastforce
  have "\<not> call_fails (cc_env (dv_cfg demo_driver)) ?fs" by (simp add: call_fails_def no_faults_def)
  then obtain st where "loaded = Inr (Some st)" using resume_loaded [OF r demo_manager_inv l] by auto
  then show ?thesis using l r by (simp add: takes_over_def)
qed

lemma demo_life: "lifetime (input_ok demo_facts) demo_driver demo_meta [True] demo_done"
proof -
  have n: "fst (load_resume demo_driver (SourceFile [[8]]) demo_meta fs_empty) = Inr None"
  proof -
    have "\<not> call_fails no_faults fs" for fs by (simp add: call_fails_def no_faults_def)
    then show ?thesis by (simp add: load_resume_def load_fastresume_def) (simp add: fs_empty_def load_fastresume_def call_def)
  qed
  have 0: "lifetime (input_ok demo_facts) demo_driver demo_meta [True] demo_start"
    using lifetime.first [OF _ n demo_first] demo_driver_ok(3) by (simp add: fs_empty_def)
  obtain eff where e: "coord_turn demo_cfg (Msg 0 (PieceDownloaded 0 [7, 8])) demo_start = (demo_done, eff)"
    "\<forall>e. Ui (SelectionError e) \<notin> set eff" using demo_turn by blast
  have i: "input_ok demo_facts [True] (Msg 0 (PieceDownloaded 0 [7, 8])) [True]"
    by (simp add: demo_facts_def piece_size_def piece_end_def)
  have cfg: "driver_cfg demo_driver demo_meta = demo_cfg" by (simp add: driver_cfg_def demo_driver_def demo_cfg_def)
  from lifetime.turn [OF 0 i _ e(2)] show ?thesis using e(1) by (simp add: cfg)
qed

theorem crash_recovers_witness:
  "\<exists>c' fs' m'. start_coordinator demo_driver (SourceFile [[8]]) demo_meta None 0 (after_crash (co_fs demo_done)) = (Inr c', fs')
     \<and> manager_of (co_state c') = Some m' \<and> mgr_completed m' = {0}"
proof -
  obtain c' fs' where s: "start_coordinator demo_driver (SourceFile [[8]]) demo_meta None 0 (after_crash (co_fs demo_done)) = (Inr c', fs')"
    using demo_starts by blast
  have be: "reporting_backend (dv_cfg demo_driver)" using demo_cfg_ok by (simp add: demo_driver_def)
  note L = demo_life [folded demo_driver_ok(2), folded demo_driver_ok(3)]
  from crash_recovers [OF demo_driver_ok(1) be L demo_manager(1) takes_over_own [OF demo_takes_over] s] demo_takes_over s show ?thesis
    by (auto simp: demo_driver_ok(2) demo_listed)
qed

section \<open>A target that was deleted\<close>

text \<open>What the file system answers when the task asks for the target of a torrent in the current directory.\<close>

definition target_of :: "filesystem \<Rightarrow> rstring \<Rightarrow> target" where
  "target_of fs n = \<lparr>tg_exists = fs_cache fs [n] \<noteq> None, tg_is_file = True, tg_len = map_option length (fs_cache fs [n]),
     tg_still_exists = fs_cache fs [n] \<noteq> None\<rparr>"

lemma demo_load:
  assumes "fs_cache fs [[9]] = Some (fr_encode (fr_from_manager (mark_completed 0 (with_selection 1 [] (sel_all 1)))))"
  obtains st where "load_resume demo_driver src demo_meta fs = (Inr (Some st), call fs)" "set (fr_completed st) = {0}"
proof -
  obtain st where "fr_decode (dv_from_json demo_driver) (fr_encode (fr_from_manager (mark_completed 0 (with_selection 1 [] (sel_all 1))))) = Inr st"
    "set (fr_completed st) = {0}"
    using decoded_completed [OF demo_manager_inv] demo_completed_pieces by metis
  with assms show ?thesis
    by (intro that [of st]) (simp_all add: load_resume_def load_fastresume_def call_fails_def no_faults_def del: One_nat_def)
qed

lemma open_no_faults:
  obtains fs' where "open_preallocated no_faults p len fs = (Inr (), fs')" "fs_cache fs' = (fs_cache fs)(p \<mapsto> set_len len (contents fs p))"
proof -
  have nf: "\<not> call_fails no_faults fs" for fs by (simp add: call_fails_def no_faults_def)
  have "\<exists>fs'. open_preallocated no_faults p len fs = (Inr (), fs')" by (simp add: open_preallocated_def Let_def nf)
  then obtain fs' where o: "open_preallocated no_faults p len fs = (Inr (), fs')" by blast
  then have "fs_cache fs' = (fs_cache fs)(p \<mapsto> set_len len (contents fs p))"
    using set_len_same [of "contents fs p"]
    by (cases "length (contents fs p) = len") (auto simp: open_preallocated_def Let_def nf contents_def fun_eq_iff)
  with o show ?thesis by (rule that)
qed

lemma demo_init:
  obtains fs' where "init_with_selection (open_preallocated no_faults) no_faults False [] 2 2 None [5] None fs = (Inr (demo_files False), fs')"
    "fs_cache fs' = (fs_cache fs)([[5]] \<mapsto> set_len 2 (contents fs [[5]]))"
proof -
  have nf: "\<not> call_fails no_faults fs" for fs by (simp add: call_fails_def no_faults_def)
  obtain fs' where fs': "open_preallocated no_faults [[5]] (Suc (Suc 0)) (call fs) = (Inr (), fs')"
    "fs_cache fs' = (fs_cache fs)([[5]] \<mapsto> set_len (Suc (Suc 0)) (contents fs [[5]]))"
    using open_no_faults [of "[[5]]" "Suc (Suc 0)" "call fs"] by auto
  have "init_with_selection (open_preallocated no_faults) no_faults False [] 2 2 None [5] None fs = (Inr (demo_files False), fs')"
    using fs'(1) by (simp add: init_with_selection_def plan_files_def demo_path nf is_selected_def demo_files_def)
  then show ?thesis using fs'(2) by (intro that) (simp_all add: numeral_2_eq_2)
qed

text \<open>C37. A deleted download is believed to be complete. Delete the file of a finished torrent and start the program: it notices that the target is missing and starts
  with no piece, but it has created the file at its full length, and the resume file still lists the pieces. If the program is killed then, the next start finds a file that
  is not empty and takes the pieces of the resume file: it would serve a piece whose bytes on disk are zeros, and it will not fetch it.\<close>

theorem deleted_target_believed:
  "\<exists>E meta src fs c1 fs1 c2 fs2 m1 m2 d.
     startable E meta \<and> fs_cache fs [tm_name meta] = None
     \<and> start_coordinator (E\<lparr>dv_target := target_of fs\<rparr>) src meta None 0 fs = (Inr c1, fs1)
     \<and> manager_of (co_state c1) = Some m1 \<and> mgr_completed m1 = {}
     \<and> start_coordinator (E\<lparr>dv_target := target_of fs1\<rparr>) src meta None 0 fs1 = (Inr c2, fs2)
     \<and> co_state c2 = DownloadingData m2 d False False \<and> is_servable m2 0 \<and> 0 \<notin> set (mgr_missing m2)
     \<and> tf_sha1 (facts_of E meta) (piece_bytes (facts_of E meta) 0 (disk_image d fs2)) \<noteq> tf_hashes (facts_of E meta) ! 0"
proof -
  let ?enc = "fr_encode (fr_from_manager (mark_completed 0 (with_selection 1 [] (sel_all 1))))"
  let ?fs = "\<lparr>fs_cache = [[[9]] \<mapsto> ?enc], fs_stable = [[[9]] \<mapsto> ?enc], fs_calls = 0\<rparr>"
  have starts: "\<exists>(st :: fast_resume_state) fs'. set (fr_completed st) = {0} \<and> fs_cache fs' = (fs_cache fs)([[5]] \<mapsto> set_len 2 (contents fs [[5]]))
      \<and> start_coordinator (demo_driver\<lparr>dv_target := target_of fs\<rparr>) (SourceFile [[8]]) demo_meta None 0 fs
        = (Inr \<lparr>co_state = (if is_valid (target_of fs [5]) then DownloadingData (with_selection 1 (fr_completed st) (sel_all 1)) (demo_files False) False False
              else DownloadingData (with_selection 1 [] (sel_all 1)) (demo_files False) True False), co_fs = fs', co_last_persist = 0\<rparr>, fs')"
    if r: "fs_cache fs [[9]] = Some ?enc" for fs
  proof -
    obtain st where st: "load_resume demo_driver (SourceFile [[8]]) demo_meta fs = (Inr (Some st), call fs)" "set (fr_completed st) = {0}"
      by (rule demo_load [OF r])
    obtain fs' where i: "init_with_selection (open_preallocated no_faults) no_faults False [] 2 2 None [5] None (call fs) = (Inr (demo_files False), fs')"
      and fs': "fs_cache fs' = (fs_cache (call fs))([[5]] \<mapsto> set_len 2 (contents (call fs) [[5]]))" by (rule demo_init)
    have "start_coordinator (demo_driver\<lparr>dv_target := target_of fs\<rparr>) (SourceFile [[8]]) demo_meta None 0 fs
        = (Inr \<lparr>co_state = (if is_valid (target_of fs [5]) then DownloadingData (with_selection 1 (fr_completed st) (sel_all 1)) (demo_files False) False False
              else DownloadingData (with_selection 1 [] (sel_all 1)) (demo_files False) True False), co_fs = fs', co_last_persist = 0\<rparr>, fs')"
      by (simp add: start_coordinator_def Let_def st(1) demo_meta_parts i demo_stored choose_manager_def initial_coordinator_state_def del: One_nat_def)
    moreover have "fs_cache fs' = (fs_cache fs)([[5]] \<mapsto> set_len 2 (contents fs [[5]]))" using fs' by simp
    ultimately show ?thesis by - (rule exI [of _ st], rule exI [of _ fs'], intro conjI, rule st(2))
  qed
  have "\<not> is_valid (target_of ?fs [5])" by (simp add: is_valid_def target_of_def)
  with starts [of ?fs] obtain fs1 where 1: "fs_cache fs1 = (fs_cache ?fs)([[5]] \<mapsto> [0, 0])"
    "start_coordinator (demo_driver\<lparr>dv_target := target_of ?fs\<rparr>) (SourceFile [[8]]) demo_meta None 0 ?fs
      = (Inr \<lparr>co_state = DownloadingData (with_selection 1 [] (sel_all 1)) (demo_files False) True False, co_fs = fs1, co_last_persist = 0\<rparr>, fs1)"
    by (auto simp: contents_def set_len_def numeral_2_eq_2 simp del: One_nat_def)
  have r1: "fs_cache fs1 [[9]] = Some ?enc" by (simp add: 1(1))
  have "is_valid (target_of fs1 [5])" by (simp add: is_valid_def target_of_def 1(1))
  with starts [OF r1] obtain st :: fast_resume_state and fs2 where 2: "set (fr_completed st) = {0}" "fs_cache fs2 = (fs_cache fs1)([[5]] \<mapsto> set_len 2 (contents fs1 [[5]]))"
    "start_coordinator (demo_driver\<lparr>dv_target := target_of fs1\<rparr>) (SourceFile [[8]]) demo_meta None 0 fs1
      = (Inr \<lparr>co_state = DownloadingData (with_selection 1 (fr_completed st) (sel_all 1)) (demo_files False) False False, co_fs = fs2, co_last_persist = 0\<rparr>, fs2)"
    by (auto simp del: One_nat_def)
  have "fs_cache fs2 [[5]] = Some [0, 0]" using 2(2) by (simp add: 1(1) contents_def set_len_def)
  then have im: "disk_image (demo_files False) fs2 = [0, 0]"
    by (simp add: disk_image_def demo_files_def disk_end_def byte_at_def locate_def contents_def upt_rec)
  have m2: "is_servable (with_selection 1 (fr_completed st) (sel_all 1)) 0" "0 \<notin> set (mgr_missing (with_selection 1 (fr_completed st) (sel_all 1)))"
    using 2(1) by (auto simp: is_servable_def with_selection_def sel_all_def Let_def)
  have "tf_sha1 demo_facts (piece_bytes demo_facts 0 (disk_image (demo_files False) fs2)) \<noteq> tf_hashes demo_facts ! 0"
    by (simp add: im demo_facts_def piece_bytes_def piece_end_def slice_def)
  moreover have "mgr_completed (with_selection 1 [] (sel_all 1)) = {}" by (simp add: completed_with_selection)
  moreover have "fs_cache ?fs [tm_name demo_meta] = None" by (simp add: demo_meta_parts)
  ultimately show ?thesis
    using demo_driver_ok(1,2) 1(2) 2(3) m2
    by (intro exI [of _ demo_driver] exI [of _ demo_meta] exI [of _ "SourceFile [[8]]"] exI [of _ ?fs] exI conjI)
      (assumption | simp add: manager_of_def del: One_nat_def)+
qed

end
