(* ===== verification/Dashboard.thy ===== *)
theory Dashboard
  imports Driver Session
begin

text \<open>
  The state behind the window, \<open>TorTorApp\<close> of \<open>ui/dashboard.rs\<close>: the torrents shown, what the messages of their tasks do to them, what the buttons do, and how
  the program ends. A frame is one call of \<open>update\<close>; the messages that have arrived and the clicks of the user are its input, what it
  sends, saves and deletes its output. What only affects the picture (layout, colours, logs, status lines, progress, speeds) is left out.
\<close>

section \<open>State\<close>

datatype probe_state = ProbeIdle | ProbeQueued | ProbeProbing | ProbeSuccess | ProbeFailed

record peer_row =
  pw_addr :: socket_addr
  pw_state :: probe_state
  pw_telemetry :: "session_telemetry option"

record torrent_session =
  ts_output_dir :: path
  ts_source :: torrent_source
  ts_peers :: "peer_row list"
  ts_meta :: "torrent_meta option"
  ts_is_shutting_down :: bool
  ts_delete_requested :: bool
  ts_swarm_started :: bool
  ts_selection :: "bool list option"
  ts_is_paused :: bool
  ts_has_error :: bool
  ts_remove_requested :: bool

record app =
  da_sessions :: "(nat \<times> torrent_session) list"
  da_next_id :: nat
  da_store :: session_store
  da_quit_requested :: bool
  da_limits_dirty :: bool

datatype app_out =
    SpawnTask nat torrent_source path "bool list option"
  | SendCommand nat core_command
  | SaveStore session_store
  | SetLimits nat nat
  | RemoveTree path
  | RemoveFile path
  | CancelClose
  | CloseWindow

definition MIN_LIMIT_KIB :: nat where "MIN_LIMIT_KIB = 4"

definition apply_speed_limits :: "session_store \<Rightarrow> app_out" where
  "apply_speed_limits store = SetLimits (ss_download_limit_kib store * 1024) (ss_upload_limit_kib store * 1024)"

definition app_new :: "session_store \<Rightarrow> app \<times> app_out list" where
  "app_new store =
     (\<lparr>da_sessions = [], da_next_id = 1, da_store = store, da_quit_requested = False, da_limits_dirty = False\<rparr>, [apply_speed_limits store])"

definition start_core :: "torrent_source \<Rightarrow> path \<Rightarrow> bool list option \<Rightarrow> app \<Rightarrow> app \<times> app_out list" where
  "start_core src output_dir selected_files a =
     (let sid = da_next_id a;
          session = \<lparr>ts_output_dir = output_dir, ts_source = src, ts_peers = [], ts_meta = None, ts_is_shutting_down = False,
            ts_delete_requested = False, ts_swarm_started = False, ts_selection = selected_files, ts_is_paused = False, ts_has_error = False,
            ts_remove_requested = False\<rparr>
      in (a\<lparr>da_next_id := sid + 1, da_sessions := AList.update sid session (da_sessions a)\<rparr>, [SpawnTask sid src output_dir selected_files]))"

text \<open>The torrents of the last session, and those of the command line.\<close>

fun start_all :: "(torrent_source \<times> path \<times> bool list option) list \<Rightarrow> app \<Rightarrow> app \<times> app_out list" where
  "start_all [] a = (a, [])"
| "start_all ((src, dir, sel) # rest) a =
     (let (a1, out1) = start_core src dir sel a; (a2, out2) = start_all rest a1 in (a2, out1 @ out2))"

definition run_dashboard :: "session_store \<Rightarrow> path option \<Rightarrow> rstring option \<Rightarrow> path \<Rightarrow> app \<times> app_out list" where
  "run_dashboard store initial_torrent_path initial_magnet output_dir =
     (let (a, out1) = app_new store;
          (a', out2) = start_all (map (\<lambda>e. (se_source e, se_output_dir e, se_selected_files e)) (ss_entries store)
            @ (case initial_torrent_path of Some p \<Rightarrow> [(SourceFile p, output_dir, None)] | None \<Rightarrow> [])
            @ (case initial_magnet of Some u \<Rightarrow> [(SourceMagnet u, output_dir, None)] | None \<Rightarrow> [])) a
      in (a', out1 @ out2))"

section \<open>Messages\<close>

datatype ui_message =
    UiStatus | UiMetadataReady torrent_meta | UiTorrentLoaded torrent_meta | UiGlobalProgress | UiDownloadComplete | UiShutdownComplete
  | UiPeerFound socket_addr | UiTrackerDone nat | UiProbeQueued socket_addr | UiProbeStarted socket_addr | UiProbeSucceeded socket_addr
  | UiProbeFailed socket_addr | UiTelemetry socket_addr session_telemetry | UiBytesTransferred nat nat | UiError | UiPaused bool

fun update_row :: "socket_addr \<Rightarrow> (peer_row \<Rightarrow> peer_row) \<Rightarrow> peer_row list \<Rightarrow> peer_row list" where
  "update_row addr f [] = []"
| "update_row addr f (row # rows) = (if pw_addr row = addr then f row # rows else row # update_row addr f rows)"

definition update_peer_state :: "socket_addr \<Rightarrow> probe_state \<Rightarrow> torrent_session \<Rightarrow> torrent_session" where
  "update_peer_state addr st s = s\<lparr>ts_peers := update_row addr (\<lambda>row. row\<lparr>pw_state := st\<rparr>) (ts_peers s)\<rparr>"

definition on_message :: "ui_message \<Rightarrow> torrent_session \<Rightarrow> torrent_session" where
  "on_message msg s =
     (case msg of
        UiPaused p \<Rightarrow> s\<lparr>ts_is_paused := p\<rparr>
      | UiTorrentLoaded meta \<Rightarrow> s\<lparr>ts_meta := Some meta\<rparr>
      | UiMetadataReady meta \<Rightarrow> s\<lparr>ts_meta := Some meta\<rparr>
      | UiPeerFound addr \<Rightarrow> s\<lparr>ts_peers := ts_peers s @ [\<lparr>pw_addr = addr, pw_state = ProbeIdle, pw_telemetry = None\<rparr>]\<rparr>
      | UiProbeQueued addr \<Rightarrow> update_peer_state addr ProbeQueued s
      | UiProbeStarted addr \<Rightarrow> update_peer_state addr ProbeProbing s
      | UiProbeSucceeded addr \<Rightarrow> update_peer_state addr ProbeSuccess s
      | UiProbeFailed addr \<Rightarrow> update_peer_state addr ProbeFailed s
      | UiTelemetry addr t \<Rightarrow> s\<lparr>ts_peers := update_row addr (\<lambda>row. row\<lparr>pw_telemetry := Some t\<rparr>) (ts_peers s)\<rparr>
      | UiError \<Rightarrow> s\<lparr>ts_has_error := True\<rparr>
      | _ \<Rightarrow> s)"

definition change_session :: "nat \<Rightarrow> (torrent_session \<Rightarrow> torrent_session) \<Rightarrow> app \<Rightarrow> app" where
  "change_session sid f a = a\<lparr>da_sessions := AList.map_entry sid f (da_sessions a)\<rparr>"

fun pump_messages :: "(nat \<times> ui_message) list \<Rightarrow> app \<Rightarrow> app \<times> nat list" where
  "pump_messages [] a = (a, [])"
| "pump_messages ((sid, msg) # rest) a =
     (case map_of (da_sessions a) sid of
        None \<Rightarrow> pump_messages rest a
      | Some _ \<Rightarrow>
          (let (a', completed) = pump_messages rest (change_session sid (on_message msg) a)
           in (a', if msg = UiShutdownComplete then sid # completed else completed)))"

section \<open>The end of a torrent\<close>

record app_env =
  ae_win :: bool
  ae_resume_file :: "bytes \<Rightarrow> path"

definition delete_files :: "app_env \<Rightarrow> torrent_session \<Rightarrow> app_out list" where
  "delete_files E s =
     (case ts_meta s of
        None \<Rightarrow> []
      | Some meta \<Rightarrow>
          (let target = path_push (ae_win E) (ts_output_dir s) (tm_name meta)
           in [RemoveTree target, RemoveFile target, RemoveFile (ae_resume_file E (tm_info_hash meta))]))
     @ (case ts_source s of
          SourceFile p \<Rightarrow> [RemoveFile (with_extension p (lit ''fastresume'')), RemoveFile (with_extension p (lit ''download.part''))]
        | SourceMagnet _ \<Rightarrow> [])"

definition finish_shutdown :: "app_env \<Rightarrow> nat \<Rightarrow> app \<Rightarrow> app \<times> app_out list" where
  "finish_shutdown E sid a =
     (case map_of (da_sessions a) sid of
        None \<Rightarrow> (a, [])
      | Some s \<Rightarrow>
          (let a1 = a\<lparr>da_sessions := AList.delete sid (da_sessions a)\<rparr>;
               store = (da_store a)\<lparr>ss_entries := filter (\<lambda>e. se_source e \<noteq> ts_source s) (ss_entries (da_store a))\<rparr>;
               (a2, out) = (if ts_remove_requested s \<or> ts_delete_requested s then (a1\<lparr>da_store := store\<rparr>, [SaveStore store]) else (a1, []))
           in (a2, out @ (if ts_delete_requested s then delete_files E s else []))))"

fun finish_all :: "app_env \<Rightarrow> nat list \<Rightarrow> app \<Rightarrow> app \<times> app_out list" where
  "finish_all E [] a = (a, [])"
| "finish_all E (sid # ids) a = (let (a1, out1) = finish_shutdown E sid a; (a2, out2) = finish_all E ids a1 in (a2, out1 @ out2))"

text \<open>The window is asked to close.\<close>

definition close_requested :: "app \<Rightarrow> app \<times> app_out list" where
  "close_requested a =
     (a\<lparr>da_quit_requested := True, da_sessions := map (\<lambda>(sid, s). (sid, s\<lparr>ts_is_shutting_down := True\<rparr>)) (da_sessions a)\<rparr>,
      map (\<lambda>(sid, s). SendCommand sid StopAll) (filter (\<lambda>(sid, s). \<not> ts_is_shutting_down s) (da_sessions a))
      @ (if da_sessions a \<noteq> [] then [CancelClose] else []))"

section \<open>Clicks\<close>

datatype ui_click =
    ClickAdd torrent_source path
  | ClickFiles nat "bool list"
  | ClickStart nat
  | ClickPause nat
  | ClickRemove nat
  | ClickDelete nat

text \<open>\<open>file_picker\<close>: new flags are taken if they differ from those shown and keep a file.\<close>

definition shown_flags :: "torrent_file list \<Rightarrow> torrent_session \<Rightarrow> bool list" where
  "shown_flags files s =
     (case ts_selection s of Some flags \<Rightarrow> if length flags = length files then flags else replicate (length files) True
      | None \<Rightarrow> replicate (length files) True)"

definition file_picker :: "torrent_file list \<Rightarrow> torrent_session \<Rightarrow> bool list \<Rightarrow> (torrent_session \<times> bool list) option" where
  "file_picker files s flags =
     (if \<not> ts_is_shutting_down s \<and> length flags = length files \<and> flags \<noteq> shown_flags files s \<and> True \<in> set flags
      then Some (s\<lparr>ts_selection := Some flags\<rparr>, flags) else None)"

fun store_selection :: "torrent_source \<Rightarrow> bool list \<Rightarrow> session_entry list \<Rightarrow> session_entry list option" where
  "store_selection src flags [] = None"
| "store_selection src flags (e # es) =
     (if se_source e = src then Some (e\<lparr>se_selected_files := (if False \<in> set flags then Some flags else None)\<rparr> # es)
      else map_option ((#) e) (store_selection src flags es))"

definition choose_files :: "nat \<Rightarrow> bool list \<Rightarrow> torrent_session \<Rightarrow> app \<Rightarrow> app \<times> app_out list" where
  "choose_files sid flags s a =
     (case map_option tm_files (ts_meta s) of
        Some (Some files) \<Rightarrow>
          (case file_picker files s flags of
             None \<Rightarrow> (a, [])
           | Some (s', flags') \<Rightarrow>
               (let a1 = change_session sid (\<lambda>_. s') a;
                    out1 = (if ts_swarm_started s then [SendCommand sid SelectionChanged] else [])
                in case store_selection (ts_source s) flags' (ss_entries (da_store a1)) of
                     None \<Rightarrow> (a1, out1)
                   | Some es \<Rightarrow>
                       (let store = (da_store a1)\<lparr>ss_entries := es\<rparr> in (a1\<lparr>da_store := store\<rparr>, out1 @ [SaveStore store]))))
      | _ \<Rightarrow> (a, []))"

definition add_torrent :: "torrent_source \<Rightarrow> path \<Rightarrow> app \<Rightarrow> app \<times> app_out list" where
  "add_torrent src dir a =
     (let store = (da_store a)\<lparr>ss_entries := ss_entries (da_store a) @
            [\<lparr>se_source = src, se_output_dir = dir, se_is_paused = False, se_selected_files = None\<rparr>]\<rparr>;
          (a1, out) = start_core src dir None (a\<lparr>da_store := store\<rparr>)
      in (a1, SaveStore store # out))"

definition click_session :: "ui_click \<Rightarrow> nat \<Rightarrow> torrent_session \<Rightarrow> app \<Rightarrow> app \<times> app_out list" where
  "click_session c sid s a =
     (case c of
        ClickFiles _ flags \<Rightarrow> choose_files sid flags s a
      | ClickStart _ \<Rightarrow>
          (if \<not> ts_swarm_started s \<and> \<not> ts_is_shutting_down s \<and> \<not> ts_has_error s
           then (change_session sid (\<lambda>s. s\<lparr>ts_swarm_started := True\<rparr>) a, [SendCommand sid StartSwarm]) else (a, []))
      | ClickPause _ \<Rightarrow>
          (if ts_swarm_started s \<and> \<not> ts_is_shutting_down s
           then (change_session sid (\<lambda>s. s\<lparr>ts_is_paused := \<not> ts_is_paused s\<rparr>) a, [SendCommand sid (if ts_is_paused s then CmdResume else CmdPause)])
           else (a, []))
      | ClickRemove _ \<Rightarrow>
          (if \<not> ts_is_shutting_down s
           then (change_session sid (\<lambda>s. s\<lparr>ts_remove_requested := True, ts_is_shutting_down := True\<rparr>) a, [SendCommand sid StopAll]) else (a, []))
      | ClickDelete _ \<Rightarrow>
          (if \<not> ts_is_shutting_down s
           then (change_session sid (\<lambda>s. s\<lparr>ts_remove_requested := True, ts_delete_requested := True, ts_is_shutting_down := True\<rparr>) a,
                 [SendCommand sid StopAll])
           else (a, []))
      | ClickAdd src dir \<Rightarrow> (a, []))"

definition clicked_id :: "ui_click \<Rightarrow> nat option" where
  "clicked_id c = (case c of ClickFiles sid _ \<Rightarrow> Some sid | ClickStart sid \<Rightarrow> Some sid | ClickPause sid \<Rightarrow> Some sid | ClickRemove sid \<Rightarrow> Some sid
     | ClickDelete sid \<Rightarrow> Some sid | ClickAdd _ _ \<Rightarrow> None)"

definition on_click :: "ui_click \<Rightarrow> app \<Rightarrow> app \<times> app_out list" where
  "on_click c a =
     (case c of
        ClickAdd src dir \<Rightarrow> add_torrent src dir a
      | _ \<Rightarrow>
          (case clicked_id c of
             None \<Rightarrow> (a, [])
           | Some sid \<Rightarrow> (case map_of (da_sessions a) sid of None \<Rightarrow> (a, []) | Some s \<Rightarrow> click_session c sid s a)))"

fun on_clicks :: "ui_click list \<Rightarrow> app \<Rightarrow> app \<times> app_out list" where
  "on_clicks [] a = (a, [])"
| "on_clicks (c # cs) a = (let (a1, out1) = on_click c a; (a2, out2) = on_clicks cs a1 in (a2, out1 @ out2))"

section \<open>Frames\<close>

record frame_input =
  fi_limits :: "(nat \<times> nat) option"
  fi_pointer_down :: bool
  fi_close :: bool
  fi_messages :: "(nat \<times> ui_message) list"
  fi_clicks :: "ui_click list"

definition clamp_limit :: "nat \<Rightarrow> nat" where
  "clamp_limit v = (if v > 0 then max v MIN_LIMIT_KIB else v)"

definition limits_bar :: "frame_input \<Rightarrow> app \<Rightarrow> app \<times> app_out list" where
  "limits_bar f a =
     (let (a1, out1) = (case fi_limits f of
            None \<Rightarrow> (a, [])
          | Some (dl, ul) \<Rightarrow>
              (let store = (da_store a)\<lparr>ss_download_limit_kib := clamp_limit dl, ss_upload_limit_kib := clamp_limit ul\<rparr>
               in (a\<lparr>da_store := store, da_limits_dirty := True\<rparr>, [apply_speed_limits store])))
      in if da_limits_dirty a1 \<and> \<not> fi_pointer_down f then (a1\<lparr>da_limits_dirty := False\<rparr>, out1 @ [SaveStore (da_store a1)]) else (a1, out1))"

definition app_update :: "app_env \<Rightarrow> frame_input \<Rightarrow> app \<Rightarrow> app \<times> app_out list" where
  "app_update E f a =
     (let (a1, out1) = limits_bar f a;
          (a2, out2) = (if fi_close f then close_requested a1 else (a1, []));
          (a3, completed) = pump_messages (fi_messages f) a2;
          (a4, out4) = finish_all E completed a3
      in if da_quit_requested a4 \<and> da_sessions a4 = [] then (a4, out1 @ out2 @ out4 @ [CloseWindow])
         else let (a5, out5) = on_clicks (fi_clicks f) a4 in (a5, out1 @ out2 @ out4 @ out5))"

fun app_run :: "app_env \<Rightarrow> frame_input list \<Rightarrow> app \<Rightarrow> app \<times> app_out list" where
  "app_run E [] a = (a, [])"
| "app_run E (f # fs) a =
     (let (a1, out1) = app_update E f a
      in if CloseWindow \<in> set out1 then (a1, out1) else let (a2, out2) = app_run E fs a1 in (a2, out1 @ out2))"

section \<open>Who is still there\<close>

definition shown :: "app \<Rightarrow> nat set" where
  "shown a = fst ` set (da_sessions a)"

lemma map_of_shown: "map_of (da_sessions a) sid \<noteq> None \<longleftrightarrow> sid \<in> shown a"
  by (auto simp: shown_def map_of_eq_None_iff)

lemma shown_simps [simp]:
  "shown (a\<lparr>da_store := x\<rparr>) = shown a" "shown (a\<lparr>da_limits_dirty := b\<rparr>) = shown a" "shown (a\<lparr>da_next_id := n\<rparr>) = shown a"
  "shown (a\<lparr>da_sessions := xs\<rparr>) = fst ` set xs" "shown (a\<lparr>da_quit_requested := b\<rparr>) = shown a"
  by (simp_all add: shown_def)

lemma shown_change [simp]: "shown (change_session sid f a) = shown a"
proof -
  have "map fst (AList.map_entry sid f xs) = map fst xs" for xs by (induction xs) auto
  then have "fst ` set (AList.map_entry sid f xs) = fst ` set xs" for xs by (metis set_map)
  then show ?thesis by (simp add: shown_def change_session_def)
qed

lemma quit_change [simp]: "da_quit_requested (change_session sid f a) = da_quit_requested a"
  by (simp add: change_session_def)

lemma limits_bar_keeps: "limits_bar f a = (a', out) \<Longrightarrow> shown a' = shown a \<and> CloseWindow \<notin> set out \<and> CancelClose \<notin> set out"
  by (auto simp: limits_bar_def apply_speed_limits_def Let_def split: option.splits if_splits)

lemma close_keeps:
  assumes "close_requested a = (a', out)"
  shows "shown a' = shown a" "CloseWindow \<notin> set out" "length (filter ((=) CancelClose) out) = (if shown a = {} then 0 else 1)"
proof -
  have f: "filter ((=) CancelClose) (map (\<lambda>(sid, s). SendCommand sid StopAll) xs) = []" for xs :: "(nat \<times> torrent_session) list"
    by (auto simp: filter_empty_conv)
  have k: "fst ` set (map (\<lambda>(sid, s). (sid, g s)) xs) = fst ` set xs" for xs :: "(nat \<times> torrent_session) list" and g :: "torrent_session \<Rightarrow> torrent_session"
    by (simp add: image_image case_prod_beta)
  have a': "da_sessions a' = map (\<lambda>(sid, s). (sid, s\<lparr>ts_is_shutting_down := True\<rparr>)) (da_sessions a)"
    using assms by (auto simp: close_requested_def)
  show "shown a' = shown a" unfolding shown_def a' by (rule k)
  show "CloseWindow \<notin> set out" "length (filter ((=) CancelClose) out) = (if shown a = {} then 0 else 1)"
    using assms f by (auto simp: close_requested_def shown_def)
qed

lemma pump_keeps:
  "pump_messages ms a = (a', ids) \<Longrightarrow> shown a' = shown a \<and> (\<forall>sid \<in> set ids. (sid, UiShutdownComplete) \<in> set ms)"
proof (induction ms a arbitrary: a' ids rule: pump_messages.induct)
  case (2 sid msg rest a)
  show ?case
  proof (cases "map_of (da_sessions a) sid")
    case None
    then show ?thesis using "2.IH"(1) [OF None] "2.prems" by auto
  next
    case (Some s)
    obtain a1 ids1 where p: "pump_messages rest (change_session sid (on_message msg) a) = (a1, ids1)" by fastforce
    from "2.IH"(2) [OF Some p] "2.prems" Some p show ?thesis by (auto split: if_splits)
  qed
qed simp

lemma finish_keeps: "finish_shutdown E sid a = (a', out) \<Longrightarrow> shown a' = shown a - {sid} \<and> CloseWindow \<notin> set out \<and> CancelClose \<notin> set out"
  by (auto simp: finish_shutdown_def shown_def delete_files_def Let_def set_delete map_of_eq_None_iff split: option.splits if_splits torrent_source.splits)

lemma finish_all_keeps: "finish_all E ids a = (a', out) \<Longrightarrow> shown a' = shown a - set ids \<and> CloseWindow \<notin> set out \<and> CancelClose \<notin> set out"
proof (induction ids arbitrary: a a' out)
  case (Cons sid ids)
  then show ?case by (auto simp: Let_def split: prod.splits dest!: finish_keeps Cons.IH)
qed simp

lemma start_core_keeps: "start_core src dir sel a = (a', out) \<Longrightarrow> shown a \<subseteq> shown a' \<and> CloseWindow \<notin> set out \<and> CancelClose \<notin> set out"
proof -
  have "fst ` set (AList.update k v xs) = insert k (fst ` set xs)" for k :: nat and v :: torrent_session and xs
    using dom_update [of k v xs] by (simp add: dom_map_of_conv_image_fst)
  moreover assume "start_core src dir sel a = (a', out)"
  ultimately have "shown a' = insert (da_next_id a) (shown a)" "out = [SpawnTask (da_next_id a) src dir sel]"
    by (auto simp only: start_core_def Let_def shown_simps shown_def [of a] prod.inject)
  then show ?thesis by auto
qed

lemma choose_files_keeps: "choose_files sid flags s a = (a', out) \<Longrightarrow> shown a' = shown a \<and> CloseWindow \<notin> set out \<and> CancelClose \<notin> set out"
  by (auto simp: choose_files_def Let_def split: option.splits if_splits)

lemma on_click_keeps: "on_click c a = (a', out) \<Longrightarrow> shown a \<subseteq> shown a' \<and> CloseWindow \<notin> set out \<and> CancelClose \<notin> set out"
proof (cases c)
  case (ClickAdd src dir)
  moreover assume "on_click c a = (a', out)"
  ultimately show ?thesis
    using start_core_keeps by (fastforce simp: on_click_def add_torrent_def Let_def split: prod.splits)
qed (auto simp: on_click_def clicked_id_def click_session_def split: option.splits if_splits dest!: choose_files_keeps)

lemma on_clicks_keeps: "on_clicks cs a = (a', out) \<Longrightarrow> shown a \<subseteq> shown a' \<and> CloseWindow \<notin> set out \<and> CancelClose \<notin> set out"
proof (induction cs arbitrary: a a' out)
  case (Cons c cs)
  obtain a1 o1 a2 o2 where o: "on_click c a = (a1, o1)" "on_clicks cs a1 = (a2, o2)" by fastforce
  with on_click_keeps [OF o(1)] Cons.IH [OF o(2)] Cons.prems show ?case by auto
qed simp

lemma no_cancel: "CancelClose \<notin> set out \<Longrightarrow> filter ((=) CancelClose) out = []"
  by (auto simp: filter_empty_conv)

lemma update_keeps:
  assumes "sid \<in> shown a" "(sid, UiShutdownComplete) \<notin> set (fi_messages f)" "app_update E f a = (a', out)"
  shows "sid \<in> shown a' \<and> CloseWindow \<notin> set out \<and> length (filter ((=) CancelClose) out) = (if fi_close f then 1 else 0)"
proof -
  obtain a1 o1 where 1: "limits_bar f a = (a1, o1)" by fastforce
  obtain a2 o2 where 2: "(if fi_close f then close_requested a1 else (a1, [])) = (a2, o2)" by fastforce
  obtain a3 ids where 3: "pump_messages (fi_messages f) a2 = (a3, ids)" by fastforce
  obtain a4 o4 where 4: "finish_all E ids a3 = (a4, o4)" by fastforce
  obtain a5 o5 where 5: "on_clicks (fi_clicks f) a4 = (a5, o5)" by fastforce
  have s1: "sid \<in> shown a1" using limits_bar_keeps [OF 1] assms(1) by simp
  have s2: "sid \<in> shown a2" "CloseWindow \<notin> set o2" "length (filter ((=) CancelClose) o2) = (if fi_close f then 1 else 0)"
    using 2 close_keeps [of a1 a2 o2] s1 by (auto split: if_splits)
  have "sid \<notin> set ids" "sid \<in> shown a3" using pump_keeps [OF 3] assms(2) s2(1) by auto
  then have s4: "sid \<in> shown a4" using finish_all_keeps [OF 4] by simp
  then have "da_sessions a4 \<noteq> []" by (auto simp: shown_def)
  then have "a' = a5" "out = o1 @ o2 @ o4 @ o5" using assms(3) 1 2 3 4 5 by (auto simp: app_update_def Let_def)
  with s4 s2 limits_bar_keeps [OF 1] finish_all_keeps [OF 4] on_clicks_keeps [OF 5] show ?thesis by (auto simp: no_cancel)
qed

lemma run_keeps:
  "sid \<in> shown a \<Longrightarrow> list_all (\<lambda>f. (sid, UiShutdownComplete) \<notin> set (fi_messages f)) frames \<Longrightarrow> app_run E frames a = (a', out) \<Longrightarrow>
   sid \<in> shown a' \<and> CloseWindow \<notin> set out \<and> length (filter ((=) CancelClose) out) = length (filter fi_close frames)"
proof (induction frames arbitrary: a a' out)
  case (Cons f frames)
  obtain a1 o1 where 1: "app_update E f a = (a1, o1)" by fastforce
  obtain a2 o2 where 2: "app_run E frames a1 = (a2, o2)" by fastforce
  from update_keeps [OF Cons.prems(1) _ 1] Cons.prems(2) have u: "sid \<in> shown a1" "CloseWindow \<notin> set o1"
    "length (filter ((=) CancelClose) o1) = (if fi_close f then 1 else 0)" by auto
  from Cons.IH [OF u(1) _ 2] Cons.prems(2,3) u 1 2 show ?case by auto
qed simp

section \<open>Failed torrents\<close>

lemma failed_task_silent: "background_task E peer_id port src inp fs = (Inl e, out) \<Longrightarrow> ShutdownComplete \<notin> set out"
  by (auto simp: background_task_def split: sum.splits waited.splits if_splits)

text \<open>The only messages of a torrent that say it has shut down are those its task sends.\<close>

definition shutdowns_from_task :: "nat \<Rightarrow> driver_out list \<Rightarrow> frame_input list \<Rightarrow> bool" where
  "shutdowns_from_task sid out frames \<longleftrightarrow>
     list_all (\<lambda>f. (sid, UiShutdownComplete) \<in> set (fi_messages f) \<longrightarrow> ShutdownComplete \<in> set out) frames"

text \<open>A torrent that failed to load keeps the program open. Its task has ended with an error and reports no shutdown, so the torrent is never taken off the list: whatever
  the user does, in every later frame it is still shown, every request to close the window is refused, and the window is never closed.\<close>

theorem failed_torrent_blocks_quit:
  assumes "background_task E peer_id port src inp fs = (Inl e, out)" "shutdowns_from_task sid out frames"
    "sid \<in> fst ` set (da_sessions a)" "app_run A frames a = (a', outs)"
  shows "sid \<in> fst ` set (da_sessions a') \<and> CloseWindow \<notin> set outs
    \<and> length (filter ((=) CancelClose) outs) = length (filter fi_close frames)"
proof -
  have "list_all (\<lambda>f. (sid, UiShutdownComplete) \<notin> set (fi_messages f)) frames"
    using assms(2) failed_task_silent [OF assms(1)] by (simp add: shutdowns_from_task_def list_all_iff)
  from run_keeps [OF _ this assms(4)] assms(3) show ?thesis by (simp add: shown_def)
qed

definition idle_frame :: frame_input where
  "idle_frame = \<lparr>fi_limits = None, fi_pointer_down = False, fi_close = False, fi_messages = [], fi_clicks = []\<rparr>"

definition demo_app_env :: app_env where
  "demo_app_env = \<lparr>ae_win = False, ae_resume_file = (\<lambda>_. [[9]])\<rparr>"

definition demo_app :: app where
  "demo_app = fst (start_core (SourceMagnet []) [lit ''home'', lit ''me''] None (fst (app_new ss_default)))"

definition no_inputs :: driver_inputs where
  "no_inputs = \<lparr>di_commands = [StopAll], di_polls = [], di_fetched = None, di_selection = None, di_announced = None, di_now = 0, di_later = []\<rparr>"

lemma demo_app_sessions:
  "da_sessions demo_app = [(1, \<lparr>ts_output_dir = [lit ''home'', lit ''me''], ts_source = SourceMagnet [], ts_peers = [], ts_meta = None,
     ts_is_shutting_down = False, ts_delete_requested = False, ts_swarm_started = False, ts_selection = None, ts_is_paused = False,
     ts_has_error = False, ts_remove_requested = False\<rparr>)]"
  by (simp add: demo_app_def start_core_def app_new_def Let_def)

theorem failed_torrent_blocks_quit_witness:
  "CloseWindow \<notin> set (snd (app_run demo_app_env [idle_frame\<lparr>fi_messages := [(1, UiError)], fi_clicks := [ClickRemove 1]\<rparr>, idle_frame\<lparr>fi_close := True\<rparr>,
     idle_frame\<lparr>fi_close := True\<rparr>] demo_app))"
proof -
  obtain a' outs where r: "app_run demo_app_env [idle_frame\<lparr>fi_messages := [(1, UiError)], fi_clicks := [ClickRemove 1]\<rparr>, idle_frame\<lparr>fi_close := True\<rparr>,
      idle_frame\<lparr>fi_close := True\<rparr>] demo_app = (a', outs)" by fastforce
  have "magnet_parse (dv_hex demo_driver) (dv_url_parse demo_driver) [] = Inl NotAUri"
    by (simp add: magnet_parse_def demo_driver_def)
  then have b: "background_task demo_driver [] 6881 (SourceMagnet []) no_inputs fs_empty = (Inl (BadMagnet NotAUri), [DriverError (BadMagnet NotAUri)])"
    by (simp add: background_task_def load_source_def)
  have "CloseWindow \<notin> set outs"
    using failed_torrent_blocks_quit [OF b _ _ r, of 1] by (simp add: shutdowns_from_task_def idle_frame_def demo_app_sessions)
  then show ?thesis unfolding r by simp
qed

section \<open>Deleting files\<close>

text \<open>Deleting a torrent whose name is a proper file name, as every name the parsers of torrents accept is, removes nothing but the entry of that name in its
  directory, the resume file and the two files beside its torrent file.\<close>

theorem delete_stays_inside:
  assumes "ts_meta s = Some meta" "safe_component (ae_win A) (tm_name meta)" "RemoveTree p \<in> set (delete_files A s) \<or> RemoveFile p \<in> set (delete_files A s)"
  shows "p = ts_output_dir s @ [tm_name meta]
    \<or> RemoveTree p \<notin> set (delete_files A s) \<and> (p = ae_resume_file A (tm_info_hash meta)
      \<or> (\<exists>q. ts_source s = SourceFile q \<and> (p = with_extension q (lit ''fastresume'') \<or> p = with_extension q (lit ''download.part''))))"
  using assms path_push_safe [OF assms(2)] by (cases "ts_source s") (auto simp: delete_files_def Let_def)

theorem delete_stays_inside_witness:
  "RemoveTree [lit ''home'', lit ''me'', [5]] \<in> set (delete_files demo_app_env (snd (hd (da_sessions demo_app))\<lparr>ts_meta := Some demo_meta\<rparr>))
   \<and> [lit ''home'', lit ''me'', [5]] = ts_output_dir (snd (hd (da_sessions demo_app))) @ [tm_name demo_meta]"
proof -
  let ?s = "snd (hd (da_sessions demo_app))\<lparr>ts_meta := Some demo_meta\<rparr>"
  have safe: "safe_component (ae_win demo_app_env) (tm_name demo_meta)"
    by (simp add: safe_component_def demo_app_env_def demo_meta_def lit_def)
  have d: "ts_output_dir ?s = [lit ''home'', lit ''me'']" by (simp add: demo_app_sessions)
  have r: "RemoveTree [lit ''home'', lit ''me'', [5]] \<in> set (delete_files demo_app_env ?s)"
    using path_push_safe [OF safe, of "[lit ''home'', lit ''me'']"] by (simp add: delete_files_def d Let_def) (simp add: demo_meta_def)
  from delete_stays_inside [OF _ safe disjI1 [OF r]] r show ?thesis by simp
qed

lemma change_session_simps [simp]:
  "map_of (da_sessions (change_session sid f a)) sid = map_option f (map_of (da_sessions a) sid)"
  "da_limits_dirty (change_session sid f a) = da_limits_dirty a" "da_store (change_session sid f a) = da_store a"
  by (simp_all add: change_session_def map_of_map_entry split: option.splits)

lemma delete_frames:
  assumes "map_of (da_sessions a) sid = Some s" "\<not> ts_is_shutting_down s" "\<not> da_quit_requested a" "\<not> da_limits_dirty a"
  shows "snd (app_run A [idle_frame\<lparr>fi_messages := [(sid, UiTorrentLoaded meta)], fi_clicks := [ClickDelete sid]\<rparr>,
      idle_frame\<lparr>fi_messages := [(sid, UiShutdownComplete)]\<rparr>] a)
    = SendCommand sid StopAll
      # SaveStore ((da_store a)\<lparr>ss_entries := filter (\<lambda>e. se_source e \<noteq> ts_source s) (ss_entries (da_store a))\<rparr>)
      # delete_files A (s\<lparr>ts_meta := Some meta, ts_remove_requested := True, ts_delete_requested := True, ts_is_shutting_down := True\<rparr>)"
proof -
  let ?f = "\<lambda>s. s\<lparr>ts_remove_requested := True, ts_delete_requested := True, ts_is_shutting_down := True\<rparr>"
  let ?a1 = "change_session sid (on_message (UiTorrentLoaded meta)) a"
  let ?a2 = "change_session sid ?f ?a1"
  have m1: "map_of (da_sessions ?a1) sid = Some (s\<lparr>ts_meta := Some meta\<rparr>)" using assms(1) by (simp add: on_message_def)
  have u1: "app_update A (idle_frame\<lparr>fi_messages := [(sid, UiTorrentLoaded meta)], fi_clicks := [ClickDelete sid]\<rparr>) a
      = (?a2, [SendCommand sid StopAll])"
    using assms m1 by (simp add: app_update_def limits_bar_def idle_frame_def Let_def on_click_def clicked_id_def click_session_def)
  have u2: "snd (app_update A (idle_frame\<lparr>fi_messages := [(sid, UiShutdownComplete)]\<rparr>) ?a2)
      = SaveStore ((da_store a)\<lparr>ss_entries := filter (\<lambda>e. se_source e \<noteq> ts_source s) (ss_entries (da_store a))\<rparr>)
        # delete_files A (?f (s\<lparr>ts_meta := Some meta\<rparr>))"
    using assms m1
    by (simp add: app_update_def limits_bar_def idle_frame_def Let_def finish_shutdown_def on_message_def)
  have cw: "CloseWindow \<notin> set (delete_files A s')" for s'
    by (auto simp: delete_files_def Let_def split: option.splits torrent_source.splits)
  obtain a3 o3 where 3: "app_update A (idle_frame\<lparr>fi_messages := [(sid, UiShutdownComplete)]\<rparr>) ?a2 = (a3, o3)" by fastforce
  show ?thesis using u2 cw by (simp add: u1 3)
qed

text \<open>C36. A magnet link decides what is deleted. Before its metadata has arrived a torrent bears the name of the link, which nothing checks: with an empty
  name, removing the torrent with its files removes the whole download directory, and with a name that is an absolute path it removes what is there.\<close>

theorem magnet_delete_takes_directory:
  assumes "magnet_parse (dv_hex E) (dv_url_parse E) uri = Inr mg" "mg_name mg = Some n"
    "map_of (da_sessions a) sid = Some s" "ts_source s = SourceMagnet uri" "\<not> ts_is_shutting_down s" "\<not> da_quit_requested a" "\<not> da_limits_dirty a"
    "meta = magnet_meta mg"
  shows "snd (background_task E peer_id port (SourceMagnet uri) (inp\<lparr>di_commands := [StopAll]\<rparr>) fs) = [TorrentLoaded meta, ShutdownComplete]
    \<and> RemoveTree (path_push (ae_win A) (ts_output_dir s) n) \<in> set (snd (app_run A
        [idle_frame\<lparr>fi_messages := [(sid, UiTorrentLoaded meta)], fi_clicks := [ClickDelete sid]\<rparr>, idle_frame\<lparr>fi_messages := [(sid, UiShutdownComplete)]\<rparr>] a))
    \<and> path_push (ae_win A) (ts_output_dir s) [] = ts_output_dir s
    \<and> path_push (ae_win A) (ts_output_dir s) (lit ''/home'') = [lit ''/'', lit ''home'']"
proof -
  have name: "tm_name meta = n" by (simp add: assms(2,8) magnet_meta_def meta_new_def with_extra_trackers_other)
  have "snd (background_task E peer_id port (SourceMagnet uri) (inp\<lparr>di_commands := [StopAll]\<rparr>) fs) = [TorrentLoaded meta, ShutdownComplete]"
    by (simp add: background_task_def load_source_def assms(1,8))
  moreover have "path_push (ae_win A) (ts_output_dir s) [] = ts_output_dir s"
    "path_push (ae_win A) (ts_output_dir s) (lit ''/home'') = [lit ''/'', lit ''home'']"
    by (simp_all add: path_push_def lit_def is_separator_def Let_def)
  moreover have "RemoveTree (path_push (ae_win A) (ts_output_dir s) n) \<in> set (snd (app_run A
        [idle_frame\<lparr>fi_messages := [(sid, UiTorrentLoaded meta)], fi_clicks := [ClickDelete sid]\<rparr>, idle_frame\<lparr>fi_messages := [(sid, UiShutdownComplete)]\<rparr>] a))"
    unfolding delete_frames [OF assms(3,5-7)] by (simp add: delete_files_def Let_def name)
  ultimately show ?thesis by blast
qed

definition demo_link :: driver_env where
  "demo_link = demo_driver\<lparr>dv_hex := (\<lambda>_. Some (replicate 20 0)),
     dv_url_parse := (\<lambda>_. Some (lit ''magnet'', [(lit ''xt'', lit ''urn:btih:'' @ replicate 40 48), (lit ''dn'', [])]))\<rparr>"

theorem magnet_delete_takes_directory_witness:
  "RemoveTree [lit ''home'', lit ''me''] \<in> set (snd (app_run demo_app_env
     [idle_frame\<lparr>fi_messages := [(1, UiTorrentLoaded (magnet_meta \<lparr>mg_info_hash = replicate 20 0, mg_name = Some [], mg_trackers = []\<rparr>))],
        fi_clicks := [ClickDelete 1]\<rparr>, idle_frame\<lparr>fi_messages := [(1, UiShutdownComplete)]\<rparr>] demo_app))"
proof -
  let ?mg = "\<lparr>mg_info_hash = replicate 20 0, mg_name = Some [], mg_trackers = []\<rparr> :: magnet"
  have u: "utf8_len (replicate 40 48) = 40" by code_simp
  have m: "magnet_parse (dv_hex demo_link) (dv_url_parse demo_link) [] = Inr ?mg"
    by (simp add: magnet_parse_def demo_link_def lit_def strip_prefix_def decode_info_hash_def starts_with_def u)
  have s: "map_of (da_sessions demo_app) 1 = Some (snd (hd (da_sessions demo_app)))" by (simp add: demo_app_sessions)
  have f: "ts_source (snd (hd (da_sessions demo_app))) = SourceMagnet []" "\<not> ts_is_shutting_down (snd (hd (da_sessions demo_app)))"
    "ts_output_dir (snd (hd (da_sessions demo_app))) = [lit ''home'', lit ''me'']" "\<not> da_quit_requested demo_app" "\<not> da_limits_dirty demo_app"
    by (simp_all add: demo_app_sessions) (simp_all add: demo_app_def start_core_def app_new_def Let_def)
  have n: "mg_name ?mg = Some []" by simp
  from magnet_delete_takes_directory [OF m n s f(1,2,4,5) refl, of "[]" 6881 no_inputs fs_empty demo_app_env] f(3) show ?thesis by auto
qed

end
