(* ===== verification/Portmap.thy ===== *)
theory Portmap
  imports Prelude
begin

text \<open>
  Port forwarding by UPnP, \<open>net/portmap.rs\<close>, and the peer id, \<open>core/peer_id.rs\<close>. A router is what it answers to its calls, numbered in the order they
  are made; the calls are recorded. The search for a router (\<open>igd_next\<close>) and the timers are inputs.
\<close>

section \<open>One router\<close>

definition LEASE_SECS :: nat where "LEASE_SECS = 3600"

datatype port_map_status = MapDisabled | MapSearching | MapMapped "nat option" | MapUnavailable

datatype protocol = Tcp | Udp

datatype map_error = LeaseUnsupported | MapOther

record port_mapper =
  pm_add :: "nat \<Rightarrow> map_error option"
  pm_ip :: "nat \<Rightarrow> nat option"

datatype router_call = AddMapping protocol nat bool | RemoveMapping protocol | SetStatus port_map_status

text \<open>\<open>AddMapping p lease ok\<close>: a call of \<open>add\<close> and whether it succeeded. The state is the lease and the calls so far.\<close>

type_synonym router_log = "router_call list"

definition try_add :: "port_mapper \<Rightarrow> protocol \<Rightarrow> nat \<Rightarrow> router_log \<Rightarrow> map_error option \<times> router_log" where
  "try_add mp p lease log = (let e = pm_add mp (length log) in (e, log @ [AddMapping p lease (e = None)]))"

definition map_protocol :: "port_mapper \<Rightarrow> protocol \<Rightarrow> nat \<Rightarrow> router_log \<Rightarrow> (unit + nat) \<times> router_log" where
  "map_protocol mp p lease log =
     (case try_add mp p lease log of
        (None, log1) \<Rightarrow> (Inr lease, log1)
      | (Some LeaseUnsupported, log1) \<Rightarrow>
          (if lease \<noteq> 0 then case try_add mp p 0 log1 of (None, log2) \<Rightarrow> (Inr 0, log2) | (Some _, log2) \<Rightarrow> (Inl (), log2)
           else (Inl (), log1))
      | (Some MapOther, log1) \<Rightarrow> (Inl (), log1))"

definition map_both :: "port_mapper \<Rightarrow> nat \<Rightarrow> router_log \<Rightarrow> (unit + nat) \<times> router_log" where
  "map_both mp lease log =
     (case map_protocol mp Tcp lease log of
        (Inl e, log1) \<Rightarrow> (Inl e, log1)
      | (Inr lease1, log1) \<Rightarrow> map_protocol mp Udp lease1 log1)"

datatype map_end = MapFailed | MapStopped | MapRunning

text \<open>\<open>maintain\<close>: after each round either the shutdown or the timer fires.\<close>

fun maintain :: "port_mapper \<Rightarrow> bool list \<Rightarrow> nat \<Rightarrow> router_log \<Rightarrow> map_end \<times> router_log" where
  "maintain mp events lease log =
     (case map_both mp lease log of
        (Inl _, log1) \<Rightarrow> (MapFailed, log1)
      | (Inr lease1, log1) \<Rightarrow>
          (let log2 = log1 @ [SetStatus (MapMapped (pm_ip mp (length log1)))] in
           case events of
             [] \<Rightarrow> (MapRunning, log2)
           | True # rest \<Rightarrow> (MapStopped, log2 @ [RemoveMapping Tcp, RemoveMapping Udp])
           | False # rest \<Rightarrow> maintain mp rest lease1 log2))"

declare maintain.simps [simp del]

text \<open>\<open>IgdMapper\<close>: the calls of a router that was found, and what becomes of the error of a refused mapping.\<close>

datatype add_port_error = OnlyPermanentLeasesSupported | AddPortOther

record gateway =
  gw_add_port :: "nat \<Rightarrow> add_port_error option"
  gw_external_ip :: "nat \<Rightarrow> nat option"

definition igd_error :: "add_port_error \<Rightarrow> map_error" where
  "igd_error err = (case err of OnlyPermanentLeasesSupported \<Rightarrow> LeaseUnsupported | other \<Rightarrow> MapOther)"

definition igd_mapper :: "gateway \<Rightarrow> port_mapper" where
  "igd_mapper gw = \<lparr>pm_add = (\<lambda>n. map_option igd_error (gw_add_port gw n)), pm_ip = gw_external_ip gw\<rparr>"

text \<open>\<open>discover_and_maintain\<close>: the outcome of the search and of the three calls that find the address to forward to.\<close>

record discovery =
  di_gateway :: "gateway option"
  di_bound :: bool
  di_connected :: bool
  di_local_addr :: bool

definition discover_and_maintain :: "discovery \<Rightarrow> bool list \<Rightarrow> router_log \<Rightarrow> map_end \<times> router_log" where
  "discover_and_maintain di events log =
     (case di_gateway di of
        None \<Rightarrow> (MapFailed, log)
      | Some gw \<Rightarrow>
          if di_bound di \<and> di_connected di \<and> di_local_addr di then maintain (igd_mapper gw) events LEASE_SECS log else (MapFailed, log))"

text \<open>\<open>run_upnp\<close>: each attempt finds a router or not, and then waits for the shutdown or ten minutes.\<close>

fun run_upnp :: "(discovery \<times> bool list \<times> bool) list \<Rightarrow> router_log \<Rightarrow> map_end \<times> router_log" where
  "run_upnp [] log = (MapRunning, log)"
| "run_upnp ((di, events, stop) # rest) log =
     (let (r, log1) = discover_and_maintain di events (log @ [SetStatus MapSearching])
      in if r = MapFailed
         then let log2 = log1 @ [SetStatus MapUnavailable] in if stop then (MapStopped, log2) else run_upnp rest log2
         else (r, log1))"

section \<open>What is left on the router\<close>

text \<open>The mappings a list of calls leaves, with their leases.\<close>

fun left_mapped :: "router_log \<Rightarrow> (protocol \<times> nat) set \<Rightarrow> (protocol \<times> nat) set" where
  "left_mapped [] s = s"
| "left_mapped (AddMapping p lease ok # log) s = left_mapped log (if ok then insert (p, lease) (Set.filter (\<lambda>x. fst x \<noteq> p) s) else s)"
| "left_mapped (RemoveMapping p # log) s = left_mapped log (Set.filter (\<lambda>x. fst x \<noteq> p) s)"
| "left_mapped (SetStatus st # log) s = left_mapped log s"

lemma left_mapped_append: "left_mapped (xs @ ys) s = left_mapped ys (left_mapped xs s)"
  by (induction xs s rule: left_mapped.induct) simp_all

lemma maintain_stopped:
  "maintain mp events lease log = (MapStopped, log') \<Longrightarrow>
   \<exists>xs st. log' = xs @ [SetStatus (MapMapped st), RemoveMapping Tcp, RemoveMapping Udp]"
proof (induction mp events lease log rule: maintain.induct)
  case (1 mp events lease log)
  obtain r log1 where b: "map_both mp lease log = (r, log1)" by fastforce
  with "1.prems" obtain lease1 where r: "r = Inr lease1" by (cases r) (simp_all add: maintain.simps [of mp events])
  show ?case
  proof (cases events)
    case Nil
    then show ?thesis using "1.prems" b r by (simp add: maintain.simps [of mp "[]"] Let_def)
  next
    case (Cons e rest)
    show ?thesis
    proof (cases e)
      case True
      then show ?thesis using "1.prems" b r Cons by (auto simp: maintain.simps [of mp "True # rest"] Let_def)
    next
      case False
      then show ?thesis using "1.IH" [OF b [symmetric] r refl Cons] "1.prems" b r Cons
        by (simp add: maintain.simps [of mp "False # rest"] Let_def)
    qed
  qed
qed

lemma removed_all: "left_mapped (xs @ [SetStatus st, RemoveMapping Tcp, RemoveMapping Udp]) s = {}"
proof -
  have "p = Tcp \<or> p = Udp" for p by (cases p) auto
  then show ?thesis by (auto simp: left_mapped_append)
qed

text \<open>Mappings in place are taken down: when the shutdown ends the maintenance of the mappings, none is left on the router, whatever was mapped before and however
  often the leases were renewed.\<close>

theorem shutdown_removes_mappings:
  assumes "maintain mp events lease log = (MapStopped, log')"
  shows "left_mapped log' s = {}"
  using maintain_stopped [OF assms] removed_all by blast

definition leasing_router :: port_mapper where
  "leasing_router = \<lparr>pm_add = (\<lambda>_. None), pm_ip = (\<lambda>_. None)\<rparr>"

theorem shutdown_removes_mappings_witness:
  "\<exists>log'. maintain leasing_router [False, True] 3600 [] = (MapStopped, log') \<and> left_mapped log' {} = {}"
proof -
  have b: "map_both leasing_router l xs = (Inr l, xs @ [AddMapping Tcp l True, AddMapping Udp l True])" for l xs
    by (simp add: map_both_def map_protocol_def try_add_def leasing_router_def Let_def)
  obtain log' where m: "maintain leasing_router [False, True] 3600 [] = (MapStopped, log')"
    by (simp add: maintain.simps [of _ "[False, True]"] maintain.simps [of _ "[True]"] b Let_def)
  from m shutdown_removes_mappings [OF m] show ?thesis by blast
qed

text \<open>A mapping that was made is not taken down if the other one fails: with a router that takes only permanent mappings, accepts the one for TCP and refuses the one for
  UDP, the program reports the forwarding as unavailable and ends without removing the permanent mapping. A router that takes leases
  keeps it until the lease ends.\<close>

definition reached :: "gateway \<Rightarrow> discovery" where
  "reached gw = \<lparr>di_gateway = Some gw, di_bound = True, di_connected = True, di_local_addr = True\<rparr>"

theorem half_mapping_stays:
  assumes "gw_add_port gw 1 = Some OnlyPermanentLeasesSupported" "gw_add_port gw 2 = None" "gw_add_port gw 3 = Some e"
    "gw_add_port gw' 1 = None" "gw_add_port gw' 2 = Some AddPortOther"
  shows "(\<exists>log. run_upnp [(reached gw, events, True)] [] = (MapStopped, log) \<and> left_mapped log {} = {(Tcp, 0)})
    \<and> (\<exists>log. run_upnp [(reached gw', events, True)] [] = (MapStopped, log) \<and> left_mapped log {} = {(Tcp, LEASE_SECS)})"
proof -
  have f: "Set.filter (\<lambda>x. fst x \<noteq> p) {} = {}" for p :: protocol by auto
  have "map_both (igd_mapper gw) LEASE_SECS [SetStatus MapSearching] = (Inl (), [SetStatus MapSearching, AddMapping Tcp LEASE_SECS False,
      AddMapping Tcp 0 True, AddMapping Udp 0 False])"
    using assms(1-3) by (cases e)
      (simp_all add: map_both_def map_protocol_def try_add_def Let_def LEASE_SECS_def igd_mapper_def igd_error_def numeral_2_eq_2 numeral_3_eq_3)
  moreover have "map_both (igd_mapper gw') LEASE_SECS [SetStatus MapSearching] = (Inl (), [SetStatus MapSearching, AddMapping Tcp LEASE_SECS True,
      AddMapping Udp LEASE_SECS False])"
    using assms(4,5)
    by (simp add: map_both_def map_protocol_def try_add_def Let_def LEASE_SECS_def igd_mapper_def igd_error_def numeral_2_eq_2)
  ultimately show ?thesis by (simp add: discover_and_maintain_def reached_def maintain.simps f)
qed

definition permanent_router :: gateway where
  "permanent_router = \<lparr>gw_add_port = (\<lambda>n. if n = 1 then Some OnlyPermanentLeasesSupported else if n = 2 then None else Some AddPortOther),
     gw_external_ip = (\<lambda>_. None)\<rparr>"

definition tcp_router :: gateway where
  "tcp_router = \<lparr>gw_add_port = (\<lambda>n. if n = 1 then None else Some AddPortOther), gw_external_ip = (\<lambda>_. None)\<rparr>"

theorem half_mapping_stays_witness:
  "\<exists>log. run_upnp [(reached permanent_router, [], True)] [] = (MapStopped, log) \<and> left_mapped log {} = {(Tcp, 0)}"
  using half_mapping_stays [of permanent_router AddPortOther tcp_router "[]"] by (simp add: permanent_router_def tcp_router_def)

section \<open>The peer id\<close>

definition hex_digit :: "nat \<Rightarrow> byte" where
  "hex_digit d = word_of_nat (if d < 10 then 48 + d else 87 + d)"

fun hex_digits :: "nat \<Rightarrow> bytes" where
  "hex_digits n = (if n < 16 then [hex_digit n] else hex_digits (n div 16) @ [hex_digit (n mod 16)])"

declare hex_digits.simps [simp del]

definition pad12 :: "bytes \<Rightarrow> bytes" where
  "pad12 s = replicate (12 - length s) 48 @ s"

text \<open>\<open>generate_peer_id\<close> from the time in nanoseconds and the process id; \<open>as u64\<close> truncates.\<close>

definition generate_peer_id :: "nat \<Rightarrow> 32 word \<Rightarrow> bytes" where
  "generate_peer_id nanos pid =
     (let seed = unat (xor (word_of_nat nanos :: 64 word) (ucast pid))
      in [45, 84, 84, 49, 55, 48, 48, 45] @ take 12 (pad12 (hex_digits seed)))"

lemma peer_id_length: "length (generate_peer_id nanos pid) = 20"
  by (simp add: generate_peer_id_def Let_def pad12_def)

text \<open>With sixteen digits, as today's times have, the last four are cut off: only the bits above the sixteenth count.\<close>

lemma hex_digits_drop: "hex_digits n = hex_digits (n div 16) @ [hex_digit (n mod 16)]" if "16 \<le> n"
  using that by (subst hex_digits.simps) simp

lemma hex_digits_cut:
  assumes "2 ^ 60 \<le> n" "n < 2 ^ 64"
  shows "hex_digits n = hex_digits (n div 2 ^ 16) @ map (\<lambda>k. hex_digit (n div 16 ^ k mod 16)) [3, 2, 1, 0]"
proof -
  have s: "16 ^ Suc k \<le> n \<Longrightarrow> hex_digits (n div 16 ^ k) = hex_digits (n div 16 ^ Suc k) @ [hex_digit (n div 16 ^ k mod 16)]" for k
    using hex_digits_drop [of "n div 16 ^ k"] by (simp add: div_mult2_eq [symmetric] mult.commute less_eq_div_iff_mult_less_eq)
  show ?thesis using s [of 0] s [of 1] s [of 2] s [of 3] assms by simp
qed

lemma length_hex_digits: "16 ^ k \<le> n \<Longrightarrow> n < 16 ^ Suc k \<Longrightarrow> length (hex_digits n) = Suc k"
proof (induction k arbitrary: n)
  case 0
  then show ?case by (simp add: hex_digits.simps)
next
  case (Suc k)
  have "16 ^ k \<le> n div 16" "n div 16 < 16 ^ Suc k" using Suc.prems by (simp_all add: less_eq_div_iff_mult_less_eq div_less_iff_less_mult mult.commute)
  moreover have "(16 :: nat) \<le> 16 ^ Suc k" using power_increasing [of 1 "Suc k" "16 :: nat"] by simp
  then have "16 \<le> n" using Suc.prems(1) by (rule le_trans)
  ultimately show ?case using Suc.IH [of "n div 16"] hex_digits_drop [of n] by simp
qed

lemma peer_id_cut:
  assumes "2 ^ 60 \<le> n" "n < 2 ^ 64"
  shows "take 12 (pad12 (hex_digits n)) = hex_digits (n div 2 ^ 16)"
proof -
  have "16 ^ 11 \<le> n div 2 ^ 16" "n div 2 ^ 16 < 16 ^ Suc 11"
    using assms by (simp_all add: less_eq_div_iff_mult_less_eq div_less_iff_less_mult)
  from length_hex_digits [OF this] have "length (hex_digits (n div 2 ^ 16)) = 12" by simp
  then show ?thesis using hex_digits_cut [OF assms] by (simp add: pad12_def)
qed

lemma peer_id_ignores_process:
  assumes "2 ^ 60 \<le> nanos" "nanos < 2 ^ 64" "unat pid < 2 ^ 16"
  shows "generate_peer_id nanos pid = generate_peer_id nanos 0"
proof -
  let ?a = "word_of_nat nanos :: 64 word" and ?b = "ucast pid :: 64 word"
  have "unat pid mod 2 ^ 64 = unat pid" using unsigned_less [of pid, where 'a = nat] by simp
  then have "unat ?b = unat pid" by (simp add: unsigned_ucast_eq take_bit_eq_mod)
  then have "unat (drop_bit 16 ?b) = 0" using assms(3) by (simp only: unat_drop_bit_eq) (simp add: drop_bit_eq_div)
  then have b: "drop_bit 16 ?b = 0" by (simp only: unat_eq_zero)
  have d: "unat (xor ?a ?b) div 2 ^ 16 = nanos div 2 ^ 16"
  proof -
    have "drop_bit 16 (xor ?a ?b) = drop_bit 16 ?a" using b by (simp add: drop_bit_xor)
    then have "drop_bit 16 (unat (xor ?a ?b)) = drop_bit 16 (unat ?a)" by (simp only: unat_drop_bit_eq [symmetric])
    moreover have "unat ?a = nanos" using assms(2) by (simp add: unat_of_nat)
    ultimately show ?thesis by (simp add: drop_bit_eq_div)
  qed
  have "2 ^ 60 div 2 ^ 16 \<le> nanos div (2 :: nat) ^ 16" using assms(1) by (rule div_le_mono)
  then have "2 ^ 44 \<le> unat (xor ?a ?b) div 2 ^ 16" unfolding d by simp
  then have "2 ^ 44 * 2 ^ 16 \<le> unat (xor ?a ?b)" by (simp only: less_eq_div_iff_mult_less_eq zero_less_power zero_less_numeral)
  then have "2 ^ 60 \<le> unat (xor ?a ?b)" by simp
  moreover have "unat (xor ?a ?b) < 2 ^ 64" using unsigned_less [of "xor ?a ?b"] by simp
  ultimately show ?thesis
    using peer_id_cut [of "unat (xor ?a ?b)"] peer_id_cut [OF assms(1,2)] assms(2) d by (simp add: generate_peer_id_def Let_def unat_of_nat)
qed

end
