(* ===== verification/Transport.thy ===== *)
theory Transport
  imports Prelude
begin

text \<open>
  The stream of a connection, \<open>net/transport.rs\<close>: a TCP socket or the two halves of a QUIC stream behind one interface. The streams themselves (tokio, quinn) are arguments:
  a poll gives its outcome and the stream after it.
\<close>

datatype 'a stream_poll = PollPending | PollReady "'a"

datatype ('t, 's, 'r) peer_stream = TcpPeer 't | QuicPeer 's 'r

datatype ('e, 'q) stream_error = TcpError 'e | OtherError 'q

text \<open>What the two libraries provide for one of the four operations.\<close>

type_synonym ('h, 'x, 'e, 'a) poller = "'x \<Rightarrow> 'h \<Rightarrow> ('e + 'a) stream_poll \<times> 'h"

fun map_poll :: "('e \<Rightarrow> 'f) \<Rightarrow> ('e + 'a) stream_poll \<Rightarrow> ('f + 'a) stream_poll" where
  "map_poll f PollPending = PollPending"
| "map_poll f (PollReady (Inl e)) = PollReady (Inl (f e))"
| "map_poll f (PollReady (Inr v)) = PollReady (Inr v)"

fun stream_read :: "('t, 'x, 'e, 'a) poller \<Rightarrow> ('r, 'x, 'q, 'a) poller \<Rightarrow> 'x \<Rightarrow> ('t, 's, 'r) peer_stream
    \<Rightarrow> (('e, 'q) stream_error + 'a) stream_poll \<times> ('t, 's, 'r) peer_stream" where
  "stream_read tcp quic x (TcpPeer stream) = (let (r, stream') = tcp x stream in (map_poll TcpError r, TcpPeer stream'))"
| "stream_read tcp quic x (QuicPeer send_stream recv_stream) =
     (let (r, recv') = quic x recv_stream in (map_poll OtherError r, QuicPeer send_stream recv'))"

text \<open>\<open>poll_write\<close>, \<open>poll_flush\<close> and \<open>poll_shutdown\<close> have one shape; they differ in the operation of the stream.\<close>

fun stream_send :: "('t, 'x, 'e, 'a) poller \<Rightarrow> ('s, 'x, 'q, 'a) poller \<Rightarrow> 'x \<Rightarrow> ('t, 's, 'r) peer_stream
    \<Rightarrow> (('e, 'q) stream_error + 'a) stream_poll \<times> ('t, 's, 'r) peer_stream" where
  "stream_send tcp quic x (TcpPeer stream) = (let (r, stream') = tcp x stream in (map_poll TcpError r, TcpPeer stream'))"
| "stream_send tcp quic x (QuicPeer send_stream recv_stream) =
     (let (r, send') = quic x send_stream in (map_poll OtherError r, QuicPeer send' recv_stream))"

text \<open>The two directions of a QUIC connection do not disturb each other: reading and writing in either order gives the same outcomes and the same stream.\<close>

theorem quic_directions_independent:
  "(let (r, st) = stream_read tr qr x (QuicPeer s rv); (w, st') = stream_send tw qw y st in (r, w, st'))
   = (let (w, st) = stream_send tw qw y (QuicPeer s rv); (r, st') = stream_read tr qr x st in (r, w, st'))"
  by (simp add: Let_def case_prod_beta)

end
