(* ===== verification/MetadataSources.thy ===== *)
theory MetadataSources
  imports MetadataFetch Tracker DhtManager
begin

text \<open>
  Where the peers of a metadata download come from: the first half of \<open>fetch_metadata\<close> in \<open>net/metadata.rs\<close>, which starts a DHT node of its own and a task that
  announces to the trackers. What they find reaches the loop of theory \<open>MetadataFetch\<close> as its \<open>FoundPeers\<close> inputs.
\<close>

record fetch_options =
  fo_info_hash :: bytes
  fo_peer_id :: bytes
  fo_listen_port :: nat
  fo_trackers :: "rstring list"
  fo_initial_peers :: "socket_addr list"
  fo_use_dht :: bool
  fo_timeout :: duration

text \<open>The command sent to the DHT, if a node for it can be started.\<close>

definition fetch_searches :: "fetch_options \<Rightarrow> bool \<Rightarrow> manager_input list" where
  "fetch_searches opt dht_starts = (if fo_use_dht opt \<and> dht_starts then [StartSearch (fo_info_hash opt) None] else [])"

definition fetch_params :: "fetch_options \<Rightarrow> rstring option \<Rightarrow> announce_params" where
  "fetch_params opt event = \<lparr>ap_info_hash = fo_info_hash opt, ap_peer_id = fo_peer_id opt, ap_port = fo_listen_port opt, ap_uploaded = 0,
     ap_downloaded = 0, ap_left = 1, ap_event = event\<rparr>"

text \<open>The task: one announcement to all trackers after the other, each with the answers that came in; what is sent to the trackers and to the loop.\<close>

fun tracker_task :: "fetch_options \<Rightarrow> rstring option \<Rightarrow> joined list list \<Rightarrow> (announce_params \<times> socket_addr list list) list" where
  "tracker_task opt event [] = []"
| "tracker_task opt event (tasks # rest) =
     (let (announced, found) = announce_all (fo_trackers opt) tasks
      in (fetch_params opt event, found) # tracker_task opt (if is_ok announced then None else event) rest)"

definition fetch_announces :: "fetch_options \<Rightarrow> joined list list \<Rightarrow> (announce_params \<times> socket_addr list list) list" where
  "fetch_announces opt answers = (if fo_trackers opt = [] then [] else tracker_task opt (Some (lit ''started'')) answers)"

text \<open>The whole call: it starts at \<open>now\<close>, with the inputs the sources, the peers and the timer give.\<close>

definition fetch_with :: "meta_env \<Rightarrow> fetch_options \<Rightarrow> instant \<Rightarrow> (instant \<times> fetch_input) list \<Rightarrow> fetch" where
  "fetch_with E opt now inputs =
     fetch_metadata (E\<lparr>me_info_hash := fo_info_hash opt, me_peer_id := fo_peer_id opt\<rparr>) (now + fo_timeout opt) (fo_initial_peers opt) inputs"

section \<open>Properties\<close>

lemma tracker_task_nth:
  "fo_trackers opt \<noteq> [] \<Longrightarrow> i < length answers \<Longrightarrow>
   tracker_task opt event answers ! i
     = (fetch_params opt (if \<exists>j < i. ok_answers (answers ! j) \<noteq> [] then None else event), ok_answers (answers ! i))"
proof (induction answers arbitrary: event i)
  case (Cons tasks rest)
  obtain url urls where t: "fo_trackers opt = url # urls" using Cons.prems(1) by (cases "fo_trackers opt") auto
  obtain r found where a: "announce_all (fo_trackers opt) tasks = (r, found)" by fastforce
  with announce_all_merges [of url urls tasks] have f: "found = ok_answers tasks" "is_ok r \<longleftrightarrow> ok_answers tasks \<noteq> []"
    by (auto simp: t is_ok_def split: sum.splits)
  show ?case
  proof (cases i)
    case 0
    then show ?thesis by (simp add: a f)
  next
    case (Suc k)
    with Cons have "tracker_task opt (if is_ok r then None else event) rest ! k
      = (fetch_params opt (if \<exists>j < k. ok_answers (rest ! j) \<noteq> [] then None else if is_ok r then None else event), ok_answers (rest ! k))" by simp
    then show ?thesis by (auto simp: a f Suc less_Suc_eq_0_disj)
  qed
qed simp

text \<open>The trackers are told of the start until one of them has answered, and nothing after that, neither the end nor the bytes of a transfer; every address they answer
  with reaches the download.\<close>

theorem fetch_announces_start:
  assumes "fo_trackers opt \<noteq> []" "i < length answers"
  shows "ap_event (fst (fetch_announces opt answers ! i)) = (if \<exists>j < i. ok_answers (answers ! j) \<noteq> [] then None else Some (lit ''started''))
    \<and> snd (fetch_announces opt answers ! i) = ok_answers (answers ! i)"
  using tracker_task_nth [OF assms] assms by (simp add: fetch_announces_def fetch_params_def)

definition known :: "fetch \<Rightarrow> socket_addr set" where
  "known f = set (ft_dialed f) \<union> set (ft_queue f)"

lemma known_inner [simp]: "known (f\<lparr>ft_inner := s\<rparr>) = known f" "known (f\<lparr>ft_unjoined := n\<rparr>) = known f"
  "known (f\<lparr>ft_outcome := r\<rparr>) = known f" "known (f\<lparr>ft_tasks := ts\<rparr>) = known f" "known (f\<lparr>ft_sent := out\<rparr>) = known f"
  "known (end_task k f) = known f" "known (report f) = known f"
  by (simp_all add: known_def end_task_def report_def)

lemma fold_queue_new_known: "known (fold queue_new addrs f) \<subseteq> known f \<union> set addrs"
proof (induction addrs arbitrary: f)
  case (Cons addr addrs)
  have "known (queue_new addr f) \<subseteq> insert addr (known f)" by (auto simp: known_def queue_new_def)
  with Cons.IH [of "queue_new addr f"] show ?case by auto
qed simp

lemma spawn_tasks_known [simp]: "known (spawn_tasks f) = known f"
proof (induction f rule: spawn_tasks.induct)
  case (1 f)
  show ?case
  proof (cases "length (ft_tasks f) + ft_unjoined f < MAX_PARALLEL_PEERS \<and> ft_queue f \<noteq> []")
    case True
    then obtain addr rest where q: "ft_queue f = addr # rest" by (cases "ft_queue f") auto
    from "1.IH" [OF _ q] True show ?thesis by (subst spawn_tasks.simps) (simp add: q known_def)
  next
    case False
    then show ?thesis by (subst spawn_tasks.simps) (auto split: list.splits)
  qed
qed

lemma fetch_body_known [simp]: "known (fetch_body deadline now f) = known f"
  by (simp add: fetch_body_def Let_def split: prod.split option.split)

text \<open>The addresses of one input.\<close>

fun found_in :: "fetch_input \<Rightarrow> socket_addr set" where
  "found_in (FoundPeers addrs) = {a \<in> set addrs. port_of a \<noteq> 0}"
| "found_in _ = {}"

lemma fetch_turn_known: "known (fetch_turn E deadline x f) \<subseteq> known f \<union> found_in (snd x)"
proof -
  obtain now inp where x: "x = (now, inp)" by fastforce
  show ?thesis
  proof (cases inp)
    case (FoundPeers addrs)
    then show ?thesis
      using fold_queue_new_known [of "filter (\<lambda>a. port_of a \<noteq> 0) addrs" f] by (auto simp: fetch_turn_def x)
  qed (auto simp: fetch_turn_def x Let_def split: prod.splits sum.splits option.splits)
qed

text \<open>Only announced peers are dialled: the addresses the download connects to are those it was given and those the trackers and the DHT found, with a port.\<close>

theorem fetch_dials_found:
  "set (ft_dialed (fetch_with E opt now inputs)) \<subseteq> set (fo_initial_peers opt) \<union> (\<Union>x \<in> set inputs. found_in (snd x))"
proof -
  have run: "known (fold (fetch_turn E' d) xs f) \<subseteq> known f \<union> (\<Union>x \<in> set xs. found_in (snd x))" for E' d xs f
  proof (induction xs arbitrary: f)
    case (Cons x xs)
    from Cons.IH [of "fetch_turn E' d x f"] fetch_turn_known [of E' d x f] show ?case by auto
  qed simp
  let ?f = "\<lparr>ft_queue = [], ft_seen = {}, ft_tasks = [], ft_unjoined = 0, ft_inner = inner_default, ft_reported = 0, ft_dialed = [],
    ft_sent = [], ft_status = [], ft_outcome = None\<rparr>"
  have "known ?f = {}" by (simp add: known_def)
  with fold_queue_new_known [of "fo_initial_peers opt" ?f] have start: "known (fetch_start (fo_initial_peers opt)) \<subseteq> set (fo_initial_peers opt)"
    unfolding fetch_start_def by simp
  have "known (fetch_with E opt now inputs) \<subseteq> known (fetch_start (fo_initial_peers opt)) \<union> (\<Union>x \<in> set inputs. found_in (snd x))"
    unfolding fetch_with_def fetch_metadata_def by (rule run)
  also have "\<dots> \<subseteq> set (fo_initial_peers opt) \<union> (\<Union>x \<in> set inputs. found_in (snd x))" using start by (rule Un_mono) simp
  finally show ?thesis unfolding known_def by (rule le_supE)
qed

end
