(* ===== verification/SwarmTasks.thy ===== *)
theory SwarmTasks
  imports Engine Swarm DhtManager Dashboard
begin

text \<open>
  The swarms of all torrents on the one engine: \<open>run_swarm_manager\<close> of \<open>net/swarm.rs\<close> from its first statement to its last, with what it does to the registrations of
  \<open>net/engine.rs\<close> when it starts and when it ends. Each step is one swarm starting or one round of a running swarm, in any order.
\<close>

section \<open>A swarm on the engine\<close>

record running =
  rn_registration :: registration
  rn_swarm :: swarm

record host =
  ho_engine :: engine
  ho_running :: "(nat \<times> running) list"

datatype host_step =
    SwarmStarts nat registration "socket_addr list" "rstring list" bytes nat
  | SwarmGets nat swarm_io swarm_input

datatype host_out = ToDht manager_input | FromSwarm nat swarm_out

text \<open>What comes before the loop: the registration, the search of the DHT and the first state.\<close>

definition start_swarm :: "registration \<Rightarrow> socket_addr list \<Rightarrow> rstring list \<Rightarrow> bytes \<Rightarrow> nat \<Rightarrow> engine \<Rightarrow> engine \<times> swarm \<times> manager_input list" where
  "start_swarm r available_peers tracker_urls info_hash left_hint e =
     (let e' = register info_hash r e
      in (e', swarm_new available_peers tracker_urls info_hash (en_peer_id e) (en_port e') left_hint,
          if en_dht e' \<noteq> None then [StartSearch info_hash (Some (en_port e'))] else []))"

fun on_engine :: "swarm_out \<Rightarrow> engine \<Rightarrow> engine" where
  "on_engine (UnregisterTorrent info_hash) e = unregister info_hash e"
| "on_engine _ e = e"

fun host_turn :: "host_step \<Rightarrow> host \<Rightarrow> host \<times> host_out list" where
  "host_turn (SwarmStarts k r available_peers tracker_urls info_hash left_hint) h =
     (let (e, s, searches) = start_swarm r available_peers tracker_urls info_hash left_hint (ho_engine h)
      in (\<lparr>ho_engine = e, ho_running = ho_running h @ [(k, \<lparr>rn_registration = r, rn_swarm = s\<rparr>)]\<rparr>, map ToDht searches))"
| "host_turn (SwarmGets k io inp) h =
     (case map_of (ho_running h) k of
        None \<Rightarrow> (h, [])
      | Some t \<Rightarrow>
          let (s, out) = (if inp = SwarmShutdown then (rn_swarm t, swarm_stop io (rn_swarm t)) else swarm_round io inp (rn_swarm t));
              e = fold on_engine out (ho_engine h)
          in (\<lparr>ho_engine = e, ho_running = (if inp = SwarmShutdown then AList.delete k (ho_running h)
                 else AList.update k (t\<lparr>rn_swarm := s\<rparr>) (ho_running h))\<rparr>, map (FromSwarm k) out))"

fun host_run :: "host_step list \<Rightarrow> host \<Rightarrow> host \<times> host_out list" where
  "host_run [] h = (h, [])"
| "host_run (x # xs) h = (let (h1, out1) = host_turn x h; (h2, out2) = host_run xs h1 in (h2, out1 @ out2))"

section \<open>One swarm for each torrent\<close>

abbreviation swarm_hash :: "swarm \<Rightarrow> bytes" where
  "swarm_hash s \<equiv> st_info_hash (sm_state s)"

abbreviation running_hashes :: "host \<Rightarrow> bytes list" where
  "running_hashes h \<equiv> map (\<lambda>x. swarm_hash (rn_swarm (snd x))) (ho_running h)"

text \<open>Tasks have names of their own, and no torrent is started while it runs.\<close>

fun starts_fresh :: "host_step \<Rightarrow> host \<Rightarrow> bool" where
  "starts_fresh (SwarmStarts k r available_peers tracker_urls info_hash left_hint) h \<longleftrightarrow>
     k \<notin> fst ` set (ho_running h) \<and> info_hash \<notin> set (running_hashes h)"
| "starts_fresh (SwarmGets k io inp) h \<longleftrightarrow> True"

fun all_fresh :: "host_step list \<Rightarrow> host \<Rightarrow> bool" where
  "all_fresh [] h = True"
| "all_fresh (x # xs) h \<longleftrightarrow> starts_fresh x h \<and> all_fresh xs (fst (host_turn x h))"

definition routes :: "host \<Rightarrow> (bytes \<times> registration) list" where
  "routes h = map (\<lambda>x. (swarm_hash (rn_swarm (snd x)), rn_registration (snd x))) (ho_running h)"

definition host_ok :: "host \<Rightarrow> bool" where
  "host_ok h \<longleftrightarrow> distinct (map fst (ho_running h)) \<and> distinct (map fst (routes h))
     \<and> (\<forall>info_hash. lookup info_hash (ho_engine h) = map_of (routes h) info_hash)"

lemma routes_fst: "map fst (routes h) = running_hashes h"
  by (simp add: routes_def)

lemma fold_on_engine_dials: "dial_loop now active queue = (a, q, out) \<Longrightarrow> fold on_engine out e = e"
  by (induction now active queue arbitrary: a q out rule: dial_loop.induct) (auto split: if_splits prod.splits)

lemma fold_on_engine_aborts [simp]:
  "fold on_engine (map AbortPeer as) e = e" "fold on_engine (map (AbortPeer \<circ> fst) xs) e = e"
  by (induction as, simp_all) (induction xs, simp_all)

lemma on_input_hash: "on_input io inp s = (s', out) \<Longrightarrow> swarm_hash s' = swarm_hash s \<and> fold on_engine out e = e"
  by (cases "(wi_now io, case inp of SwarmEv ev \<Rightarrow> ev | _ \<Rightarrow> TrackerPeersReceived [], s)" rule: on_swarm_event.cases; cases inp)
    (auto simp: on_input_def on_session_event_def swarm_tick_def enqueue_def start_reannounce_def Let_def fold_on_engine_dials
      split: if_splits prod.splits session_event.splits)

lemma swarm_round_hash: "swarm_round io inp s = (s', out) \<Longrightarrow> swarm_hash s' = swarm_hash s \<and> fold on_engine out e = e"
  by (auto simp: swarm_round_def start_reannounce_def dest!: on_input_hash [of _ _ _ _ _ e] split: prod.splits if_splits)

lemma swarm_stop_engine: "fold on_engine (swarm_stop io s) e = unregister (swarm_hash s) e"
  by (simp add: swarm_stop_def del: map_map)

lemma update_same:
  "map_of xs k = Some t \<Longrightarrow> f t' = f t \<Longrightarrow> map (\<lambda>x. f (snd x)) (AList.update k t' xs) = map (\<lambda>x. f (snd x)) xs"
  by (induction xs) auto

lemma routes_delete:
  "map_of xs k = Some t \<Longrightarrow> distinct (map fst xs) \<Longrightarrow> distinct (map (\<lambda>x. f (snd x)) xs) \<Longrightarrow>
   map_of (map (\<lambda>x. (f (snd x), g (snd x))) (AList.delete k xs)) = (map_of (map (\<lambda>x. (f (snd x), g (snd x))) xs))(f t := None)"
proof (induction xs)
  case (Cons x xs)
  show ?case
  proof (cases "fst x = k")
    case True
    with Cons.prems have "k \<notin> fst ` set xs" "t = snd x" by (auto split: if_splits)
    moreover from this have "AList.delete k xs = xs" by (metis delete_id)
    moreover have "f (snd x) \<notin> fst ` set (map (\<lambda>x. (f (snd x), g (snd x))) xs)" using Cons.prems(3) by (auto simp: image_iff)
    then have "map_of (map (\<lambda>x. (f (snd x), g (snd x))) xs) (f (snd x)) = None" by (simp add: map_of_eq_None_iff del: set_map)
    ultimately show ?thesis using True by (cases x) (auto simp: fun_eq_iff)
  next
    case False
    with Cons.prems have m: "map_of xs k = Some t" by (cases x) auto
    then have "(k, t) \<in> set xs" by (rule map_of_SomeD)
    then have "f t \<noteq> f (snd x)" using Cons.prems(3) by (auto simp: image_iff)
    with Cons.IH [OF m] Cons.prems(2,3) False show ?thesis by (cases x) (auto simp: fun_upd_twist)
  qed
qed simp

lemma host_turn_ok:
  assumes ok: "host_ok h" and fresh: "starts_fresh x h"
  shows "host_ok (fst (host_turn x h))"
proof (cases x)
  case (SwarmStarts k r peers urls info_hash left_hint)
  with ok fresh show ?thesis
    by (auto simp: host_ok_def routes_def start_swarm_def swarm_new_def Let_def map_add_def split: option.splits)
next
  case (SwarmGets k io inp)
  show ?thesis
  proof (cases "map_of (ho_running h) k")
    case None
    then show ?thesis using ok SwarmGets by simp
  next
    case (Some t)
    note d = routes_delete [of "ho_running h" k t "\<lambda>t. swarm_hash (rn_swarm t)" rn_registration]
    show ?thesis
    proof (cases "inp = SwarmShutdown")
      case True
      have "distinct (map fst (AList.delete k (ho_running h)))" using ok by (simp add: host_ok_def distinct_delete)
      moreover have "distinct (map fst (routes (h\<lparr>ho_running := AList.delete k (ho_running h)\<rparr>)))"
        using ok by (auto simp: host_ok_def routes_def AList.delete_eq comp_def intro: distinct_map_filter)
      ultimately show ?thesis
        using d [OF Some] ok SwarmGets Some True by (simp add: host_ok_def routes_def swarm_stop_engine comp_def)
    next
      case False
      obtain s out where r: "swarm_round io inp (rn_swarm t) = (s, out)" by fastforce
      note e = swarm_round_hash [OF r]
      have same: "routes (h\<lparr>ho_running := AList.update k (t\<lparr>rn_swarm := s\<rparr>) (ho_running h)\<rparr>) = routes h"
        unfolding routes_def using e
        by (simp add: update_same [OF Some, of "\<lambda>t. (swarm_hash (rn_swarm t), rn_registration t)"])
      have "k \<in> fst ` set (ho_running h)" using Some by (metis map_of_eq_None_iff option.distinct(1))
      then have keys: "map fst (AList.update k (t\<lparr>rn_swarm := s\<rparr>) (ho_running h)) = map fst (ho_running h)" by (simp add: update_keys)
      show ?thesis using ok SwarmGets Some False r e same keys by (simp add: host_ok_def routes_def)
    qed
  qed
qed

lemma host_run_ok: "host_ok h \<Longrightarrow> all_fresh xs h \<Longrightarrow> host_ok (fst (host_run xs h))"
proof (induction xs arbitrary: h)
  case (Cons x xs)
  from Cons.IH [OF host_turn_ok [OF Cons.prems(1)]] Cons.prems(2) show ?case by (simp add: case_prod_beta Let_def)
qed simp

lemma on_engine_peer_id: "en_peer_id (fold on_engine out e) = en_peer_id e"
proof -
  have "en_peer_id (on_engine x e') = en_peer_id e'" for x e' by (cases x) (simp_all add: unregister_def)
  then show ?thesis by (induction out arbitrary: e) simp_all
qed

lemma host_turn_peer_id: "en_peer_id (ho_engine (fst (host_turn x h))) = en_peer_id (ho_engine h)"
  by (cases x) (simp_all add: start_swarm_def register_def on_engine_peer_id Let_def split: option.split prod.split)

lemma host_run_peer_id: "en_peer_id (ho_engine (fst (host_run xs h))) = en_peer_id (ho_engine h)"
  by (induction xs arbitrary: h) (simp_all add: host_turn_peer_id case_prod_beta Let_def)

text \<open>C38. Peers that connect reach the swarm of the torrent they want, and only while it runs. After any sequence of swarms starting, working and stopping in which no
  torrent is started while it runs, a peer that dials the program and asks for a torrent gets the session of the running swarm of that torrent (and its own dialling code
  accepts the answer, with the extension protocol); if no swarm of that torrent runs, or the peer is the program itself, the connection is
  dropped without an answer.\<close>

theorem inbound_reaches_running:
  assumes start: "en_torrents e = []" and fresh: "all_fresh xs \<lparr>ho_engine = e, ho_running = []\<rparr>"
    and run: "host_run xs \<lparr>ho_engine = e, ho_running = []\<rparr> = (h, out)"
    and len: "length info_hash = 20" "length peer_id = 20" "length (en_peer_id e) = 20"
  shows "(case serve (ho_engine h) (Some (dial_hello info_hash peer_id)) True of
       (Inr (r, ext), Some reply) \<Rightarrow>
         (\<exists>k t. (k, t) \<in> set (ho_running h) \<and> swarm_hash (rn_swarm t) = info_hash \<and> rn_registration t = r)
         \<and> ext \<and> peer_id \<noteq> en_peer_id e \<and> dial (Some reply) info_hash peer_id = Inr True
     | (Inl err, None) \<Rightarrow> (err = ConnSelf \<and> peer_id = en_peer_id e) \<or> (err = ConnUnknownTorrent \<and> info_hash \<notin> set (running_hashes h))
     | _ \<Rightarrow> False)"
proof -
  have "host_ok \<lparr>ho_engine = e, ho_running = []\<rparr>" by (simp add: host_ok_def routes_def lookup_def start)
  from host_run_ok [OF this fresh] have ok: "host_ok h" by (simp add: run)
  have id: "en_peer_id (ho_engine h) = en_peer_id e" using host_run_peer_id [of xs "\<lparr>ho_engine = e, ho_running = []\<rparr>"] by (simp add: run)
  have some: "\<exists>k t. (k, t) \<in> set (ho_running h) \<and> swarm_hash (rn_swarm t) = info_hash \<and> rn_registration t = r"
    if "lookup info_hash (ho_engine h) = Some r" for r
  proof -
    have "map_of (routes h) info_hash = Some r" using ok that by (simp add: host_ok_def)
    then have "(info_hash, r) \<in> set (routes h)" by (rule map_of_SomeD)
    then obtain x where "x \<in> set (ho_running h)" "swarm_hash (rn_swarm (snd x)) = info_hash" "rn_registration (snd x) = r"
      by (auto simp: routes_def)
    then show ?thesis by (metis prod.collapse)
  qed
  have none: "info_hash \<notin> set (running_hashes h)" if "lookup info_hash (ho_engine h) = None"
    using ok that by (simp add: host_ok_def map_of_eq_None_iff flip: set_map routes_fst)
  have "length (en_peer_id (ho_engine h)) = 20" using len id by simp
  from dial_meets_serve [OF len(1,2) this] show ?thesis
    unfolding id using some none by (auto simp del: set_map split: sum.splits option.splits if_splits)
qed

lemma demo_swarm_starts:
  "host_turn (SwarmStarts k r ps urls hash left_hint) \<lparr>ho_engine = e, ho_running = ts\<rparr>
     = (\<lparr>ho_engine = register hash r e,
          ho_running = ts @ [(k, \<lparr>rn_registration = r, rn_swarm = swarm_new ps urls hash (en_peer_id e) (en_port e) left_hint\<rparr>)]\<rparr>,
        map ToDht (if en_dht e \<noteq> None then [StartSearch hash (Some (en_port e))] else []))"
  by (simp add: start_swarm_def register_def Let_def)

lemma swarm_new_hash [simp]: "swarm_hash (swarm_new ps urls hash pid port left_hint) = hash"
  by (simp add: swarm_new_def)

theorem inbound_reaches_running_witness:
  "\<forall>r r'. \<exists>h out reply.
     host_run [SwarmStarts 1 r [] [] (replicate 20 1) 5, SwarmStarts 2 r' [] [] (replicate 20 2) 5, SwarmGets 2 demo_swarm_io SwarmShutdown]
       \<lparr>ho_engine = demo_engine, ho_running = []\<rparr> = (h, out)
     \<and> serve (ho_engine h) (Some (dial_hello (replicate 20 1) (replicate 20 3))) True = (Inr (r, True), Some reply)
     \<and> dial (Some reply) (replicate 20 1) (replicate 20 3) = Inr True"
proof (intro allI)
  fix r r'
  let ?xs = "[SwarmStarts 1 r [] [] (replicate 20 1) 5, SwarmStarts 2 r' [] [] (replicate 20 2) 5, SwarmGets 2 demo_swarm_io SwarmShutdown]"
  let ?h0 = "\<lparr>ho_engine = demo_engine, ho_running = []\<rparr>"
  have d: "replicate 20 (1 :: byte) \<noteq> replicate 20 2" "replicate 20 (3 :: byte) \<noteq> replicate 20 9" by simp_all
  obtain h out where run: "host_run ?xs ?h0 = (h, out)" by fastforce
  have len: "length (replicate 20 (1 :: byte)) = 20" "length (replicate 20 (3 :: byte)) = 20" "length (en_peer_id demo_engine) = 20"
    and e: "en_torrents demo_engine = []" "en_peer_id demo_engine = replicate 20 9"
    by (simp_all add: demo_engine_def)
  have fresh: "all_fresh ?xs ?h0" using d by (simp add: demo_swarm_starts del: host_turn.simps(1))
  have l: "lookup (replicate 20 1) (ho_engine h) = Some r" "map snd (ho_running h) = [\<lparr>rn_registration = r, rn_swarm =
      swarm_new [] [] (replicate 20 1) (en_peer_id demo_engine) (en_port demo_engine) 5\<rparr>]"
    using run d by (auto simp: demo_swarm_starts swarm_stop_engine simp del: host_turn.simps(1))
  note I = inbound_reaches_running [OF e(1) fresh run len]
  obtain x y where xy: "serve (ho_engine h) (Some (dial_hello (replicate 20 1) (replicate 20 3))) True = (x, y)" by fastforce
  have "x = Inr (r, True)" "\<exists>reply. y = Some reply \<and> dial (Some reply) (replicate 20 1) (replicate 20 3) = Inr True"
    using I [unfolded xy] l d e by (auto split: sum.splits option.splits)
  then show "\<exists>h out reply. host_run ?xs ?h0 = (h, out)
     \<and> serve (ho_engine h) (Some (dial_hello (replicate 20 1) (replicate 20 3))) True = (Inr (r, True), Some reply)
     \<and> dial (Some reply) (replicate 20 1) (replicate 20 3) = Inr True"
    using run xy by blast
qed

section \<open>A torrent that is started twice\<close>

text \<open>The tasks that starting a list of torrents spawns.\<close>

lemma start_all_spawns:
  "start_all xs a = (a', out) \<Longrightarrow> j < length xs \<Longrightarrow>
   SpawnTask (da_next_id a + j) (fst (xs ! j)) (fst (snd (xs ! j))) (snd (snd (xs ! j))) \<in> set out"
proof (induction xs a arbitrary: a' out j rule: start_all.induct)
  case (2 src dir sel rest a)
  obtain a1 out1 where 1: "start_core src dir sel a = (a1, out1)" by fastforce
  obtain a2 out2 where 2: "start_all rest a1 = (a2, out2)" by fastforce
  have n: "da_next_id a1 = Suc (da_next_id a)" and s: "SpawnTask (da_next_id a) src dir sel \<in> set out1"
    using 1 by (auto simp: start_core_def Let_def)
  show ?case
  proof (cases j)
    case 0
    then show ?thesis using "2.prems" 1 2 s by auto
  next
    case (Suc i)
    with "2.prems" 1 2 have "SpawnTask (da_next_id a1 + i) (fst (rest ! i)) (fst (snd (rest ! i))) (snd (snd (rest ! i))) \<in> set out2"
      by (intro "2.IH" [OF 1 [symmetric] refl]) auto
    then show ?thesis using "2.prems" 1 2 n Suc by auto
  qed
qed simp

text \<open>C39. A torrent file that is given on the command line although the saved session has it is started twice, as two tasks. The two swarms share one registration: when the
  first of them stops, the registration of the second is gone, and peers that connect are turned away although a swarm of the torrent is running.\<close>

theorem duplicate_torrent_unreachable:
  assumes saved: "entry \<in> set (ss_entries store)" "se_source entry = SourceFile p"
    and run: "run_dashboard store (Some p) None dir = (a, out)"
    and len: "length info_hash = 20" "length peer_id = 20" "peer_id \<noteq> en_peer_id e"
  shows "(\<exists>i j. i \<noteq> j \<and> SpawnTask i (SourceFile p) (se_output_dir entry) (se_selected_files entry) \<in> set out
       \<and> SpawnTask j (SourceFile p) dir None \<in> set out)
     \<and> (\<exists>h log. host_run [SwarmStarts 1 r1 [] [] info_hash n, SwarmStarts 2 r2 [] [] info_hash n, SwarmGets 1 io SwarmShutdown]
          \<lparr>ho_engine = e, ho_running = []\<rparr> = (h, log)
          \<and> map fst (ho_running h) = [2] \<and> running_hashes h = [info_hash]
          \<and> serve (ho_engine h) (Some (dial_hello info_hash peer_id)) True = (Inl ConnUnknownTorrent, None))"
proof
  let ?xs = "map (\<lambda>e. (se_source e, se_output_dir e, se_selected_files e)) (ss_entries store) @ [(SourceFile p, dir, None)]"
  obtain k where k: "k < length (ss_entries store)" "ss_entries store ! k = entry" using saved(1) by (auto simp: in_set_conv_nth)
  obtain a0 out0 where 0: "app_new store = (a0, out0)" by fastforce
  obtain out1 where 1: "start_all ?xs a0 = (a, out1)" "out = out0 @ out1"
    using run 0 by (auto simp: run_dashboard_def split: prod.splits)
  have "SpawnTask (da_next_id a0 + k) (SourceFile p) (se_output_dir entry) (se_selected_files entry) \<in> set out"
    "SpawnTask (da_next_id a0 + length (ss_entries store)) (SourceFile p) dir None \<in> set out"
    using start_all_spawns [OF 1(1), of k] start_all_spawns [OF 1(1), of "length (ss_entries store)"] k saved(2) 1(2)
    by (auto simp: nth_append)
  then show "\<exists>i j. i \<noteq> j \<and> SpawnTask i (SourceFile p) (se_output_dir entry) (se_selected_files entry) \<in> set out
       \<and> SpawnTask j (SourceFile p) dir None \<in> set out"
    using k(1) by (metis add_left_cancel less_irrefl)
  let ?run = "host_run [SwarmStarts 1 r1 [] [] info_hash n, SwarmStarts 2 r2 [] [] info_hash n, SwarmGets 1 io SwarmShutdown]
    \<lparr>ho_engine = e, ho_running = []\<rparr>"
  obtain h log where r: "?run = (h, log)" by fastforce
  have h: "ho_engine h = unregister info_hash (register info_hash r2 (register info_hash r1 e))" "map fst (ho_running h) = [2]"
    "running_hashes h = [info_hash]"
    using r by (auto simp: demo_swarm_starts swarm_stop_engine simp del: host_turn.simps(1))
  have i: "en_peer_id (ho_engine h) = en_peer_id e" by (simp add: h unregister_def register_def)
  have "serve (ho_engine h) (Some (dial_hello info_hash peer_id)) True = (Inl ConnUnknownTorrent, None)"
    using len i h(1) by (simp add: serve_def dial_hello_def route_def handshake_parse_print handshake_new_wf)
  with r h show "\<exists>h log. ?run = (h, log) \<and> map fst (ho_running h) = [2] \<and> running_hashes h = [info_hash]
      \<and> serve (ho_engine h) (Some (dial_hello info_hash peer_id)) True = (Inl ConnUnknownTorrent, None)"
    by - (intro exI conjI, assumption+)
qed

definition saved_store :: session_store where
  "saved_store = \<lparr>ss_entries = [\<lparr>se_source = SourceFile [[7]], se_output_dir = [[8]], se_is_paused = False, se_selected_files = None\<rparr>],
     ss_download_limit_kib = 0, ss_upload_limit_kib = 0\<rparr>"

theorem duplicate_torrent_unreachable_witness:
  "\<exists>a out. run_dashboard saved_store (Some [[7]]) None [[9]] = (a, out)
     \<and> (\<exists>i j. i \<noteq> j \<and> SpawnTask i (SourceFile [[7]]) [[8]] None \<in> set out \<and> SpawnTask j (SourceFile [[7]]) [[9]] None \<in> set out)"
proof -
  let ?e = "\<lparr>se_source = SourceFile [[7]], se_output_dir = [[8]], se_is_paused = False, se_selected_files = None\<rparr>"
  obtain a out where r: "run_dashboard saved_store (Some [[7]]) None [[9]] = (a, out)" by fastforce
  have "?e \<in> set (ss_entries saved_store)" "se_source ?e = SourceFile [[7]]" by (simp_all add: saved_store_def)
  moreover have "length (replicate 20 (1 :: byte)) = 20" "length (replicate 20 (3 :: byte)) = 20" "replicate 20 (3 :: byte) \<noteq> en_peer_id demo_engine"
    by (simp_all add: demo_engine_def)
  ultimately have "\<exists>i j. i \<noteq> j \<and> SpawnTask i (SourceFile [[7]]) (se_output_dir ?e) (se_selected_files ?e) \<in> set out
      \<and> SpawnTask j (SourceFile [[7]]) [[9]] None \<in> set out"
    using duplicate_torrent_unreachable [OF _ _ r] by blast
  then show ?thesis using r by simp
qed

end
