(* ===== verification/Cli.thy ===== *)
theory Cli
  imports Dashboard Engine Lifetime
begin

text \<open>
  The program without its window: the command line (\<open>main.rs\<close>), the plain listener it may start (\<open>net/listener.rs\<close>) and the headless downloader
  (\<open>examples/download.rs\<close>). Reading the arguments (clap) and logging are outside; what is printed of the results is an output.
\<close>

section \<open>The command line\<close>

record args =
  ar_output :: path
  ar_torrent :: "path option"
  ar_listen_port :: "nat option"
  ar_announce_tracker :: bool
  ar_cli :: bool
  ar_magnet :: "rstring option"

record cli_env =
  ce_win :: bool
  ce_sha1 :: "bytes \<Rightarrow> bytes"
  ce_de_torrent :: "bytes \<Rightarrow> string + raw_torrent"
  ce_file_len :: "path \<Rightarrow> string + nat"
  ce_file_bytes :: "path \<Rightarrow> string + bytes"
  ce_answers :: "joined list"
  ce_binds :: bool

datatype cli_out =
    PrintedMeta torrent_meta
  | CliAnnounced "rstring list" announce_params
  | PrintedPeers nat "socket_addr list" nat
  | SkippedAnnounce
  | Listening nat bytes bytes

datatype cli_error = NoTorrentGiven | CliBadTorrent torrent_parse_error | CliAnnounceFailed tracker_error | CliListenFailed

text \<open>\<open>start_listener\<close> returns only if it cannot bind its port.\<close>

datatype cli_end = CliDone | CliFailed cli_error | CliListens

definition DEFAULT_PORT :: nat where "DEFAULT_PORT = 6881"

definition cli_port :: "args \<Rightarrow> nat" where
  "cli_port a = (case ar_listen_port a of Some port \<Rightarrow> port | None \<Rightarrow> DEFAULT_PORT)"

definition cli_announce :: "cli_env \<Rightarrow> bytes \<Rightarrow> args \<Rightarrow> torrent_meta \<Rightarrow> cli_error option \<times> cli_out list" where
  "cli_announce E peer_id a meta =
     (if \<not> ar_announce_tracker a then (None, [])
      else if tm_trackers meta = [] then (None, [SkippedAnnounce])
      else
        let params = \<lparr>ap_info_hash = tm_info_hash meta, ap_peer_id = peer_id, ap_port = cli_port a, ap_uploaded = 0, ap_downloaded = 0,
              ap_left = total_size meta, ap_event = Some (lit ''started'')\<rparr>
        in case fst (announce_all (tm_trackers meta) (ce_answers E)) of
             Inl e \<Rightarrow> (Some (CliAnnounceFailed e), [CliAnnounced (tm_trackers meta) params])
           | Inr peers \<Rightarrow>
               (None, [CliAnnounced (tm_trackers meta) params, PrintedPeers (length peers) (take 20 peers) (length peers - 20)]))"

definition run_cli :: "cli_env \<Rightarrow> bytes \<Rightarrow> args \<Rightarrow> cli_end \<times> cli_out list" where
  "run_cli E peer_id a =
     (case ar_torrent a of
        None \<Rightarrow> (CliFailed NoTorrentGiven, [])
      | Some p \<Rightarrow>
          (case parse_torrent_file (ce_win E) (ce_sha1 E) (ce_de_torrent E) (ce_file_len E p) (ce_file_bytes E p) of
             Inl e \<Rightarrow> (CliFailed (CliBadTorrent e), [])
           | Inr meta \<Rightarrow>
               (case cli_announce E peer_id a meta of
                  (Some e, out) \<Rightarrow> (CliFailed e, PrintedMeta meta # out)
                | (None, out) \<Rightarrow>
                    (case ar_listen_port a of
                       None \<Rightarrow> (CliDone, PrintedMeta meta # out)
                     | Some port \<Rightarrow>
                         if ce_binds E then (CliListens, PrintedMeta meta # out @ [Listening port (tm_info_hash meta) peer_id])
                         else (CliFailed CliListenFailed, PrintedMeta meta # out)))))"

text \<open>\<open>main\<close>: the window if the program has one and it is not refused.\<close>

datatype main_end = RanWindow "app \<times> app_out list" | RanCli "cli_end \<times> cli_out list"

definition main_program :: "bool \<Rightarrow> session_store \<Rightarrow> cli_env \<Rightarrow> bytes \<Rightarrow> args \<Rightarrow> main_end" where
  "main_program gui store E peer_id a =
     (if gui \<and> \<not> ar_cli a then RanWindow (run_dashboard store (ar_torrent a) (ar_magnet a) (ar_output a))
      else RanCli (run_cli E peer_id a))"

section \<open>The plain listener\<close>

datatype greeting = GreetWriteFailed | GreetReadFailed | GreetBadHandshake handshake_error | GreetOtherSwarm | GreetCompleted

definition handle_peer :: "bytes \<Rightarrow> bytes \<Rightarrow> bool \<Rightarrow> bytes option \<Rightarrow> greeting \<times> bytes list" where
  "handle_peer info_hash peer_id written incoming =
     (let local = handshake_as_bytes (handshake_new info_hash peer_id)
      in if \<not> written then (GreetWriteFailed, [])
         else case incoming of
           None \<Rightarrow> (GreetReadFailed, [local])
         | Some bs \<Rightarrow>
             (case handshake_from_bytes bs of
                Inl e \<Rightarrow> (GreetBadHandshake e, [local])
              | Inr remote \<Rightarrow> (if hs_info_hash remote \<noteq> info_hash then GreetOtherSwarm else GreetCompleted, [local])))"

datatype listen_event = PeerAccepted socket_addr bool "bytes option" | PeerAcceptError

fun start_listener :: "bytes \<Rightarrow> bytes \<Rightarrow> listen_event list \<Rightarrow> (socket_addr \<times> greeting \<times> bytes list) list" where
  "start_listener info_hash peer_id [] = []"
| "start_listener info_hash peer_id (PeerAcceptError # es) = start_listener info_hash peer_id es"
| "start_listener info_hash peer_id (PeerAccepted addr written incoming # es) =
     (addr, handle_peer info_hash peer_id written incoming) # start_listener info_hash peer_id es"

section \<open>The headless downloader\<close>

text \<open>\<open>str::parse\<close> of an unsigned integer: digits, after a plus sign or not, whose value is in range.\<close>

definition digits_value :: "nat list \<Rightarrow> nat" where
  "digits_value ds = foldl (\<lambda>acc c. acc * 10 + (c - 48)) 0 ds"

definition parse_unsigned :: "nat \<Rightarrow> rstring \<Rightarrow> nat option" where
  "parse_unsigned lim s =
     (let ds = (case s of c # cs \<Rightarrow> if c = 43 then cs else s | [] \<Rightarrow> [])
      in if ds \<noteq> [] \<and> list_all (\<lambda>c. 48 \<le> c \<and> c \<le> 57) ds \<and> digits_value ds \<le> lim then Some (digits_value ds) else None)"

record download_args =
  da_uri :: rstring
  da_output :: rstring
  da_seconds :: nat
  da_chosen :: "nat list option"

definition parse_chosen :: "rstring \<Rightarrow> nat list" where
  "parse_chosen list = List.map_filter (\<lambda>i. parse_unsigned U64_MAX (trim i)) (split_on (\<lambda>c. c = 44) list)"

definition download_parse_args :: "rstring list \<Rightarrow> download_args option" where
  "download_parse_args argv =
     (case argv of
        [] \<Rightarrow> None
      | uri # rest \<Rightarrow>
          Some \<lparr>da_uri = uri, da_output = (case rest of out # _ \<Rightarrow> out | [] \<Rightarrow> lit ''download-test''),
            da_seconds = (case rest of _ # n # _ \<Rightarrow> (case parse_unsigned U64_MAX n of Some v \<Rightarrow> v | None \<Rightarrow> 60) | _ \<Rightarrow> 60),
            da_chosen = (case rest of _ # _ # l # _ \<Rightarrow> Some (parse_chosen l) | _ \<Rightarrow> None)\<rparr>)"

text \<open>What is made of the metadata that was fetched for the link.\<close>

definition download_meta :: "bool \<Rightarrow> (bytes \<Rightarrow> bytes) \<Rightarrow> (bytes \<Rightarrow> string + raw_info) \<Rightarrow> magnet \<Rightarrow> bytes \<Rightarrow> torrent_parse_error + torrent_meta" where
  "download_meta win sha1 de_info mag fetched =
     (case parse_torrent_metadata_bytes win sha1 de_info fetched (mg_info_hash mag) of
        Inl e \<Rightarrow> Inl e
      | Inr meta \<Rightarrow> Inr (with_extra_trackers meta (mg_trackers mag)))"

definition download_flags :: "torrent_meta \<Rightarrow> nat list option \<Rightarrow> bool list option" where
  "download_flags meta chosen =
     (case (tm_files meta, chosen) of
        (Some files, Some c) \<Rightarrow> Some (map (\<lambda>i. i \<in> set c) [0..<length files])
      | _ \<Rightarrow> None)"

definition download_selection :: "torrent_meta \<Rightarrow> bool list option \<Rightarrow> selection" where
  "download_selection meta flags =
     (case (tm_files meta, flags) of
        (Some files, Some fl) \<Rightarrow> sel_from_files files fl (tm_piece_length meta) (length (tm_pieces meta))
      | _ \<Rightarrow> sel_all (length (tm_pieces meta)))"

text \<open>The disk of the coordinator's thread and the state it starts with; no progress of an earlier run is loaded. \<open>E\<close> gives the output directory and the resume file in it.\<close>

definition download_start :: "driver_env \<Rightarrow> torrent_meta \<Rightarrow> bool list option \<Rightarrow> instant \<Rightarrow> filesystem \<Rightarrow> (io_error + coordinator) \<times> filesystem" where
  "download_start E meta flags now fs =
     (case init_with_selection (dv_open E) (cc_env (dv_cfg E)) (cc_win (dv_cfg E)) (dv_output_dir E)
              (case tm_total_length meta of Some t \<Rightarrow> t | None \<Rightarrow> 0) (tm_piece_length meta) (tm_files meta) (tm_name meta) flags fs of
        (Inl e, fs') \<Rightarrow> (Inl e, fs')
      | (Inr d, fs') \<Rightarrow>
          (Inr \<lparr>co_state = DownloadingData (with_selection (tm_pieces_count meta) [] (download_selection meta flags)) d False False,
                co_fs = fs', co_last_persist = now\<rparr>, fs'))"

text \<open>The loop that waits for the end: with each turn come the time since the start and what arrived within half a second.\<close>

fun download_loop :: "nat \<Rightarrow> (duration \<times> ui_message option) list \<Rightarrow> nat \<times> nat \<Rightarrow> (nat \<times> nat) \<times> bool" where
  "download_loop seconds [] counts = (counts, False)"
| "download_loop seconds ((elapsed, msg) # rest) (down, up) =
     (if elapsed \<ge> secs seconds then ((down, up), True)
      else case msg of
        Some (UiBytesTransferred rx tx) \<Rightarrow> download_loop seconds rest (down + rx, up + tx)
      | Some UiDownloadComplete \<Rightarrow> ((down, up), True)
      | _ \<Rightarrow> download_loop seconds rest (down, up))"

section \<open>Properties\<close>

lemma greets_dialer:
  "length info_hash = 20 \<Longrightarrow> length peer_id = 20 \<Longrightarrow> length wanted = 20 \<Longrightarrow> length dialer = 20 \<Longrightarrow>
   handle_peer info_hash peer_id True (Some (dial_hello wanted dialer))
     = (if wanted = info_hash then GreetCompleted else GreetOtherSwarm, [dial_hello info_hash peer_id])
   \<and> dial (Some (dial_hello info_hash peer_id)) wanted dialer = check_remote (handshake_new info_hash peer_id) wanted dialer"
  by (simp add: handle_peer_def dial_hello_def dial_def handshake_parse_print handshake_new_wf Let_def)

lemma download_flags_length: "length (flags_of meta (download_flags meta chosen)) = length (torrent_files meta)"
  by (auto simp: flags_of_def download_flags_def torrent_files_def split: option.splits)

lemma download_unservable:
  assumes "0 < tm_piece_length meta" "sum_list (map tf_length (torrent_files meta)) < 2 ^ 64" "p < length (tm_pieces meta)"
  shows "bf_has (sel_unservable (download_selection meta (download_flags meta chosen))) p
    \<longleftrightarrow> holds_byte_of (tm_piece_length meta) (torrent_files meta) (map Not (flags_of meta (download_flags meta chosen))) p"
proof (cases "download_flags meta chosen")
  case None
  have "\<not> bf_has (sel_unservable (sel_all n)) p" for n by (simp add: sel_all_def)
  then show ?thesis by (auto simp: None download_selection_def flags_of_def holds_byte_of_def split: option.splits)
next
  case (Some flags)
  then obtain files where f: "tm_files meta = Some files" by (auto simp: download_flags_def split: option.splits)
  have "max (tm_piece_length meta) (Suc 0) = tm_piece_length meta" using assms(1) by simp
  with assms(2,3) show ?thesis
    by (simp add: download_selection_def Some f torrent_files_def flags_of_def sel_from_files_eq pieces_of_files_props)
qed

text \<open>C40. The headless downloader starts with a consistent state: the metadata it accepts has the hash the link asks for, the coordinator it starts claims
  no piece, its selection and its disk agree about which files are taken (whatever indices are given on its command line), and so every piece
  its coordinator ever serves is verified.\<close>

theorem download_starts_verified:
  assumes got: "download_meta win sha1 de_info mag fetched = Inr meta" and st: "startable E meta"
    and start: "download_start E meta (download_flags meta chosen) now fs = (Inr c, fs')"
  shows "sha1 fetched = mg_info_hash mag \<and> tm_info_hash meta = mg_info_hash mag
    \<and> coord_ok (facts_of E meta) (flags_of meta (download_flags meta chosen)) c
    \<and> (\<exists>m. manager_of (co_state c) = Some m \<and> mgr_completed m = {})"
proof -
  let ?chosen = "download_flags meta chosen"
  obtain m0 where m0: "parse_torrent_metadata_bytes win sha1 de_info fetched (mg_info_hash mag) = Inr m0" "meta = with_extra_trackers m0 (mg_trackers mag)"
    using got by (auto simp: download_meta_def split: sum.splits)
  have h: "sha1 fetched = mg_info_hash mag" "tm_info_hash meta = mg_info_hash mag"
    using parse_torrent_metadata_bytes_verified [OF m0(1)] by (simp_all add: m0(2) with_extra_trackers_other)
  have t: "(case tm_total_length meta of Some t \<Rightarrow> t | None \<Rightarrow> 0) = total_size meta"
    using st by (auto simp: startable_def layout_known_def total_size_def)
  obtain d where d: "init_with_selection (dv_open E) (cc_env (dv_cfg E)) (cc_win (dv_cfg E)) (dv_output_dir E) (total_size meta)
      (tm_piece_length meta) (tm_files meta) (tm_name meta) ?chosen fs = (Inr d, fs')"
    and c: "c = \<lparr>co_state = DownloadingData (with_selection (tm_pieces_count meta) [] (download_selection meta ?chosen)) d False False,
      co_fs = fs', co_last_persist = now\<rparr>"
    using start by (auto simp: download_start_def t split: prod.splits sum.splits)
  note O = opened_files [OF st d download_flags_length] and S = startableD [OF st]
  have "store_inv (facts_of E meta) (flags_of meta ?chosen)
      (with_selection (length (tf_hashes (facts_of E meta))) [] (download_selection meta ?chosen)) d fs'"
    using O S by (intro fresh_store_inv) (simp_all add: download_unservable)
  then have "coord_ok (facts_of E meta) (flags_of meta ?chosen) c" by (simp add: coord_ok_def c S(1))
  then show ?thesis using h by (simp add: c manager_of_def with_selection_def Let_def)
qed

definition fetched_meta :: torrent_meta where
  "fetched_meta = \<lparr>tm_announce = [], tm_trackers = [lit ''http://u''], tm_name = [97], tm_piece_length = 16384, tm_pieces_count = 1,
     tm_pieces = [replicate 20 0], tm_total_length = Some 5, tm_files = None, tm_info_hash = [100, 101]\<rparr>"

definition demo_magnet :: magnet where
  "demo_magnet = \<lparr>mg_info_hash = [100, 101], mg_name = None, mg_trackers = [lit ''http://u'', lit ''wss://v'']\<rparr>"

lemma one_chunk: "chunks_exact 20 (replicate 20 (0 :: byte)) = [replicate 20 0]" by (simp add: chunks_exact.simps)

lemma fetched_meta_parsed: "download_meta False (take 20) (\<lambda>_. Inr demo_info) demo_magnet [100, 101] = Inr fetched_meta"
proof -
  have "check_bencode_depth [100, 101] = Inr ()"
    by (simp add: check_bencode_depth_def check_loop.simps U64_MAX_def MAX_BENCODE_DEPTH_def Let_def)
  moreover have "build_meta False [] demo_info [100, 101] = Inr (fetched_meta\<lparr>tm_trackers := []\<rparr>)"
    by (simp add: build_meta_def demo_info_def MAX_PIECE_LENGTH_def sanitize_path_component_def lit_def utf8_len_def utf8_len1_def
      MAX_COMPONENT_LEN_def raw_total_length_def div_ceil_def Let_def one_chunk fetched_meta_def meta_new_def
      is_supported_tracker_def starts_with_def as_u32_def)
  ultimately have "parse_torrent_metadata_bytes False (take 20) (\<lambda>_. Inr demo_info) [100, 101] [100, 101] = Inr (fetched_meta\<lparr>tm_trackers := []\<rparr>)"
    by (simp add: parse_torrent_metadata_bytes_def MAX_TORRENT_SIZE_def Let_def)
  then show ?thesis
    by (simp add: download_meta_def demo_magnet_def fetched_meta_def is_supported_tracker_def starts_with_def lit_def)
qed

lemma fetched_path: "build_file_path False [] [97] False [[97]] = Inr [[97]]" by code_simp

lemma fetched_startable: "startable demo_driver fetched_meta"
proof -
  have t: "torrent_files fetched_meta = [\<lparr>tf_length = 5, tf_path = [[97]]\<rparr>]"
    by (simp add: torrent_files_def fetched_meta_def total_size_def)
  have p: "file_path demo_driver fetched_meta 0 = Inr [[97]]"
    by (simp add: file_path_def t fetched_path demo_driver_def demo_cfg_def) (simp add: fetched_meta_def fetched_path)
  have "file_path demo_driver fetched_meta ` {..<length (torrent_files fetched_meta)} = {Inr [[97]]}"
    by (simp add: t p lessThan_Suc)
  then show ?thesis
    by (simp add: startable_def t) (simp add: layout_known_def fetched_meta_def demo_driver_def demo_cfg_def total_size_def
        U64_MAX_def div_ceil_def as_u32_def MAX_PIECES_def tmp_sibling_def lit_def)
qed

lemma fetched_flags: "download_flags fetched_meta chosen = None"
  by (simp add: download_flags_def fetched_meta_def)

lemma fetched_starts: "\<exists>c fs'. download_start demo_driver fetched_meta (download_flags fetched_meta chosen) now fs = (Inr c, fs')"
proof -
  have nf: "\<not> call_fails no_faults fs" for fs by (simp add: call_fails_def no_faults_def)
  obtain fs1 where "open_preallocated no_faults [[97]] 5 (call fs) = (Inr (), fs1)" using open_no_faults by blast
  then have "\<exists>d fs'. init_with_selection (open_preallocated no_faults) no_faults False [] 5 16384 None [97] None fs = (Inr d, fs')"
    by (simp add: init_with_selection_def plan_files_def fetched_path nf is_selected_def)
  then obtain d fs' where "init_with_selection (open_preallocated no_faults) no_faults False [] 5 16384 None [97] None fs = (Inr d, fs')" by blast
  moreover have "tm_total_length fetched_meta = Some 5" "tm_piece_length fetched_meta = 16384" "tm_files fetched_meta = None" "tm_name fetched_meta = [97]"
    by (simp_all add: fetched_meta_def)
  moreover have "dv_output_dir demo_driver = []" "cc_win (dv_cfg demo_driver) = False" by (simp_all add: demo_driver_def demo_cfg_def)
  ultimately show ?thesis by (simp add: download_start_def fetched_flags)
qed

theorem download_starts_verified_witness:
  "\<exists>c fs'. download_start demo_driver fetched_meta (download_flags fetched_meta (Some [0, 7])) 0 fs_empty = (Inr c, fs')
     \<and> tm_info_hash fetched_meta = mg_info_hash demo_magnet
     \<and> coord_ok (facts_of demo_driver fetched_meta) (flags_of fetched_meta (download_flags fetched_meta (Some [0, 7]))) c"
proof -
  obtain c fs' where r: "download_start demo_driver fetched_meta (download_flags fetched_meta (Some [0, 7])) 0 fs_empty = (Inr c, fs')"
    using fetched_starts by blast
  with download_starts_verified [OF fetched_meta_parsed fetched_startable r] show ?thesis by blast
qed

end
