(* ===== verification/Spec2Isabelle.thy ===== *)
theory Spec2Isabelle
  imports Prelude Bitfield Torrent Bencode BencodeSpec Chunks Assembler MetadataAssembler Selection
    Manager Filesystem Disk DiskSpec Resume Wire
    PieceStore Pex Coordinator CoordinatorSpec CoordinatorRun Session SessionSpec SessionSafety
    Routing DhtServer DhtManager DhtSearch Tracker MetadataFetch Swarm Engine Magnet Shaper Driver Lifetime Dashboard Portmap
    Transport MetadataSources SwarmTasks Cli
begin

text \<open>
  Verification of tortor, a BitTorrent client in Rust.

  \<^bold>\<open>The program.\<close> A window (\<open>ui/dashboard.rs\<close>) starts one task per torrent. The task loads the torrent (\<open>core/bencode.rs\<close>, \<open>net/magnet.rs\<close>, for a magnet link
  \<open>net/metadata.rs\<close>), opens its files (\<open>core/disk.rs\<close>, \<open>core/disk_uring.rs\<close>), reads its resume data (\<open>core/resume.rs\<close>) and starts a coordinator
  (\<open>core/coordinator.rs\<close>), the single owner of the piece manager (\<open>core/manager.rs\<close>) and the disk, and a swarm (\<open>net/swarm.rs\<close>), which dials peers found by trackers
  (\<open>net/tracker.rs\<close>), the DHT (\<open>net/dht\<close>) and peer exchange (\<open>net/pex.rs\<close>). Each connection runs a session (\<open>net/session.rs\<close>) that asks the coordinator for work, assembles
  pieces (\<open>core/assembler.rs\<close>), checks their hash and serves blocks. One engine (\<open>net/engine.rs\<close>) accepts the inbound peers of all torrents. Without its window the program is a command line (\<open>main.rs\<close>) or a
  headless downloader (\<open>examples/download.rs\<close>).

  \<^bold>\<open>How it is modelled.\<close> A struct is a record, an enum a datatype, an operation a function that returns the new state; every error branch is a value. Asynchronous
  loops are functions of the list of their inputs (what \<open>select!\<close> delivered, in order), and what they send, write and spawn is a list of effects, so
  a theorem about all lists is about all interleavings. Machine integers are naturals with the wrap, saturation or overflow check written out, or words where bits
  count. A clock reading is an argument. Code outside the repository (serde, SHA-1, sockets, TLS, URL parsing, random numbers, the platform's
  directories, UPnP) is an argument of the definitions that use it. The file system (\<open>Filesystem\<close>) has a cache and a stable store; every call can fail, every
  transfer can be short, a \<open>write_all\<close> of \<open>tokio\<close> can be lost without an error, a rename may not survive a crash, and a crash leaves the stable store.

  \<^bold>\<open>Theories.\<close>
  \<^item> \<open>Prelude\<close>, \<open>Chunks\<close>: shared types, lists, bytes, arithmetic; collections of simplification rules.
  \<^item> \<open>Bitfield\<close> (\<open>core/bitfield.rs\<close>), \<open>Torrent\<close> (\<open>core/torrent.rs\<close>): bitfields, metadata, path sanitising and that built paths stay inside the download directory.
  \<^item> \<open>Bencode\<close>, \<open>BencodeSpec\<close> (\<open>core/bencode.rs\<close>): the scanners and the validation; what is accepted is well formed and has the right info hash.
  \<^item> \<open>Assembler\<close>, \<open>MetadataAssembler\<close>, \<open>Selection\<close>, \<open>Manager\<close> (the files of these names in \<open>core\<close>): reassembly in any order, wanted and unservable pieces, the invariant of the
    manager in all reachable states, the choice of work, progress with one seed.
  \<^item> \<open>Filesystem\<close>, \<open>Disk\<close>, \<open>DiskSpec\<close>, \<open>PieceStore\<close> (\<open>core/disk.rs\<close>, \<open>core/disk_uring.rs\<close>, \<open>core/disk_io.rs\<close>): both backends refine one byte string;
    the locale \<open>piece_store\<close> is the contract of \<open>AsyncDiskIO\<close>, interpreted for both.
  \<^item> \<open>Resume\<close> (\<open>core/fsutil.rs\<close>, \<open>core/resume.rs\<close>, \<open>core/session_store.rs\<close>): atomic replacement under crashes, round trips, migration.
  \<^item> \<open>Wire\<close> (\<open>net/wire.rs\<close>, \<open>net/handshake.rs\<close>), \<open>Pex\<close> (\<open>net/pex.rs\<close>): the incremental decoder equals a reference parser for every fragmentation.
  \<^item> \<open>Coordinator\<close>, \<open>CoordinatorSpec\<close>, \<open>CoordinatorRun\<close> (\<open>core/coordinator.rs\<close>): every message; the invariant of the store, verified pieces, durable progress.
  \<^item> \<open>Session\<close>, \<open>SessionSpec\<close>, \<open>SessionSafety\<close> (\<open>net/session.rs\<close>): the whole session; a session that ends by itself gives its work back, slots are
    bounded (\<open>sharing\<close>: all tasks of a torrent, aborted ones too), uploads are asked for.
  \<^item> \<open>Routing\<close>, \<open>DhtServer\<close>, \<open>DhtManager\<close>, \<open>DhtSearch\<close> (\<open>net/dht\<close>): the routing table, the UDP server, the node and the lookup.
  \<^item> \<open>Tracker\<close> (\<open>net/tracker.rs\<close>), \<open>MetadataFetch\<close>, \<open>MetadataSources\<close> (\<open>net/metadata.rs\<close>), \<open>Magnet\<close> (\<open>net/magnet.rs\<close>), \<open>Swarm\<close> (\<open>net/swarm.rs\<close>), \<open>Engine\<close> (\<open>net/engine.rs\<close>,
    \<open>net/inbound.rs\<close>, \<open>net/probe.rs\<close>: binding of the ports, the acceptors, both ends of the handshake), \<open>Shaper\<close> (\<open>net/shaper.rs\<close>), \<open>Transport\<close> (\<open>net/transport.rs\<close>), \<open>Portmap\<close> (\<open>net/portmap.rs\<close>, \<open>core/peer_id.rs\<close>): where peers come from, how they are connected, limited and announced.
  \<^item> \<open>SwarmTasks\<close> (\<open>net/swarm.rs\<close>, \<open>net/engine.rs\<close>): the swarms of several torrents on the one engine; inbound peers reach the running swarm of their torrent.
  \<^item> \<open>Driver\<close>, \<open>Dashboard\<close> (\<open>ui/dashboard.rs\<close>): the task of a torrent and the state behind the window. \<open>Cli\<close> (\<open>main.rs\<close>, \<open>net/listener.rs\<close>, \<open>examples/download.rs\<close>): the
    program without it.
  \<^item> \<open>Lifetime\<close>: a torrent over several runs of the program. \<open>lifetime\<close> is inductive: a first start, turns of the coordinator, crashes after which the task starts again from
    what is on stable storage. The state stays correct, and the pieces of the resume file survive.
  \<^item> this theory: sessions and coordinator together. \<open>program_life\<close> is a lifetime whose messages come from sessions and from the user, and the theorems
    say that every block it hands out and every piece it may serve is verified. \<open>Driver.task_selections_consistent\<close> shows that the selections of the task are of the form they need.

  \<^bold>\<open>Bounds and fuel.\<close> No definition uses fuel: the loops over buffers, files and queues terminate by a measure, those over events by the list of events.
  The liveness theorems (a seed completes the download, a peer completes the metadata, the file check ends) give the number of rounds.

  \<^bold>\<open>Assumptions\<close> that theorems state as hypotheses: the files of a torrent have different paths, its length is below \<open>2^64\<close>, a resumed torrent has at most the pieces the
  resume format holds, node identifiers have 20 bytes, rounding of \<open>f64\<close> follows IEEE 754. The theorems on what is stored hold for the standard
  backend only while none of its writes is lost without an error (\<open>reports_writes\<close>, \<open>reporting_backend\<close>): \<open>StandardDisk\<close> does not flush the \<open>tokio\<close> file after
  \<open>write_all\<close>, so the failure of the last write before a \<open>sync_data\<close> is returned by neither; \<open>CoordinatorRun.lost_write_believed\<close> shows what follows. A lifetime restarts
  with the files of the run before, finds its download in place and can read its resume file; its crashes come after turns, the disk's changes of the selection do not fail, and
  the resume file left by such a change lists no piece given up by it; what happens otherwise is shown by \<open>Driver.changed_selection_serves_holes\<close>,
  \<open>DiskSpec.failed_deselect_discards_writes\<close> and \<open>Lifetime.deleted_target_believed\<close>. A limiter's calls read the clock in the order in which they get its lock.

  \<^bold>\<open>Not modelled\<close>: widgets and texts of the window (pictures), the parsing of the command line (clap), \<open>crypto\<close> (calls of libraries), logging and status lines, parallel
  execution inside one turn of a loop, the other examples and the tests.

  \<^bold>\<open>What the proofs showed.\<close> Besides the correctness theorems some properties describe faults: uploads of holes after a restart with other files (\<open>Driver\<close>), a deleted download that is believed to be complete (\<open>Lifetime\<close>), a torrent that is started twice and then cannot be reached (\<open>SwarmTasks\<close>), a window that
  cannot be closed and a magnet link that deletes a directory (\<open>Dashboard\<close>), slots lost with aborted sessions and a lost announcement (\<open>Swarm\<close>), metadata pieces that
  stay claimed (\<open>MetadataFetch\<close>), duplicates in the routing table (\<open>Routing\<close>), writes that go nowhere after a failed deselection (\<open>DiskSpec\<close>), a piece that is announced and served although its write was lost (\<open>CoordinatorRun\<close>), availability counted twice
  (\<open>SessionSafety\<close>) and a port mapping left on the router (\<open>Portmap\<close>).
\<close>

section \<open>Sessions and coordinator together\<close>

definition ctx_matches :: "peer_ctx \<Rightarrow> torrent_facts \<Rightarrow> bool" where
  "ctx_matches ctx T \<longleftrightarrow> pc_expected_hashes ctx = tf_hashes T \<and> pc_sha1 ctx = tf_sha1 T \<and> pc_piece_length ctx = tf_piece_length T
     \<and> tf_piece_length T < 2 ^ 32 \<and> pc_total_length ctx = Some (sum_list (map tf_length (tf_files T)))"

definition sent_by_session :: "torrent_facts \<Rightarrow> coordinator_msg \<Rightarrow> bool" where
  "sent_by_session T m \<longleftrightarrow> (\<exists>ctx addr io0 ext inputs io1 slots. ctx_matches ctx T
     \<and> ToCoord m \<in> set (sw_trace (run_peer_session ctx addr io0 ext inputs io1 slots)))"

text \<open>The inputs of the coordinator in the program: its timer and its shutdown, messages of sessions, and selections and pauses of the user.\<close>

inductive program_input :: "torrent_facts \<Rightarrow> bool list \<Rightarrow> coord_input \<Rightarrow> bool list \<Rightarrow> bool" for T flags where
  session: "sent_by_session T m \<Longrightarrow> program_input T flags (Msg now m) flags"
| select: "selection_msg_ok T flags sel after refetch \<Longrightarrow> program_input T flags (Msg now (SetSelection sel after refetch)) after"
| user: "m \<in> {Pause, Resume} \<Longrightarrow> program_input T flags (Msg now m) flags"
| tick: "program_input T flags CheckTick flags"
| stop: "program_input T flags Shutdown flags"

text \<open>A torrent's coordinator in the program, from its first start on and over any number of crashes.\<close>

definition program_life :: "driver_env \<Rightarrow> torrent_meta \<Rightarrow> bool list \<Rightarrow> coordinator \<Rightarrow> bool" where
  "program_life E meta = lifetime (program_input (facts_of E meta)) E meta"

lemma session_piece_size:
  assumes "ctx_matches ctx T" "session_piece_len_at i (pc_piece_length ctx) (pc_total_length ctx) = Some n"
  shows "n = piece_size T i"
  using assms
  by (auto simp: ctx_matches_def session_piece_len_at_def checked_mul_u64_def piece_size_def piece_end_def split: if_splits)

lemma session_report:
  assumes "sent_by_session T m"
  obtains ctx where "ctx_matches ctx T" "report_ok ctx (ToCoord m)"
proof -
  obtain ctx addr io0 ext inputs io1 slots where c: "ctx_matches ctx T"
    "ToCoord m \<in> set (sw_trace (run_peer_session ctx addr io0 ext inputs io1 slots))"
    using assms unfolding sent_by_session_def by blast
  have "pc_piece_length ctx < 2 ^ 32" using c(1) by (simp add: ctx_matches_def)
  from run_reports_ok [OF this] c that show ?thesis by (auto simp: list_all_iff)
qed

lemma program_input_ok: "program_input T flags inp flags' \<Longrightarrow> input_ok T flags inp flags'"
proof (induction rule: program_input.induct)
  case (session m now)
  then obtain ctx where c: "ctx_matches ctx T" "report_ok ctx (ToCoord m)" by (rule session_report)
  then show ?case using session_piece_size [OF c(1)]
    by (cases m) (auto simp: ctx_matches_def)
qed auto

lemma program_life_ok: "startable E meta \<Longrightarrow> reporting_backend (dv_cfg E) \<Longrightarrow> program_life E meta flags c \<Longrightarrow> coord_ok (facts_of E meta) flags c"
  unfolding program_life_def using lifetime_inv program_input_ok by blast

section \<open>A session that is asked for a block\<close>

lemma demo_request:
  "ToCoord (ReadPiece 0 0 2) \<in> set (sw_trace (run_peer_session demo_ctx (V4 [10, 0, 0, 2] 6881) demo_io False
     [(demo_io, Incoming [Some (send_message Interested)]), (demo_io, Incoming [Some (send_message (Request 0 0 2))])] demo_io (slots_new 8)))"
proof -
  let ?w0 = "\<lparr>sw_session = session_new demo_ctx (V4 [10, 0, 0, 2] 6881) (io_now demo_io), sw_slots = slots_new 8, sw_trace = []\<rparr>"
  obtain w where o: "send_opening_messages demo_ctx demo_io False ?w0 = (Inr (), w)"
    by (simp add: send_opening_messages_def then_do_def tell_or_fail_def send_or_fail_def demo_io_def)
  have w: "sw_slots w = slots_new 8" "ps_peer_choking (sw_session w)" "ps_am_choking (sw_session w)" "ps_decoder (sw_session w) = decoder_new" 
    using o by (auto simp: send_opening_messages_def then_do_def tell_or_fail_def send_or_fail_def demo_io_def session_new_def)
  have quiet: "session_turn ctx io inp w = select_input ctx io inp w" if "ps_peer_choking (sw_session w)" for ctx io inp w
    using that by (simp add: session_turn_def maybe_request_work_def fill_pipeline_def then_do_def)
  have v: "msg_valid Interested" "msg_valid (Request 0 0 2)" by (simp_all add: msg_valid_def)
  obtain d1 where d1: "next_message decoder_new [Some (send_message Interested)] = (Inr Interested, d1, [])" "idle d1"
    using next_message_sent [OF idle_new v(1)] by blast
  from d1(2) obtain d2 where d2: "next_message d1 [Some (send_message (Request 0 0 2))] = (Inr (Request 0 0 2), d2, [])"
    by (rule next_message_sent) (rule v)
  obtain w1 where t1: "session_turn demo_ctx demo_io (Incoming [Some (send_message Interested)]) w = (Inr True, w1)"
    and w1: "ps_peer_choking (sw_session w1)" "\<not> ps_am_choking (sw_session w1)" "ps_decoder (sw_session w1) = d1"
    using w d1(1) by (simp add: quiet Let_def try_unchoke_def try_acquire_def slots_new_def then_do_def send_or_fail_def demo_io_def)
  obtain w2 where t2: "session_turn demo_ctx demo_io (Incoming [Some (send_message (Request 0 0 2))]) w1 = (Inr True, w2)"
    and w2: "ToCoord (ReadPiece 0 0 2) \<in> set (sw_trace w2)"
    using w1 d2 by (simp add: quiet Let_def handle_request_def request_valid_def MAX_BLOCK_REQUEST_def session_piece_len_at_def
        checked_mul_u64_def demo_ctx_def demo_io_def tell_or_fail_def send_or_fail_def then_do_def)
  obtain xs ys where "sw_trace (session_finish demo_io w2) = sw_trace w2 @ xs @ ys" using finish_trace by blast
  with w2 show ?thesis by (simp add: run_peer_session_def o t1 t2 del: send_message.simps)
qed

section \<open>A torrent whose file is there already\<close>

definition demo_fs1 :: filesystem where
  "demo_fs1 = \<lparr>fs_cache = [[[5]] \<mapsto> [7, 8]], fs_stable = [[[5]] \<mapsto> [7, 8]], fs_calls = 0\<rparr>"

lemma demo_checked:
  obtains c h where "program_life demo_driver demo_meta [True] c"
    "co_state c = DownloadingData (mark_completed 0 (with_selection 1 [] (sel_all 1))) (demo_files False) False h" "fs_cache (co_fs c) [[5]] = Some [7, 8]"
proof -
  have l: "load_resume demo_driver (SourceFile [[8]]) demo_meta demo_fs1 = (Inr None, call (call demo_fs1))"
    by (simp add: load_resume_def load_fastresume_def call_fails_def no_faults_def legacy_resume_path_def demo_fs1_def with_extension_def set_extension_def lit_def)
  obtain fs' where i: "init_with_selection (open_preallocated no_faults) no_faults False [] 2 2 None [5] None (call (call demo_fs1)) = (Inr (demo_files False), fs')"
    and fs': "fs_cache fs' [[5]] = Some [7, 8]"
    by (rule demo_init [of "call (call demo_fs1)"]) (auto simp: demo_fs1_def contents_def set_len_def)
  let ?c = "\<lparr>co_state = CheckingFiles (with_selection 1 [] (sel_all 1)) (demo_files False) [[7, 8]] 2 2 0, co_fs = fs', co_last_persist = 0\<rparr>"
  have s: "start_coordinator demo_driver (SourceFile [[8]]) demo_meta None 0 demo_fs1 = (Inr ?c, fs')"
    by (simp add: start_coordinator_def Let_def l i demo_meta_parts demo_stored choose_manager_def initial_coordinator_state_def del: One_nat_def)
      (simp add: demo_driver_def)
  have E: "demo_driver\<lparr>dv_target := dv_target demo_driver\<rparr> = demo_driver" by simp
  have 0: "program_life demo_driver demo_meta [True] ?c"
    unfolding program_life_def
    using lifetime.first [of demo_fs1 demo_driver "SourceFile [[8]]" demo_meta "dv_target demo_driver" None 0 ?c fs'] l s demo_driver_ok(3)
    by (simp add: demo_fs1_def E)
  obtain fs2 where r: "read_piece (std_read no_faults) 0 0 2 (demo_files False) fs' = (Inr [7, 8], fs2)" using demo_read [OF fs'] by (metis prod.collapse)
  let ?m = "mark_completed 0 (with_selection 1 [] (sel_all 1))"
  let ?c' = "\<lparr>co_state = DownloadingData ?m (demo_files False) False (is_done ?m), co_fs = fs2, co_last_persist = 0\<rparr>"
  have cfg: "driver_cfg demo_driver demo_meta = demo_cfg" by (simp add: driver_cfg_def demo_driver_def demo_cfg_def)
  have "is_wanted (with_selection 1 [] (sel_all 1)) 0" "mgr_total_pieces (with_selection 1 [] (sel_all 1)) = 1" "check_length 0 1 2 2 = 2"
    by (simp_all add: is_wanted_def with_selection_def sel_all_def bf_full_has check_length_def)
  then have "\<exists>eff. coord_turn demo_cfg CheckTick ?c = (?c', eff) \<and> (\<forall>e. Ui (SelectionError e) \<notin> set eff)"
    using r by (auto simp: check_tick_def finish_check_def Let_def demo_cfg_def)
  then obtain eff where t: "coord_turn demo_cfg CheckTick ?c = (?c', eff)" "\<forall>e. Ui (SelectionError e) \<notin> set eff" by blast
  have "program_life demo_driver demo_meta [True] ?c'"
    using lifetime.turn [OF 0 [unfolded program_life_def] program_input.tick, of ?c' eff] t by (simp add: program_life_def cfg)
  moreover have "disk_wf (demo_files False) fs'"
    using fs' by (simp add: disk_wf_def layout_ok_def paths_distinct_def sized_def contents_def demo_files_def)
  then have "fs_cache fs2 [[5]] = Some [7, 8]"
    using std_store.read_law [of "demo_files False" fs' 2 no_faults 0 0 "Inr [7, 8]" "demo_files False" fs2] r fs' by (simp add: reporting_eq)
  ultimately show ?thesis by (intro that [of ?c' "is_done ?m"]) simp_all
qed

lemma demo_serves:
  assumes "co_state c = DownloadingData (mark_completed 0 (with_selection 1 [] (sel_all 1))) (demo_files False) False h" "fs_cache (co_fs c) [[5]] = Some [7, 8]"
  shows "snd (handle_msg demo_cfg 0 (ReadPiece 0 0 2) c) = [ReplyBlock (Some [7, 8])]"
proof -
  obtain fs where r: "read_piece (std_read no_faults) 0 0 2 (demo_files False) (co_fs c) = (Inr [7, 8], fs)"
    using demo_read [OF assms(2)] by (metis prod.collapse)
  have ops: "cc_ops demo_cfg = std_ops no_faults" by (simp add: demo_cfg_def)
  show ?thesis using demo_completed(3) r
    by (simp add: read_block_def MAX_BLOCK_REQUEST_def assms(1) ops del: One_nat_def)
qed

section \<open>Properties\<close>

text \<open>C1. Nothing unverified is uploaded, end to end. Take any torrent, with either disk backend as long as no unflushed write of the standard one is lost without an error,
  from its first start through any number of turns of its coordinator and crashes of the machine (as in \<open>lifetime\<close>: the disk's change of the selection does
  not fail, and the resume file left by a change of the selection lists no piece given up by it), while the inputs of the coordinator are what peer sessions send it (whatever their peers do), selections and pauses of the user, timer
  ticks and shutdowns: the block it answers to a session's request is cut from data of the piece's full length that hashes to the piece's hash.\<close>

theorem program_uploads_verified:
  assumes "startable E meta" "reporting_backend (dv_cfg E)" "program_life E meta flags c" "sent_by_session (facts_of E meta) (ReadPiece i b l)"
    "handle_msg (driver_cfg E meta) now (ReadPiece i b l) c = (c', eff)" "ReplyBlock (Some block) \<in> set eff"
  shows "\<exists>data. length data = piece_size (facts_of E meta) i \<and> tf_sha1 (facts_of E meta) data = tf_hashes (facts_of E meta) ! i
    \<and> block = slice b (b + l) data"
proof (rule read_reply_verified [OF _ _ coord_run.start [OF program_life_ok [OF assms(1-3)]] assms(5,6)])
  show "reporting_backend (driver_cfg E meta)" "cfg_matches (driver_cfg E meta) (facts_of E meta)" using assms(2) driver_cfg_matches by simp_all
  obtain ctx where c: "ctx_matches ctx (facts_of E meta)" "report_ok ctx (ToCoord (ReadPiece i b l))" using assms(4) by (rule session_report)
  then show "b + l \<le> piece_size (facts_of E meta) i"
    using session_piece_size [OF c(1)] by (auto simp: request_valid_def split: option.splits)
qed

theorem program_uploads_verified_witness:
  "\<exists>data. length data = piece_size demo_facts 0 \<and> tf_sha1 demo_facts data = tf_hashes demo_facts ! 0 \<and> [7, 8] = slice 0 (0 + 2) data"
proof -
  obtain c h where c: "program_life demo_driver demo_meta [True] c"
    "co_state c = DownloadingData (mark_completed 0 (with_selection 1 [] (sel_all 1))) (demo_files False) False h" "fs_cache (co_fs c) [[5]] = Some [7, 8]"
    by (rule demo_checked)
  have b: "reporting_backend (dv_cfg demo_driver)" and cfg: "driver_cfg demo_driver demo_meta = demo_cfg"
    using demo_cfg_ok by (simp_all add: driver_cfg_def demo_driver_def demo_cfg_def)
  have s: "sent_by_session demo_facts (ReadPiece 0 0 2)" unfolding sent_by_session_def
    using demo_request by (intro exI conjI) (auto simp: ctx_matches_def demo_ctx_def demo_facts_def)
  have r: "ReplyBlock (Some [7, 8]) \<in> set (snd (handle_msg demo_cfg 0 (ReadPiece 0 0 2) c))"
    by (simp only: demo_serves [OF c(2,3)]) simp
  show ?thesis
    using program_uploads_verified [OF demo_driver_ok(1) b c(1), unfolded demo_driver_ok(2) cfg, OF s prod.collapse [symmetric] r] .
qed

text \<open>C2. In every such state, with either disk backend and whatever I/O call of a write, a read, a flush or a save fails with an error, every piece the coordinator
  may serve (complete, and touching no skipped file) has on disk bytes of its full length that hash to the expected value. A selection is the one computed from the
  current one, and the disk's change of the selection did not fail.\<close>

theorem program_pieces_verified:
  assumes "startable E meta" "reporting_backend (dv_cfg E)" "program_life E meta flags c" "manager_of (co_state c) = Some m" "is_servable m p"
  shows "\<exists>d. disk_of (co_state c) = Some d
    \<and> length (piece_bytes (facts_of E meta) p (disk_image d (co_fs c))) = piece_size (facts_of E meta) p
    \<and> tf_sha1 (facts_of E meta) (piece_bytes (facts_of E meta) p (disk_image d (co_fs c))) = tf_hashes (facts_of E meta) ! p"
  by (rule coord_ok_pieces [OF program_life_ok [OF assms(1-3)] assms(4,5)]) blast

theorem program_pieces_verified_witness:
  "\<exists>c d. program_life demo_driver demo_meta [True] c \<and> disk_of (co_state c) = Some d
    \<and> tf_sha1 demo_facts (piece_bytes demo_facts 0 (disk_image d (co_fs c))) = tf_hashes demo_facts ! 0"
proof -
  obtain c h where c: "program_life demo_driver demo_meta [True] c"
    "co_state c = DownloadingData (mark_completed 0 (with_selection 1 [] (sel_all 1))) (demo_files False) False h"
    by (rule demo_checked)
  have b: "reporting_backend (dv_cfg demo_driver)" using demo_cfg_ok by (simp add: demo_driver_def)
  have m: "manager_of (co_state c) = Some (mark_completed 0 (with_selection 1 [] (sel_all 1)))" by (simp add: c(2) manager_of_def)
  from program_pieces_verified [OF demo_driver_ok(1) b c(1) m demo_completed(3), unfolded demo_driver_ok(2)] c(1) show ?thesis by blast
qed

end
